(* ===== verification/Prelude.thy ===== *)
theory Prelude
  imports Main "HOL-Library.Word"
begin

text \<open>
  Shared vocabulary of the development: the machine integer types, the error type of
  \<open>src/src/core/error.hpp\<close>, unsigned wrap-around on \<open>nat\<close>, the little-endian object
  representation of an unsigned integer (what \<open>memcpy\<close> of a value produces on every platform
  the program supports), and the list lemmas the components share.
\<close>

unbundle bit_operations_syntax

section \<open>Types\<close>

type_synonym u8 = "8 word"
type_synonym u16 = "16 word"
type_synonym u32 = "32 word"
type_synonym u64 = "64 word"
type_synonym bytes = "u8 list"

record dew_error =
  err_code :: int
  err_msg :: string

type_synonym 'a result = "dew_error + 'a"

named_theorems byte_simps \<open>the object representation of integers\<close>
named_theorems wrap_simps \<open>unsigned arithmetic on natural numbers\<close>

section \<open>Unsigned wrap-around on natural numbers\<close>

definition wrap32 :: "nat \<Rightarrow> nat" where
  "wrap32 n = n mod 2 ^ 32"

definition wrap64 :: "nat \<Rightarrow> nat" where
  "wrap64 n = n mod 2 ^ 64"

definition sub32 :: "nat \<Rightarrow> nat \<Rightarrow> nat" where
  "sub32 a b = (a + (2 ^ 32 - b mod 2 ^ 32)) mod 2 ^ 32"

definition sub64 :: "nat \<Rightarrow> nat \<Rightarrow> nat" where
  "sub64 a b = (a + (2 ^ 64 - b mod 2 ^ 64)) mod 2 ^ 64"

lemma wrap32_id [wrap_simps]: "n < 2 ^ 32 \<Longrightarrow> wrap32 n = n"
  by (simp add: wrap32_def)

lemma wrap64_id [wrap_simps]: "n < 2 ^ 64 \<Longrightarrow> wrap64 n = n"
  by (simp add: wrap64_def)

lemma wrap32_less: "wrap32 n < 2 ^ 32"
  by (simp add: wrap32_def)

lemma wrap64_less: "wrap64 n < 2 ^ 64"
  by (simp add: wrap64_def)

lemma mod_sub_wrap:
  fixes a b m :: nat
  assumes "b \<le> a" and "a < m"
  shows "(a + (m - b mod m)) mod m = a - b"
proof -
  have "b mod m = b" using assms by simp
  then have e: "a + (m - b mod m) = (a - b) + m" using assms by simp
  have "((a - b) + m) mod m = (a - b) mod m" by (rule mod_add_self2)
  also have "\<dots> = a - b" using assms by (intro mod_less) simp
  finally show ?thesis by (simp only: e)
qed

lemma sub32_id [wrap_simps]: "b \<le> a \<Longrightarrow> a < 2 ^ 32 \<Longrightarrow> sub32 a b = a - b"
  unfolding sub32_def by (rule mod_sub_wrap)

lemma sub64_id [wrap_simps]: "b \<le> a \<Longrightarrow> a < 2 ^ 64 \<Longrightarrow> sub64 a b = a - b"
  unfolding sub64_def by (rule mod_sub_wrap)

section \<open>Little-endian object representation\<close>

fun le_bytes :: "nat \<Rightarrow> nat \<Rightarrow> bytes" where
  "le_bytes 0 v = []"
| "le_bytes (Suc n) v = word_of_nat (v mod 256) # le_bytes n (v div 256)"

fun le_nat :: "bytes \<Rightarrow> nat" where
  "le_nat [] = 0"
| "le_nat (b # bs) = unat b + 256 * le_nat bs"

lemma length_le_bytes [simp]: "length (le_bytes n v) = n"
  by (induction n arbitrary: v) auto

lemma unat_byte_less: "unat (b :: u8) < 256"
  using unsigned_less [of b] by simp

lemma le_nat_less: "le_nat bs < 256 ^ length bs"
proof (induction bs)
  case Nil
  then show ?case by simp
next
  case (Cons b bs)
  have "unat b + 256 * le_nat bs < 256 * (le_nat bs + 1)"
    using unat_byte_less [of b] by simp
  also have "\<dots> \<le> 256 * 256 ^ length bs"
    using Cons.IH by (intro mult_le_mono) auto
  finally show ?case by simp
qed

lemma le_nat_le_bytes: "le_nat (le_bytes n v) = v mod 256 ^ n"
proof (induction n arbitrary: v)
  case 0
  then show ?case by simp
next
  case (Suc n)
  have "unat (word_of_nat (v mod 256) :: u8) = v mod 256"
    by (simp add: unat_of_nat)
  then show ?case
    using Suc.IH by (simp add: mod_mult2_eq)
qed

lemma le_bytes_le_nat: "n = length bs \<Longrightarrow> le_bytes n (le_nat bs) = bs"
proof (induction bs arbitrary: n)
  case Nil
  then show ?case by simp
next
  case (Cons b bs)
  have "(unat b + 256 * le_nat bs) mod 256 = unat b"
    using unat_byte_less [of b] by simp
  moreover have "(unat b + 256 * le_nat bs) div 256 = le_nat bs"
    using unat_byte_less [of b] by simp
  ultimately show ?case using Cons by simp
qed

definition word_bytes :: "'a::len word \<Rightarrow> bytes" where
  "word_bytes w = le_bytes (LENGTH('a) div 8) (unat w)"

definition bytes_word :: "bytes \<Rightarrow> 'a::len word" where
  "bytes_word bs = word_of_nat (le_nat bs)"

lemma pow256: "(256 :: nat) ^ n = 2 ^ (8 * n)"
  by (simp add: power_mult)

lemma length_word_bytes [simp, byte_simps]:
  "length (word_bytes (w :: 'a::len word)) = LENGTH('a) div 8"
  by (simp add: word_bytes_def)

lemma bytes_word_bytes:
  assumes "8 dvd LENGTH('a)"
  shows "bytes_word (word_bytes w) = (w :: 'a::len word)"
proof -
  have "(256 :: nat) ^ (LENGTH('a) div 8) = 2 ^ LENGTH('a)"
    using assms by (simp add: pow256)
  then have "unat w mod 256 ^ (LENGTH('a) div 8) = unat w"
    using unsigned_less [of w] by simp
  then show ?thesis
    by (simp add: bytes_word_def word_bytes_def le_nat_le_bytes)
qed

lemma word_bytes_word:
  assumes "8 dvd LENGTH('a)" and "length bs = LENGTH('a) div 8"
  shows "word_bytes (bytes_word bs :: 'a::len word) = bs"
proof -
  have "le_nat bs < 2 ^ LENGTH('a)"
    using le_nat_less [of bs] assms by (simp add: pow256)
  then have "unat (bytes_word bs :: 'a word) = le_nat bs"
    by (simp add: bytes_word_def unat_of_nat)
  then show ?thesis
    using assms by (simp add: word_bytes_def le_bytes_le_nat)
qed

lemma bytes_word_u8 [simp, byte_simps]: "bytes_word (word_bytes (w :: u8)) = w"
  by (rule bytes_word_bytes) simp

lemma bytes_word_u16 [simp, byte_simps]: "bytes_word (word_bytes (w :: u16)) = w"
  by (rule bytes_word_bytes) simp

lemma bytes_word_u32 [simp, byte_simps]: "bytes_word (word_bytes (w :: u32)) = w"
  by (rule bytes_word_bytes) simp

lemma bytes_word_u64 [simp, byte_simps]: "bytes_word (word_bytes (w :: u64)) = w"
  by (rule bytes_word_bytes) simp

lemma word_bytes_u16 [simp, byte_simps]: "length bs = 2 \<Longrightarrow> word_bytes (bytes_word bs :: u16) = bs"
  by (rule word_bytes_word) simp_all

lemma word_bytes_u32 [simp, byte_simps]: "length bs = 4 \<Longrightarrow> word_bytes (bytes_word bs :: u32) = bs"
  by (rule word_bytes_word) simp_all

lemma word_bytes_u64 [simp, byte_simps]: "length bs = 8 \<Longrightarrow> word_bytes (bytes_word bs :: u64) = bs"
  by (rule word_bytes_word) simp_all

section \<open>Lists\<close>

lemma concat_map_length_const:
  "(\<And>x. x \<in> set xs \<Longrightarrow> length (f x) = k) \<Longrightarrow> length (concat (map f xs)) = k * length xs"
  by (induction xs) auto

lemma sum_list_map_const: "(\<Sum>x\<leftarrow>xs. (k::nat)) = k * length xs"
  by (induction xs) auto

lemma foldl_invariant:
  assumes "P s" and "\<And>s x. x \<in> set xs \<Longrightarrow> P s \<Longrightarrow> P (f s x)"
  shows "P (foldl f s xs)"
  using assms by (induction xs arbitrary: s) auto

lemma fold_invariant_list:
  assumes "P s" and "\<And>s x. x \<in> set xs \<Longrightarrow> P s \<Longrightarrow> P (f x s)"
  shows "P (fold f xs s)"
  using assms by (induction xs arbitrary: s) auto

text \<open>A loop of indexed stores with distinct targets: every stored cell holds what was stored.\<close>

lemma length_fold_update [simp]:
  "length (fold (\<lambda>x d. d[t x := v x]) xs d) = length d"
  by (induction xs arbitrary: d) auto

lemma fold_update_other:
  "k \<notin> t ` set xs \<Longrightarrow> fold (\<lambda>x d. d[t x := v x]) xs d ! k = d ! k"
  by (induction xs arbitrary: d) auto

lemma fold_update_hit:
  assumes "x \<in> set xs" and "inj_on t (set xs)" and "t x < length d"
  shows "fold (\<lambda>x d. d[t x := v x]) xs d ! t x = v x"
  using assms
proof (induction xs arbitrary: d)
  case Nil
  then show ?case by simp
next
  case (Cons y ys)
  show ?case
  proof (cases "x \<in> set ys")
    case True
    with Cons show ?thesis by (simp add: inj_on_def)
  next
    case False
    with Cons.prems have "x = y" by simp
    moreover have "t y \<notin> t ` set ys"
    proof
      assume "t y \<in> t ` set ys"
      then obtain z where "z \<in> set ys" "t y = t z" by auto
      with Cons.prems(2) have "y = z" by (auto simp: inj_on_def)
      with False \<open>x = y\<close> \<open>z \<in> set ys\<close> show False by simp
    qed
    ultimately show ?thesis
      using Cons.prems by (simp add: fold_update_other)
  qed
qed

end
