(* ===== verification/MemoryIO.thy ===== *)
theory MemoryIO
  imports Prelude "HOL-Library.Monad_Syntax"
begin

text \<open>
  \<open>src/src/core/memory_writer.hpp\<close>: the bounded cursor reads and writes every serializer of the
  program is made of. A write cursor \<open>(ptr, end)\<close> is the record \<open>wcursor\<close> of the bytes stored
  so far and the room left before \<open>end\<close>; a read cursor is the list of bytes between \<open>ptr\<close> and
  \<open>end\<close>. The C++ functions return false and leave the cursor alone when the value does not fit:
  here \<open>None\<close>. The locale \<open>pod_codec\<close> is the contract of a type that is copied by \<open>memcpy\<close>:
  its object representation has a fixed size and determines the value.
\<close>

section \<open>The cursors\<close>

record wcursor =
  written :: bytes
  room :: nat

definition write_memory :: "bytes \<Rightarrow> wcursor \<Rightarrow> wcursor option" where
  "write_memory v c =
     (if room c < length v then None
      else Some (c\<lparr>written := written c @ v, room := room c - length v\<rparr>))"

definition write_vec_type :: "bytes list \<Rightarrow> wcursor \<Rightarrow> wcursor option" where
  "write_vec_type vs c = (if vs = [] then Some c else write_memory (concat vs) c)"

definition read_memory :: "nat \<Rightarrow> (bytes \<Rightarrow> 'a) \<Rightarrow> bytes \<Rightarrow> ('a \<times> bytes) option" where
  "read_memory n dec p = (if length p < n then None else Some (dec (take n p), drop n p))"

text \<open>Splitting a run of bytes into \<open>k\<close> consecutive elements of \<open>n\<close> bytes.\<close>

fun elements :: "nat \<Rightarrow> nat \<Rightarrow> bytes \<Rightarrow> bytes list" where
  "elements n 0 p = []"
| "elements n (Suc k) p = take n p # elements n k (drop n p)"

definition read_vec_type :: "nat \<Rightarrow> (bytes \<Rightarrow> 'a) \<Rightarrow> nat \<Rightarrow> bytes \<Rightarrow> ('a list \<times> bytes) option" where
  "read_vec_type n dec k p =
     (if k = 0 then Some ([], p)
      else if length p < n * k then None
      else Some (map dec (elements n k (take (n * k) p)), drop (n * k) p))"

text \<open>The loops that write or read the elements of a vector one by one.\<close>

fun write_all :: "('a \<Rightarrow> wcursor \<Rightarrow> wcursor option) \<Rightarrow> 'a list \<Rightarrow> wcursor \<Rightarrow> wcursor option" where
  "write_all wr [] c = Some c"
| "write_all wr (x # xs) c = (case wr x c of None \<Rightarrow> None | Some c' \<Rightarrow> write_all wr xs c')"

fun read_all :: "(bytes \<Rightarrow> ('a \<times> bytes) option) \<Rightarrow> nat \<Rightarrow> bytes \<Rightarrow> ('a list \<times> bytes) option" where
  "read_all rd 0 p = Some ([], p)"
| "read_all rd (Suc n) p =
     (case rd p of
        None \<Rightarrow> None
      | Some (x, p') \<Rightarrow> map_option (\<lambda>(xs, r). (x # xs, r)) (read_all rd n p'))"

section \<open>A chain of writes\<close>

text \<open>
  The serializers write their fields one after the other and give up at the first field that does
  not fit (\<open>ok = ok && write_memory(...)\<close>, or an early return).
\<close>

fun write_seq :: "bytes list \<Rightarrow> wcursor \<Rightarrow> wcursor option" where
  "write_seq [] c = Some c"
| "write_seq (v # vs) c = (case write_memory v c of None \<Rightarrow> None | Some c' \<Rightarrow> write_seq vs c')"

definition fresh :: "nat \<Rightarrow> wcursor" where
  "fresh n = \<lparr>written = [], room = n\<rparr>"

text \<open>The whole buffer: the allocation is zero-initialised, so room that is left reads as zero.\<close>

definition buffer_of :: "wcursor \<Rightarrow> bytes" where
  "buffer_of c = written c @ replicate (room c) 0"

lemma write_seq_eq:
  "write_seq vs c =
     (if length (concat vs) \<le> room c
      then Some (c\<lparr>written := written c @ concat vs, room := room c - length (concat vs)\<rparr>)
      else None)"
proof (induction vs arbitrary: c)
  case Nil
  then show ?case by simp
next
  case (Cons v vs)
  show ?case
    by (auto simp: write_memory_def Cons.IH)
qed

lemma write_seq_append:
  "write_seq (us @ vs) c = Option.bind (write_seq us c) (write_seq vs)"
  by (induction us arbitrary: c) (auto split: option.splits)

lemma write_seq_fits:
  "length (concat vs) \<le> n \<Longrightarrow>
   map_option buffer_of (write_seq vs (fresh n)) =
     Some (concat vs @ replicate (n - length (concat vs)) 0)"
  by (simp add: write_seq_eq fresh_def buffer_of_def)

lemma write_seq_overflow:
  "n < length (concat vs) \<Longrightarrow> write_seq vs (fresh n) = None"
  by (simp add: write_seq_eq fresh_def)

lemma write_vec_seq: "write_vec_type vs c = write_seq [concat vs] c"
  by (auto simp: write_vec_type_def write_memory_def split: option.splits)

lemma write_vec_concat: "write_vec_type vs c = write_memory (concat vs) c"
  by (simp add: write_vec_type_def write_memory_def)

lemma write_nothing [simp]: "write_memory [] c = Some c"
  by (simp add: write_memory_def)

lemma bind_write_seq: "Option.bind (write_memory v c) (write_seq vs) = write_seq (v # vs) c"
  by (cases "write_memory v c") simp_all

lemma concat_singletons: "concat (map (\<lambda>b. [b]) bs) = bs"
  by (induction bs) simp_all

lemma write_all_seq:
  assumes "\<And>x c. x \<in> set xs \<Longrightarrow> wr x c = write_seq (fl x) c"
  shows "write_all wr xs c = write_seq (concat (map fl xs)) c"
  using assms
proof (induction xs arbitrary: c)
  case Nil
  then show ?case by simp
next
  case (Cons x xs)
  then show ?case
    by (simp add: write_seq_append Option.bind_def split: option.splits)
qed

section \<open>Reads\<close>

lemma read_all_written:
  assumes "\<And>x r. x \<in> set xs \<Longrightarrow> rd (concat (fl x) @ r) = Some (x, r)"
  shows "read_all rd (length xs) (concat (concat (map fl xs)) @ r) = Some (xs, r)"
  using assms by (induction xs) simp_all

lemma read_memory_append [simp]:
  "length v = n \<Longrightarrow> read_memory n dec (v @ rest) = Some (dec v, rest)"
  by (simp add: read_memory_def)

lemma read_memory_none: "length p < n \<Longrightarrow> read_memory n dec p = None"
  by (simp add: read_memory_def)

lemma read_memory_length: "read_memory n dec p = Some (x, r) \<Longrightarrow> length p = n + length r"
  by (auto simp: read_memory_def split: if_splits)

lemma length_elements [simp]: "length (elements n k p) = k"
  by (induction k arbitrary: p) auto

lemma elements_concat:
  "(\<And>v. v \<in> set vs \<Longrightarrow> length v = n) \<Longrightarrow> elements n (length vs) (concat vs) = vs"
  by (induction vs) auto

lemma read_vec_type_length:
  "read_vec_type n dec k p = Some (xs, r) \<Longrightarrow> length xs = k \<and> length p = n * k + length r"
  by (auto simp: read_vec_type_def split: if_splits)

text \<open>
  A reader depends on nothing behind what it reads: more bytes at the end are left over. So a reader
  that consumes a whole block refuses every shorter part of it.
\<close>

definition extends :: "(bytes \<Rightarrow> ('a \<times> bytes) option) \<Rightarrow> bool" where
  "extends rd \<longleftrightarrow> (\<forall>p x r q. rd p = Some (x, r) \<longrightarrow> rd (p @ q) = Some (x, r @ q))"

named_theorems reader_intros \<open>the readers are built from readers\<close>

lemma extendsD: "extends rd \<Longrightarrow> rd p = Some (x, r) \<Longrightarrow> rd (p @ q) = Some (x, r @ q)"
  by (simp add: extends_def)

lemma extends_memory [reader_intros]: "extends (read_memory n dec)"
  by (auto simp: extends_def read_memory_def split: if_splits)

lemma extends_vec [reader_intros]: "extends (read_vec_type n dec k)"
  by (auto simp: extends_def read_vec_type_def split: if_splits)

lemma extends_some [reader_intros]: "extends (\<lambda>p. Some (x, p))"
  by (simp add: extends_def)

lemma extends_bind [reader_intros]:
  assumes "extends f" and "\<And>x. extends (g x)"
  shows "extends (\<lambda>p. Option.bind (f p) (\<lambda>(x, p). g x p))"
  using assms unfolding extends_def by (fastforce simp: bind_eq_Some_conv)

lemma extends_if [reader_intros]:
  "(b \<Longrightarrow> extends f) \<Longrightarrow> (\<not> b \<Longrightarrow> extends g) \<Longrightarrow> extends (\<lambda>p. if b then f p else g p)"
  by (simp add: extends_def)

lemma extends_let [reader_intros]: "extends (f a) \<Longrightarrow> extends (\<lambda>p. let x = a in f x p)"
  by (simp add: Let_def)

lemma extends_all [reader_intros]:
  assumes "extends rd"
  shows "extends (read_all rd n)"
proof (induction n)
  case 0
  then show ?case by (simp add: extends_def)
next
  case (Suc n)
  show ?case
    unfolding extends_def
    using extendsD [OF assms] extendsD [OF Suc.IH]
    by (auto split: option.splits prod.splits)
qed

lemma strict_prefix_refused:
  assumes "extends rd" and "rd p = Some (x, [])" and "n < length p"
  shows "rd (take n p) = None"
proof (rule ccontr)
  assume "rd (take n p) \<noteq> None"
  then obtain y r where "rd (take n p) = Some (y, r)" by auto
  then have "rd (take n p @ drop n p) = Some (y, r @ drop n p)" by (rule extendsD [OF assms(1)])
  then show False using assms(2,3) by simp
qed

locale pod_codec =
  fixes enc :: "'a \<Rightarrow> bytes" and dec :: "bytes \<Rightarrow> 'a" and sz :: nat
  assumes enc_length: "length (enc x) = sz"
    and dec_enc: "dec (enc x) = x"
begin

lemma read_one: "read_memory sz dec (enc x @ rest) = Some (x, rest)"
  by (simp add: enc_length dec_enc)

lemma length_concat_enc: "length (concat (map enc xs)) = sz * length xs"
  by (rule concat_map_length_const) (rule enc_length)

lemma read_vec: "read_vec_type sz dec (length xs) (concat (map enc xs) @ rest) = Some (xs, rest)"
proof (cases "xs = []")
  case True
  then show ?thesis by (simp add: read_vec_type_def)
next
  case False
  have "elements sz (length (map enc xs)) (concat (map enc xs)) = map enc xs"
    by (rule elements_concat) (auto simp: enc_length)
  then have "map dec (elements sz (length xs) (concat (map enc xs))) = xs"
    by (simp add: map_idI dec_enc)
  then show ?thesis
    using False by (simp add: read_vec_type_def length_concat_enc)
qed

lemma enc_inject: "enc x = enc y \<longleftrightarrow> x = y"
  by (metis dec_enc)

end

section \<open>The integer types\<close>

interpretation u8c: pod_codec "word_bytes :: u8 \<Rightarrow> bytes" bytes_word 1
  by unfold_locales simp_all

interpretation u16c: pod_codec "word_bytes :: u16 \<Rightarrow> bytes" bytes_word 2
  by unfold_locales simp_all

interpretation u32c: pod_codec "word_bytes :: u32 \<Rightarrow> bytes" bytes_word 4
  by unfold_locales simp_all

interpretation u64c: pod_codec "word_bytes :: u64 \<Rightarrow> bytes" bytes_word 8
  by unfold_locales simp_all

lemma read_bytes_vec:
  "read_vec_type 1 bytes_word (length bs) (bs @ r) = Some (bs :: bytes, r)"
proof -
  have "word_bytes b = [b]" for b :: u8
    using unat_byte_less [of b] by (simp add: word_bytes_def)
  then have "concat (map word_bytes bs) = bs" by (induction bs) simp_all
  then show ?thesis using u8c.read_vec [of bs r] by simp
qed

lemmas word_codec_simps =
  u8c.read_one u16c.read_one u32c.read_one u64c.read_one
  u8c.read_vec u16c.read_vec u32c.read_vec u64c.read_vec
  u8c.length_concat_enc u16c.length_concat_enc u32c.length_concat_enc u64c.length_concat_enc

end
