(* ===== verification/Morton.thy ===== *)
theory Morton
  imports Prelude
begin

text \<open>
  \<open>src/src/core/morton.hpp\<close>: morton codes of one, two or three machine words. The template
  \<open>morton_t<T, C>\<close> is the list of its \<open>C\<close> words \<open>data[0..C)\<close>, least significant first; the
  width of \<open>T\<close> is the type argument, and \<open>if constexpr (C > k)\<close> is a test on the length. The
  value of a code, \<open>morton_val\<close>, is the number its words spell.

  The bit interleaving itself is done by the third-party library libmorton, which is a parameter
  here; what the program relies on it for is stated in the theory \<open>MortonWidth\<close>.
\<close>

section \<open>The data\<close>

type_synonym 'a morton = "'a word list"

type_synonym morton32 = "32 morton"
type_synonym morton64 = "64 morton"
type_synonym morton128 = "64 morton"
type_synonym morton192 = "64 morton"

fun morton_val :: "'a::len morton \<Rightarrow> nat" where
  "morton_val [] = 0"
| "morton_val (w # ws) = unat w + 2 ^ LENGTH('a) * morton_val ws"

section \<open>Comparison\<close>

definition morton_eq :: "'a::len morton \<Rightarrow> 'a morton \<Rightarrow> bool" where
  "morton_eq a b \<longleftrightarrow> a = b"

definition morton_lt :: "'a::len morton \<Rightarrow> 'a morton \<Rightarrow> bool" where
  "morton_lt a b =
     (if 2 < length a \<and> a ! 2 \<noteq> b ! 2 then a ! 2 < b ! 2
      else if 1 < length a \<and> a ! 1 \<noteq> b ! 1 then a ! 1 < b ! 1
      else a ! 0 < b ! 0)"

definition morton_le :: "'a::len morton \<Rightarrow> 'a morton \<Rightarrow> bool" where
  "morton_le a b =
     (if 2 < length a \<and> a ! 2 \<noteq> b ! 2 then a ! 2 < b ! 2
      else if 1 < length a \<and> a ! 1 \<noteq> b ! 1 then a ! 1 < b ! 1
      else a ! 0 \<le> b ! 0)"

definition morton_gt :: "'a::len morton \<Rightarrow> 'a morton \<Rightarrow> bool" where
  "morton_gt a b =
     (if 2 < length a \<and> a ! 2 \<noteq> b ! 2 then a ! 2 > b ! 2
      else if 1 < length a \<and> a ! 1 \<noteq> b ! 1 then a ! 1 > b ! 1
      else a ! 0 > b ! 0)"

definition morton_ge :: "'a::len morton \<Rightarrow> 'a morton \<Rightarrow> bool" where
  "morton_ge a b =
     (if 2 < length a \<and> a ! 2 \<noteq> b ! 2 then a ! 2 > b ! 2
      else if 1 < length a \<and> a ! 1 \<noteq> b ! 1 then a ! 1 > b ! 1
      else a ! 0 \<ge> b ! 0)"

section \<open>Word-wise operations and arithmetic\<close>

definition morton_init_min :: "'a::len morton \<Rightarrow> 'a morton" where
  "morton_init_min a = map (\<lambda>_. 0) a"

definition morton_init_max :: "'a::len morton \<Rightarrow> 'a morton" where
  "morton_init_max a = map (\<lambda>_. NOT 0) a"

definition morton_xor :: "'a::len morton \<Rightarrow> 'a morton \<Rightarrow> 'a morton" where
  "morton_xor a b = map2 (XOR) a b"

definition morton_is_null :: "'a::len morton \<Rightarrow> bool" where
  "morton_is_null a \<longleftrightarrow>
     a ! 0 = 0 \<and> (1 < length a \<longrightarrow> a ! 1 = 0) \<and> (2 < length a \<longrightarrow> a ! 2 = 0)"

definition morton_or :: "'a::len morton \<Rightarrow> 'a morton \<Rightarrow> 'a morton" where
  "morton_or a b = map2 (OR) a b"

definition morton_negate :: "'a::len morton \<Rightarrow> 'a morton" where
  "morton_negate a = map NOT a"

definition morton_and :: "'a::len morton \<Rightarrow> 'a morton \<Rightarrow> 'a morton" where
  "morton_and a b = map2 (AND) a b"

definition morton_add_one :: "'a::len morton \<Rightarrow> 'a morton" where
  "morton_add_one a =
     (if a ! 0 = NOT 0 then
        (let a = a[0 := 0] in
         if 1 < length a then
           (if a ! 1 = NOT 0 then
              (let a = a[1 := 0] in
               if 2 < length a then a[2 := a ! 2 + 1] else a)
            else a[1 := a ! 1 + 1])
         else a)
      else a[0 := a ! 0 + 1])"

definition morton_add :: "'a::len morton \<Rightarrow> 'a morton \<Rightarrow> 'a morton" where
  "morton_add a b =
     (let r0 = a ! 0 + b ! 0 in
      if 1 < length a then
        (let carry = (if r0 < a ! 0 then 1 else 0);
             r1 = a ! 1 + b ! 1 + carry in
         if 2 < length a then
           (let carry = (if r1 < a ! 1 then 1 else 0);
                r2 = a ! 2 + b ! 2 + carry in [r0, r1, r2])
         else [r0, r1])
      else [r0])"

definition morton_is_set :: "'a::len morton \<Rightarrow> bool" where
  "morton_is_set a \<longleftrightarrow>
     a ! 0 \<noteq> 0 \<or> (1 < length a \<and> a ! 1 \<noteq> 0) \<or> (2 < length a \<and> a ! 2 \<noteq> 0)"

section \<open>Bit positions, levels of detail, magnitudes\<close>

text \<open>The compiler builtin that counts leading zero bits (undefined for 0; never called on 0).\<close>

definition count_leading_zeros :: "'a::len word \<Rightarrow> nat" where
  "count_leading_zeros w = length (takeWhile (\<lambda>i. \<not> bit w i) (rev [0..<LENGTH('a)]))"

definition bit_scan_reverse :: "'a::len word \<Rightarrow> nat" where
  "bit_scan_reverse w = LENGTH('a) - 1 - count_leading_zeros w"

definition morton_msb :: "'a::len morton \<Rightarrow> nat" where
  "morton_msb a =
     (if 2 < length a \<and> a ! 2 \<noteq> 0 then 64 * 2 + bit_scan_reverse (a ! 2)
      else if 1 < length a \<and> a ! 1 \<noteq> 0 then 64 * 1 + bit_scan_reverse (a ! 1)
      else if a ! 0 \<noteq> 0 then 64 * 0 + bit_scan_reverse (a ! 0)
      else 0)"

definition morton_lod_from_bit_index :: "nat \<Rightarrow> nat" where
  "morton_lod_from_bit_index index = index div 3"

definition morton_magnitude_from_bit_index :: "nat \<Rightarrow> nat" where
  "morton_magnitude_from_bit_index index = morton_lod_from_bit_index index div 5"

definition morton_magnitude_from_lod :: "nat \<Rightarrow> nat" where
  "morton_magnitude_from_lod lod = lod div 5"

definition morton_magnitude_to_lod :: "nat \<Rightarrow> u16" where
  "morton_magnitude_to_lod magnitude = word_of_nat magnitude * 5 + 4"

definition morton_tree_level_to_lod :: "nat \<Rightarrow> nat \<Rightarrow> u16" where
  "morton_tree_level_to_lod magnitude level_in_tree =
     morton_magnitude_to_lod magnitude - word_of_nat level_in_tree"

definition morton_lod :: "'a::len morton \<Rightarrow> 'a morton \<Rightarrow> nat" where
  "morton_lod a b = morton_lod_from_bit_index (morton_msb (morton_xor a b))"

section \<open>Child masks and node names\<close>

definition morton_get_child_mask :: "nat \<Rightarrow> 'a::len morton \<Rightarrow> u8" where
  "morton_get_child_mask lod m =
     (let index = lod * 3 in
      if index < LENGTH('a) then
        (let ret = (ucast (drop_bit index (m ! 0) AND 7) :: u32);
             ret = (if index = 63 then ret OR push_bit 1 (ucast (m ! 1 AND 3)) else ret)
         in ucast ret)
      else if index < 64 * 2 then
        (let index = index - 64;
             ret = (ucast (drop_bit index (m ! 1) AND 7) :: u32);
             ret = (if index = 62 then ret OR push_bit 2 (ucast (m ! 2 AND 1)) else ret)
         in ucast ret)
      else ucast (drop_bit (index - 64 * 2) (m ! 2) AND 7))"

definition morton_get_name :: "u16 \<Rightarrow> nat \<Rightarrow> nat \<Rightarrow> u16" where
  "morton_get_name parent level child_index =
     parent OR push_bit ((4 - level) * 3) (word_of_nat child_index)"

definition morton_set_child_mask :: "nat \<Rightarrow> u8 \<Rightarrow> 'a::len morton \<Rightarrow> 'a morton" where
  "morton_set_child_mask lod cmask m =
     (let index = lod * 3 in
      if index < LENGTH('a) then
        (let m = m[0 := (m ! 0 AND NOT (push_bit index 7)) OR push_bit index (ucast cmask)] in
         if 1 < length m \<and> index = 63
         then m[1 := (m ! 1 AND NOT 3) OR drop_bit 1 (ucast cmask)]
         else m)
      else if 1 < length m \<and> index < 64 * 2 then
        (let index = index - 64;
             m = m[1 := (m ! 1 AND NOT (push_bit index 7)) OR push_bit index (ucast cmask)] in
         if 2 < length m \<and> index = 62
         then m[2 := (m ! 2 AND NOT 1) OR ucast (drop_bit 2 cmask)]
         else m)
      else if 2 < length m then
        (let index = index - 64 * 2 in
         m[2 := (m ! 2 AND NOT (push_bit index 7)) OR push_bit index (ucast cmask)])
      else m)"

definition morton_mask_create :: "nat \<Rightarrow> int \<Rightarrow> 'a::len morton" where
  "morton_mask_create C lod =
     (let index = lod * 3 + 3; a = replicate C 0 in
      if index \<le> 0 then a
      else
        (let (a, macro_index, index) =
           (if 1 < C \<and> 63 < index then
              (let a = a[0 := NOT 0];
                   (a, macro_index) =
                     (if 2 < C then
                        (if 63 * 2 < index then (a[1 := NOT 0], 2) else (a, 1))
                      else (a, 1))
               in (a, macro_index, index mod 64))
            else (a, 0, index))
         in a[macro_index := push_bit (nat index) 1 - 1]))"

definition morton_mask_create_between :: "'a::len morton \<Rightarrow> 'a morton \<Rightarrow> 'a morton" where
  "morton_mask_create_between a b =
     (let lod = morton_lod a b in morton_mask_create (length a) (int lod))"

definition create_max :: "int \<Rightarrow> 'a::len morton \<Rightarrow> 'a morton" where
  "create_max lod m = morton_or (morton_mask_create (length m) lod) m"

fun get_name_loop :: "nat \<Rightarrow> nat \<Rightarrow> nat \<Rightarrow> u16 \<Rightarrow> morton192 \<Rightarrow> u16" where
  "get_name_loop 0 lod lod_in_tree ret m = ret"
| "get_name_loop (Suc n) lod lod_in_tree ret m =
     get_name_loop n (lod + 1) (lod_in_tree + 1)
       (ret OR push_bit (lod_in_tree * 3) (ucast (morton_get_child_mask lod m))) m"

definition get_name_from_morton :: "nat \<Rightarrow> morton192 \<Rightarrow> u16" where
  "get_name_from_morton lod m =
     (let lod_in_tree = lod mod 5; parents = 5 - lod_in_tree
      in get_name_loop parents (lod + 1) lod_in_tree 0 m)"

definition get_name_from_morton_magnitude :: "nat \<Rightarrow> morton192 \<Rightarrow> u16" where
  "get_name_from_morton_magnitude magnitude m =
     (let lod = magnitude * 5 in
      ucast (morton_get_child_mask lod m) OR
      push_bit (3 * 1) (ucast (morton_get_child_mask (lod + 1) m)) OR
      push_bit (3 * 2) (ucast (morton_get_child_mask (lod + 2) m)) OR
      push_bit (3 * 3) (ucast (morton_get_child_mask (lod + 3) m)) OR
      push_bit (3 * 4) (ucast (morton_get_child_mask (lod + 4) m)))"

definition set_name_in_morton :: "nat \<Rightarrow> morton192 \<Rightarrow> u16 \<Rightarrow> morton192" where
  "set_name_in_morton magnitude m name =
     (let lower_bit = magnitude * (5 * 3);
          lower_section = lower_bit div 64;
          lower_bit_part = lower_bit mod 64;
          left_over = 64 - lower_bit_part;
          ret = m[lower_section := m ! lower_section OR push_bit lower_bit_part (ucast name)]
      in if left_over < 15 \<and> lower_section + 1 < 3
         then ret[lower_section + 1 := ret ! (lower_section + 1) OR drop_bit left_over (ucast name)]
         else ret)"

section \<open>Changing the width of a code\<close>

definition morton_downcast :: "nat \<Rightarrow> 'a::len morton \<Rightarrow> 'b::len morton" where
  "morton_downcast C2 a =
     (let w = LENGTH('b);
          b0 = ucast (a ! 0);
          b0 = (if C2 = 1 then b0 AND NOT (push_bit (w - w mod 3) (NOT 0)) else b0);
          b1 = ucast (a ! 1);
          b1 = (if C2 = 2 then b1 AND NOT (push_bit (w - (w * 2) mod 3) (NOT 0)) else b1)
      in if C2 = 1 then [b0] else if C2 = 2 then [b0, b1] else [b0, b1, ucast (a ! 2)])"

definition morton_upcast :: "nat \<Rightarrow> 'a::len morton \<Rightarrow> morton192 \<Rightarrow> 64 morton" where
  "morton_upcast C2 a mn =
     (let C1 = length a; w1 = LENGTH('a);
          b0 = (ucast (a ! 0) :: u64);
          b0 = (if w1 = 32 then b0 OR (mn ! 0 AND push_bit (8 * 4) (NOT 0)) else b0);
          b0 = (if C1 = 1 \<and> C1 < C2
                then b0 OR (ucast (push_bit (w1 - w1 mod 3) (NOT 0 :: 'a word)) AND mn ! 0) else b0);
          b1 = (if 1 < C1
                then (let b1 = ucast (a ! 1) in
                      if C1 = 2 then b1 OR (push_bit (64 - (64 * 2) mod 3) (NOT 0) AND mn ! 1) else b1)
                else mn ! 1);
          b2 = (if 2 < C1 then ucast (a ! 2) else mn ! 2)
      in if C2 = 1 then [b0] else if C2 = 2 then [b0, b1] else [b0, b1, b2])"

definition create_min_for_downcast :: "'b::len morton \<Rightarrow> morton192 \<Rightarrow> morton192" where
  "create_min_for_downcast dummy a =
     (let all_ones = morton_negate [0, 0, 0] :: morton192;
          all_ones_downcasted = (morton_downcast (length dummy) all_ones :: 'b morton)
      in fold (\<lambda>i ret. ret[i := ret ! i AND NOT (ucast (all_ones_downcasted ! i))])
           [0..<length dummy] a)"

text \<open>
  \<open>morton_cast\<close> compares the sizes of the two types: it narrows to a smaller type, widens to a
  larger one and copies between equal ones. \<open>C2\<close> is the number of words of the target.
\<close>

definition morton_cast :: "nat \<Rightarrow> 64 morton \<Rightarrow> morton192 \<Rightarrow> 64 morton" where
  "morton_cast C2 a mn =
     (if C2 < length a then morton_downcast C2 a
      else if length a < C2 then morton_upcast C2 a mn
      else a)"

section \<open>Interleaving\<close>

text \<open>
  \<open>uint_fast16_t\<close> and \<open>uint_fast32_t\<close> are 64-bit types on the platforms the program is built
  for (LP64); libmorton's kernels are the arguments \<open>enc\<close> and \<open>dec\<close>.
\<close>

type_synonym enc3 = "u64 \<Rightarrow> u64 \<Rightarrow> u64 \<Rightarrow> u64"
type_synonym dec3 = "u64 \<Rightarrow> u64 \<times> u64 \<times> u64"

definition decode192 :: "dec3 \<Rightarrow> morton192 \<Rightarrow> u64 list" where
  "decode192 dec m =
     (let (lower0, lower1, lower2) = dec (m ! 0);
          (mid0, mid1, mid2) = dec (m ! 1);
          (high0, high1, high2) = dec (m ! 2)
      in [lower0 OR push_bit 21 (drop_bit 63 (m ! 0)) OR push_bit 22 mid2 OR push_bit (22 + 21) high1,
          lower1 OR push_bit (21 + 21) (drop_bit 63 (m ! 1)) OR push_bit 21 mid0 OR push_bit (21 + 22) high2,
          lower2 OR push_bit 63 (drop_bit 63 (m ! 2)) OR push_bit 21 mid1 OR push_bit (21 + 21) high0])"

definition decode128 :: "dec3 \<Rightarrow> morton128 \<Rightarrow> u64 list" where
  "decode128 dec m =
     (let (lower0, lower1, lower2) = dec (m ! 0);
          (mid0, mid1, mid2) = dec (m ! 1)
      in [lower0 OR push_bit 21 (drop_bit 63 (m ! 0)) OR push_bit 22 mid2,
          lower1 OR push_bit (21 + 21) (drop_bit 63 (m ! 1)) OR push_bit 21 mid0,
          lower2 OR push_bit 21 mid1])"

definition decode64 :: "dec3 \<Rightarrow> morton64 \<Rightarrow> u64 list" where
  "decode64 dec m =
     (let (tmp0, tmp1, tmp2) = dec (m ! 0)
      in [tmp0 OR push_bit 21 (drop_bit 63 (m ! 0)), tmp1, tmp2])"

definition decode32 :: "(u32 \<Rightarrow> u64 \<times> u64 \<times> u64) \<Rightarrow> morton32 \<Rightarrow> u64 list" where
  "decode32 dec32 m = (let (tmp0, tmp1, tmp2) = dec32 (m ! 0) in [tmp0, tmp1, tmp2])"

definition decode64_u32 :: "dec3 \<Rightarrow> morton64 \<Rightarrow> u32 list" where
  "decode64_u32 dec m =
     (let (tmp0, tmp1, tmp2) = dec (m ! 0)
      in [ucast (tmp0 OR push_bit 21 (drop_bit 63 (m ! 0))), ucast tmp1, ucast tmp2])"

definition decode32_u16 :: "(u32 \<Rightarrow> u64 \<times> u64 \<times> u64) \<Rightarrow> morton32 \<Rightarrow> u16 list" where
  "decode32_u16 dec32 m = (let (tmp0, tmp1, tmp2) = dec32 (m ! 0) in [ucast tmp0, ucast tmp1, ucast tmp2])"

definition encode192 :: "enc3 \<Rightarrow> u64 list \<Rightarrow> morton192" where
  "encode192 enc pos =
     (let mask21 = push_bit 21 1 - 1; mask22 = push_bit 22 1 - 1;
          x_lower = ucast (ucast (pos ! 0 AND mask22) :: u32);
          x_mid = ucast (ucast (drop_bit 22 (pos ! 0) AND mask21) :: u32);
          x_high = ucast (ucast (drop_bit (22 + 21) (pos ! 0)) :: u32);
          y_lower = ucast (ucast (pos ! 1 AND mask21) :: u32);
          y_mid = ucast (ucast (drop_bit 21 (pos ! 1) AND mask22) :: u32);
          y_high = ucast (ucast (drop_bit (21 + 22) (pos ! 1)) :: u32);
          z_lower = ucast (ucast (pos ! 2 AND mask21) :: u32);
          z_mid = ucast (ucast (drop_bit 21 (pos ! 2) AND mask21) :: u32);
          z_high = ucast (ucast (drop_bit (21 + 21) (pos ! 2)) :: u32)
      in [enc x_lower y_lower z_lower, enc y_mid z_mid x_mid, enc z_high x_high y_high])"

definition encode128 :: "enc3 \<Rightarrow> u64 list \<Rightarrow> morton128" where
  "encode128 enc pos =
     (let mask21 = push_bit 21 1 - 1; mask22 = push_bit 22 1 - 1;
          x_lower = ucast (ucast (pos ! 0 AND mask22) :: u32);
          x_mid = ucast (ucast (drop_bit 22 (pos ! 0) AND mask21) :: u32);
          y_lower = ucast (ucast (pos ! 1 AND mask21) :: u32);
          y_mid = ucast (ucast (drop_bit 21 (pos ! 1) AND mask22) :: u32);
          z_lower = ucast (ucast (pos ! 2 AND mask21) :: u32);
          z_mid = ucast (ucast (drop_bit 21 (pos ! 2) AND mask21) :: u32);
          d0 = enc x_lower y_lower z_lower;
          d1 = enc y_mid z_mid x_mid;
          mask62 = push_bit 62 1 - 1
      in [d0, d1 AND mask62])"

definition encode64 :: "enc3 \<Rightarrow> u64 list \<Rightarrow> morton64" where
  "encode64 enc pos =
     (let x_lower = ucast (ucast (pos ! 0) :: u32);
          y_lower = ucast (ucast (pos ! 1) :: u32);
          z_lower = ucast (ucast (pos ! 2) :: u32);
          mask63 = push_bit 63 1 - 1
      in [enc x_lower y_lower z_lower AND mask63])"

definition encode32 :: "(u64 \<Rightarrow> u64 \<Rightarrow> u64 \<Rightarrow> u32) \<Rightarrow> u64 list \<Rightarrow> morton32" where
  "encode32 enc32 pos =
     (let mask30 = push_bit 30 1 - 1
      in [enc32 (pos ! 0) (pos ! 1) (pos ! 2) AND mask30])"

section \<open>Values and bits\<close>

lemma nat_bit_less: "(x::nat) < 2 ^ n \<Longrightarrow> n \<le> k \<Longrightarrow> \<not> bit x k"
  by (metis bit_take_bit_iff linorder_not_le take_bit_nat_eq_self)

lemma bit_add_shift:
  assumes "(x::nat) < 2 ^ n"
  shows "bit (x + 2 ^ n * v) k \<longleftrightarrow> (if k < n then bit x k else bit v (k - n))"
proof -
  have "bit (x + push_bit n v) k \<longleftrightarrow> bit x k \<or> bit (push_bit n v) k"
    by (rule bit_disjunctive_add_iff)
      (metis assms bit_push_bit_iff nat_bit_less not_le_imp_less not_less)
  moreover have "push_bit n v = 2 ^ n * v"
    by (simp add: push_bit_eq_mult mult.commute)
  moreover have "bit (push_bit n v) k \<longleftrightarrow> n \<le> k \<and> bit v (k - n)"
    by (simp add: bit_push_bit_iff)
  ultimately show ?thesis
    using nat_bit_less [OF assms, of k] by (auto simp: not_less)
qed

definition morton_bit :: "'a::len morton \<Rightarrow> nat \<Rightarrow> bool" where
  "morton_bit a k \<longleftrightarrow>
     k < LENGTH('a) * length a \<and> bit (a ! (k div LENGTH('a))) (k mod LENGTH('a))"

lemma bit_morton_val: "bit (morton_val a) k \<longleftrightarrow> morton_bit a k"
proof (induction a arbitrary: k)
  case Nil
  then show ?case by (simp add: morton_bit_def)
next
  case (Cons w ws)
  let ?n = "LENGTH('a)"
  have w: "unat w < 2 ^ ?n" by (rule unsigned_less)
  show ?case
  proof (cases "k < ?n")
    case True
    then show ?thesis
      using bit_add_shift [OF w, of "morton_val ws" k]
      by (simp add: morton_bit_def bit_unsigned_iff)
  next
    case False
    then obtain j where k: "k = ?n + j" by (metis le_add_diff_inverse not_less)
    then have "k div ?n = Suc (j div ?n)" and "k mod ?n = j mod ?n"
      by (simp_all add: div_add_self1)
    then show ?thesis
      using bit_add_shift [OF w, of "morton_val ws" k] False Cons.IH [of j]
      by (simp add: morton_bit_def k)
  qed
qed

lemma morton_val_less: "morton_val (a :: 'a::len morton) < 2 ^ (LENGTH('a) * length a)"
proof (induction a)
  case Nil
  then show ?case by simp
next
  case (Cons w ws)
  have "unat w + 2 ^ LENGTH('a) * morton_val ws < 2 ^ LENGTH('a) * (morton_val ws + 1)"
    using unsigned_less [of w] by simp
  also have "\<dots> \<le> 2 ^ LENGTH('a) * 2 ^ (LENGTH('a) * length ws)"
    using Cons.IH by (intro mult_le_mono) auto
  finally show ?case by (simp add: power_add)
qed

lemma length_1_conv: "length xs = 1 \<longleftrightarrow> (\<exists>x. xs = [x])"
  by (auto simp: length_Suc_conv)

lemma length_2_conv: "length xs = 2 \<longleftrightarrow> (\<exists>x y. xs = [x, y])"
  by (auto simp: length_Suc_conv numeral_2_eq_2)

lemma length_3_conv: "length xs = 3 \<longleftrightarrow> (\<exists>x y z. xs = [x, y, z])"
  by (auto simp: length_Suc_conv numeral_3_eq_3)

lemma list_upto3:
  assumes "length a \<in> {1, 2, 3}"
  obtains x where "a = [x]" | x y where "a = [x, y]" | x y z where "a = [x, y, z]"
  using assms by (auto simp: length_Suc_conv numeral_2_eq_2 numeral_3_eq_3)

lemma lex_less:
  fixes N :: nat
  assumes "x < N" and "y < N"
  shows "x + N * u < y + N * v \<longleftrightarrow> u < v \<or> u = v \<and> x < y"
proof -
  have "x + N * u < y + N * v" if "u < v"
  proof -
    have "x + N * u < N * (u + 1)" using assms by simp
    also have "\<dots> \<le> N * v" using that by (intro mult_le_mono) auto
    finally show ?thesis by simp
  qed
  moreover have "y + N * v < x + N * u" if "v < u"
  proof -
    have "y + N * v < N * (v + 1)" using assms by simp
    also have "\<dots> \<le> N * u" using that by (intro mult_le_mono) auto
    finally show ?thesis by simp
  qed
  ultimately show ?thesis by (metis add_less_cancel_right less_asym less_irrefl linorder_neqE_nat)
qed

lemma morton_val_inject:
  "length a = length b \<Longrightarrow> morton_val a = morton_val b \<longleftrightarrow> (a :: 'a::len morton) = b"
proof (induction a b rule: list_induct2)
  case Nil
  then show ?case by simp
next
  case (Cons x xs y ys)
  have "unat x + 2 ^ LENGTH('a) * morton_val xs = unat y + 2 ^ LENGTH('a) * morton_val ys \<longleftrightarrow>
      unat x = unat y \<and> morton_val xs = morton_val ys"
    using lex_less [of "unat x" "2 ^ LENGTH('a)" "unat y" "morton_val xs" "morton_val ys"]
      lex_less [of "unat y" "2 ^ LENGTH('a)" "unat x" "morton_val ys" "morton_val xs"]
      unsigned_less [of x] unsigned_less [of y]
    by (metis linorder_neqE_nat less_irrefl)
  then show ?case using Cons.IH by (simp add: word_unat_eq_iff)
qed

lemma morton_lt_val:
  assumes "length a = length b" and "length a \<in> {1, 2, 3}"
  shows "morton_lt a b \<longleftrightarrow> morton_val a < morton_val (b :: 'a::len morton)"
  using assms(2)
proof (cases a rule: list_upto3)
  case (1 x)
  with assms(1) obtain x' where b: "b = [x']"
    by (metis One_nat_def length_1_conv length_Cons list.size(3))
  show ?thesis by (simp add: 1 b morton_lt_def word_less_nat_alt)
next
  case (2 x y)
  with assms(1) have "length b = 2" by simp
  then obtain x' y' where b: "b = [x', y']" by (auto simp: length_2_conv)
  show ?thesis
    by (auto simp: 2 b morton_lt_def word_less_nat_alt word_unat_eq_iff lex_less unsigned_less)
next
  case (3 x y z)
  with assms(1) have "length b = 3" by simp
  then obtain x' y' z' where b: "b = [x', y', z']" by (auto simp: length_3_conv)
  have inner: "unat y + 2 ^ LENGTH('a) * unat z = unat y' + 2 ^ LENGTH('a) * unat z' \<longleftrightarrow> y = y' \<and> z = z'"
    using morton_val_inject [of "[y, z]" "[y', z']"] by simp
  show ?thesis
    by (auto simp: 3 b morton_lt_def word_less_nat_alt lex_less unsigned_less inner)
      (simp_all add: word_unat_eq_iff)
qed

lemma morton_order_val:
  assumes "length a = length b" and "length a \<in> {1, 2, 3}"
  shows morton_le_val: "morton_le a b \<longleftrightarrow> morton_val a \<le> morton_val (b :: 'a::len morton)"
    and morton_gt_val: "morton_gt a b \<longleftrightarrow> morton_val a > morton_val b"
    and morton_ge_val: "morton_ge a b \<longleftrightarrow> morton_val a \<ge> morton_val b"
proof -
  have gt: "morton_gt a b \<longleftrightarrow> morton_lt b a"
    using assms(1) by (auto simp: morton_gt_def morton_lt_def)
  have le: "morton_le a b \<longleftrightarrow> \<not> morton_lt b a"
    using assms(1) by (auto simp: morton_le_def morton_lt_def)
  have ge: "morton_ge a b \<longleftrightarrow> \<not> morton_lt a b"
    using assms(1) by (auto simp: morton_ge_def morton_lt_def)
  show "morton_le a b \<longleftrightarrow> morton_val a \<le> morton_val b"
    and "morton_gt a b \<longleftrightarrow> morton_val a > morton_val b"
    and "morton_ge a b \<longleftrightarrow> morton_val a \<ge> morton_val b"
    using assms morton_lt_val [of a b] morton_lt_val [of b a] by (auto simp: gt le ge)
qed

lemma unat_add_mod: "unat (a + b :: 'a::len word) = (unat a + unat b) mod 2 ^ LENGTH('a)"
  by (rule unat_word_ariths)

lemma unat_less_pow: "unat (w :: 'a::len word) < 2 ^ LENGTH('a)"
  by (rule unsigned_less)

lemma nat_overflow:
  fixes x y N :: nat
  assumes "x < N" and "y < N"
  shows "(x + y) mod N < x \<longleftrightarrow> N \<le> x + y"
    and "(x + y) mod N + N * of_bool (N \<le> x + y) = x + y"
proof -
  have "(x + y) mod N = (if x + y < N then x + y else x + y - N)"
    using assms by (simp add: le_mod_geq)
  then show "(x + y) mod N < x \<longleftrightarrow> N \<le> x + y"
    and "(x + y) mod N + N * of_bool (N \<le> x + y) = x + y"
    using assms by auto
qed

lemma nat_carry_in:
  fixes x y k N :: nat
  assumes "x < N" and "y < N" and "k \<le> 1"
  shows "(x + y + k) div N = of_bool ((x + y + k) mod N < x) \<longleftrightarrow> \<not> (k = 1 \<and> y + 1 = N)"
proof (cases "y + k < N")
  case True
  have "(x + y + k) div N = of_bool (N \<le> x + (y + k))"
    using nat_overflow(2) [OF assms(1) True] assms(1)
    by (metis add.assoc add_left_cancel mod_mult_div_eq mult_cancel1 not_less_zero)
  then show ?thesis
    using nat_overflow(1) [OF assms(1) True] True by (auto simp: add.assoc)
next
  case False
  then have k: "k = 1" and y: "y + 1 = N" using assms by auto
  have "x + y + k = x + N" using k y by simp
  moreover have "(x + N) div N = 1" "(x + N) mod N = x"
    using assms(1) by (simp_all add: div_add_self2)
  ultimately have "(x + y + k) div N = 1" "(x + y + k) mod N = x"
    by (simp_all only:)
  then show ?thesis using k y by simp
qed

lemma add_overflow_iff: "(a + b :: 'a::len word) < a \<longleftrightarrow> 2 ^ LENGTH('a) \<le> unat a + unat b"
  unfolding word_less_nat_alt unat_add_mod by (rule nat_overflow [OF unat_less_pow unat_less_pow])

lemma add_carry:
  fixes a b :: "'a::len word"
  shows "unat (a + b) + 2 ^ LENGTH('a) * of_bool (a + b < a) = unat a + unat b"
  unfolding add_overflow_iff unat_add_mod by (rule nat_overflow [OF unat_less_pow unat_less_pow])

lemma word_add3_mod:
  "unat (a + b + c :: 'a::len word) = (unat a + unat b + unat c) mod 2 ^ LENGTH('a)"
  unfolding unat_add_mod by (rule mod_add_left_eq)

lemma unat_max_iff: "unat (w :: 'a::len word) = 2 ^ LENGTH('a) - 1 \<longleftrightarrow> w = - 1"
  by (simp add: word_unat_eq_iff unsigned_minus_1_eq_mask mask_eq_exp_minus_1)

lemma unat_plus_one:
  assumes "w \<noteq> (- 1 :: 'a::len word)"
  shows "unat (w + 1) = unat w + 1"
proof -
  have "unat w \<noteq> 2 ^ LENGTH('a) - 1" using assms unat_max_iff by blast
  then have "unat w + 1 < 2 ^ LENGTH('a)" using unat_less_pow [of w] by linarith
  then show ?thesis by (simp add: unat_add_mod)
qed

lemma unat_one_plus: "w \<noteq> (- 1 :: 'a::len word) \<Longrightarrow> unat (1 + w) = unat w + 1"
  by (subst add.commute) (rule unat_plus_one)

lemma unat_succ_max: "unat (- 1 :: 'a::len word) + 1 = 2 ^ LENGTH('a)"
  by (simp add: unsigned_minus_1_eq_mask mask_eq_exp_minus_1)

lemma morton_add_one_shape:
  "length a \<in> {1, 2, 3} \<Longrightarrow> length (morton_add_one a) = length a"
  by (auto simp: morton_add_one_def Let_def)

theorem morton_add_one_val:
  assumes "length a \<in> {1, 2, 3}"
  shows "morton_val (morton_add_one (a :: 'a::len morton)) =
      (morton_val a + 1) mod 2 ^ (LENGTH('a) * length a)"
proof -
  obtain M where M: "unat (- 1 :: 'a word) = M" and N: "2 ^ LENGTH('a) = Suc M"
    using unat_succ_max [where 'a = 'a] by (metis Suc_eq_plus1)
  have pw: "2 ^ (LENGTH('a) * 2) = Suc M * Suc M" "2 ^ (LENGTH('a) * 3) = Suc M * Suc M * Suc M"
    by (simp_all only: power_mult N power2_eq_square power3_eq_cube)
  have pw2: "2 ^ (LENGTH('a) * length a) = Suc M ^ length a"
    by (simp only: power_mult N)
  have "\<exists>k. morton_val (morton_add_one a) + k * 2 ^ (LENGTH('a) * length a) = morton_val a + 1"
    using assms
  proof (cases a rule: list_upto3)
    case (1 x)
    show ?thesis
      by (cases "x = - 1")
        (auto simp: 1 morton_add_one_def unat_plus_one M N intro: exI [of _ 0] exI [of _ 1])
  next
    case (2 x y)
    show ?thesis
    proof (cases "x = - 1 \<and> y = - 1")
      case True
      then show ?thesis
        by (intro exI [of _ 1]) (simp only: pw2, simp add: 2 morton_add_one_def M N)
    next
      case False
      then show ?thesis
        by (intro exI [of _ 0]) (auto simp: 2 morton_add_one_def Let_def unat_plus_one unat_one_plus M N algebra_simps)
    qed
  next
    case (3 x y z)
    show ?thesis
    proof (cases "x = - 1 \<and> y = - 1 \<and> z = - 1")
      case True
      then show ?thesis
        by (intro exI [of _ 1]) (simp only: pw2, simp add: 3 morton_add_one_def M N algebra_simps)
    next
      case False
      then show ?thesis
        by (intro exI [of _ 0]) (auto simp: 3 morton_add_one_def Let_def unat_plus_one unat_one_plus M N algebra_simps)
    qed
  qed
  then obtain k where k: "morton_val (morton_add_one a) + k * 2 ^ (LENGTH('a) * length a) = morton_val a + 1" ..
  have "morton_val (morton_add_one a) < 2 ^ (LENGTH('a) * length a)"
    using morton_val_less [of "morton_add_one a"] unfolding morton_add_one_shape [OF assms] .
  then show ?thesis unfolding k [symmetric] mod_mult_self1 by (rule mod_less [symmetric])
qed

lemma carry_val:
  fixes x y c M :: nat
  shows "x < M \<Longrightarrow> x + M * c = y \<Longrightarrow> c = y div M"
  by auto

theorem morton_add_val:
  assumes "length a = length b" and "length a \<in> {1, 2}"
  shows "morton_val (morton_add a b) =
      (morton_val a + morton_val (b :: 'a::len morton)) mod 2 ^ (LENGTH('a) * length a)"
proof -
  let ?N = "2 ^ LENGTH('a) :: nat"
  from assms(2) consider "length a = 1" | "length a = 2" by auto
  then show ?thesis
  proof cases
    case 1
    then obtain x y where [simp]: "a = [x]" "b = [y]"
      using assms(1) by (metis length_1_conv)
    show ?thesis by (simp add: morton_add_def unat_add_mod)
  next
    case 2
    then obtain x0 x1 y0 y1 where [simp]: "a = [x0, x1]" "b = [y0, y1]"
      using assms(1) by (metis length_2_conv)
    define c where "c = (if x0 + y0 < x0 then 1 else 0 :: 'a word)"
    have c0: "unat (x0 + y0) + ?N * unat c = unat x0 + unat y0"
      unfolding c_def add_carry [of x0 y0, symmetric] by simp
    have u: "unat (x1 + y1 + c) = (unat x1 + unat y1 + unat c) mod ?N"
      by (rule word_add3_mod)
    have "morton_val (morton_add a b) = unat (x0 + y0) + ?N * ((unat x1 + unat y1 + unat c) mod ?N)"
      using u [unfolded c_def]
      by (cases "x0 + y0 < x0") (simp_all add: morton_add_def Let_def c_def)
    also have "\<dots> = (unat (x0 + y0) + ?N * (unat x1 + unat y1 + unat c)) mod (?N * ?N)"
      using unat_less_pow [of "x0 + y0"] by (simp add: mod_mult2_eq)
    also have "unat (x0 + y0) + ?N * (unat x1 + unat y1 + unat c) = morton_val a + morton_val b"
      using c0 by (simp add: algebra_simps)
    finally have "morton_val (morton_add a b) = (morton_val a + morton_val b) mod (?N * ?N)" .
    moreover have "2 ^ (LENGTH('a) * length a) = ?N * ?N"
      using 2 by (simp only: power_mult power2_eq_square)
    ultimately show ?thesis by (simp only:)
  qed
qed

text \<open>C40: The word-wise addition of three-word codes is addition modulo the width exactly when the low words do not carry into a middle word of \<open>b\<close> that is all ones; in that case the carry into the high word is lost.\<close>

theorem morton_add_three_words:
  assumes "length a = 3" and "length b = 3"
  shows "morton_val (morton_add a b) = (morton_val a + morton_val b) mod 2 ^ (LENGTH('a) * 3) \<longleftrightarrow>
    \<not> (a ! 0 + b ! 0 < a ! 0 \<and> b ! 1 = (- 1 :: 'a::len word))"
proof -
  let ?N = "2 ^ LENGTH('a) :: nat"
  obtain x0 x1 x2 where a [simp]: "a = [x0, x1, x2]" using assms(1)
    by (auto simp: length_3_conv)
  obtain y0 y1 y2 where b [simp]: "b = [y0, y1, y2]" using assms(2)
    by (auto simp: length_3_conv)
  define c where "c = (if x0 + y0 < x0 then 1 else 0 :: 'a word)"
  define r1 where "r1 = x1 + y1 + c"
  define d where "d = (if r1 < x1 then 1 else 0 :: 'a word)"
  define d' where "d' = (unat x1 + unat y1 + unat c) div ?N"
  have c0: "unat (x0 + y0) + ?N * unat c = unat x0 + unat y0"
    unfolding c_def add_carry [of x0 y0, symmetric] by simp
  have r1: "unat r1 = (unat x1 + unat y1 + unat c) mod ?N"
    unfolding r1_def by (rule word_add3_mod)
  have r1': "unat r1 + ?N * d' = unat x1 + unat y1 + unat c"
    by (simp add: r1 d'_def)
  have lt: "unat (x0 + y0) < ?N" "unat r1 < ?N" "unat x1 < ?N" "unat y1 < ?N" "unat c \<le> 1" "2 \<le> ?N"
    using unat_less_pow [of "x0 + y0"] unat_less_pow [of r1] unat_less_pow [of x1] unat_less_pow [of y1]
    by (simp_all add: c_def self_le_power)
  have "unat x1 + unat y1 + unat c < 2 * ?N" using lt by linarith
  then have "d' < 2" unfolding d'_def by (rule less_mult_imp_div_less)
  then have d'le: "d' \<le> 1" by simp
  have sum: "morton_val a + morton_val b =
      unat (x0 + y0) + ?N * (unat r1 + ?N * (unat x2 + unat y2 + d'))"
  proof -
    have "morton_val a + morton_val b =
        (unat x0 + unat y0) + ?N * ((unat x1 + unat y1) + ?N * (unat x2 + unat y2))"
      by (simp add: algebra_simps)
    also have "\<dots> = unat (x0 + y0) + ?N * ((unat x1 + unat y1 + unat c) + ?N * (unat x2 + unat y2))"
      unfolding c0 [symmetric] by (simp add: algebra_simps)
    also have "\<dots> = unat (x0 + y0) + ?N * (unat r1 + ?N * (unat x2 + unat y2 + d'))"
      unfolding r1' [symmetric] by (simp add: algebra_simps)
    finally show ?thesis .
  qed
  have want: "(morton_val a + morton_val b) mod 2 ^ (LENGTH('a) * 3) =
      unat (x0 + y0) + ?N * (unat r1 + ?N * ((unat x2 + unat y2 + d') mod ?N))"
    unfolding sum using lt by (simp add: power_mult power3_eq_cube mod_mult2_eq mult.assoc)
  have got: "morton_val (morton_add a b) =
      unat (x0 + y0) + ?N * (unat r1 + ?N * ((unat x2 + unat y2 + unat d) mod ?N))"
  proof -
    have "unat (x2 + y2 + d) = (unat x2 + unat y2 + unat d) mod ?N"
      by (rule word_add3_mod)
    then show ?thesis
      by (simp only: morton_add_def Let_def c_def [symmetric] r1_def [symmetric] d_def [symmetric] a b)
        (simp add: c_def [symmetric] r1_def [symmetric] d_def [symmetric])
  qed
  have d: "unat d = of_bool (unat r1 < unat x1)"
    unfolding d_def word_less_nat_alt by simp
  have neq: "(s + 1) mod ?N \<noteq> s mod ?N" for s
  proof
    assume "(s + 1) mod ?N = s mod ?N"
    then have "?N dvd (s + 1) - s" using mod_eq_dvd_iff_nat [of s "s + 1" ?N] by simp
    then have "?N = 1" by simp
    then show False using lt by simp
  qed
  note neq' = neq [symmetric]
  have iff: "(unat x2 + unat y2 + d') mod ?N = (unat x2 + unat y2 + unat d) mod ?N \<longleftrightarrow> d' = unat d"
  proof -
    have "d' = 0 \<or> d' = 1" "unat d = 0 \<or> unat d = 1" using d'le d by auto
    then show ?thesis using neq neq' by (elim disjE) simp_all
  qed
  have "morton_val (morton_add a b) = (morton_val a + morton_val b) mod 2 ^ (LENGTH('a) * 3) \<longleftrightarrow>
      d' = unat d"
    unfolding want got using iff lt by auto
  also have "\<dots> \<longleftrightarrow> \<not> (unat c = 1 \<and> unat y1 + 1 = ?N)"
    using nat_carry_in [OF lt(3,4,5)] d by (auto simp: d'_def r1)
  also have "unat y1 + 1 = ?N \<longleftrightarrow> y1 = - 1"
    using unat_max_iff [of y1] lt by auto
  also have "unat c = 1 \<longleftrightarrow> x0 + y0 < x0"
    by (simp only: c_def) simp
  finally show ?thesis by simp
qed

theorem morton_add_three_words_witness:
  "morton_val (morton_add [9223372036854775808, 0, 0] [9223372036854775808, - 1, 0 :: u64]) \<noteq>
     (morton_val [9223372036854775808, 0, 0 :: u64] + morton_val [9223372036854775808, - 1, 0 :: u64]) mod 2 ^ (LENGTH(64) * 3)"
  using morton_add_three_words [of "[9223372036854775808, 0, 0]" "[9223372036854775808, - 1, 0 :: u64]"] by simp

end
