(* ===== verification/MortonCells.thy ===== *)
theory MortonCells
  imports Morton
begin

text \<open>
  The octree reading of a morton code (\<open>src/src/core/morton.hpp\<close>): which bits the scan, the level
  masks, the child masks and the node names of the definitions of \<open>Morton\<close> read and write. Every
  operation is characterised by the bits of its result (\<open>morton_bit\<close>), and the round trips follow
  bit by bit. The codes are those of 64-bit words the trees use (\<open>morton192_t\<close> and its shorter
  forms); level \<open>lod\<close> of a code is its bits \<open>3 lod .. 3 lod + 2\<close>, magnitude \<open>mag\<close> its five levels
  \<open>5 mag .. 5 mag + 4\<close>.
\<close>

section \<open>Scanning and masks\<close>

lemma nat_bits_less: "(\<And>k. n \<le> k \<Longrightarrow> \<not> bit x k) \<Longrightarrow> (x :: nat) < 2 ^ n"
proof -
  assume h: "\<And>k. n \<le> k \<Longrightarrow> \<not> bit x k"
  have "take_bit n x = x"
    by (rule bit_eqI) (use h not_less in \<open>auto simp: bit_take_bit_iff\<close>)
  then show ?thesis by (metis take_bit_nat_less_exp)
qed

lemma nat_bit_ge: "bit (x :: nat) n \<Longrightarrow> 2 ^ n \<le> x"
  using nat_bit_less [of x n n] by (cases "x < 2 ^ n") auto

lemma bit_scan_reverse_bits:
  assumes "w \<noteq> (0 :: 'a::len word)"
  shows bsr_bit: "bit w (bit_scan_reverse w)"
    and bsr_above: "bit_scan_reverse w < k \<Longrightarrow> \<not> bit w k"
    and bsr_less: "bit_scan_reverse w < LENGTH('a)"
proof -
  let ?L = "LENGTH('a)" and ?xs = "rev [0..<LENGTH('a)]" and ?P = "\<lambda>i. \<not> bit w i"
  let ?n = "count_leading_zeros w"
  have n: "?n = length (takeWhile ?P ?xs)" by (simp add: count_leading_zeros_def)
  obtain i where i: "bit w i" "i < ?L"
    using assms by (metis bit_eqI bit_imp_le_length bit_0_eq bot_apply bot_bool_def)
  have nL: "?n < ?L"
  proof (rule ccontr)
    assume "\<not> ?n < ?L"
    then have "takeWhile ?P ?xs = ?xs"
      using n length_takeWhile_le [of ?P ?xs] by (metis length_rev length_upt diff_zero
          le_antisym linorder_not_less takeWhile_eq_all_conv takeWhile_eq_take take_all)
    then have "\<forall>x\<in>set ?xs. ?P x" by (simp only: takeWhile_eq_all_conv)
    with i show False by auto
  qed
  have nth: "?xs ! j = ?L - 1 - j" if "j < ?L" for j
    using that by (simp add: rev_nth)
  have "\<not> ?P (?xs ! ?n)"
    unfolding n by (rule nth_length_takeWhile) (use nL n in simp)
  then show "bit w (bit_scan_reverse w)"
    using nL nth [of ?n] by (simp add: bit_scan_reverse_def)
  show "bit_scan_reverse w < ?L" using nL by (simp add: bit_scan_reverse_def)
  assume k: "bit_scan_reverse w < k"
  show "\<not> bit w k"
  proof (cases "k < ?L")
    case True
    then have j: "?L - 1 - k < ?n" using k by (simp add: bit_scan_reverse_def)
    then have "takeWhile ?P ?xs ! (?L - 1 - k) = ?xs ! (?L - 1 - k)"
      unfolding n by (rule takeWhile_nth)
    moreover have "takeWhile ?P ?xs ! (?L - 1 - k) \<in> set (takeWhile ?P ?xs)"
      using j unfolding n by (rule nth_mem)
    ultimately have "?P (?xs ! (?L - 1 - k))" by (metis set_takeWhileD)
    then show ?thesis using True nth [of "?L - 1 - k"] by simp
  next
    case False
    then show ?thesis by (meson bit_imp_le_length)
  qed
qed

lemma div_mod_between:
  "q * n \<le> k \<Longrightarrow> k < (q + 1) * n \<Longrightarrow> k div n = q \<and> k mod n = k - q * (n :: nat)"
proof -
  assume a: "q * n \<le> k" "k < (q + 1) * n"
  then have "k div n = q" by (intro div_nat_eqI) (simp_all add: algebra_simps)
  then show ?thesis by (simp add: modulo_nat_def)
qed

lemma morton_bit_words:
  "morton_bit ([x] :: 64 morton) k \<longleftrightarrow> bit x k"
  "morton_bit ([x, y] :: 64 morton) k \<longleftrightarrow> (if k < 64 then bit x k else bit y (k - 64))"
  "morton_bit ([x, y, z] :: 64 morton) k \<longleftrightarrow>
     (if k < 64 then bit x k else if k < 128 then bit y (k - 64) else bit z (k - 128))"
proof -
  have far: "\<not> bit (w :: u64) j" if "64 \<le> j" for w j
    using that bit_imp_le_length [of w j] by auto
  consider "k < 64" | "64 \<le> k" "k < 128" | "128 \<le> k" "k < 192" | "192 \<le> k" by linarith
  then have c: "k < 64 \<and> k div 64 = 0 \<and> k mod 64 = k \<or>
      64 \<le> k \<and> k < 128 \<and> k div 64 = 1 \<and> k mod 64 = k - 64 \<or>
      128 \<le> k \<and> k < 192 \<and> k div 64 = 2 \<and> k mod 64 = k - 128 \<or> 192 \<le> k"
    using div_mod_between [of 0 64 k] div_mod_between [of 1 64 k] div_mod_between [of 2 64 k]
    by cases simp_all
  show "morton_bit ([x] :: 64 morton) k \<longleftrightarrow> bit x k"
    using far [of k x] c by (cases "k < 64") (simp_all add: morton_bit_def)
  show "morton_bit ([x, y] :: 64 morton) k \<longleftrightarrow> (if k < 64 then bit x k else bit y (k - 64))"
    using far [of "k - 64" y] c by (elim disjE conjE) (simp_all add: morton_bit_def)
  show "morton_bit ([x, y, z] :: 64 morton) k \<longleftrightarrow>
     (if k < 64 then bit x k else if k < 128 then bit y (k - 64) else bit z (k - 128))"
    using far [of "k - 128" z] c by (elim disjE conjE) (simp_all add: morton_bit_def)
qed

lemma morton_msb_bits:
  assumes "length a \<in> {1, 2, 3}" and "morton_val (a :: 64 morton) \<noteq> 0"
  shows "morton_bit a (morton_msb a)" and "morton_msb a < k \<Longrightarrow> \<not> morton_bit a k"
proof -
  have far: "\<not> bit (w :: u64) j" if "64 \<le> j" for w j
    using that bit_imp_le_length [of w j] by auto
  have less: "bit_scan_reverse w < 64" if "w \<noteq> 0" for w :: u64
    using bsr_less [OF that] by simp
  have "morton_bit a (morton_msb a) \<and> (\<forall>k > morton_msb a. \<not> morton_bit a k)"
    using assms(1)
  proof (cases a rule: list_upto3)
    case (1 x)
    then have "x \<noteq> 0" using assms(2) by auto
    then show ?thesis
      by (simp add: 1 morton_bit_words morton_msb_def bsr_bit bsr_above)
  next
    case (2 x y)
    then have "y = 0 \<Longrightarrow> x \<noteq> 0" using assms(2) by auto
    then show ?thesis
      using less [of x] less [of y]
      by (cases "y = 0") (auto simp: 2 morton_bit_words morton_msb_def bsr_bit bsr_above)
  next
    case (3 x y z)
    then have "z = 0 \<Longrightarrow> y = 0 \<Longrightarrow> x \<noteq> 0" using assms(2) by auto
    then show ?thesis
      using less [of x] less [of y] less [of z]
      by (cases "z = 0"; cases "y = 0")
        (auto simp: 3 morton_bit_words morton_msb_def bsr_bit bsr_above)
  qed
  then show "morton_bit a (morton_msb a)" and "morton_msb a < k \<Longrightarrow> \<not> morton_bit a k"
    by auto
qed

lemma morton_msb_val:
  assumes "length a \<in> {1, 2, 3}" and "morton_val (a :: 64 morton) \<noteq> 0"
  shows "2 ^ morton_msb a \<le> morton_val a" and "morton_val a < 2 ^ (morton_msb a + 1)"
proof -
  show "2 ^ morton_msb a \<le> morton_val a"
    using morton_msb_bits(1) [OF assms] by (intro nat_bit_ge) (simp add: bit_morton_val)
  show "morton_val a < 2 ^ (morton_msb a + 1)"
    by (rule nat_bits_less) (use morton_msb_bits(2) [OF assms] in \<open>simp add: bit_morton_val\<close>)
qed

lemma morton_xor_bit:
  "length a = length b \<Longrightarrow> morton_bit (morton_xor a b) k \<longleftrightarrow> morton_bit a k \<noteq> morton_bit (b :: 'a::len morton) k"
proof -
  assume len: "length a = length b"
  show ?thesis
  proof (cases "k < LENGTH('a) * length a")
    case True
    then have "k div LENGTH('a) < length a" by (simp add: less_mult_imp_div_less mult.commute)
    then show ?thesis
      using len True by (auto simp: morton_bit_def morton_xor_def bit_xor_iff)
  next
    case False
    then show ?thesis using len by (auto simp: morton_bit_def morton_xor_def)
  qed
qed

lemma mask_word: "push_bit n 1 - 1 = (mask n :: 'a::len word)"
  by (simp add: mask_eq_exp_minus_1 push_bit_eq_mult)

lemma unat_mask64: "n < 64 \<Longrightarrow> unat (mask n :: u64) = 2 ^ n - 1"
proof -
  assume "n < 64"
  have "unat (mask n :: u64) = mask n"
    by (rule bit_eqI) (use \<open>n < 64\<close> in \<open>auto simp: bit_unsigned_iff bit_mask_iff\<close>)
  then show ?thesis by (simp add: mask_eq_exp_minus_1)
qed

lemma unat_ones64: "unat (- 1 :: u64) = 2 ^ 64 - 1"
  by (simp add: unsigned_minus_1_eq_mask mask_eq_exp_minus_1)

lemma mask_create_low:
  assumes "lod * 3 + 3 = int n" and "0 < n" and "n < 64"
  shows "morton_mask_create C lod = (replicate C 0)[0 := mask n :: 'a::len word]"
  using assms(2,3) unfolding morton_mask_create_def assms(1) mask_word [symmetric] by simp

lemma mask_create_mid:
  assumes "lod * 3 + 3 = int n" and "64 \<le> n" and "n \<le> 126" and "1 < C"
  shows "morton_mask_create C lod = (replicate C 0)[0 := - 1, 1 := mask (n - 64) :: 'a::len word]"
proof -
  have "n mod 64 = n - 64" using div_mod_between [of 1 64 n] assms(2,3) by simp
  then have "int n mod 64 = int (n - 64)" by (metis of_nat_mod of_nat_numeral)
  then show ?thesis
    using assms(2-) unfolding morton_mask_create_def assms(1) mask_word [symmetric]
    by (simp add: Let_def nat_diff_distrib del: of_nat_diff)
qed

lemma mask_create_high:
  assumes "lod * 3 + 3 = int n" and "128 < n" and "n < 192" and "2 < C"
  shows "morton_mask_create C lod = (replicate C 0)[0 := - 1, 1 := - 1, 2 := mask (n - 128) :: 'a::len word]"
proof -
  have "n mod 64 = n - 128" using div_mod_between [of 2 64 n] assms(2,3) by simp
  then have "int n mod 64 = int (n - 128)" by (metis of_nat_mod of_nat_numeral)
  then show ?thesis
    using assms(2-) unfolding morton_mask_create_def assms(1) mask_word [symmetric]
    by (simp add: Let_def nat_diff_distrib del: of_nat_diff)
qed

theorem morton_mask_create_val:
  assumes "C \<in> {1, 2, 3}" and "0 \<le> lod" and "3 * lod + 3 < 64 * int C"
  shows "morton_val (morton_mask_create C lod :: 64 morton) = 2 ^ nat (3 * lod + 3) - 1"
proof -
  obtain l where l: "lod = int l" using assms(2) by (rule nonneg_int_cases)
  define n where "n = 3 * l + 3"
  have n: "lod * 3 + 3 = int n" "0 < n" "nat (3 * lod + 3) = n"
    by (simp_all add: l n_def nat_add_distrib nat_mult_distrib)
  have lt: "n < 64 * C" using assms(3) n by linarith
  have "n mod 3 = 0" by (simp add: n_def)
  then have "n \<noteq> 127" "n \<noteq> 128" by auto
  then consider "n < 64" | "64 \<le> n" "n \<le> 126" | "128 < n" by linarith
  then have "morton_val (morton_mask_create C lod :: 64 morton) = 2 ^ n - 1"
  proof cases
    case 1
    have "morton_mask_create C lod \<in> {[mask n], [mask n, 0], [mask n, 0, 0 :: u64]}"
      unfolding mask_create_low [OF n(1,2) 1]
      using assms(1) by (auto simp: numeral_2_eq_2 numeral_3_eq_3)
    then show ?thesis using 1 by (auto simp: unat_mask64)
  next
    case 2
    have C: "C = 2 \<or> C = 3" using assms(1) lt 2 by auto
    have "(2 ^ 64 - 1) + 2 ^ 64 * (2 ^ (n - 64) - 1) = (2 ^ (64 + (n - 64)) - 1 :: nat)"
      unfolding power_add by (simp add: algebra_simps)
    then have e: "(2 ^ 64 - 1) + 2 ^ 64 * (2 ^ (n - 64) - 1) = (2 ^ n - 1 :: nat)" using 2 by simp
    show ?thesis
      using C
    proof
      assume "C = 2"
      then have "morton_mask_create C lod = [- 1, mask (n - 64) :: u64]"
        using mask_create_mid [OF n(1) 2, of C] by (simp add: numeral_2_eq_2)
      then show ?thesis using e 2 by (simp add: unat_mask64 unat_ones64)
    next
      assume "C = 3"
      then have "morton_mask_create C lod = [- 1, mask (n - 64) :: u64, 0]"
        using mask_create_mid [OF n(1) 2, of C] by (simp add: numeral_3_eq_3)
      then show ?thesis using e 2 by (simp add: unat_mask64 unat_ones64)
    qed
  next
    case 3
    have C: "C = 3" "n < 192" using assms(1) lt 3 by auto
    have "(2 ^ 64 - 1) + 2 ^ 64 * ((2 ^ 64 - 1) + 2 ^ 64 * (2 ^ (n - 128) - 1)) = (2 ^ (64 + (64 + (n - 128))) - 1 :: nat)"
      unfolding power_add by (simp add: algebra_simps)
    then have e: "(2 ^ 64 - 1) + 2 ^ 64 * ((2 ^ 64 - 1) + 2 ^ 64 * (2 ^ (n - 128) - 1)) = (2 ^ n - 1 :: nat)"
      using 3 by simp
    have "morton_mask_create C lod = [- 1, - 1, mask (n - 128) :: u64]"
      using mask_create_high [OF n(1) 3 C(2), of C] C by (simp add: numeral_3_eq_3)
    then show ?thesis using e 3 C by (simp add: unat_mask64 unat_ones64)
  qed
  then show ?thesis by (simp only: n(3))
qed

section \<open>Child masks\<close>

lemma bit_7: "bit (7 :: 'a::len word) j \<longleftrightarrow> j < 3 \<and> j < LENGTH('a)"
proof -
  have "(7 :: 'a word) = mask 3" by (simp add: mask_eq_exp_minus_1)
  then show ?thesis by (simp only: bit_mask_iff) (auto simp: min_def)
qed

lemma bit_3: "bit (3 :: 'a::len word) j \<longleftrightarrow> j < 2 \<and> j < LENGTH('a)"
proof -
  have "(3 :: 'a word) = mask 2" by (simp add: mask_eq_exp_minus_1)
  then show ?thesis by (simp only: bit_mask_iff) (auto simp: min_def)
qed

lemma bit_7_int: "bit (7 :: int) j \<longleftrightarrow> j < 3"
proof -
  have "(7 :: int) = mask 3" by (simp add: mask_eq_exp_minus_1)
  then show ?thesis by (simp only: bit_mask_iff) auto
qed

lemma bit_3_int: "bit (3 :: int) j \<longleftrightarrow> j < 2"
proof -
  have "(3 :: int) = mask 2" by (simp add: mask_eq_exp_minus_1)
  then show ?thesis by (simp only: bit_mask_iff) auto
qed

lemma bit_times2: "bit (w * 2 :: 'a::len word) j \<longleftrightarrow> j \<noteq> 0 \<and> j < LENGTH('a) \<and> bit w (j - 1)"
  by (simp only: mult.commute [of w 2] bit_double_iff) auto

lemma bit_div2: "bit (w div 2 :: 'a::len word) j \<longleftrightarrow> bit w (Suc j)"
  by (simp add: bit_Suc)

lemmas word_bits = bit_and_iff bit_or_iff bit_xor_iff bit_not_iff bit_drop_bit_eq
  bit_push_bit_iff bit_unsigned_iff bit_7 bit_3 bit_7_int bit_3_int bit_times2 bit_div2 bit_1_iff bit_mask_iff

lemma lod_cases:
  fixes lod :: nat
  assumes "lod < 64"
  obtains (low) "lod * 3 \<le> 60" | (straddle1) "lod = 21" | (mid) "66 \<le> lod * 3" "lod * 3 \<le> 123"
    | (straddle2) "lod = 42" | (high) "129 \<le> lod * 3" "lod * 3 < 192"
  using assms by (cases "lod \<le> 20"; cases "lod = 21"; cases "lod \<le> 41"; cases "lod = 42") auto

lemma far64: "64 \<le> j \<Longrightarrow> \<not> bit (w :: u64) j"
  using bit_imp_le_length [of w j] by auto

lemma morton_get_child_mask_bit:
  assumes "length (m :: morton192) = 3" and "lod < 64"
  shows "bit (morton_get_child_mask lod m) j \<longleftrightarrow> j < 3 \<and> morton_bit m (3 * lod + j)"
proof -
  obtain x y z where m: "m = [x, y, z]" using assms(1) by (auto simp: length_3_conv)
  show ?thesis
    using assms(2)
  proof (cases rule: lod_cases)
    case low
    then show ?thesis
      by (auto simp: m morton_bit_words morton_get_child_mask_def word_bits Let_def far64 mult.commute [of lod 3])
  next
    case straddle1
    have "j = 0 \<or> j = 1 \<or> j = 2 \<or> 3 \<le> j" by linarith
    then show ?thesis
      by (elim disjE) (auto simp: m straddle1 morton_bit_words morton_get_child_mask_def word_bits Let_def far64)
  next
    case mid
    then show ?thesis
      by (auto simp: m morton_bit_words morton_get_child_mask_def word_bits Let_def far64 mult.commute [of lod 3])
  next
    case straddle2
    have "j = 0 \<or> j = 1 \<or> j = 2 \<or> 3 \<le> j" by linarith
    then show ?thesis
      by (elim disjE) (auto simp: m straddle2 morton_bit_words morton_get_child_mask_def word_bits Let_def far64)
  next
    case high
    then show ?thesis
      by (auto simp: m morton_bit_words morton_get_child_mask_def word_bits Let_def far64 mult.commute [of lod 3])
  qed
qed

lemma morton_set_child_mask_length [simp]: "length (morton_set_child_mask lod c m) = length m"
  by (simp add: morton_set_child_mask_def Let_def)

lemma small_byte: "unat (c :: u8) < 8 \<Longrightarrow> 3 \<le> j \<Longrightarrow> \<not> bit c j"
  using nat_bit_less [of "unat c" 3 j] by (simp add: bit_unsigned_iff)

lemma morton_set_child_mask_bit:
  assumes "length (m :: morton192) = 3" and "lod < 64" and "unat c < 8"
  shows "morton_bit (morton_set_child_mask lod c m) k \<longleftrightarrow>
    (if 3 * lod \<le> k \<and> k < 3 * lod + 3 then bit c (k - 3 * lod) else morton_bit m k)"
proof -
  obtain x y z where m: "m = [x, y, z]" using assms(1) by (auto simp: length_3_conv)
  note c = small_byte [OF assms(3)]
  show ?thesis
    using assms(2)
  proof (cases rule: lod_cases)
    case low
    then show ?thesis
      by (auto simp: m morton_bit_words morton_set_child_mask_def word_bits Let_def far64 c mult.commute [of lod 3])
  next
    case straddle1
    have e: "morton_set_child_mask 21 c m = [(x AND NOT (push_bit 63 7)) OR push_bit 63 (ucast c),
        (y AND NOT 3) OR drop_bit 1 (ucast c), z]"
      by (simp add: m morton_set_child_mask_def)
    have k: "k - 63 = 1 + (k - 64)" if "64 \<le> k" using that by simp
    show ?thesis
      unfolding straddle1 e unfolding m morton_bit_words word_bits
      using far64 [of k x] far64 [of "k - 64" y] k c by auto
  next
    case mid
    then show ?thesis
      by (auto simp: m morton_bit_words morton_set_child_mask_def word_bits Let_def far64 c mult.commute [of lod 3])
  next
    case straddle2
    have e: "morton_set_child_mask 42 c m = [x, (y AND NOT (push_bit 62 7)) OR push_bit 62 (ucast c),
        (z AND NOT 1) OR ucast (drop_bit 2 c)]"
      by (simp add: m morton_set_child_mask_def)
    have k: "k - 126 = 2 + (k - 128)" if "128 \<le> k" using that by simp
    show ?thesis
      unfolding straddle2 e unfolding m morton_bit_words word_bits
      using far64 [of "k - 64" y] far64 [of "k - 128" z] k c by (auto simp: numeral_2_eq_2 not_le [symmetric])
  next
    case high
    then show ?thesis
      by (auto simp: m morton_bit_words morton_set_child_mask_def word_bits Let_def far64 c mult.commute [of lod 3])
  qed
qed

lemma morton_val_bits_eqI:
  assumes "length (a :: 'a::len morton) = length b"
    and "\<And>k. morton_bit a k \<longleftrightarrow> morton_bit b k"
  shows "a = b"
proof -
  have "morton_val a = morton_val b" by (rule bit_eqI) (simp add: bit_morton_val assms(2))
  then show ?thesis using morton_val_inject [OF assms(1)] by simp
qed

text \<open>Reading the child index of any level after setting the child index of one gives the value that was set at that level and what the code had at every other level, including the levels whose three bits straddle two machine words.\<close>

theorem morton_child_mask_roundtrip:
  assumes "length (m :: morton192) = 3" and "lod < 64" and "unat c < 8" and "lod' < 64"
  shows "morton_get_child_mask lod' (morton_set_child_mask lod c m) =
    (if lod' = lod then c else morton_get_child_mask lod' m)"
proof (rule bit_eqI)
  fix j
  have c: "3 \<le> j \<Longrightarrow> \<not> bit c j" by (rule small_byte [OF assms(3)])
  have d: "lod' \<noteq> lod \<Longrightarrow> j < 3 \<Longrightarrow> \<not> (3 * lod \<le> 3 * lod' + j \<and> 3 * lod' + j < 3 * lod + 3)"
    by linarith
  show "bit (morton_get_child_mask lod' (morton_set_child_mask lod c m)) j =
      bit (if lod' = lod then c else morton_get_child_mask lod' m) j"
    using c d assms by (auto simp: morton_get_child_mask_bit morton_set_child_mask_bit)
qed

theorem morton_set_child_mask_id:
  assumes "length (m :: morton192) = 3" and "lod < 64"
  shows "morton_set_child_mask lod (morton_get_child_mask lod m) m = m"
proof (rule morton_val_bits_eqI)
  have "unat (morton_get_child_mask lod m) < 2 ^ 3"
    by (rule nat_bits_less)
      (simp add: bit_unsigned_iff morton_get_child_mask_bit [OF assms])
  then have c: "unat (morton_get_child_mask lod m) < 8" by simp
  fix k
  show "morton_bit (morton_set_child_mask lod (morton_get_child_mask lod m) m) k = morton_bit m k"
    using morton_set_child_mask_bit [OF assms c] morton_get_child_mask_bit [OF assms, of "k - 3 * lod"]
    by auto
qed simp

section \<open>Node names\<close>

lemma name_of_magnitude_bit:
  assumes "length (m :: morton192) = 3" and "mag < 12"
  shows "bit (get_name_from_morton_magnitude mag m) j \<longleftrightarrow> j < 15 \<and> morton_bit m (15 * mag + j)"
proof -
  have b: "bit (morton_get_child_mask (5 * mag + i) m) l \<longleftrightarrow> l < 3 \<and> morton_bit m (15 * mag + 3 * i + l)"
    if "i < 5" for i l
  proof -
    have "5 * mag + i < 64" "3 * (5 * mag + i) + l = 15 * mag + 3 * i + l"
      using assms(2) that by simp_all
    then show ?thesis using morton_get_child_mask_bit [OF assms(1), of "5 * mag + i" l] by simp
  qed
  note b' = b [of 0, simplified] b [of 1, simplified] b [of 2, simplified] b [of 3, simplified] b [of 4, simplified]
  consider "j < 3" | "3 \<le> j" "j < 6" | "6 \<le> j" "j < 9" | "9 \<le> j" "j < 12" | "12 \<le> j" "j < 15" | "15 \<le> j"
    by linarith
  then show ?thesis
    by cases (auto simp: get_name_from_morton_magnitude_def Let_def word_bits b' mult.commute [of mag 5])
qed

lemma set_name_bit:
  assumes "length (m :: morton192) = 3" and "mag < 12" and "unat name < 2 ^ 15"
  shows "morton_bit (set_name_in_morton mag m name) k \<longleftrightarrow>
    morton_bit m k \<or> (15 * mag \<le> k \<and> bit name (k - 15 * mag))"
proof -
  obtain x y z where m: "m = [x, y, z]" using assms(1) by (auto simp: length_3_conv)
  have n: "j < 15" if "bit name j" for j
    using nat_bit_less [OF assms(3), of j] that by (cases "15 \<le> j") (auto simp: bit_unsigned_iff)
  have dm: "mag * 15 \<le> 60 \<and> mag * 15 div 64 = 0 \<and> mag * 15 mod 64 = mag * 15 \<or>
      75 \<le> mag * 15 \<and> mag * 15 \<le> 120 \<and> mag * 15 div 64 = 1 \<and> mag * 15 mod 64 = mag * 15 - 64 \<or>
      135 \<le> mag * 15 \<and> mag * 15 \<le> 165 \<and> mag * 15 div 64 = 2 \<and> mag * 15 mod 64 = mag * 15 - 128"
    using assms(2) div_mod_between [of 0 64 "mag * 15"] div_mod_between [of 1 64 "mag * 15"]
      div_mod_between [of 2 64 "mag * 15"]
    by (cases "mag \<le> 4"; cases "mag \<le> 8") simp_all
  define b where "b = mag * 15"
  have b: "15 * mag = b" "mag * 15 = b" "mag * (5 * 3) = b" by (simp_all add: b_def)
  note bits = Let_def b m word_bits morton_bit_words
  from dm [unfolded b] show ?thesis
  proof (elim disjE conjE)
    assume *: "b \<le> 60" "b div 64 = 0" "b mod 64 = b"
    show ?thesis
      unfolding set_name_in_morton_def using * n [of "k - b"] far64 [of k x]
      by (cases "k < 64"; cases "k < 128") (auto simp: bits)
  next
    assume *: "75 \<le> b" "b \<le> 120" "b div 64 = 1" "b mod 64 = b - 64"
    show ?thesis
      unfolding set_name_in_morton_def using * n [of "k - b"] far64 [of k x]
      by (cases "k < 64"; cases "k < 128") (auto simp: bits)
  next
    assume *: "135 \<le> b" "b \<le> 165" "b div 64 = 2" "b mod 64 = b - 128"
    show ?thesis
      unfolding set_name_in_morton_def using * n [of "k - b"] far64 [of k x]
      by (cases "k < 64"; cases "k < 128") (auto simp: bits)
  qed
qed

text \<open>A node name written into a code at a magnitude whose five levels are empty is read back from the code at that magnitude, also where its fifteen bits straddle two machine words.\<close>

theorem name_roundtrip:
  assumes "length (m :: morton192) = 3" and "mag < 12" and "unat name < 2 ^ 15"
    and "\<And>k. 15 * mag \<le> k \<Longrightarrow> k < 15 * mag + 15 \<Longrightarrow> \<not> morton_bit m k"
  shows "get_name_from_morton_magnitude mag (set_name_in_morton mag m name) = name"
proof (rule bit_eqI)
  fix j
  let ?m = "set_name_in_morton mag m name"
  have len: "length ?m = 3"
    using assms(1) by (simp add: set_name_in_morton_def Let_def)
  show "bit (get_name_from_morton_magnitude mag ?m) j = bit name j"
  proof (cases "j < 15")
    case True
    with assms(4) [of "15 * mag + j"] have "\<not> morton_bit m (15 * mag + j)" by simp
    with True show ?thesis
      by (simp add: name_of_magnitude_bit [OF len assms(2)] set_name_bit [OF assms(1-3)])
  next
    case False
    then have "\<not> bit name j"
      using nat_bit_less [OF assms(3), of j] by (simp add: bit_unsigned_iff)
    with False show ?thesis by (simp add: name_of_magnitude_bit [OF len assms(2)])
  qed
qed

section \<open>Nodes as ranges of codes\<close>

lemma morton_or_bit:
  "length a = length b \<Longrightarrow> morton_bit (morton_or a b) k \<longleftrightarrow> morton_bit a k \<or> morton_bit (b :: 'a::len morton) k"
proof -
  assume len: "length a = length b"
  show ?thesis
  proof (cases "k < LENGTH('a) * length a")
    case True
    then have "k div LENGTH('a) < length a" by (simp add: less_mult_imp_div_less mult.commute)
    then show ?thesis
      using len True by (auto simp: morton_bit_def morton_or_def bit_or_iff)
  next
    case False
    then show ?thesis using len by (auto simp: morton_bit_def morton_or_def)
  qed
qed

lemma length_mask_create [simp]: "length (morton_mask_create C lod) = C"
  by (simp add: morton_mask_create_def Let_def)

lemma create_max_val:
  assumes "length m = 3" and "lod < 63" and "morton_val m mod 2 ^ (3 * lod + 3) = 0"
  shows "morton_val (create_max (int lod) (m :: morton192)) = morton_val m + (2 ^ (3 * lod + 3) - 1)"
proof -
  let ?n = "3 * lod + 3" and ?k = "morton_mask_create 3 (int lod) :: morton192"
  have "nat (3 * int lod + 3) = ?n" by (simp add: nat_add_distrib nat_mult_distrib)
  then have k: "morton_val ?k = mask ?n"
    using morton_mask_create_val [of 3 "int lod"] assms(2) by (simp add: mask_eq_exp_minus_1)
  have "morton_val (create_max (int lod) m) = mask ?n OR morton_val m"
  proof (rule bit_eqI)
    fix i
    show "bit (morton_val (create_max (int lod) m)) i = bit (mask ?n OR morton_val m) i"
      by (simp add: create_max_def assms(1) bit_morton_val morton_or_bit bit_or_iff flip: k)
  qed
  also have "\<dots> = mask ?n + morton_val m"
  proof (rule disjunctive_add [symmetric])
    fix i
    have "take_bit ?n (morton_val m) = 0" using assms(3) by (simp only: take_bit_eq_mod)
    then have "i < ?n \<Longrightarrow> \<not> bit (morton_val m) i" by (metis bit_take_bit_iff bit_0_eq bot_apply bot_bool_def)
    then show "\<not> bit (mask ?n :: nat) i \<or> \<not> bit (morton_val m) i" by (auto simp: bit_mask_iff)
  qed
  finally show ?thesis by (simp add: mask_eq_exp_minus_1)
qed

lemma aligned_range:
  fixes a x N :: nat
  assumes "a mod N = 0" and "0 < N"
  shows "a \<le> x \<and> x \<le> a + (N - 1) \<longleftrightarrow> x div N = a div N"
proof -
  have a: "a = N * (a div N)" using assms(1) by auto
  show ?thesis
  proof
    assume h: "a \<le> x \<and> x \<le> a + (N - 1)"
    show "x div N = a div N"
    proof (rule div_nat_eqI)
      show "N * (a div N) \<le> x" using h a by simp
      have "x < a + N" using h assms(2) by linarith
      then show "x < N * Suc (a div N)" using a by simp
    qed
  next
    assume h: "x div N = a div N"
    have "N * (x div N) + x mod N = x" "x mod N < N" using assms(2) by simp_all
    then show "a \<le> x \<and> x \<le> a + (N - 1)" using a h by (metis (no_types, lifting) One_nat_def Suc_pred add_le_cancel_left assms(2) le_add1 less_Suc_eq_le)
  qed
qed

text \<open>For a node whose minimum code is aligned to its level of detail, the codes between the
  minimum and \<open>create_max\<close> (compared with the program's own word-wise operators) are exactly the codes
  that agree with the minimum above the node's levels.\<close>

theorem node_range:
  assumes "length m = 3" and "length x = 3" and "lod < 63"
    and "morton_val m mod 2 ^ (3 * lod + 3) = 0"
  shows "morton_le m x \<and> morton_le x (create_max (int lod) (m :: morton192)) \<longleftrightarrow>
    (\<forall>k \<ge> 3 * lod + 3. morton_bit x k = morton_bit m k)"
proof -
  let ?n = "3 * lod + 3"
  have len: "length (create_max (int lod) m) = 3" by (simp add: create_max_def morton_or_def assms(1))
  have "morton_le m x \<and> morton_le x (create_max (int lod) m) \<longleftrightarrow>
      morton_val m \<le> morton_val x \<and> morton_val x \<le> morton_val m + (2 ^ ?n - 1)"
    using assms(1,2) len by (simp add: morton_order_val create_max_val [OF assms(1,3,4)])
  also have "\<dots> \<longleftrightarrow> morton_val x div 2 ^ ?n = morton_val m div 2 ^ ?n"
    by (rule aligned_range [OF assms(4)]) simp
  also have "\<dots> \<longleftrightarrow> drop_bit ?n (morton_val x) = drop_bit ?n (morton_val m)"
    by (simp only: drop_bit_eq_div)
  also have "\<dots> \<longleftrightarrow> (\<forall>k \<ge> ?n. morton_bit x k = morton_bit m k)"
  proof
    assume h: "drop_bit ?n (morton_val x) = drop_bit ?n (morton_val m)"
    show "\<forall>k \<ge> ?n. morton_bit x k = morton_bit m k"
    proof (intro allI impI)
      fix k
      assume "?n \<le> k"
      then have "bit (drop_bit ?n (morton_val y)) (k - ?n) = morton_bit y k" for y :: morton192
        by (simp add: bit_drop_bit_eq bit_morton_val)
      then show "morton_bit x k = morton_bit m k" using h by metis
    qed
  next
    assume h: "\<forall>k \<ge> ?n. morton_bit x k = morton_bit m k"
    show "drop_bit ?n (morton_val x) = drop_bit ?n (morton_val m)"
      by (rule bit_eqI) (use h in \<open>simp add: bit_drop_bit_eq bit_morton_val\<close>)
  qed
  finally show ?thesis .
qed

text \<open>C38: \<open>morton_lod\<close> of two different codes is the coarsest level at which they lie in different
  children: they have the same child index at every level above it and different ones at it.\<close>

theorem morton_lod_separates:
  assumes "length a = 3" and "length b = 3" and "a \<noteq> (b :: morton192)"
  shows "morton_lod a b < 64 \<and>
    morton_get_child_mask (morton_lod a b) a \<noteq> morton_get_child_mask (morton_lod a b) b \<and>
    (\<forall>lod < 64. morton_lod a b < lod \<longrightarrow> morton_get_child_mask lod a = morton_get_child_mask lod b)"
proof -
  let ?x = "morton_xor a b" and ?l = "morton_lod a b"
  have len: "length ?x \<in> {1, 2, 3}" by (simp add: morton_xor_def assms(1,2))
  have xb: "morton_bit ?x k \<longleftrightarrow> morton_bit a k \<noteq> morton_bit b k" for k
    using assms(1,2) by (intro morton_xor_bit) simp
  have "morton_val ?x \<noteq> 0"
  proof
    assume "morton_val ?x = 0"
    then have "\<not> morton_bit ?x k" for k by (metis bit_morton_val bit_0_eq bot_apply bot_bool_def)
    then have "a = b" using assms(1,2) xb by (intro morton_val_bits_eqI) auto
    then show False using assms(3) by simp
  qed
  note m = morton_msb_bits [OF len this]
  have l: "?l = morton_msb ?x div 3" by (simp add: morton_lod_def morton_lod_from_bit_index_def)
  have "morton_msb ?x < 192"
    using m(1) assms(1,2) by (auto simp: morton_bit_def morton_xor_def)
  then have l64: "?l < 64" by (simp add: l less_mult_imp_div_less)
  have msb: "3 * ?l + morton_msb ?x mod 3 = morton_msb ?x" by (simp add: l)
  have "bit (morton_get_child_mask ?l a) (morton_msb ?x mod 3) \<noteq> bit (morton_get_child_mask ?l b) (morton_msb ?x mod 3)"
    using m(1) by (simp add: morton_get_child_mask_bit [OF _ l64] assms(1,2) msb xb)
  moreover have "morton_get_child_mask lod a = morton_get_child_mask lod b" if "lod < 64" "?l < lod" for lod
  proof (rule bit_eqI)
    fix j
    have "morton_msb ?x < 3 * lod" using that(2) l by (simp add: less_eq_Suc_le div_less_iff_less_mult mult.commute)
    then have "\<not> morton_bit ?x (3 * lod + j)" by (intro m(2)) simp
    then show "bit (morton_get_child_mask lod a) j = bit (morton_get_child_mask lod b) j"
      by (simp add: morton_get_child_mask_bit [OF _ that(1)] assms(1,2) xb)
  qed
  ultimately show ?thesis using l64 by metis
qed

theorem node_range_witness:
  "morton_le [0, 0, 0 :: u64] [5, 0, 0] \<and> morton_le [5, 0, 0] (create_max 0 [0, 0, 0 :: u64]) \<longleftrightarrow>
    (\<forall>k \<ge> 3. morton_bit [5, 0, 0 :: u64] k = morton_bit [0, 0, 0 :: u64] k)"
  using node_range [of "[0, 0, 0]" "[5, 0, 0]" 0] by simp

theorem morton_lod_separates_witness:
  "morton_get_child_mask (morton_lod [5, 0, 0] [5, 8, 0 :: u64]) [5, 0, 0 :: u64] \<noteq>
   morton_get_child_mask (morton_lod [5, 0, 0] [5, 8, 0 :: u64]) [5, 8, 0 :: u64]"
  using morton_lod_separates [of "[5, 0, 0]" "[5, 8, 0]"] by simp

theorem morton_child_mask_roundtrip_witness:
  "morton_get_child_mask 21 (morton_set_child_mask 21 6 [0, 0, 0 :: u64]) =
     (if (21 :: nat) = 21 then 6 else morton_get_child_mask 21 [0, 0, 0 :: u64])"
  by (rule morton_child_mask_roundtrip) simp_all

theorem name_roundtrip_witness:
  "get_name_from_morton_magnitude 4 (set_name_in_morton 4 [0, 0, 0] 25000) = 25000"
  by (rule name_roundtrip) (simp_all add: morton_bit_words)

end
