(* ===== verification/MortonWidth.thy ===== *)
theory MortonWidth
  imports MortonCells
begin

text \<open>
  Changing the representation of a morton code (\<open>src/src/core/morton.hpp\<close>): narrowing and widening
  between the code sizes, and interleaving and deinterleaving coordinates. libmorton is a
  parameter: \<open>libmorton_encodes\<close> says its 64-bit encoder puts bit \<open>k div 3\<close> of coordinate
  \<open>k mod 3\<close> at bit \<open>k\<close>, \<open>libmorton_decodes\<close> that its decoder returns the 21 whole triples (whether
  it also returns the single bit 63 is left open, as the callers add that bit themselves).
\<close>

section \<open>Narrowing and widening\<close>

text \<open>The bits a narrower code keeps: as many whole levels as fit.\<close>

definition kept_bits :: "nat \<Rightarrow> nat \<Rightarrow> nat" where
  "kept_bits w C = w * C div 3 * 3"

lemma bit_ones: "bit (- 1 :: 'a::len word) k \<longleftrightarrow> k < LENGTH('a)"
  by simp

lemma bit_push_ones: "bit (push_bit n (- 1) :: 'a::len word) k \<longleftrightarrow> n \<le> k \<and> k < LENGTH('a)"
  by (auto simp: bit_push_bit_iff simp del: push_bit_minus_one_eq_not_mask push_bit_minus_one)

lemma morton_downcast_shape:
  fixes x y z :: u64
  shows "(morton_downcast 1 [x, y, z] :: 64 morton) = [x AND NOT (push_bit 63 (- 1))]"
    and "(morton_downcast 2 [x, y, z] :: 64 morton) = [x, y AND NOT (push_bit 62 (- 1))]"
    and "(morton_downcast 3 [x, y, z] :: 64 morton) = [x, y, z]"
    and "(morton_downcast 1 [x, y, z] :: 32 morton) = [ucast x AND NOT (push_bit 30 (- 1))]"
  by (simp_all add: morton_downcast_def Let_def)

lemma morton_upcast_shape:
  fixes x y z u v w :: u64 and s :: u32
  shows "morton_upcast 3 [x] [u, v, w] = [x OR (push_bit 63 (- 1) AND u), v, w]"
    and "morton_upcast 3 [x, y] [u, v, w] = [x, y OR (push_bit 62 (- 1) AND v), w]"
    and "morton_upcast 3 [x, y, z] [u, v, w] = [x, y, z]"
    and "morton_upcast 3 [s] [u, v, w] =
      [(ucast s OR (u AND push_bit 32 (- 1))) OR (ucast (push_bit 30 (- 1) :: u32) AND u), v, w]"
  by (simp_all add: morton_upcast_def Let_def)

lemma create_min_shape:
  fixes x y z :: u64
  shows "create_min_for_downcast ([d] :: 64 morton) [x, y, z] = [x AND push_bit 63 (- 1), y, z]"
    and "create_min_for_downcast ([d, e] :: 64 morton) [x, y, z] = [0, y AND push_bit 62 (- 1), z]"
    and "create_min_for_downcast ([d, e, f] :: 64 morton) [x, y, z] = [0, 0, 0]"
    and "create_min_for_downcast ([g] :: 32 morton) [x, y, z] =
      [x AND NOT (ucast (NOT (push_bit 30 (- 1)) :: u32)), y, z]"
  by (simp_all add: create_min_for_downcast_def morton_negate_def morton_downcast_def Let_def)
    (rule bit_eqI, auto simp: word_bits)

theorem downcast_upcast:
  assumes "length (a :: morton192) = 3" and "length (mn :: morton192) = 3" and "C \<in> {1, 2, 3}"
    and "\<And>k. kept_bits 64 C \<le> k \<Longrightarrow> morton_bit mn k \<longleftrightarrow> morton_bit a k"
  shows "morton_upcast 3 (morton_downcast C a :: 64 morton) mn = a"
proof -
  obtain x y z where a: "a = [x, y, z]" using assms(1) by (auto simp: length_3_conv)
  obtain u v w where mn: "mn = [u, v, w]" using assms(2) by (auto simp: length_3_conv)
  have kept: "kept_bits 64 1 = 63" "kept_bits 64 2 = 126" "kept_bits 64 3 = 192"
    by (simp_all add: kept_bits_def)
  from assms(3) consider "C = 1" | "C = 2" | "C = 3" by auto
  then show ?thesis
  proof cases
    case 1
    have b: "63 \<le> k \<Longrightarrow> morton_bit [u, v, w] k \<longleftrightarrow> morton_bit [x, y, z] k" for k
      using assms(4) unfolding 1 kept a mn by simp
    show ?thesis
      unfolding 1 a mn morton_downcast_shape morton_upcast_shape
    proof (rule morton_val_bits_eqI)
      fix k
      show "morton_bit [x AND NOT (push_bit 63 (- 1)) OR push_bit 63 (- 1) AND u, v, w] k =
          morton_bit [x, y, z] k"
        using b [of k] far64 [of k x] unfolding morton_bit_words word_bits bit_push_ones by auto
    qed simp
  next
    case 2
    have b: "126 \<le> k \<Longrightarrow> morton_bit [u, v, w] k \<longleftrightarrow> morton_bit [x, y, z] k" for k
      using assms(4) unfolding 2 kept a mn by simp
    show ?thesis
      unfolding 2 a mn morton_downcast_shape morton_upcast_shape
    proof (rule morton_val_bits_eqI)
      fix k
      show "morton_bit [x, y AND NOT (push_bit 62 (- 1)) OR push_bit 62 (- 1) AND v, w] k =
          morton_bit [x, y, z] k"
        using b [of k] far64 [of "k - 64" y] unfolding morton_bit_words word_bits bit_push_ones by auto
    qed simp
  next
    case 3
    show ?thesis unfolding 3 a mn morton_downcast_shape morton_upcast_shape ..
  qed
qed

theorem create_min_for_downcast_bit:
  assumes "length (a :: morton192) = 3" and "length (d :: 64 morton) \<in> {1, 2, 3}"
  shows "morton_bit (create_min_for_downcast d a) k \<longleftrightarrow> kept_bits 64 (length d) \<le> k \<and> morton_bit a k"
proof -
  obtain x y z where a: "a = [x, y, z]" using assms(1) by (auto simp: length_3_conv)
  have far: "128 \<le> k \<Longrightarrow> 192 \<le> k \<or> k - 128 < 64" by linarith
  show ?thesis
    using assms(2)
  proof (cases d rule: list_upto3)
    case (1 e)
    have "kept_bits 64 (length d) = 63" by (simp add: 1 kept_bits_def)
    then show ?thesis
      unfolding 1 a create_min_shape morton_bit_words word_bits bit_push_ones by auto
  next
    case (2 e f)
    have "kept_bits 64 (length d) = 126" by (simp add: 2 kept_bits_def)
    then show ?thesis
      unfolding 2 a create_min_shape morton_bit_words word_bits bit_push_ones by auto
  next
    case (3 e f g)
    have "kept_bits 64 (length d) = 192" by (simp add: 3 kept_bits_def)
    then show ?thesis
      using far64 [of "k - 128" z]
      unfolding 3 a create_min_shape morton_bit_words word_bits bit_push_ones by auto
  qed
qed

text \<open>Narrowing a code to one, two or three words and widening it again with the minimum that \<open>create_min_for_downcast\<close> extracts gives the code back: the narrow form and the extracted minimum together lose no bit.\<close>

theorem downcast_create_min_roundtrip:
  assumes "length (a :: morton192) = 3" and "length (d :: 64 morton) \<in> {1, 2, 3}"
  shows "morton_upcast 3 (morton_downcast (length d) a :: 64 morton) (create_min_for_downcast d a) = a"
proof (rule downcast_upcast [OF assms(1) _ assms(2)])
  obtain x y z where a: "a = [x, y, z]" using assms(1) by (auto simp: length_3_conv)
  show "length (create_min_for_downcast d a) = 3"
    using assms(2) by (cases d rule: list_upto3) (simp_all only: a create_min_shape, simp_all)
qed (simp add: create_min_for_downcast_bit [OF assms])

theorem downcast_create_min_roundtrip_32:
  assumes "length (a :: morton192) = 3" and "length (d :: morton32) = 1"
  shows "morton_upcast 3 (morton_downcast 1 a :: morton32) (create_min_for_downcast d a) = a"
proof -
  obtain x y z where a: "a = [x, y, z]" using assms(1) by (auto simp: length_3_conv)
  obtain e where d: "d = [e]" using assms(2) by (metis length_1_conv)
  define q :: u32 where "q = push_bit 30 (- 1)"
  have q: "bit q k \<longleftrightarrow> 30 \<le> k \<and> k < 32" for k unfolding q_def bit_push_ones by simp
  define p :: u64 where "p = push_bit 32 (- 1)"
  have p: "bit p k \<longleftrightarrow> 32 \<le> k \<and> k < 64" for k unfolding p_def bit_push_ones by simp
  have "(ucast (ucast x AND NOT q) OR ((x AND NOT (ucast (NOT q))) AND p)) OR
      (ucast q AND (x AND NOT (ucast (NOT q)))) = x"
    by (rule bit_eqI) (auto simp: word_bits p q)
  then show ?thesis
    unfolding a d create_min_shape morton_downcast_shape morton_upcast_shape q_def p_def by (simp only:)
qed

section \<open>Interleaving round trips\<close>

definition libmorton_encodes :: "enc3 \<Rightarrow> bool" where
  "libmorton_encodes enc \<longleftrightarrow>
     (\<forall>x y z k. k < 64 \<longrightarrow> bit (enc x y z) k = bit ([x, y, z] ! (k mod 3)) (k div 3))"

definition libmorton_decodes :: "dec3 \<Rightarrow> bool" where
  "libmorton_decodes dec \<longleftrightarrow>
     (\<forall>w i. case dec w of (x, y, z) \<Rightarrow>
        (i \<noteq> 21 \<longrightarrow> bit x i = (i < 21 \<and> bit w (3 * i))) \<and> (bit x 21 \<longrightarrow> bit w 63) \<and>
        bit y i = (i < 21 \<and> bit w (3 * i + 1)) \<and> bit z i = (i < 21 \<and> bit w (3 * i + 2)))"

lemma enc_bits:
  assumes "libmorton_encodes enc"
  shows "i < 21 \<Longrightarrow> bit (enc x y z) (3 * i) = bit x i"
    and "i < 21 \<Longrightarrow> bit (enc x y z) (3 * i + 1) = bit y i"
    and "i < 21 \<Longrightarrow> bit (enc x y z) (3 * i + 2) = bit z i"
    and "bit (enc x y z) 63 = bit x 21"
proof -
  note e = assms [unfolded libmorton_encodes_def, rule_format]
  show "i < 21 \<Longrightarrow> bit (enc x y z) (3 * i) = bit x i"
    using e [of "3 * i" x y z] by simp
  show "i < 21 \<Longrightarrow> bit (enc x y z) (3 * i + 1) = bit y i"
    using e [of "3 * i + 1" x y z] div_mod_between [of i 3 "3 * i + 1"] by (simp add: mult.commute [of i 3])
  show "i < 21 \<Longrightarrow> bit (enc x y z) (3 * i + 2) = bit z i"
    using e [of "3 * i + 2" x y z] div_mod_between [of i 3 "3 * i + 2"] by (simp add: mult.commute [of i 3])
  show "bit (enc x y z) 63 = bit x 21"
    using e [of 63 x y z] by simp
qed

lemma dec_enc_bits:
  assumes "libmorton_encodes enc" and "libmorton_decodes dec" and "dec (enc x y z) = (x', y', z')"
  shows "i \<noteq> 21 \<Longrightarrow> bit x' i = (i < 21 \<and> bit x i)"
    and "bit x' 21 \<Longrightarrow> bit x 21"
    and "bit y' i = (i < 21 \<and> bit y i)"
    and "bit z' i = (i < 21 \<and> bit z i)"
  using assms(2) [unfolded libmorton_decodes_def, rule_format, where w = "enc x y z" and i = i]
    enc_bits(1-3) [OF assms(1), where i = i and x = x and y = y and z = z]
    enc_bits(4) [OF assms(1), where x = x and y = y and z = z] assms(3)
  by auto

abbreviation narrow32 :: "u64 \<Rightarrow> u64" where
  "narrow32 w \<equiv> ucast (ucast w :: u32)"

lemma encode192_shape:
  "encode192 enc [x, y, z] =
     [enc (narrow32 (x AND mask 22)) (narrow32 (y AND mask 21)) (narrow32 (z AND mask 21)),
      enc (narrow32 (drop_bit 21 y AND mask 22)) (narrow32 (drop_bit 21 z AND mask 21))
        (narrow32 (drop_bit 22 x AND mask 21)),
      enc (narrow32 (drop_bit 42 z)) (narrow32 (drop_bit 43 x)) (narrow32 (drop_bit 43 y))]"
  by (simp add: encode192_def Let_def mask_eq_exp_minus_1)

lemma bit63: "bit (drop_bit 63 (w :: u64)) n \<longleftrightarrow> n = 0 \<and> bit w 63"
  using far64 [of "63 + n" w] by (cases "n = 0") (auto simp: bit_drop_bit_eq)

lemma narrow32_bits:
  "bit (narrow32 w) j \<longleftrightarrow> j < 32 \<and> bit w j"
  by (auto simp: bit_unsigned_iff)

lemmas xbits = narrow32_bits bit_and_iff bit_drop_bit_eq bit_mask_iff
lemmas obits = bit_or_iff bit_push_bit_iff bit63

text \<open>C37: Decoding an encoded position gives all 64 bits of the three coordinates back, for every encoder and decoder kernel that meet the contract the program relies on.\<close>

theorem decode_encode_192:
  assumes "libmorton_encodes enc" and "libmorton_decodes dec"
  shows "decode192 dec (encode192 enc [x, y, z]) = [x, y, z]"
proof -
  define d0 where "d0 = encode192 enc [x, y, z] ! 0"
  define d1 where "d1 = encode192 enc [x, y, z] ! 1"
  define d2 where "d2 = encode192 enc [x, y, z] ! 2"
  note d = d0_def [unfolded encode192_shape, simplified] d1_def [unfolded encode192_shape, simplified]
    d2_def [unfolded encode192_shape, simplified]
  obtain l0 l1 l2 where l: "dec d0 = (l0, l1, l2)" by (cases "dec d0")
  obtain m0 m1 m2 where m: "dec d1 = (m0, m1, m2)" by (cases "dec d1")
  obtain h0 h1 h2 where h: "dec d2 = (h0, h1, h2)" by (cases "dec d2")
  note lb = dec_enc_bits [OF assms l [unfolded d]]
    and mb = dec_enc_bits [OF assms m [unfolded d]]
    and hb = dec_enc_bits [OF assms h [unfolded d]]
  have b63: "bit d0 63 = bit x 21" "bit d1 63 = bit y 42" "bit d2 63 = bit z 63"
    unfolding d enc_bits(4) [OF assms(1)] by (simp_all add: word_bits)
  have xl: "n \<noteq> 21 \<Longrightarrow> bit l0 n = (n < 21 \<and> bit x n)" for n
    using lb(1) [where i = n] by (cases "n < 21") (simp_all add: xbits less_diff_conv2)
  have yl: "bit l1 n = (n < 21 \<and> bit y n)" for n
    using lb(3) [where i = n] by (cases "n < 21") (simp_all add: xbits less_diff_conv2)
  have zl: "bit l2 n = (n < 21 \<and> bit z n)" for n
    using lb(4) [where i = n] by (cases "n < 21") (simp_all add: xbits less_diff_conv2)
  have xm: "22 \<le> n \<Longrightarrow> bit m2 (n - 22) = (n < 43 \<and> bit x n)" for n
    using mb(4) [where i = "n - 22"] by (cases "n < 43") (simp_all add: xbits less_diff_conv2)
  have ym: "21 \<le> n \<Longrightarrow> n \<noteq> 42 \<Longrightarrow> bit m0 (n - 21) = (n < 42 \<and> bit y n)" for n
    using mb(1) [where i = "n - 21"] by (cases "n < 42") (simp_all add: xbits less_diff_conv2)
  have zm: "21 \<le> n \<Longrightarrow> bit m1 (n - 21) = (n < 42 \<and> bit z n)" for n
    using mb(3) [where i = "n - 21"] by (cases "n < 42") (simp_all add: xbits less_diff_conv2)
  have xh: "43 \<le> n \<Longrightarrow> bit h1 (n - 43) = (n < 64 \<and> bit x n)" for n
    using hb(3) [where i = "n - 43"] by (cases "n < 64") (simp_all add: xbits less_diff_conv2)
  have yh: "43 \<le> n \<Longrightarrow> bit h2 (n - 43) = (n < 64 \<and> bit y n)" for n
    using hb(4) [where i = "n - 43"] by (cases "n < 64") (simp_all add: xbits less_diff_conv2)
  have zh: "42 \<le> n \<Longrightarrow> n \<noteq> 63 \<Longrightarrow> bit h0 (n - 42) = (n < 63 \<and> bit z n)" for n
    using hb(1) [where i = "n - 42"] by (cases "n < 63") (simp_all add: xbits less_diff_conv2)
  have l21: "bit l0 21 \<Longrightarrow> bit x 21" and m21: "bit m0 21 \<Longrightarrow> bit y 42" and h21: "bit h0 21 \<Longrightarrow> bit z 63"
    using lb(2) mb(2) hb(2) by (simp_all add: xbits)
  have "l0 OR push_bit 21 (drop_bit 63 d0) OR push_bit 22 m2 OR push_bit (22 + 21) h1 = x"
  proof (rule bit_eqI)
    fix n :: nat
    consider "n < 21" | "n = 21" | "22 \<le> n" "n < 43" | "43 \<le> n" "n < 64" | "64 \<le> n" by linarith
    then show "bit (l0 OR push_bit 21 (drop_bit 63 d0) OR push_bit 22 m2 OR push_bit (22 + 21) h1) n = bit x n"
      unfolding obits using xl xm xh l21
      by cases (simp_all add: b63 far64, blast?)
  qed
  moreover have "l1 OR push_bit (21 + 21) (drop_bit 63 d1) OR push_bit 21 m0 OR push_bit (21 + 22) h2 = y"
  proof (rule bit_eqI)
    fix n :: nat
    consider "n < 21" | "21 \<le> n" "n < 42" | "n = 42" | "43 \<le> n" "n < 64" | "64 \<le> n" by linarith
    then show "bit (l1 OR push_bit (21 + 21) (drop_bit 63 d1) OR push_bit 21 m0 OR push_bit (21 + 22) h2) n = bit y n"
      unfolding obits using yl ym yh m21
      by cases (simp_all add: b63 far64, blast?)
  qed
  moreover have "l2 OR push_bit 63 (drop_bit 63 d2) OR push_bit 21 m1 OR push_bit (21 + 21) h0 = z"
  proof (rule bit_eqI)
    fix n :: nat
    consider "n < 21" | "21 \<le> n" "n < 42" | "42 \<le> n" "n < 63" | "n = 63" | "64 \<le> n" by linarith
    then show "bit (l2 OR push_bit 63 (drop_bit 63 d2) OR push_bit 21 m1 OR push_bit (21 + 21) h0) n = bit z n"
      unfolding obits using zl [of n] zm [of n] zh [of n] h21
      by cases (simp_all add: b63 far64, blast?)
  qed
  ultimately show ?thesis
    unfolding decode192_def d0_def [symmetric] d1_def [symmetric] d2_def [symmetric] l m h by simp
qed

lemma dec_masked_bits:
  assumes "libmorton_encodes enc" and "libmorton_decodes dec"
    and "dec (enc x y z AND mask n) = (x', y', z')"
  shows "i \<noteq> 21 \<Longrightarrow> bit x' i = (i < 21 \<and> 3 * i < n \<and> bit x i)"
    and "n \<le> 63 \<Longrightarrow> \<not> bit x' 21"
    and "bit y' i = (i < 21 \<and> 3 * i + 1 < n \<and> bit y i)"
    and "bit z' i = (i < 21 \<and> 3 * i + 2 < n \<and> bit z i)"
proof -
  note d = assms(2) [unfolded libmorton_decodes_def, rule_format, where w = "enc x y z AND mask n" and i = i,
      unfolded assms(3), simplified, unfolded word_bits]
  note e = enc_bits(1-3) [OF assms(1), where i = i and x = x and y = y and z = z]
  show "i \<noteq> 21 \<Longrightarrow> bit x' i = (i < 21 \<and> 3 * i < n \<and> bit x i)"
    using d e(1) by (cases "i < 21") (simp_all add: conj_ac)
  show "n \<le> 63 \<Longrightarrow> \<not> bit x' 21"
    using d by simp
  show "bit y' i = (i < 21 \<and> 3 * i + 1 < n \<and> bit y i)"
    using d e(2) by (cases "i < 21") (simp_all add: conj_ac)
  show "bit z' i = (i < 21 \<and> 3 * i + 2 < n \<and> bit z i)"
    using d e(3) by (cases "i < 21") (simp_all add: conj_ac)
qed

lemma word_bound_bit: "unat (x :: u64) < 2 ^ n \<Longrightarrow> n \<le> k \<Longrightarrow> \<not> bit x k"
  using nat_bit_less [of "unat x" n k] by (simp add: bit_unsigned_iff)

lemma encode128_shape:
  "encode128 enc [x, y, z] =
     [enc (narrow32 (x AND mask 22)) (narrow32 (y AND mask 21)) (narrow32 (z AND mask 21)),
      enc (narrow32 (drop_bit 21 y AND mask 22)) (narrow32 (drop_bit 21 z AND mask 21))
        (narrow32 (drop_bit 22 x AND mask 21)) AND mask 62]"
  by (simp add: encode128_def Let_def mask_eq_exp_minus_1)

text \<open>In the two-word form a position whose coordinates have at most 42 bits survives encoding and decoding.\<close>

theorem decode_encode_128:
  assumes "libmorton_encodes enc" and "libmorton_decodes dec"
    and "unat x < 2 ^ 42" and "unat y < 2 ^ 42" and "unat z < 2 ^ 42"
  shows "decode128 dec (encode128 enc [x, y, z]) = [x, y, z]"
proof -
  define d0 where "d0 = encode128 enc [x, y, z] ! 0"
  define d1 where "d1 = encode128 enc [x, y, z] ! 1"
  note d = d0_def [unfolded encode128_shape, simplified] d1_def [unfolded encode128_shape, simplified]
  obtain l0 l1 l2 where l: "dec d0 = (l0, l1, l2)" by (cases "dec d0")
  obtain m0 m1 m2 where m: "dec d1 = (m0, m1, m2)" by (cases "dec d1")
  note lb = dec_enc_bits [OF assms(1,2) l [unfolded d]]
    and mb = dec_masked_bits [OF assms(1,2) m [unfolded d]]
  have b: "bit x k \<Longrightarrow> k < 42" "bit y k \<Longrightarrow> k < 42" "bit z k \<Longrightarrow> k < 42" for k
    using word_bound_bit [OF assms(3), of k] word_bound_bit [OF assms(4), of k]
      word_bound_bit [OF assms(5), of k] by (auto simp: not_le [symmetric])
  have b63: "bit d0 63 = bit x 21" "\<not> bit d1 63"
    unfolding d bit_and_iff enc_bits(4) [OF assms(1)] by (simp_all add: word_bits)
  have xl: "n \<noteq> 21 \<Longrightarrow> bit l0 n = (n < 21 \<and> bit x n)" for n
    using lb(1) [where i = n] by (cases "n < 21") (simp_all add: xbits)
  have yl: "bit l1 n = (n < 21 \<and> bit y n)" for n
    using lb(3) [where i = n] by (cases "n < 21") (simp_all add: xbits)
  have zl: "bit l2 n = (n < 21 \<and> bit z n)" for n
    using lb(4) [where i = n] by (cases "n < 21") (simp_all add: xbits)
  have xm: "22 \<le> n \<Longrightarrow> bit m2 (n - 22) = (n < 42 \<and> bit x n)" for n
    using mb(4) [where i = "n - 22"] by (cases "n < 42") (simp_all add: xbits less_diff_conv2)
  have m62: "n < 42 \<Longrightarrow> 3 * (n - 21) < 62" and m61: "n < 42 \<Longrightarrow> 3 * (n - 21) < 61" for n :: nat
    by linarith+
  have ym: "21 \<le> n \<Longrightarrow> bit m0 (n - 21) = (n < 42 \<and> bit y n)" for n
    using mb(1) [where i = "n - 21"] mb(2) m62 [of n] by (cases "n < 42"; cases "n = 42") (simp_all add: xbits less_diff_conv2)
  have zm: "21 \<le> n \<Longrightarrow> bit m1 (n - 21) = (n < 42 \<and> bit z n)" for n
    using mb(3) [where i = "n - 21"] m61 [of n] by (cases "n < 42") (simp_all add: xbits less_diff_conv2)
  have l21: "bit l0 21 \<Longrightarrow> bit x 21" using lb(2) by (simp add: xbits)
  have "l0 OR push_bit 21 (drop_bit 63 d0) OR push_bit 22 m2 = x"
  proof (rule bit_eqI)
    fix n :: nat
    consider "n < 21" | "n = 21" | "22 \<le> n" "n < 64" | "64 \<le> n" by linarith
    then show "bit (l0 OR push_bit 21 (drop_bit 63 d0) OR push_bit 22 m2) n = bit x n"
      unfolding obits using xl [of n] xm [of n] l21 b(1) [of n]
      by cases (simp_all add: b63 far64, blast+)
  qed
  moreover have "l1 OR push_bit (21 + 21) (drop_bit 63 d1) OR push_bit 21 m0 = y"
  proof (rule bit_eqI)
    fix n :: nat
    consider "n < 21" | "21 \<le> n" "n < 64" | "64 \<le> n" by linarith
    then show "bit (l1 OR push_bit (21 + 21) (drop_bit 63 d1) OR push_bit 21 m0) n = bit y n"
      unfolding obits using yl [of n] ym [of n] b(2) [of n]
      by cases (simp_all add: b63 far64, blast+)
  qed
  moreover have "l2 OR push_bit 21 m1 = z"
  proof (rule bit_eqI)
    fix n :: nat
    consider "n < 21" | "21 \<le> n" "n < 64" | "64 \<le> n" by linarith
    then show "bit (l2 OR push_bit 21 m1) n = bit z n"
      unfolding obits using zl [of n] zm [of n] b(3) [of n]
      by cases (simp_all add: far64, blast+)
  qed
  ultimately show ?thesis
    unfolding decode128_def d0_def [symmetric] d1_def [symmetric] l m by simp
qed

theorem decode_encode_64:
  assumes "libmorton_encodes enc" and "libmorton_decodes dec"
    and "unat x < 2 ^ 21" and "unat y < 2 ^ 21" and "unat z < 2 ^ 21"
  shows "decode64 dec (encode64 enc [x, y, z]) = [x, y, z]"
proof -
  define d0 where "d0 = encode64 enc [x, y, z] ! 0"
  have d: "d0 = enc (narrow32 x) (narrow32 y) (narrow32 z) AND mask 63"
    by (simp add: d0_def encode64_def Let_def mask_eq_exp_minus_1)
  obtain l0 l1 l2 where l: "dec d0 = (l0, l1, l2)" by (cases "dec d0")
  note lb = dec_masked_bits [OF assms(1,2) l [unfolded d]]
  have b: "bit x k \<Longrightarrow> k < 21" "bit y k \<Longrightarrow> k < 21" "bit z k \<Longrightarrow> k < 21" for k
    using word_bound_bit [OF assms(3), of k] word_bound_bit [OF assms(4), of k]
      word_bound_bit [OF assms(5), of k] by (auto simp: not_le [symmetric])
  have b63: "\<not> bit d0 63" unfolding d bit_and_iff by (simp add: bit_mask_iff)
  have "l0 OR push_bit 21 (drop_bit 63 d0) = x"
  proof (rule bit_eqI)
    fix n :: nat
    show "bit (l0 OR push_bit 21 (drop_bit 63 d0)) n = bit x n"
      unfolding obits using lb(1) [where i = n] lb(2) b(1) [of n] b63
      by (cases "n < 21"; cases "n = 21") (auto simp: xbits)
  qed
  moreover have "l1 = y"
    by (rule bit_eqI, use lb(3) b(2) in \<open>simp add: xbits, fastforce\<close>)
  moreover have "l2 = z"
    by (rule bit_eqI, use lb(4) b(3) in \<open>simp add: xbits, fastforce\<close>)
  ultimately show ?thesis
    unfolding decode64_def d0_def [symmetric] l by simp
qed

section \<open>Concrete kernels\<close>

text \<open>A bit-by-bit encoder and decoder that meet the two contracts.\<close>

definition interleave3 :: enc3 where
  "interleave3 x y z =
     horner_sum of_bool 2 (map (\<lambda>k. bit ([x, y, z] ! (k mod 3)) (k div 3)) [0..<64])"

definition deinterleave3 :: dec3 where
  "deinterleave3 w =
     (horner_sum of_bool 2 (map (\<lambda>i. bit w (3 * i)) [0..<21]),
      horner_sum of_bool 2 (map (\<lambda>i. bit w (3 * i + 1)) [0..<21]),
      horner_sum of_bool 2 (map (\<lambda>i. bit w (3 * i + 2)) [0..<21]))"

lemma interleave3_encodes: "libmorton_encodes interleave3"
  by (auto simp: libmorton_encodes_def interleave3_def bit_horner_sum_bit_iff)

lemma deinterleave3_decodes: "libmorton_decodes deinterleave3"
  by (auto simp: libmorton_decodes_def deinterleave3_def bit_horner_sum_bit_iff)

theorem decode_encode_192_witness:
  "libmorton_encodes interleave3 \<and> libmorton_decodes deinterleave3 \<and>
   decode192 deinterleave3 (encode192 interleave3 [1, 2 ^ 63, 12345]) = [1, 2 ^ 63, 12345]"
  using decode_encode_192 [OF interleave3_encodes deinterleave3_decodes, of 1 "2 ^ 63" 12345]
    interleave3_encodes deinterleave3_decodes by blast

theorem decode_encode_128_witness:
  "decode128 deinterleave3 (encode128 interleave3 [1, 2 ^ 41, 12345]) = [1, 2 ^ 41, 12345]"
  by (rule decode_encode_128 [OF interleave3_encodes deinterleave3_decodes]) simp_all

theorem downcast_create_min_roundtrip_witness:
  "morton_upcast 3 (morton_downcast (length ([0] :: 64 morton)) [5, 6, 7 :: u64] :: 64 morton)
     (create_min_for_downcast ([0] :: 64 morton) [5, 6, 7]) = [5, 6, 7]"
  by (rule downcast_create_min_roundtrip) simp_all

end
