(* ===== verification/Preprocess.thy ===== *)
theory Preprocess
  imports Morton MemoryIO
begin

text \<open>
  \<open>src/src/core/compression_preprocess.cpp\<close>: the reversible transformations applied to a buffer
  before compression: delta coding of morton codes, of single integers and of triples of 16-bit
  integers, the decorrelation of colour triples, sorting with a stored permutation, and the removal
  of constant byte bands. A buffer is a list of bytes; the \<open>size\<close> argument of the code is its
  length. The buffers are changed in place: \<open>chunk n d i\<close> is the element the code reads at
  \<open>data + i * n\<close> and \<open>put_chunk\<close> the \<open>memcpy\<close> that overwrites it.

  The locale \<open>delta_codec\<close> is the contract between the in-place loops and the arithmetic on one
  element: adding back what was subtracted gives the element again. It is interpreted on each of
  the program's element types. The floating-point offset (\<open>offset_subtract_f64\<close>) is not modelled.
\<close>

section \<open>Elements of a buffer\<close>

definition chunk :: "nat \<Rightarrow> bytes \<Rightarrow> nat \<Rightarrow> bytes" where
  "chunk n d i = take n (drop (i * n) d)"

definition put_chunk :: "nat \<Rightarrow> bytes \<Rightarrow> nat \<Rightarrow> bytes \<Rightarrow> bytes" where
  "put_chunk n d i v = take (i * n) d @ v @ drop (i * n + n) d"

lemma length_chunk [simp]: "(i + 1) * n \<le> length d \<Longrightarrow> length (chunk n d i) = n"
  by (simp add: chunk_def algebra_simps)

lemma length_put_chunk [simp]:
  "(i + 1) * n \<le> length d \<Longrightarrow> length v = n \<Longrightarrow> length (put_chunk n d i v) = length d"
  by (simp add: put_chunk_def)

lemma chunk_put_same:
  "(i + 1) * n \<le> length d \<Longrightarrow> length v = n \<Longrightarrow> chunk n (put_chunk n d i v) i = v"
  by (simp add: chunk_def put_chunk_def)

lemma take_drop_splice:
  assumes "p + n \<le> length d" and "length v = n" and "q + n \<le> p \<or> p + n \<le> q"
  shows "take n (drop q (take p d @ v @ drop (p + n) d)) = take n (drop q d)"
  using assms(3)
proof
  assume q: "q + n \<le> p"
  then have "drop q (take p d @ v @ drop (p + n) d) = drop q (take p d) @ v @ drop (p + n) d"
    using assms(1) by simp
  moreover have "length (drop q (take p d)) = p - q" using assms(1) by simp
  ultimately have "take n (drop q (take p d @ v @ drop (p + n) d)) = take n (drop q (take p d))"
    using q by simp
  then show ?thesis using q by (simp add: drop_take)
next
  assume q: "p + n \<le> q"
  then have "drop q (take p d @ v @ drop (p + n) d) = drop (q - (p + n)) (drop (p + n) d)"
    using assms(1,2) by (simp add: diff_diff_left)
  also have "\<dots> = drop q d" using q by simp
  finally show ?thesis by simp
qed

lemma chunk_put_other:
  assumes "(i + 1) * n \<le> length d" and "length v = n" and "i \<noteq> j"
  shows "chunk n (put_chunk n d i v) j = chunk n d j"
proof -
  have "(j + 1) * n \<le> i * n \<or> (i + 1) * n \<le> j * n"
  proof (cases "j < i")
    case True
    then have "(j + 1) * n \<le> i * n" by (intro mult_le_mono1) simp
    then show ?thesis ..
  next
    case False
    then have "(i + 1) * n \<le> j * n" using assms(3) by (intro mult_le_mono1) simp
    then show ?thesis ..
  qed
  then show ?thesis
    unfolding chunk_def put_chunk_def using assms(1,2) by (intro take_drop_splice) (auto simp: add.commute)
qed

lemma drop_put_chunk:
  "(i + 1) * n \<le> m \<Longrightarrow> (i + 1) * n \<le> length d \<Longrightarrow> length v = n \<Longrightarrow>
   drop m (put_chunk n d i v) = drop m d"
  by (simp add: put_chunk_def algebra_simps)

lemma chunks_ext:
  assumes "length d = length e" and "c * n \<le> length d"
    and "\<And>i. i < c \<Longrightarrow> chunk n d i = chunk n e i" and "drop (c * n) d = drop (c * n) e"
  shows "d = e"
proof -
  have "take (k * n) d = take (k * n) e" if "k \<le> c" for k
    using that
  proof (induction k)
    case 0
    then show ?case by simp
  next
    case (Suc k)
    have "take (k * n + n) d = take (k * n) d @ chunk n d k" for d
      by (simp add: chunk_def take_add)
    moreover have "take (k * n) d = take (k * n) e" "chunk n d k = chunk n e k"
      using Suc assms(3) by simp_all
    ultimately show ?case by (simp add: add.commute)
  qed
  from this [of c] assms(4) show ?thesis by (metis append_take_drop_id order_refl)
qed

section \<open>Delta coding in place\<close>

text \<open>
  The two loops every delta coder is: \<open>for (i = count - 1; i > 0; i--)\<close> replaces element \<open>i\<close> by
  \<open>op(element i, element i - 1)\<close>, and \<open>for (i = 1; i < count; i++)\<close> does so front to back.
\<close>

definition delta_step :: "nat \<Rightarrow> (bytes \<Rightarrow> bytes \<Rightarrow> bytes) \<Rightarrow> nat \<Rightarrow> bytes \<Rightarrow> bytes" where
  "delta_step n f i d = put_chunk n d i (f (chunk n d i) (chunk n d (i - 1)))"

definition delta_backward :: "nat \<Rightarrow> (bytes \<Rightarrow> bytes \<Rightarrow> bytes) \<Rightarrow> nat \<Rightarrow> bytes \<Rightarrow> bytes" where
  "delta_backward n f count d = fold (delta_step n f) (rev [1..<count]) d"

definition delta_forward :: "nat \<Rightarrow> (bytes \<Rightarrow> bytes \<Rightarrow> bytes) \<Rightarrow> nat \<Rightarrow> bytes \<Rightarrow> bytes" where
  "delta_forward n f count d = fold (delta_step n f) [1..<count] d"

locale delta_codec =
  fixes n :: nat and sub add :: "bytes \<Rightarrow> bytes \<Rightarrow> bytes"
  assumes sub_length: "length a = n \<Longrightarrow> length b = n \<Longrightarrow> length (sub a b) = n"
    and add_length: "length a = n \<Longrightarrow> length b = n \<Longrightarrow> length (add a b) = n"
    and add_sub: "length a = n \<Longrightarrow> length b = n \<Longrightarrow> add (sub a b) b = a"
begin

lemma step_fits:
  assumes "(i + 1) * n \<le> length d" and "f = sub \<or> f = add"
  shows "length (f (chunk n d i) (chunk n d (i - 1))) = n"
proof -
  have "(i - 1 + 1) * n \<le> length d"
    by (rule order_trans [OF _ assms(1)]) (intro mult_le_mono, simp_all)
  then have "length (chunk n d i) = n" "length (chunk n d (i - 1)) = n"
    using assms(1) by (simp_all only: length_chunk)
  then show ?thesis using assms(2) sub_length add_length by blast
qed

lemma step_facts:
  assumes "(i + 1) * n \<le> length d" and "f = sub \<or> f = add"
  shows "length (delta_step n f i d) = length d"
    and "chunk n (delta_step n f i d) i = f (chunk n d i) (chunk n d (i - 1))"
    and "i \<noteq> j \<Longrightarrow> chunk n (delta_step n f i d) j = chunk n d j"
    and "(i + 1) * n \<le> m \<Longrightarrow> drop m (delta_step n f i d) = drop m d"
  using assms(1) step_fits [OF assms] unfolding delta_step_def
  by (simp_all only: length_put_chunk chunk_put_same drop_put_chunk) (rule chunk_put_other)

lemma backward_facts:
  assumes "count * n \<le> length d"
  shows "length (delta_backward n sub count d) = length d \<and>
    drop (count * n) (delta_backward n sub count d) = drop (count * n) d \<and>
    (\<forall>i < count. chunk n (delta_backward n sub count d) i =
       (if i = 0 then chunk n d 0 else sub (chunk n d i) (chunk n d (i - 1)))) \<and>
    (\<forall>i \<ge> count. chunk n (delta_backward n sub count d) i = chunk n d i)"
  using assms
proof (induction count arbitrary: d)
  case 0
  then show ?case by (simp add: delta_backward_def)
next
  case (Suc c)
  show ?case
  proof (cases "c = 0")
    case True
    then show ?thesis by (simp add: delta_backward_def)
  next
    case False
    let ?d = "delta_step n sub c d"
    have eq: "delta_backward n sub (Suc c) d = delta_backward n sub c ?d"
      using False by (simp add: delta_backward_def)
    have fit: "(c + 1) * n \<le> length d" using Suc.prems by simp
    note s = step_facts [OF fit, of sub, simplified]
    have "c * n \<le> length ?d" using fit s(1) by simp
    note IH = Suc.IH [OF this, folded eq, unfolded s(1)]
    have "drop (Suc c * n) (delta_backward n sub (Suc c) d) = drop n (drop (c * n) (delta_backward n sub (Suc c) d))"
      by (simp add: add.commute)
    also have "\<dots> = drop (Suc c * n) ?d" using IH by (simp add: add.commute)
    also have "\<dots> = drop (Suc c * n) d" using s(4) by simp
    finally show ?thesis
      using IH s(2) s(3) False by (auto simp: less_Suc_eq)
  qed
qed

lemma forward_facts:
  assumes "count * n \<le> length e" and "length d = length e"
    and "\<And>i. i < count \<Longrightarrow> chunk n e i =
       (if i = 0 then chunk n d 0 else sub (chunk n d i) (chunk n d (i - 1)))"
  shows "length (delta_forward n add count e) = length e \<and>
    drop (count * n) (delta_forward n add count e) = drop (count * n) e \<and>
    (\<forall>i < count. chunk n (delta_forward n add count e) i = chunk n d i) \<and>
    (\<forall>i \<ge> count. chunk n (delta_forward n add count e) i = chunk n e i)"
  using assms
proof (induction count)
  case 0
  then show ?case by (simp add: delta_forward_def)
next
  case (Suc c)
  show ?case
  proof (cases "c = 0")
    case True
    then show ?thesis using Suc.prems(3) [of 0] by (simp add: delta_forward_def)
  next
    case False
    let ?d = "delta_forward n add c e"
    have eq: "delta_forward n add (Suc c) e = delta_step n add c ?d"
      using False by (simp add: delta_forward_def)
    have fit: "(c + 1) * n \<le> length e" using Suc.prems by simp
    have IH: "length ?d = length e" "drop (c * n) ?d = drop (c * n) e"
      "\<And>i. i < c \<Longrightarrow> chunk n ?d i = chunk n d i" "\<And>i. c \<le> i \<Longrightarrow> chunk n ?d i = chunk n e i"
      using Suc fit by auto
    note s = step_facts [of c ?d add, unfolded IH(1), OF fit, simplified, folded eq]
    have lens: "length (chunk n d c) = n" "length (chunk n d (c - 1)) = n"
      using fit Suc.prems(2) False le_trans [OF mult_le_mono1 [of "c - 1 + 1" "c + 1" n] fit]
      by (simp_all only: length_chunk)
    have "chunk n (delta_forward n add (Suc c) e) c = add (chunk n e c) (chunk n d (c - 1))"
      using s(2) IH(3) [of "c - 1"] IH(4) [of c] False by simp
    also have "\<dots> = chunk n d c"
      using Suc.prems(3) [of c] False lens by (simp add: add_sub)
    finally have c: "chunk n (delta_forward n add (Suc c) e) c = chunk n d c" .
    have "drop (Suc c * n) ?d = drop n (drop (c * n) ?d)" by (simp add: add.commute)
    also have "\<dots> = drop (Suc c * n) e" unfolding IH(2) by (simp add: add.commute)
    finally show ?thesis
      using IH s(1) s(3) c s(4) [of "Suc c * n"] by (auto simp: less_Suc_eq)
  qed
qed

theorem forward_backward:
  assumes "count * n \<le> length d"
  shows "delta_forward n add count (delta_backward n sub count d) = d"
proof -
  let ?e = "delta_backward n sub count d"
  have b: "length ?e = length d" "drop (count * n) ?e = drop (count * n) d"
    "\<And>i. i < count \<Longrightarrow> chunk n ?e i = (if i = 0 then chunk n d 0 else sub (chunk n d i) (chunk n d (i - 1)))"
    using backward_facts [OF assms] by blast+
  have "count * n \<le> length ?e" using b(1) assms by simp
  note f = forward_facts [OF this b(1) [symmetric] b(3)]
  show ?thesis
  proof (rule chunks_ext [where c = count and n = n])
    show "length (delta_forward n add count ?e) = length d" using f b(1) by simp
    show "drop (count * n) (delta_forward n add count ?e) = drop (count * n) d" using f b(2) by simp
    show "chunk n (delta_forward n add count ?e) i = chunk n d i" if "i < count" for i
      using f that by blast
  qed (use f b(1) assms in simp)
qed

end

section \<open>Arithmetic on one element\<close>

text \<open>\<open>memcpy(&v, a + k, sizeof v)\<close> into an integer variable of the given width.\<close>

definition word_at :: "bytes \<Rightarrow> nat \<Rightarrow> 'a::len word" where
  "word_at a k = bytes_word (take (LENGTH('a) div 8) (drop k a))"

definition less_than_u32 :: "bytes \<Rightarrow> bytes \<Rightarrow> bool" where
  "less_than_u32 a b \<longleftrightarrow> (word_at a 0 :: u32) < word_at b 0"

definition less_than_u64 :: "bytes \<Rightarrow> bytes \<Rightarrow> bool" where
  "less_than_u64 a b \<longleftrightarrow> (word_at a 0 :: u64) < word_at b 0"

definition less_than_u128 :: "bytes \<Rightarrow> bytes \<Rightarrow> bool" where
  "less_than_u128 a b =
     (let a0 = word_at a 0 :: u64; a1 = word_at a 8 :: u64; b0 = word_at b 0; b1 = word_at b 8 in
      if a1 \<noteq> b1 then a1 < b1 else a0 < b0)"

definition less_than_u192 :: "bytes \<Rightarrow> bytes \<Rightarrow> bool" where
  "less_than_u192 a b =
     (let a0 = word_at a 0 :: u64; a1 = word_at a 8 :: u64; a2 = word_at a 16 :: u64;
          b0 = word_at b 0; b1 = word_at b 8; b2 = word_at b 16 in
      if a2 \<noteq> b2 then a2 < b2 else if a1 \<noteq> b1 then a1 < b1 else a0 < b0)"

definition sub_u32 :: "bytes \<Rightarrow> bytes \<Rightarrow> bytes" where
  "sub_u32 a b = word_bytes (word_at a 0 - word_at b 0 :: u32)"

definition sub_u64 :: "bytes \<Rightarrow> bytes \<Rightarrow> bytes" where
  "sub_u64 a b = word_bytes (word_at a 0 - word_at b 0 :: u64)"

definition sub_u128 :: "bytes \<Rightarrow> bytes \<Rightarrow> bytes" where
  "sub_u128 a b =
     (let a0 = word_at a 0 :: u64; a1 = word_at a 8 :: u64; b0 = word_at b 0; b1 = word_at b 8;
          r0 = a0 - b0;
          borrow = (if a0 < b0 then 1 else 0);
          r1 = a1 - b1 - borrow
      in word_bytes r0 @ word_bytes r1)"

definition sub_u192 :: "bytes \<Rightarrow> bytes \<Rightarrow> bytes" where
  "sub_u192 a b =
     (let a0 = word_at a 0 :: u64; a1 = word_at a 8 :: u64; a2 = word_at a 16 :: u64;
          b0 = word_at b 0; b1 = word_at b 8; b2 = word_at b 16;
          r0 = a0 - b0;
          borrow = (if a0 < b0 then 1 else 0);
          r1 = a1 - b1 - borrow;
          borrow = (if a1 < b1 + borrow \<or> (borrow \<noteq> 0 \<and> b1 = - 1) then 1 else 0);
          r2 = a2 - b2 - borrow
      in word_bytes r0 @ word_bytes r1 @ word_bytes r2)"

definition add_u32 :: "bytes \<Rightarrow> bytes \<Rightarrow> bytes" where
  "add_u32 a b = word_bytes (word_at a 0 + word_at b 0 :: u32)"

definition add_u64 :: "bytes \<Rightarrow> bytes \<Rightarrow> bytes" where
  "add_u64 a b = word_bytes (word_at a 0 + word_at b 0 :: u64)"

definition add_u128 :: "bytes \<Rightarrow> bytes \<Rightarrow> bytes" where
  "add_u128 a b =
     (let a0 = word_at a 0 :: u64; a1 = word_at a 8 :: u64; b0 = word_at b 0; b1 = word_at b 8;
          r0 = a0 + b0;
          carry = (if r0 < a0 then 1 else 0);
          r1 = a1 + b1 + carry
      in word_bytes r0 @ word_bytes r1)"

definition add_u192 :: "bytes \<Rightarrow> bytes \<Rightarrow> bytes" where
  "add_u192 a b =
     (let a0 = word_at a 0 :: u64; a1 = word_at a 8 :: u64; a2 = word_at a 16 :: u64;
          b0 = word_at b 0; b1 = word_at b 8; b2 = word_at b 16;
          r0 = a0 + b0;
          carry = (if r0 < a0 then 1 else 0);
          r1 = a1 + b1 + carry;
          carry = (if r1 < a1 \<or> (carry \<noteq> 0 \<and> r1 = a1) then 1 else 0);
          r2 = a2 + b2 + carry
      in word_bytes r0 @ word_bytes r1 @ word_bytes r2)"

record morton_ops =
  ops_less :: "bytes \<Rightarrow> bytes \<Rightarrow> bool"
  ops_sub :: "bytes \<Rightarrow> bytes \<Rightarrow> bytes"
  ops_add :: "bytes \<Rightarrow> bytes \<Rightarrow> bytes"

text \<open>The default case of the switch returns null pointers: \<open>None\<close>.\<close>

definition get_morton_ops :: "nat \<Rightarrow> morton_ops option" where
  "get_morton_ops type_size =
     (if type_size = 4 then Some \<lparr>ops_less = less_than_u32, ops_sub = sub_u32, ops_add = add_u32\<rparr>
      else if type_size = 8 then Some \<lparr>ops_less = less_than_u64, ops_sub = sub_u64, ops_add = add_u64\<rparr>
      else if type_size = 16 then Some \<lparr>ops_less = less_than_u128, ops_sub = sub_u128, ops_add = add_u128\<rparr>
      else if type_size = 24 then Some \<lparr>ops_less = less_than_u192, ops_sub = sub_u192, ops_add = add_u192\<rparr>
      else None)"

definition delta_encode_morton :: "bytes \<Rightarrow> nat \<Rightarrow> bool \<times> bytes" where
  "delta_encode_morton data type_size =
     (if type_size = 0 \<or> length data < type_size then (False, data)
      else case get_morton_ops type_size of
        None \<Rightarrow> (False, data)
      | Some ops \<Rightarrow>
          (let count = length data div type_size in
           if count \<le> 1 then (True, data)
           else if \<exists>i \<in> set [1..<count]. ops_less ops (chunk type_size data i) (chunk type_size data (i - 1))
           then (False, data)
           else (True, delta_backward type_size (ops_sub ops) count data)))"

definition delta_decode_morton :: "bytes \<Rightarrow> nat \<Rightarrow> bytes" where
  "delta_decode_morton data type_size =
     (if type_size = 0 \<or> length data < type_size then data
      else case get_morton_ops type_size of
        None \<Rightarrow> data
      | Some ops \<Rightarrow> delta_forward type_size (ops_add ops) (length data div type_size) data)"

section \<open>Integers and colour triples\<close>

definition sub_elem :: "'a::len itself \<Rightarrow> bytes \<Rightarrow> bytes \<Rightarrow> bytes" where
  "sub_elem T a b = word_bytes (word_at a 0 - word_at b 0 :: 'a word)"

definition add_elem :: "'a::len itself \<Rightarrow> bytes \<Rightarrow> bytes \<Rightarrow> bytes" where
  "add_elem T a b = word_bytes (word_at a 0 + word_at b 0 :: 'a word)"

definition delta_encode_single :: "bytes \<Rightarrow> nat \<Rightarrow> bytes" where
  "delta_encode_single data element_size =
     (let count = length data div element_size in
      if count \<le> 1 then data
      else if element_size = 1 then delta_backward 1 (sub_elem TYPE(8)) count data
      else if element_size = 2 then delta_backward 2 (sub_elem TYPE(16)) count data
      else if element_size = 4 then delta_backward 4 (sub_elem TYPE(32)) count data
      else if element_size = 8 then delta_backward 8 (sub_elem TYPE(64)) count data
      else data)"

definition delta_decode_single :: "bytes \<Rightarrow> nat \<Rightarrow> bytes" where
  "delta_decode_single data element_size =
     (let count = length data div element_size in
      if count \<le> 1 then data
      else if element_size = 1 then delta_forward 1 (add_elem TYPE(8)) count data
      else if element_size = 2 then delta_forward 2 (add_elem TYPE(16)) count data
      else if element_size = 4 then delta_forward 4 (add_elem TYPE(32)) count data
      else if element_size = 8 then delta_forward 8 (add_elem TYPE(64)) count data
      else data)"

definition sub_u16x3 :: "bytes \<Rightarrow> bytes \<Rightarrow> bytes" where
  "sub_u16x3 cur prv =
     concat (map (\<lambda>c. word_bytes (word_at cur (c * 2) - word_at prv (c * 2) :: u16)) [0..<3])"

definition add_u16x3 :: "bytes \<Rightarrow> bytes \<Rightarrow> bytes" where
  "add_u16x3 cur prv =
     concat (map (\<lambda>c. word_bytes (word_at cur (c * 2) + word_at prv (c * 2) :: u16)) [0..<3])"

definition delta_encode_u16x3 :: "bytes \<Rightarrow> bytes" where
  "delta_encode_u16x3 data =
     (let count = length data div 6 in
      if count \<le> 1 then data else delta_backward 6 sub_u16x3 count data)"

definition delta_decode_u16x3 :: "bytes \<Rightarrow> bytes" where
  "delta_decode_u16x3 data =
     (let count = length data div 6 in
      if count \<le> 1 then data else delta_forward 6 add_u16x3 count data)"

definition decorrelate_elem :: "bytes \<Rightarrow> bytes" where
  "decorrelate_elem e =
     (let r = word_at e 0 :: u16; g = word_at e 2 :: u16; b = word_at e 4 :: u16;
          dr = r - g; db = b - g
      in word_bytes g @ word_bytes dr @ word_bytes db)"

definition correlate_elem :: "bytes \<Rightarrow> bytes" where
  "correlate_elem e =
     (let g = word_at e 0 :: u16; dr = word_at e 2 :: u16; db = word_at e 4 :: u16;
          r = dr + g; b = db + g
      in word_bytes r @ word_bytes g @ word_bytes b)"

definition decorrelate_u16x3 :: "bytes \<Rightarrow> bytes" where
  "decorrelate_u16x3 data =
     fold (\<lambda>i d. put_chunk 6 d i (decorrelate_elem (chunk 6 d i))) [0..<length data div 6] data"

definition correlate_u16x3 :: "bytes \<Rightarrow> bytes" where
  "correlate_u16x3 data =
     fold (\<lambda>i d. put_chunk 6 d i (correlate_elem (chunk 6 d i))) [0..<length data div 6] data"

section \<open>The arithmetic satisfies the contract\<close>

lemma word_at_self:
  assumes "8 dvd LENGTH('a::len)"
  shows "word_at (word_bytes w @ r) 0 = (w :: 'a word)"
  using assms by (simp add: word_at_def bytes_word_bytes)

lemma word_at_next:
  "length p = k \<Longrightarrow> word_at (p @ r) (k + j) = word_at r j"
  "length p = k \<Longrightarrow> word_at (p @ r) k = word_at r 0"
  by (simp_all add: word_at_def)

lemma word_bytes_at:
  assumes "8 dvd LENGTH('a::len)" and "k + LENGTH('a) div 8 \<le> length a"
  shows "word_bytes (word_at a k :: 'a word) = take (LENGTH('a) div 8) (drop k a)"
  unfolding word_at_def using assms by (intro word_bytes_word) simp_all

lemma split_element:
  "length a = 16 \<Longrightarrow> take 8 a @ take 8 (drop 8 a) = a"
  "length a = 24 \<Longrightarrow> take 8 a @ take 8 (drop 8 a) @ take 8 (drop 16 a) = a"
  "length a = 6 \<Longrightarrow> take 2 a @ take 2 (drop 2 a) @ take 2 (drop 4 a) = a"
proof -
  have t: "take n (drop k a) @ drop (k + n) a = drop k a" for n k
    by (metis append_take_drop_id drop_drop add.commute)
  show "length a = 16 \<Longrightarrow> take 8 a @ take 8 (drop 8 a) = a"
    by simp
  show "length a = 24 \<Longrightarrow> take 8 a @ take 8 (drop 8 a) @ take 8 (drop 16 a) = a"
    using t [of 8 8] t [of 8 0] by simp
  show "length a = 6 \<Longrightarrow> take 2 a @ take 2 (drop 2 a) @ take 2 (drop 4 a) = a"
    using t [of 2 2] t [of 2 0] by simp
qed

lemma element_words:
  "length a = 4 \<Longrightarrow> word_bytes (word_at a 0 :: u32) = a"
  "length a = 8 \<Longrightarrow> word_bytes (word_at a 0 :: u64) = a"
  "length a = 16 \<Longrightarrow> word_bytes (word_at a 0 :: u64) @ word_bytes (word_at a 8 :: u64) = a"
  "length a = 24 \<Longrightarrow> word_bytes (word_at a 0 :: u64) @ word_bytes (word_at a 8 :: u64) @
     word_bytes (word_at a 16 :: u64) = a"
  "length a = 6 \<Longrightarrow> word_bytes (word_at a 0 :: u16) @ word_bytes (word_at a 2 :: u16) @
     word_bytes (word_at a 4 :: u16) = a"
  using split_element [of a] by (simp_all add: word_bytes_at)

lemma borrow_iff: "(a :: 'a::len word) < a - b \<longleftrightarrow> a < b"
  by unat_arith

lemma borrow_in_iff: "(a :: 'a::len word) \<le> a - b - 1 \<longleftrightarrow> a < b + 1 \<or> b = - 1"
proof (cases "b = - 1")
  case True
  then show ?thesis by simp
next
  case False
  then have "b + 1 \<noteq> 0" by (simp add: eq_neg_iff_add_eq_0)
  then have "a \<noteq> a - (b + 1)" by (simp add: eq_diff_eq)
  then have "a \<le> a - (b + 1) \<longleftrightarrow> a < a - (b + 1)" by (simp only: order.order_iff_strict simp_thms)
  also have "\<dots> \<longleftrightarrow> a < b + 1" by (rule borrow_iff)
  finally show ?thesis using False by (simp only: diff_diff_eq simp_thms)
qed

lemma upto3: "[0..<3] = [0, 1, 2 :: nat]"
  by (simp add: upt_rec)

lemma word_at_words:
  fixes r0 r1 r2 :: "'a::len word"
  assumes "8 dvd LENGTH('a)" and "n = LENGTH('a) div 8"
  shows "word_at (word_bytes r0 @ word_bytes r1 @ word_bytes r2) 0 = r0"
    and "word_at (word_bytes r0 @ word_bytes r1 @ word_bytes r2) n = r1"
    and "m = n + n \<Longrightarrow> word_at (word_bytes r0 @ word_bytes r1 @ word_bytes r2) m = r2"
    and "word_at (word_bytes r0 @ word_bytes r1) 0 = r0"
    and "word_at (word_bytes r0 @ word_bytes r1) n = r1"
  using assms word_at_self [OF assms(1), of r1 "[]"] word_at_self [OF assms(1), of r2 "[]"]
  by (simp_all add: word_at_self word_at_next)

lemma word_at_u64s:
  fixes r0 r1 r2 :: u64
  shows "word_at (word_bytes r0 @ word_bytes r1 @ word_bytes r2) 0 = r0"
    and "word_at (word_bytes r0 @ word_bytes r1 @ word_bytes r2) 8 = r1"
    and "word_at (word_bytes r0 @ word_bytes r1 @ word_bytes r2) 16 = r2"
    and "word_at (word_bytes r0 @ word_bytes r1) 0 = r0"
    and "word_at (word_bytes r0 @ word_bytes r1) 8 = r1"
  by (simp_all add: word_at_words [where 'a = 64 and n = 8])

lemma word_at_u16s:
  fixes r0 r1 r2 :: u16
  shows "word_at (word_bytes r0 @ word_bytes r1 @ word_bytes r2) 0 = r0"
    and "word_at (word_bytes r0 @ word_bytes r1 @ word_bytes r2) 2 = r1"
    and "word_at (word_bytes r0 @ word_bytes r1 @ word_bytes r2) 4 = r2"
  by (simp_all add: word_at_words [where 'a = 16 and n = 2])

lemma length_sub_words [simp]:
  "length (sub_u32 a b) = 4" "length (sub_u64 a b) = 8" "length (sub_u128 a b) = 16"
  "length (sub_u192 a b) = 24" "length (sub_u16x3 a b) = 6"
  by (simp_all add: sub_u32_def sub_u64_def sub_u128_def sub_u192_def sub_u16x3_def Let_def upto3)

lemma length_add_words [simp]:
  "length (add_u32 a b) = 4" "length (add_u64 a b) = 8" "length (add_u128 a b) = 16"
  "length (add_u192 a b) = 24" "length (add_u16x3 a b) = 6"
  by (simp_all add: add_u32_def add_u64_def add_u128_def add_u192_def add_u16x3_def Let_def upto3)

lemma add_sub_u128: "length a = 16 \<Longrightarrow> add_u128 (sub_u128 a b) b = a"
proof -
  assume len: "length a = 16"
  show ?thesis
    using element_words(3) [OF len]
    by (simp add: add_u128_def sub_u128_def Let_def word_at_u64s borrow_iff)
qed

lemma add_sub_u192: "length a = 24 \<Longrightarrow> add_u192 (sub_u192 a b) b = a"
proof -
  assume len: "length a = 24"
  define a0 a1 a2 where "a0 = (word_at a 0 :: u64)" and "a1 = (word_at a 8 :: u64)" and "a2 = (word_at a 16 :: u64)"
  define b0 b1 b2 where "b0 = (word_at b 0 :: u64)" and "b1 = (word_at b 8 :: u64)" and "b2 = (word_at b 16 :: u64)"
  define bo where "bo = (if a0 < b0 then 1 else 0 :: u64)"
  define bo2 where "bo2 = (if a1 < b1 + bo \<or> (bo \<noteq> 0 \<and> b1 = - 1) then 1 else 0 :: u64)"
  have sub: "sub_u192 a b = word_bytes (a0 - b0) @ word_bytes (a1 - b1 - bo) @ word_bytes (a2 - b2 - bo2)"
    by (simp add: sub_u192_def Let_def a0_def a1_def a2_def b0_def b1_def b2_def bo_def bo2_def)
  have c0: "(if a0 - b0 + b0 < a0 - b0 then 1 else 0) = bo"
    by (simp add: borrow_iff bo_def)
  have r1: "a1 - b1 - bo + b1 + bo = a1" by simp
  have neg: "- b1 = 1 \<longleftrightarrow> b1 = - 1" by (metis minus_minus)
  have c1: "(if a1 < a1 - b1 - bo \<or> (bo \<noteq> 0 \<and> a1 = a1 - b1 - bo) then 1 else 0) = bo2"
    using borrow_iff [of a1 b1] borrow_in_iff [of a1 b1]
    by (cases "a0 < b0") (auto simp: bo2_def bo_def neg)
  have "add_u192 (sub_u192 a b) b = word_bytes a0 @ word_bytes a1 @ word_bytes a2"
    unfolding sub add_u192_def word_at_u64s Let_def b0_def [symmetric] b1_def [symmetric] b2_def [symmetric] c0 r1 c1
    by simp
  then show ?thesis
    using element_words(4) [OF len] by (simp add: a0_def a1_def a2_def)
qed

lemma add_sub_u16x3: "length a = 6 \<Longrightarrow> add_u16x3 (sub_u16x3 a b) b = a"
proof -
  assume len: "length a = 6"
  show ?thesis
    using element_words(5) [OF len] by (simp add: add_u16x3_def sub_u16x3_def upto3 word_at_u16s)
qed

interpretation d32: delta_codec 4 sub_u32 add_u32
  by unfold_locales (simp_all add: sub_u32_def add_u32_def element_words word_at_self [of _ "[]", simplified])

interpretation d64: delta_codec 8 sub_u64 add_u64
  by unfold_locales (simp_all add: sub_u64_def add_u64_def element_words word_at_self [of _ "[]", simplified])

interpretation d128: delta_codec 16 sub_u128 add_u128
  by unfold_locales (simp_all add: add_sub_u128)

interpretation d192: delta_codec 24 sub_u192 add_u192
  by unfold_locales (simp_all add: add_sub_u192)

interpretation d16x3: delta_codec 6 sub_u16x3 add_u16x3
  by unfold_locales (simp_all add: add_sub_u16x3)

lemma elem_codec:
  assumes "8 dvd LENGTH('a::len)"
  shows "delta_codec (LENGTH('a) div 8) (sub_elem TYPE('a)) (add_elem TYPE('a))"
proof
  fix a b :: bytes
  assume len: "length a = LENGTH('a) div 8"
  show "add_elem TYPE('a) (sub_elem TYPE('a) a b) b = a"
    using word_bytes_at [OF assms, of 0 a] len word_at_self [OF assms, of _ "[]"]
    by (simp add: sub_elem_def add_elem_def)
qed (simp_all add: sub_elem_def add_elem_def)

interpretation e8: delta_codec 1 "sub_elem TYPE(8)" "add_elem TYPE(8)"
  using elem_codec [where 'a = 8] by simp

interpretation e16: delta_codec 2 "sub_elem TYPE(16)" "add_elem TYPE(16)"
  using elem_codec [where 'a = 16] by simp

interpretation e32: delta_codec 4 "sub_elem TYPE(32)" "add_elem TYPE(32)"
  using elem_codec [where 'a = 32] by simp

interpretation e64: delta_codec 8 "sub_elem TYPE(64)" "add_elem TYPE(64)"
  using elem_codec [where 'a = 64] by simp

section \<open>Round trips of the delta coders\<close>

lemma get_morton_ops_codec:
  assumes "get_morton_ops type_size = Some ops"
  shows "count * type_size \<le> length d \<Longrightarrow>
    delta_forward type_size (ops_add ops) count (delta_backward type_size (ops_sub ops) count d) = d"
    and "count * type_size \<le> length d \<Longrightarrow>
    length (delta_backward type_size (ops_sub ops) count d) = length d"
  using assms d32.forward_backward d64.forward_backward d128.forward_backward d192.forward_backward
    d32.backward_facts d64.backward_facts d128.backward_facts d192.backward_facts
  by (auto simp: get_morton_ops_def split: if_splits)

text \<open>Delta decoding restores every buffer of morton codes that delta encoding accepted,
  whatever its word count and whatever trails after the last whole element; a buffer it refuses
  (an unsupported element size, or values that decrease) is left unchanged.\<close>

theorem delta_morton_roundtrip:
  "delta_encode_morton data type_size = (ok, out) \<Longrightarrow>
   length out = length data \<and> (if ok then delta_decode_morton out type_size = data else out = data)"
proof -
  assume e: "delta_encode_morton data type_size = (ok, out)"
  let ?count = "length data div type_size"
  show ?thesis
  proof (cases "ok \<and> 1 < ?count \<and> type_size \<noteq> 0")
    case False
    have d: "delta_forward type_size f ?count data = data" if "?count \<le> 1" for f
    proof -
      have "[1..<?count] = []" using that by simp
      then show ?thesis by (simp only: delta_forward_def fold_simps id_apply)
    qed
    have "out = data"
      using e False by (auto simp: delta_encode_morton_def Let_def split: if_splits option.splits)
    moreover have "ok \<Longrightarrow> delta_decode_morton data type_size = data"
      using e False d by (auto simp: delta_encode_morton_def delta_decode_morton_def Let_def
          split: if_splits option.splits)
    ultimately show ?thesis by simp
  next
    case True
    then obtain ops where ops: "get_morton_ops type_size = Some ops"
      and out: "out = delta_backward type_size (ops_sub ops) ?count data" "type_size \<le> length data"
      using e by (auto simp: delta_encode_morton_def Let_def split: if_splits option.splits)
    note c = get_morton_ops_codec [OF ops, of ?count data]
    have len: "length out = length data" unfolding out(1) by (rule c(2)) simp
    have "delta_decode_morton out type_size = delta_forward type_size (ops_add ops) ?count out"
      using True ops len out(2) by (simp add: delta_decode_morton_def)
    also have "\<dots> = data" unfolding out(1) by (rule c(1)) simp
    finally show ?thesis using len True by simp
  qed
qed

lemma single_roundtrip_aux:
  assumes "delta_codec n sub add"
  shows "delta_forward n add (length data div n) (delta_backward n sub (length data div n) data) = data"
    and "length (delta_backward n sub (length data div n) data) = length data"
  using delta_codec.forward_backward [OF assms] delta_codec.backward_facts [OF assms] by simp_all

text \<open>For every element size, delta decoding of single-component integers restores what delta
  encoding produced.\<close>

theorem delta_single_roundtrip:
  "delta_decode_single (delta_encode_single data element_size) element_size = data"
proof -
  note aux = single_roundtrip_aux [OF e8.delta_codec_axioms, simplified]
    single_roundtrip_aux [OF e16.delta_codec_axioms] single_roundtrip_aux [OF e32.delta_codec_axioms]
    single_roundtrip_aux [OF e64.delta_codec_axioms]
  show ?thesis
    by (simp add: delta_encode_single_def delta_decode_single_def Let_def aux)
qed

theorem delta_u16x3_roundtrip: "delta_decode_u16x3 (delta_encode_u16x3 data) = data"
  by (simp add: delta_encode_u16x3_def delta_decode_u16x3_def Let_def
      single_roundtrip_aux [OF d16x3.delta_codec_axioms])

lemma delta_morton_example:
  "delta_encode_morton [1, 0, 0, 0, 9, 1, 0, 0] 4 = (True, [1, 0, 0, 0, 8, 1, 0, 0])"
  by code_simp

theorem delta_morton_roundtrip_witness:
  "delta_decode_morton [1, 0, 0, 0, 8, 1, 0, 0] 4 = [1, 0, 0, 0, 9, 1, 0, 0]"
  using delta_morton_roundtrip [OF delta_morton_example] by simp

end
