(* ===== verification/Bands.thy ===== *)
theory Bands
  imports Preprocess "HOL-Library.Code_Target_Numeral"
begin

text \<open>
  The remaining transformations of \<open>src/src/core/compression_preprocess.cpp\<close> and those of
  \<open>src/src/core/byte_shuffle.cpp\<close>: colour decorrelation, sorting with a stored permutation,
  removal of constant byte bands, and byte shuffling. Each transformation is paired with its
  inverse, and each pair is shown to restore the buffer.
\<close>

section \<open>Colour triples\<close>

lemma elementwise_facts:
  assumes "c * n \<le> length d" and "\<And>v. length v = n \<Longrightarrow> length (f v) = n"
  shows "length (fold (\<lambda>i d. put_chunk n d i (f (chunk n d i))) [0..<c] d) = length d \<and>
    drop (c * n) (fold (\<lambda>i d. put_chunk n d i (f (chunk n d i))) [0..<c] d) = drop (c * n) d \<and>
    (\<forall>i < c. chunk n (fold (\<lambda>i d. put_chunk n d i (f (chunk n d i))) [0..<c] d) i = f (chunk n d i)) \<and>
    (\<forall>i \<ge> c. chunk n (fold (\<lambda>i d. put_chunk n d i (f (chunk n d i))) [0..<c] d) i = chunk n d i)"
  using assms(1)
proof (induction c)
  case 0
  then show ?case by simp
next
  case (Suc c)
  let ?g = "\<lambda>i d. put_chunk n d i (f (chunk n d i))"
  let ?d = "fold ?g [0..<c] d"
  have IH: "length ?d = length d" "drop (c * n) ?d = drop (c * n) d"
    "\<And>i. i < c \<Longrightarrow> chunk n ?d i = f (chunk n d i)" "\<And>i. c \<le> i \<Longrightarrow> chunk n ?d i = chunk n d i"
    using Suc by auto
  have fit: "(c + 1) * n \<le> length ?d" using IH(1) Suc.prems by simp
  have len: "length (f (chunk n ?d c)) = n" using fit by (intro assms(2) length_chunk)
  have "drop (Suc c * n) ?d = drop n (drop (c * n) ?d)" by (simp add: add.commute)
  also have "\<dots> = drop (Suc c * n) d" unfolding IH(2) by (simp add: add.commute)
  finally have "drop (Suc c * n) (?g c ?d) = drop (Suc c * n) d"
    using drop_put_chunk [OF _ fit len, of "Suc c * n"] by simp
  then show ?case
    using length_put_chunk [OF fit len] chunk_put_same [OF fit len] chunk_put_other [OF fit len] IH
    by (auto simp: less_Suc_eq)
qed

lemma correlate_decorrelate_elem:
  "length e = 6 \<Longrightarrow> correlate_elem (decorrelate_elem e) = e"
  using element_words(5) [of e]
  by (simp add: correlate_elem_def decorrelate_elem_def Let_def word_at_u16s)

text \<open>Correlating a decorrelated buffer of 16-bit colour triples restores it, whatever trails after the last whole triple.\<close>

theorem correlate_roundtrip: "correlate_u16x3 (decorrelate_u16x3 data) = data"
proof -
  let ?c = "length data div 6" and ?e = "decorrelate_u16x3 data"
  have fit: "?c * 6 \<le> length data" by simp
  have l: "length (decorrelate_elem v) = 6" "length (correlate_elem v) = 6" for v
    by (simp_all add: decorrelate_elem_def correlate_elem_def Let_def)
  note e = elementwise_facts [OF fit, of decorrelate_elem, folded decorrelate_u16x3_def, OF l(1)]
  have len: "length ?e = length data" using e by blast
  have fit': "?c * 6 \<le> length ?e" using fit len by simp
  show ?thesis
  proof (rule chunks_ext [where c = ?c and n = 6])
    have d': "correlate_u16x3 ?e = fold (\<lambda>i d. put_chunk 6 d i (correlate_elem (chunk 6 d i))) [0..<?c] ?e"
      unfolding correlate_u16x3_def len ..
    note d = elementwise_facts [OF fit', of correlate_elem, OF l(2), folded d']
    show "length (correlate_u16x3 ?e) = length data" using d len by simp
    show "drop (?c * 6) (correlate_u16x3 ?e) = drop (?c * 6) data" using d e by simp
    show "chunk 6 (correlate_u16x3 ?e) i = chunk 6 data i" if "i < ?c" for i
    proof -
      have "(i + 1) * 6 \<le> length data" using that by simp
      then have "length (chunk 6 data i) = 6" by (rule length_chunk)
      moreover have "chunk 6 (correlate_u16x3 ?e) i = correlate_elem (chunk 6 ?e i)" using d that by blast
      moreover have "chunk 6 ?e i = decorrelate_elem (chunk 6 data i)" using e that by blast
      ultimately show ?thesis by (simp add: correlate_decorrelate_elem)
    qed
  qed (use fit len elementwise_facts [OF fit', of correlate_elem, OF l(2)] in
      \<open>simp_all add: correlate_u16x3_def\<close>)
qed

section \<open>Sorting with a stored permutation\<close>

text \<open>
  \<open>values[i]\<close> of the buffer read as 64-bit integers. The sort is \<open>std::sort\<close>, which leaves the order
  of equal values open: it is the argument \<open>srt\<close>, of which \<open>sorts_indices\<close> states the contract.
  The index width is the type argument (16 bits up to 65535 elements, else 32).
\<close>

definition f64_values :: "bytes \<Rightarrow> u64 list" where
  "f64_values data = map (\<lambda>i. bytes_word (chunk 8 data i)) [0..<length data div 8]"

definition sorts_indices :: "(u64 list \<Rightarrow> 'i::len word list) \<Rightarrow> u64 list \<Rightarrow> bool" where
  "sorts_indices srt vs \<longleftrightarrow>
     distinct (srt vs) \<and> set (srt vs) = word_of_nat ` {..<length vs} \<and>
     sorted (map (\<lambda>p. vs ! unat p) (srt vs))"

definition sort_with_permutation_u16 :: "(u64 list \<Rightarrow> u16 list) \<Rightarrow> bytes \<Rightarrow> bool \<times> bytes \<times> u16 list" where
  "sort_with_permutation_u16 srt data =
     (let count = length data div 8 in
      if count = 0 \<or> 65535 < count then (False, data, [])
      else (let values = f64_values data; perm = srt values;
                sorted = map (\<lambda>i. values ! unat (perm ! i)) [0..<count]
            in (True, concat (map word_bytes sorted) @ drop (count * 8) data, perm)))"

definition sort_with_permutation_u32 :: "(u64 list \<Rightarrow> u32 list) \<Rightarrow> bytes \<Rightarrow> bool \<times> bytes \<times> u32 list" where
  "sort_with_permutation_u32 srt data =
     (let count = length data div 8 in
      if count = 0 then (False, data, [])
      else (let values = f64_values data; perm = srt values;
                sorted = map (\<lambda>i. values ! unat (perm ! i)) [0..<count]
            in (True, concat (map word_bytes sorted) @ drop (count * 8) data, perm)))"

definition unsort_with_permutation :: "bytes \<Rightarrow> 'i::len word list \<Rightarrow> bytes" where
  "unsort_with_permutation data perm =
     (let count = length data div 8 in
      if count = 0 then data
      else (let values = f64_values data;
                restored = fold (\<lambda>i r. if unat (perm ! i) < count then r[unat (perm ! i) := values ! i] else r)
                             [0..<count] (replicate count 0)
            in concat (map word_bytes restored) @ drop (count * 8) data))"

lemma f64_values_bytes:
  "concat (map word_bytes (f64_values data)) = take (length data div 8 * 8) data"
proof -
  have "concat (map (chunk 8 data) [0..<k]) = take (k * 8) data" if "k * 8 \<le> length data" for k
    using that
  proof (induction k)
    case (Suc k)
    have "take (k * 8 + 8) data = take (k * 8) data @ chunk 8 data k"
      by (simp add: chunk_def take_add)
    with Suc show ?case by (simp add: add.commute)
  qed simp
  moreover have "map word_bytes (f64_values data) = map (chunk 8 data) [0..<length data div 8]"
    by (simp add: f64_values_def)
  ultimately show ?thesis by simp
qed

lemma f64_values_of_bytes:
  "f64_values (concat (map word_bytes vs) @ r) = vs" if "length r < 8"
proof (rule nth_equalityI)
  have len: "length (concat (map word_bytes vs)) = 8 * length vs"
    by (rule u64c.length_concat_enc)
  show l: "length (f64_values (concat (map word_bytes vs) @ r)) = length vs"
    using that by (simp add: f64_values_def len)
  fix i
  assume "i < length (f64_values (concat (map word_bytes vs) @ r))"
  then have i: "i < length vs" by (simp only: l)
  have "take 8 (drop (i * 8) (concat (map word_bytes vs) @ r)) = word_bytes (vs ! i)"
    using i
  proof (induction vs arbitrary: i)
    case (Cons v vs)
    then show ?case by (cases i) simp_all
  qed simp
  then show "f64_values (concat (map word_bytes vs) @ r) ! i = vs ! i"
    using i l by (simp add: f64_values_def chunk_def)
qed

lemma unsort_sorted:
  fixes perm :: "'i::len word list"
  assumes count: "count = length data div 8" "0 < count" "count \<le> 2 ^ LENGTH('i)"
    and perm: "distinct perm" "set perm = word_of_nat ` {..<count}"
    and data': "data' = concat (map word_bytes (map (\<lambda>i. f64_values data ! unat (perm ! i)) [0..<count])) @
      drop (count * 8) data"
  shows "length perm = count" and "unsort_with_permutation data' perm = data"
proof -
  let ?vs = "f64_values data"
  let ?sorted = "map (\<lambda>i. ?vs ! unat (perm ! i)) [0..<count]"
  have u: "unat (word_of_nat k :: 'i word) = k" if "k < count" for k
    using that count(3) by (simp add: unat_of_nat)
  have "inj_on (word_of_nat :: nat \<Rightarrow> 'i word) {..<count}"
    by (rule inj_onI) (metis lessThan_iff u)
  then have "card (set perm) = count" by (simp add: perm(2) card_image)
  then show lp: "length perm = count" using perm(1) distinct_card by metis
  have uset: "unat ` set perm = {..<count}"
    unfolding perm(2) image_image by (rule trans [OF image_cong [OF refl u]]) auto
  have t: "unat (perm ! i) < count" if "i < count" for i
    using uset that lp nth_mem [of i perm] by (metis image_eqI lessThan_iff)
  have inj: "inj_on (\<lambda>i. unat (perm ! i)) (set [0..<count])"
    using perm(1) lp by (auto simp: inj_on_def nth_eq_iff_index_eq unsigned_word_eqI dest: unsigned_word_eqI)
  have r: "length (drop (count * 8) data) < 8"
    using count(1) by (simp add: minus_div_mult_eq_mod)
  have vs': "f64_values data' = ?sorted"
    unfolding data' by (rule f64_values_of_bytes [OF r])
  have len': "length data' div 8 = count"
    using vs' by (metis (no_types, lifting) diff_zero f64_values_def length_map length_upt)
  let ?restored = "fold (\<lambda>i r. if unat (perm ! i) < count then r[unat (perm ! i) := ?sorted ! i] else r)
      [0..<count] (replicate count 0)"
  have "?restored = fold (\<lambda>i r. r[unat (perm ! i) := ?sorted ! i]) [0..<count] (replicate count 0)"
    by (rule fold_cong) (simp_all add: t)
  also have "\<dots> = ?vs"
  proof (rule nth_equalityI)
    show "length (fold (\<lambda>i r. r[unat (perm ! i) := ?sorted ! i]) [0..<count] (replicate count 0)) = length ?vs"
      by (simp add: f64_values_def count(1))
    fix k
    assume "k < length (fold (\<lambda>i r. r[unat (perm ! i) := ?sorted ! i]) [0..<count] (replicate count 0))"
    then have "k \<in> unat ` set perm" by (simp add: uset)
    then obtain i where i: "i < count" "k = unat (perm ! i)" using lp by (auto simp: in_set_conv_nth)
    have "fold (\<lambda>i r. r[unat (perm ! i) := ?sorted ! i]) [0..<count] (replicate count 0) ! unat (perm ! i) = ?sorted ! i"
      by (rule fold_update_hit [where t = "\<lambda>i. unat (perm ! i)" and v = "\<lambda>i. ?sorted ! i"])
        (use i(1) inj t in simp_all)
    then show "fold (\<lambda>i r. r[unat (perm ! i) := ?sorted ! i]) [0..<count] (replicate count 0) ! k = ?vs ! k"
      using i by simp
  qed
  finally have restored: "?restored = ?vs" .
  have "length (concat (map word_bytes ?sorted)) = count * 8"
    by (simp only: u64c.length_concat_enc) simp
  then have "drop (count * 8) data' = drop (count * 8) data" unfolding data' by simp
  then have "unsort_with_permutation data' perm = concat (map word_bytes ?vs) @ drop (count * 8) data"
    using count(2) by (simp only: unsort_with_permutation_def len' Let_def vs' restored) simp
  then show "unsort_with_permutation data' perm = data"
    by (simp add: f64_values_bytes count(1))
qed

text \<open>Whatever order the sort leaves equal values in, the stored 16-bit permutation has one
  entry per element, the sorted buffer ascends, and unsorting with the permutation restores the
  original buffer byte for byte.\<close>

theorem sort_unsort_u16:
  assumes "sort_with_permutation_u16 srt data = (True, data', perm)"
    and "sorts_indices srt (f64_values data)"
  shows "length perm = length data div 8 \<and> sorted (f64_values data') \<and>
    unsort_with_permutation data' perm = data"
proof -
  let ?count = "length data div 8"
  from assms(1) have c: "0 < ?count" "?count \<le> 2 ^ LENGTH(16)" "perm = srt (f64_values data)"
    and data': "data' = concat (map word_bytes (map (\<lambda>i. f64_values data ! unat (perm ! i)) [0..<?count])) @
      drop (?count * 8) data"
    by (auto simp: sort_with_permutation_u16_def Let_def split: if_splits)
  have vl: "length (f64_values data) = ?count" by (simp add: f64_values_def)
  have p: "distinct perm" "set perm = word_of_nat ` {..<?count}"
    "sorted (map (\<lambda>p. f64_values data ! unat p) perm)"
    using assms(2) by (simp_all add: sorts_indices_def c(3) vl)
  note u = unsort_sorted [OF refl c(1,2) p(1,2) data']
  have "f64_values data' = map (\<lambda>i. f64_values data ! unat (perm ! i)) [0..<?count]"
    unfolding data' by (rule f64_values_of_bytes) (simp add: minus_div_mult_eq_mod)
  also have "\<dots> = map (\<lambda>p. f64_values data ! unat p) perm"
    using u(1) by (metis (no_types, lifting) map_map map_nth map_cong comp_apply)
  finally show ?thesis using u p(3) by simp
qed

theorem sort_unsort_u32:
  assumes "sort_with_permutation_u32 srt data = (True, data', perm)"
    and "sorts_indices srt (f64_values data)" and "length data < 2 ^ 32"
  shows "length perm = length data div 8 \<and> unsort_with_permutation data' perm = data"
proof -
  let ?count = "length data div 8"
  from assms(1,3) have c: "0 < ?count" "?count \<le> 2 ^ LENGTH(32)" "perm = srt (f64_values data)"
    and data': "data' = concat (map word_bytes (map (\<lambda>i. f64_values data ! unat (perm ! i)) [0..<?count])) @
      drop (?count * 8) data"
    by (auto simp: sort_with_permutation_u32_def Let_def split: if_splits)
  have p: "distinct perm" "set perm = word_of_nat ` {..<?count}"
    using assms(2) by (simp_all add: sorts_indices_def c(3) f64_values_def)
  show ?thesis using unsort_sorted [OF refl c(1,2) p data'] by simp
qed

section \<open>Constant byte bands\<close>

record band_compact_result =
  compacted_data :: bytes
  band_mask :: u32
  constant_values :: bytes

text \<open>The scan of one band, which stops at the first byte that differs from the first one.\<close>

definition band_is_constant :: "nat \<Rightarrow> bytes \<Rightarrow> nat \<Rightarrow> bool" where
  "band_is_constant element_count shuffled b \<longleftrightarrow>
     (\<forall>i \<in> set [1..<element_count]. shuffled ! (b * element_count + i) = shuffled ! (b * element_count))"

definition detect_constant_bands :: "bytes \<Rightarrow> nat \<Rightarrow> nat \<Rightarrow> band_compact_result" where
  "detect_constant_bands shuffled type_size component_count =
     (let size = length shuffled; stride = type_size * component_count;
          unchanged = \<lparr>compacted_data = shuffled, band_mask = 0, constant_values = []\<rparr> in
      if stride = 0 \<or> size = 0 then unchanged
      else (let element_count = size div stride; remainder = size mod stride; band_count = stride in
        if 32 < band_count \<or> element_count = 0 then unchanged
        else (let (bmask, values) =
                fold (\<lambda>b (bmask, values).
                    if band_is_constant element_count shuffled b
                    then (bmask OR push_bit b 1, values @ [shuffled ! (b * element_count)])
                    else (bmask, values)) [0..<band_count] (0, []) in
          if bmask = 0 then \<lparr>compacted_data = shuffled, band_mask = bmask, constant_values = values\<rparr>
          else \<lparr>compacted_data =
                  fold (\<lambda>b out. if bmask AND push_bit b 1 \<noteq> 0 then out
                                else out @ chunk element_count shuffled b) [0..<band_count] [] @
                  take remainder (drop (band_count * element_count) shuffled),
                band_mask = bmask, constant_values = values\<rparr>)))"

definition restore_band ::
  "nat \<Rightarrow> bytes \<Rightarrow> u32 \<Rightarrow> bytes \<Rightarrow> nat \<Rightarrow> bytes \<times> nat \<times> nat \<Rightarrow> bytes \<times> nat \<times> nat" where
  "restore_band element_count compacted bmask values b = (\<lambda>(shuffled, src_offset, const_idx).
     if bmask AND push_bit b 1 \<noteq> 0
     then (put_chunk element_count shuffled b (replicate element_count (values ! const_idx)),
           src_offset, const_idx + 1)
     else (put_chunk element_count shuffled b (take element_count (drop src_offset compacted)),
           src_offset + element_count, const_idx))"

definition restore_constant_bands :: "bytes \<Rightarrow> bytes \<Rightarrow> u32 \<Rightarrow> bytes \<Rightarrow> nat \<Rightarrow> nat \<Rightarrow> bytes" where
  "restore_constant_bands compacted shuffled bmask values type_size component_count =
     (let size = length shuffled; stride = type_size * component_count in
      if stride = 0 \<or> size = 0 then shuffled
      else (let element_count = size div stride; remainder = size mod stride; band_count = stride;
                (shuffled, src_offset, const_idx) =
                  fold (restore_band element_count compacted bmask values) [0..<band_count] (shuffled, 0, 0)
            in take (band_count * element_count) shuffled @ take remainder (drop src_offset compacted)))"

lemma mask_test: "(bmask AND push_bit b 1 \<noteq> (0 :: u32)) \<longleftrightarrow> bit bmask b"
  by (simp add: and_exp_eq_0_iff_not_bit push_bit_of_1)

lemmas mask_tests = mask_test and_exp_eq_0_iff_not_bit

lemma band_scan:
  assumes "n \<le> 32"
  shows "fold (\<lambda>b (bmask, values). if P b then (bmask OR push_bit b 1, values @ [v b]) else (bmask, values))
      [0..<n] (0 :: u32, []) = (m, vs) \<Longrightarrow>
    (\<forall>b. bit m b \<longleftrightarrow> b < n \<and> P b) \<and> vs = map v (filter P [0..<n])"
  using assms
proof (induction n arbitrary: m vs)
  case 0
  then show ?case by simp
next
  case (Suc n)
  let ?f = "\<lambda>b (bmask, values). if P b then (bmask OR push_bit b (1 :: u32), values @ [v b]) else (bmask, values)"
  obtain m' vs' where p: "fold ?f [0..<n] (0, []) = (m', vs')" by fastforce
  note IH = Suc.IH [OF p]
  have one: "bit (push_bit n (1 :: u32)) b \<longleftrightarrow> b = n" for b
    using Suc.prems(2) by (auto simp: bit_exp_iff push_bit_of_1)
  have m: "bit m' b \<longleftrightarrow> b < n \<and> P b" and vs: "vs' = map v (filter P [0..<n])" for b
    using IH Suc.prems(2) by auto
  show ?case
  proof (cases "P n")
    case True
    then have "m = m' OR push_bit n 1" "vs = vs' @ [v n]" using Suc.prems(1) p by auto
    then show ?thesis using True by (auto simp only: bit_or_iff one m vs less_Suc_eq) simp
  next
    case False
    then have "m = m'" "vs = vs'" using Suc.prems(1) p by auto
    then show ?thesis using False by (auto simp only: m vs less_Suc_eq) simp
  qed
qed

lemma band_collect:
  "fold (\<lambda>b out. if Q b then out else out @ f b) [0..<n] [] = concat (map f (filter (\<lambda>b. \<not> Q b) [0..<n]))"
  by (induction n) simp_all

lemma constant_band:
  assumes "band_is_constant ec s b" and "(b + 1) * ec \<le> length s"
  shows "chunk ec s b = replicate ec (s ! (b * ec))"
proof (rule nth_equalityI)
  show "length (chunk ec s b) = length (replicate ec (s ! (b * ec)))"
    using length_chunk [OF assms(2)] by simp
  fix i
  assume "i < length (chunk ec s b)"
  then have i: "i < ec" using length_chunk [OF assms(2)] by simp
  then have "s ! (b * ec + i) = s ! (b * ec)"
    using assms(1) by (cases "i = 0") (auto simp: band_is_constant_def)
  then show "chunk ec s b ! i = replicate ec (s ! (b * ec)) ! i"
    using i assms(2) by (simp add: chunk_def)
qed

lemma restore_loop:
  assumes fit: "n * ec \<le> length s" and len: "length buf = length s"
    and comp: "compacted = concat (map (chunk ec s) (filter (\<lambda>b. \<not> bit bmask b) [0..<n])) @ r"
    and vals: "vals = map (\<lambda>b. s ! (b * ec)) (filter (bit bmask) [0..<n])"
    and const: "\<And>b. b < n \<Longrightarrow> bit bmask b \<Longrightarrow> chunk ec s b = replicate ec (s ! (b * ec))"
    and k: "k \<le> n"
    and run: "fold (restore_band ec compacted bmask vals) [0..<k] (buf, 0, 0) = (sh, src, ci)"
  shows "length sh = length s \<and> (\<forall>i < k. chunk ec sh i = chunk ec s i) \<and>
    src = ec * length (filter (\<lambda>b. \<not> bit bmask b) [0..<k]) \<and> ci = length (filter (bit bmask) [0..<k])"
  using k run
proof (induction k arbitrary: sh src ci)
  case 0
  then show ?case using len by simp
next
  case (Suc k)
  obtain sh' src' ci' where p: "fold (restore_band ec compacted bmask vals) [0..<k] (buf, 0, 0) = (sh', src', ci')"
    by (metis prod_cases3)
  have IH: "length sh' = length s" "\<And>i. i < k \<Longrightarrow> chunk ec sh' i = chunk ec s i"
    "src' = ec * length (filter (\<lambda>b. \<not> bit bmask b) [0..<k])" "ci' = length (filter (bit bmask) [0..<k])"
    using Suc.IH [OF _ p] Suc.prems(1) by auto
  have step: "restore_band ec compacted bmask vals k (sh', src', ci') = (sh, src, ci)"
    using Suc.prems(2) p by simp
  have fits: "(i + 1) * ec \<le> length s" if "i < n" for i
    by (rule order_trans [OF mult_le_mono1 fit]) (use that in simp)
  have kn: "k < n" using Suc.prems(1) by simp
  then have fitk: "(k + 1) * ec \<le> length sh'" using fits IH(1) by simp
  have split: "[0..<n] = [0..<k] @ k # [Suc k..<n]"
    using kn by (metis le_add_diff_inverse less_imp_le upt_add_eq_append upt_conv_Cons zero_le)
  have lenc: "length (concat (map (chunk ec s) (filter (\<lambda>b. \<not> bit bmask b) [0..<k]))) =
      ec * length (filter (\<lambda>b. \<not> bit bmask b) [0..<k])"
    by (rule concat_map_length_const) (use fits kn in auto)
  define piece where "piece = (if bit bmask k then replicate ec (vals ! ci') else take ec (drop src' compacted))"
  have piece: "piece = chunk ec s k"
  proof (cases "bit bmask k")
    case True
    have "vals ! ci' = s ! (k * ec)"
      using True unfolding vals split IH(4) by (simp add: nth_append)
    then show ?thesis using True const [OF kn] by (simp add: piece_def)
  next
    case False
    have "drop src' compacted = chunk ec s k @ concat (map (chunk ec s) (filter (\<lambda>b. \<not> bit bmask b) [Suc k..<n])) @ r"
      using False unfolding comp split IH(3) by (simp add: lenc)
    then show ?thesis using False length_chunk [OF fits [OF kn]] by (simp add: piece_def)
  qed
  have sh: "sh = put_chunk ec sh' k (chunk ec s k)"
    using step piece by (auto simp: restore_band_def mask_tests piece_def split: if_splits)
  have lk: "length (chunk ec s k) = ec" using fits [OF kn] by (rule length_chunk)
  show ?case
    using step IH length_put_chunk [OF fitk lk] chunk_put_same [OF fitk lk] chunk_put_other [OF fitk lk]
    by (auto simp: sh less_Suc_eq restore_band_def mask_tests split: if_splits)
qed

lemma restore_whole:
  assumes "type_size * component_count = n" and "0 < n" and "length buf = length s"
    and "ec = length s div n"
    and "compacted = concat (map (chunk ec s) (filter (\<lambda>b. \<not> bit bmask b) [0..<n])) @ drop (n * ec) s"
    and "vals = map (\<lambda>b. s ! (b * ec)) (filter (bit bmask) [0..<n])"
    and "\<And>b. b < n \<Longrightarrow> bit bmask b \<Longrightarrow> chunk ec s b = replicate ec (s ! (b * ec))"
  shows "restore_constant_bands compacted buf bmask vals type_size component_count = s"
proof (cases "length s = 0")
  case True
  then show ?thesis using assms(3) by (simp add: restore_constant_bands_def Let_def)
next
  case False
  have fit: "n * ec \<le> length s" using assms(4) by simp
  obtain sh src ci where p: "fold (restore_band ec compacted bmask vals) [0..<n] (buf, 0, 0) = (sh, src, ci)"
    by (metis prod_cases3)
  note l = restore_loop [OF fit assms(3,5,6,7) order_refl p]
  have "length (concat (map (chunk ec s) (filter (\<lambda>b. \<not> bit bmask b) [0..<n]))) =
      ec * length (filter (\<lambda>b. \<not> bit bmask b) [0..<n])"
    by (rule concat_map_length_const)
      (auto intro!: length_chunk order_trans [OF mult_le_mono1 fit])
  then have d: "drop src compacted = drop (n * ec) s" unfolding assms(5) using l by simp
  have t: "take (n * ec) sh @ drop (n * ec) s = s"
  proof (rule chunks_ext [where c = n and n = ec])
    have m: "take (n * ec) sh @ drop (n * ec) s = take (n * ec) sh @ drop (length (take (n * ec) sh)) s"
      using l fit by simp
    show "chunk ec (take (n * ec) sh @ drop (n * ec) s) i = chunk ec s i" if "i < n" for i
    proof -
      have "(i + 1) * ec \<le> n * ec" using that by (intro mult_le_mono1) simp
      then have "chunk ec (take (n * ec) sh @ drop (n * ec) s) i = chunk ec sh i"
        using l fit by (simp add: chunk_def drop_take min_def)
      then show ?thesis using l that by simp
    qed
  qed (use l fit in simp_all)
  have "take (length s mod n) (drop (n * ec) s) = drop (n * ec) s"
    using assms(4) by (simp add: minus_mult_div_eq_mod)
  then show ?thesis
    using False assms(1,2,3) p d t by (simp add: restore_constant_bands_def Let_def flip: assms(4))
qed

text \<open>The bytes and constants that band detection keeps determine the shuffled buffer: restoring
  them into any buffer of the original size gives the original bytes, for every element size and
  component count the 32-bit band mask can describe.\<close>

theorem constant_bands_roundtrip:
  assumes "0 < type_size * component_count" and "type_size * component_count \<le> 32"
    and "length buf = length shuffled"
    and "detect_constant_bands shuffled type_size component_count = res"
  shows "restore_constant_bands (compacted_data res) buf (band_mask res) (constant_values res)
    type_size component_count = shuffled"
proof -
  let ?n = "type_size * component_count"
  let ?ec = "length shuffled div ?n"
  have fit: "?n * ?ec \<le> length shuffled" by simp
  let ?f = "\<lambda>b (bmask, values). if band_is_constant ?ec shuffled b
      then (bmask OR push_bit b 1, values @ [shuffled ! (b * ?ec)]) else (bmask, values)"
  obtain m vs where p: "fold ?f [0..<?n] (0 :: u32, []) = (m, vs)" by fastforce
  have scan: "bit m b \<longleftrightarrow> b < ?n \<and> band_is_constant ?ec shuffled b"
    "vs = map (\<lambda>b. shuffled ! (b * ?ec)) (filter (band_is_constant ?ec shuffled) [0..<?n])" for b
    using band_scan [OF assms(2) p] by auto
  have empty: "m = 0 \<Longrightarrow> vs = []"
    using scan by (auto simp: filter_empty_conv)
  show ?thesis
  proof (cases "band_mask res = 0")
    case True
    have "concat (map (chunk ?ec shuffled) [0..<k]) = take (k * ?ec) shuffled" if "k \<le> ?n" for k
      using that
    proof (induction k)
      case (Suc k)
      have "take (k * ?ec + ?ec) shuffled = take (k * ?ec) shuffled @ chunk ?ec shuffled k"
        by (simp add: chunk_def take_add)
      with Suc show ?case by (simp add: add.commute)
    qed simp
    then have "shuffled = concat (map (chunk ?ec shuffled) [0..<?n]) @ drop (?n * ?ec) shuffled" by simp
    moreover have "compacted_data res = shuffled \<and> constant_values res = []"
      using True assms(4) p empty
      by (auto simp: detect_constant_bands_def Let_def split: if_splits)
    ultimately show ?thesis
      using True assms(1,3) by (intro restore_whole [where n = ?n and ec = ?ec]) simp_all
  next
    case False
    have "filter (bit m) [0..<?n] = filter (band_is_constant ?ec shuffled) [0..<?n]"
      by (rule filter_cong) (auto simp: scan(1))
    then have vs: "vs = map (\<lambda>b. shuffled ! (b * ?ec)) (filter (bit m) [0..<?n])"
      using scan(2) by simp
    have r: "take (length shuffled mod ?n) (drop (?n * ?ec) shuffled) = drop (?n * ?ec) shuffled"
      by (simp add: minus_mult_div_eq_mod)
    have "res = \<lparr>compacted_data = concat (map (chunk ?ec shuffled) (filter (\<lambda>b. \<not> bit m b) [0..<?n])) @
        drop (?n * ?ec) shuffled, band_mask = m, constant_values = vs\<rparr>"
      using False assms(4) p r
      by (auto simp: detect_constant_bands_def Let_def mask_tests band_collect split: if_splits)
    moreover have "chunk ?ec shuffled b = replicate ?ec (shuffled ! (b * ?ec))" if "b < ?n" "bit m b" for b
    proof (rule constant_band)
      show "band_is_constant ?ec shuffled b" using that(2) scan(1) by simp
      show "(b + 1) * ?ec \<le> length shuffled"
        by (rule order_trans [OF mult_le_mono1 fit]) (use that(1) in simp)
    qed
    ultimately show ?thesis
      using restore_whole [OF refl assms(1,3) refl refl vs] by simp
  qed
qed

section \<open>Byte shuffling\<close>

text \<open>
  \<open>src/src/core/byte_shuffle.cpp\<close>. Byte \<open>k\<close> of element \<open>i\<close> goes to position \<open>i\<close> of band \<open>k\<close>; the bytes
  after the last whole element are copied. \<open>dst\<close> is the destination buffer before the call.
\<close>

definition byte_shuffle :: "bytes \<Rightarrow> bytes \<Rightarrow> nat \<Rightarrow> nat \<Rightarrow> bytes" where
  "byte_shuffle src dst typesize component_count =
     (let total_size = length src; stride = typesize * component_count in
      if stride \<le> 1 \<or> total_size = 0 then src
      else (let element_count = total_size div stride; remainder = total_size mod stride;
                dst = fold (\<lambda>i. fold (\<lambda>c. fold (\<lambda>b dst.
                        dst[(c * typesize + b) * element_count + i := src ! (i * stride + (c * typesize + b))])
                        [0..<typesize]) [0..<component_count]) [0..<element_count] dst
            in take (stride * element_count) dst @ take remainder (drop (stride * element_count) src)))"

definition byte_unshuffle :: "bytes \<Rightarrow> bytes \<Rightarrow> nat \<Rightarrow> nat \<Rightarrow> bytes" where
  "byte_unshuffle src dst typesize component_count =
     (let total_size = length src; stride = typesize * component_count in
      if stride \<le> 1 \<or> total_size = 0 then src
      else (let element_count = total_size div stride; remainder = total_size mod stride;
                dst = fold (\<lambda>i. fold (\<lambda>c. fold (\<lambda>b dst.
                        dst[i * stride + (c * typesize + b) := src ! ((c * typesize + b) * element_count + i)])
                        [0..<typesize]) [0..<component_count]) [0..<element_count] dst
            in take (stride * element_count) dst @ take remainder (drop (stride * element_count) src)))"

lemma fold_nest: "fold (\<lambda>x. fold (\<lambda>y. f (x, y)) ys) xs = fold f (List.product xs ys)"
proof (induction xs)
  case (Cons x xs)
  have "fold (\<lambda>y. f (x, y)) ys = fold f (map (Pair x) ys)" for x
    by (simp add: fold_map comp_def)
  then show ?case using Cons by simp
qed simp

lemma upt_product: "map (\<lambda>(c, b). c * n + b) (List.product [0..<m] [0..<n]) = [0..<m * n]"
proof (induction m)
  case (Suc m)
  have "List.product [0..<Suc m] [0..<n] = List.product [0..<m] [0..<n] @ map (Pair m) [0..<n]"
    by (simp add: product_concat_map)
  moreover have "map (\<lambda>b. m * n + b) [0..<n] = [m * n..<m * n + n]"
    using map_add_upt [of "m * n" n] by (simp add: add.commute [of "m * n"])
  ultimately show ?case
    using Suc by (simp add: comp_def upt_add_eq_append [of 0 "m * n" n] add.commute [of n])
qed simp

lemma shuffle_loop:
  "fold (\<lambda>i. fold (\<lambda>c. fold (\<lambda>b. g i (c * n + b)) [0..<n]) [0..<m]) xs =
   fold (\<lambda>(i, k). g i k) (List.product xs [0..<n * m])"
proof -
  have "fold (\<lambda>c. fold (\<lambda>b. h (c * n + b)) [0..<n]) [0..<m] = fold h [0..<n * m]" for h :: "nat \<Rightarrow> 'a \<Rightarrow> 'a"
  proof -
    have "fold (\<lambda>c. fold (\<lambda>b. h (c * n + b)) [0..<n]) [0..<m] =
        fold (\<lambda>(c, b). h (c * n + b)) (List.product [0..<m] [0..<n])"
      using fold_nest [of "\<lambda>(c, b). h (c * n + b)"] by simp
    also have "\<dots> = fold h (map (\<lambda>(c, b). c * n + b) (List.product [0..<m] [0..<n]))"
      by (simp add: fold_map comp_def case_prod_unfold)
    finally show ?thesis by (simp add: upt_product mult.commute)
  qed
  then show ?thesis using fold_nest [of "\<lambda>(i, k). g i k"] by simp
qed

lemma cell_less: "i < c \<Longrightarrow> k < n \<Longrightarrow> i * n + k < c * (n :: nat)"
  by (metis add_less_cancel_left less_le_trans mult.commute mult_Suc mult_le_mono1 Suc_leI add.commute plus_1_eq_Suc)

lemma cell_inject:
  assumes "k < n" and "k' < n" and "i * n + k = i' * n + (k' :: nat)"
  shows "i = i' \<and> k = k'"
proof -
  have "(i * n + k) div n = i" "(i' * n + k') div n = i'" using assms(1,2) by simp_all
  then show ?thesis using assms(3) by simp
qed

lemma scatter:
  assumes "i < ec" and "k < n" and "t i k < length d"
    and "\<And>i k i' k'. i < ec \<Longrightarrow> k < n \<Longrightarrow> i' < ec \<Longrightarrow> k' < n \<Longrightarrow> t i k = t i' k' \<Longrightarrow> i = i' \<and> k = (k' :: nat)"
  shows "fold (\<lambda>(i, k) d. d[t i k := v i k]) (List.product [0..<ec] [0..<n]) d ! t i k = v i k"
proof -
  have "inj_on (\<lambda>p. t (fst p) (snd p)) (set (List.product [0..<ec] [0..<n]))"
  proof (rule inj_onI)
    fix p q
    assume "p \<in> set (List.product [0..<ec] [0..<n])" "q \<in> set (List.product [0..<ec] [0..<n])"
      and "t (fst p) (snd p) = t (fst q) (snd q)"
    then show "p = q" using assms(4) [of "fst p" "snd p" "fst q" "snd q"] by (auto simp: prod_eq_iff)
  qed
  from fold_update_hit [OF _ this, of "(i, k)" d "\<lambda>p. v (fst p) (snd p)"]
  show ?thesis using assms(1-3) by (simp add: case_prod_unfold)
qed

lemma length_scatter [simp]:
  "length (fold (\<lambda>(i, k) d. d[t i k := v i k]) ps d) = length d"
  by (simp add: case_prod_unfold)

lemma shuffle_scatter:
  assumes "length dst = length src" and "n * ec \<le> length src" and "k < n" and "i < ec"
  shows "fold (\<lambda>(i, k) dst. dst[k * ec + i := src ! (i * n + k)]) (List.product [0..<ec] [0..<n]) dst ! (k * ec + i) =
    src ! (i * n + k)"
proof (rule scatter [OF assms(4,3), of "\<lambda>i k. k * ec + i"])
  show "k * ec + i < length dst" using cell_less [OF assms(3,4)] assms(1,2) by simp
qed (metis cell_inject)

lemma unshuffle_scatter:
  assumes "length dst = length src" and "n * ec \<le> length src" and "k < n" and "i < ec"
  shows "fold (\<lambda>(i, k) dst. dst[i * n + k := src ! (k * ec + i)]) (List.product [0..<ec] [0..<n]) dst ! (i * n + k) =
    src ! (k * ec + i)"
proof (rule scatter [OF assms(4,3), of "\<lambda>i k. i * n + k"])
  show "i * n + k < length dst"
    using cell_less [OF assms(4,3)] assms(1,2) by (simp add: mult.commute)
qed (metis cell_inject)

lemma byte_shuffle_eq:
  fixes src dst :: bytes
  defines "f \<equiv> \<lambda>n ec. fold (\<lambda>(i, k) dst. dst[k * ec + i := src ! (i * n + k)]) (List.product [0..<ec] [0..<n]) dst"
  assumes "n = typesize * component_count" and "1 < n" and "src \<noteq> []" and "ec = length src div n"
  shows "byte_shuffle src dst typesize component_count = take (n * ec) (f n ec) @ drop (n * ec) src"
proof -
  have "fold (\<lambda>i. fold (\<lambda>c. fold (\<lambda>b dst.
          dst[(c * typesize + b) * ec + i := src ! (i * n + (c * typesize + b))])
          [0..<typesize]) [0..<component_count]) [0..<ec] dst = f n ec"
    unfolding f_def assms(2) using shuffle_loop [of "\<lambda>i k dst. dst[k * ec + i := src ! (i * (typesize * component_count) + k)]"]
    by simp
  moreover have "take (length src mod n) (drop (n * ec) src) = drop (n * ec) src"
    using assms(5) by (simp add: minus_mult_div_eq_mod)
  ultimately show ?thesis
    using assms(3,4) by (simp add: byte_shuffle_def Let_def flip: assms(2,5))
qed

lemma byte_unshuffle_eq:
  fixes src dst :: bytes
  defines "f \<equiv> \<lambda>n ec. fold (\<lambda>(i, k) dst. dst[i * n + k := src ! (k * ec + i)]) (List.product [0..<ec] [0..<n]) dst"
  assumes "n = typesize * component_count" and "1 < n" and "src \<noteq> []" and "ec = length src div n"
  shows "byte_unshuffle src dst typesize component_count = take (n * ec) (f n ec) @ drop (n * ec) src"
proof -
  have "fold (\<lambda>i. fold (\<lambda>c. fold (\<lambda>b dst.
          dst[i * n + (c * typesize + b) := src ! ((c * typesize + b) * ec + i)])
          [0..<typesize]) [0..<component_count]) [0..<ec] dst = f n ec"
    unfolding f_def assms(2) using shuffle_loop [of "\<lambda>i k dst. dst[i * (typesize * component_count) + k := src ! (k * ec + i)]"]
    by simp
  moreover have "take (length src mod n) (drop (n * ec) src) = drop (n * ec) src"
    using assms(5) by (simp add: minus_mult_div_eq_mod)
  ultimately show ?thesis
    using assms(3,4) by (simp add: byte_unshuffle_def Let_def flip: assms(2,5))
qed

text \<open>C39: Byte unshuffling restores the buffer that was shuffled, for every element size, component
  count and trailing partial element, whatever the two destination buffers held before.\<close>

theorem shuffle_roundtrip:
  assumes "length dst = length src" and "length dst' = length src"
  shows "byte_unshuffle (byte_shuffle src dst typesize component_count) dst' typesize component_count = src"
proof (cases "typesize * component_count \<le> 1 \<or> src = []")
  case True
  then show ?thesis by (auto simp: byte_shuffle_def byte_unshuffle_def Let_def)
next
  case False
  define n ec where "n = typesize * component_count" and "ec = length src div n"
  define s where "s = byte_shuffle src dst typesize component_count"
  define d1 where "d1 = fold (\<lambda>(i, k) dst. dst[k * ec + i := src ! (i * n + k)]) (List.product [0..<ec] [0..<n]) dst"
  have n: "1 < n" "src \<noteq> []" "n * ec \<le> length src" using False by (auto simp: n_def ec_def)
  have s: "s = take (n * ec) d1 @ drop (n * ec) src"
    unfolding s_def d1_def by (rule byte_shuffle_eq [OF n_def n(1,2) ec_def])
  have d1: "length d1 = length src" by (simp add: d1_def assms(1))
  have len: "length s = length src" using n(3) d1 by (simp add: s)
  define d2 where "d2 = fold (\<lambda>(i, k) dst. dst[i * n + k := s ! (k * ec + i)]) (List.product [0..<ec] [0..<n]) dst'"
  have u: "byte_unshuffle s dst' typesize component_count = take (n * ec) d2 @ drop (n * ec) s"
    unfolding d2_def by (rule byte_unshuffle_eq [OF n_def n(1)]) (use n(2) len in \<open>auto simp: ec_def\<close>)
  have d2: "length d2 = length src" by (simp add: d2_def assms(2))
  have cell: "d2 ! j = src ! j" if "j < n * ec" for j
  proof -
    define i k where "i = j div n" and "k = j mod n"
    have ik: "i < ec" "k < n" "j = i * n + k"
      using that n(1) by (simp_all add: i_def k_def less_mult_imp_div_less mult.commute)
    have "d2 ! j = s ! (k * ec + i)"
      unfolding d2_def ik(3) by (rule unshuffle_scatter) (use assms(2) len n(3) ik in simp_all)
    also have "\<dots> = d1 ! (k * ec + i)"
      using cell_less [OF ik(2,1)] n(3) d1 by (simp add: s nth_append)
    also have "\<dots> = src ! j"
      unfolding d1_def ik(3) by (rule shuffle_scatter) (use assms(1) n(3) ik in simp_all)
    finally show ?thesis .
  qed
  have "take (n * ec) d2 = take (n * ec) src"
    by (rule nth_equalityI) (use cell d2 in simp_all)
  moreover have "drop (n * ec) s = drop (n * ec) src" using n(3) d1 by (simp add: s)
  ultimately have "byte_unshuffle s dst' typesize component_count = src" using u by simp
  then show ?thesis by (simp add: s_def)
qed

section \<open>Examples\<close>

theorem constant_bands_roundtrip_witness:
  "let res = detect_constant_bands [7, 7, 7, 1, 2, 3, 9] 2 1 in
   restore_constant_bands (compacted_data res) (replicate 7 0) (band_mask res) (constant_values res) 2 1 =
     [7, 7, 7, 1, 2, 3, 9]"
  unfolding Let_def by (rule constant_bands_roundtrip [OF _ _ _ refl]) simp_all

theorem shuffle_roundtrip_witness:
  "byte_unshuffle (byte_shuffle [1, 2, 3, 4, 5, 6, 7] (replicate 7 0) 2 1) (replicate 7 0) 2 1 = [1, 2, 3, 4, 5, 6, 7]"
  by (rule shuffle_roundtrip) simp_all

definition index_sort :: "u64 list \<Rightarrow> 'i::len word list" where
  "index_sort vs = map word_of_nat (sort_key (\<lambda>i. vs ! i) [0..<length vs])"

lemma index_sort_sorts:
  assumes "length vs \<le> 2 ^ LENGTH('i)"
  shows "sorts_indices (index_sort :: u64 list \<Rightarrow> 'i::len word list) vs"
proof -
  have u: "unat (word_of_nat k :: 'i word) = k" if "k < length vs" for k
    using that assms by (simp add: unat_of_nat)
  have "inj_on (word_of_nat :: nat \<Rightarrow> 'i word) {0..<length vs}"
    by (rule inj_onI) (metis atLeastLessThan_iff u)
  then have "distinct (index_sort vs :: 'i word list)" "set (index_sort vs :: 'i word list) = word_of_nat ` {..<length vs}"
    by (auto simp: index_sort_def distinct_map)
  moreover have "map (\<lambda>p. vs ! unat p) (index_sort vs :: 'i word list) =
      map (\<lambda>i. vs ! i) (sort_key (\<lambda>i. vs ! i) [0..<length vs])"
    by (simp add: index_sort_def u)
  then have "sorted (map (\<lambda>p. vs ! unat p) (index_sort vs :: 'i word list))" by simp
  ultimately show ?thesis unfolding sorts_indices_def by blast
qed

lemma sort_example:
  "sort_with_permutation_u16 index_sort (concat (map word_bytes [3, 1, 2 :: u64])) =
     (True, concat (map word_bytes [1, 2, 3 :: u64]), [1, 2, 0])"
  by code_simp

theorem sort_unsort_u16_witness:
  "unsort_with_permutation (concat (map word_bytes [1, 2, 3 :: u64])) [1, 2, 0 :: u16] =
     concat (map word_bytes [3, 1, 2 :: u64])"
proof -
  have "sorts_indices (index_sort :: u64 list \<Rightarrow> u16 list)
      (f64_values (concat (map word_bytes [3, 1, 2 :: u64])))"
    by (rule index_sort_sorts) (simp add: f64_values_def)
  with sort_unsort_u16 [OF sort_example] show ?thesis by blast
qed

end
