(* ===== verification/BlobManager.thy ===== *)
theory BlobManager
  imports MemoryIO "HOL-Library.Code_Target_Numeral"
begin

text \<open>
  \<open>src/src/core/blob_manager.cpp\<close>: the allocator of byte ranges in the storage file. The state is
  the end of the file's used part and, per 100 MB page, the free sections below it. Offsets and
  sizes are natural numbers; the 32-bit sums and differences of sizes, the page numbers and the
  64-bit ends of ranges that come from a caller wrap where the code's do. (Sums over stored
  sections cannot leave 64 bits: a page number has 32 bits.)

  The pages live in a third-party hash map. Its iteration order is unspecified: the operations
  that iterate take it as the argument \<open>ord\<close>, of which \<open>iter_ok\<close> states that it enumerates the keys
  once each. \<open>--end()\<close> is the last element of that order. What a reference to a page number reads after
  its page was erased is the argument \<open>slot\<close>, a function of that order.

  The contract is stated over sets of bytes: \<open>free_bytes\<close> are the bytes of the free sections,
  \<open>allocated\<close> the bytes below the end that are not free.
\<close>

section \<open>The state\<close>

definition FREE_BLOB_MANAGER_PAGE_SIZE :: nat where
  "FREE_BLOB_MANAGER_PAGE_SIZE = 100 * 1024 * 1024"

abbreviation PAGE :: nat where "PAGE \<equiv> FREE_BLOB_MANAGER_PAGE_SIZE"

definition offset_page :: "nat \<Rightarrow> nat" where
  "offset_page data = wrap32 (data div PAGE)"

record section_t =
  sec_offset :: nat
  sec_size :: nat

abbreviation sec_end :: "section_t \<Rightarrow> nat" where
  "sec_end s \<equiv> sec_offset s + sec_size s"

type_synonym pages = "nat \<rightharpoonup> section_t list"

record blob_manager =
  next_offset :: nat
  free_sections :: pages

definition new_blob_manager :: blob_manager where
  "new_blob_manager = \<lparr>next_offset = 0, free_sections = Map.empty\<rparr>"

definition iter_ok :: "(pages \<Rightarrow> nat list) \<Rightarrow> bool" where
  "iter_ok ord \<longleftrightarrow> (\<forall>m. finite (dom m) \<longrightarrow> distinct (ord m) \<and> set (ord m) = dom m)"

section \<open>Registering a blob\<close>

text \<open>Taking \<open>need\<close> bytes from the start of section \<open>i\<close> of a page; an emptied page is erased.\<close>

definition take_from_section :: "pages \<Rightarrow> nat \<Rightarrow> nat \<Rightarrow> nat \<Rightarrow> pages" where
  "take_from_section fm page i need =
     (case fm page of
        None \<Rightarrow> fm
      | Some sections \<Rightarrow>
          (let s = sections ! i;
               sections = (if sec_size s = need
                  then take i sections @ drop (Suc i) sections
                  else sections[i := \<lparr>sec_offset = sec_offset s + need, sec_size = sub32 (sec_size s) need\<rparr>])
           in if sections = [] then fm(page := None) else fm(page \<mapsto> sections)))"

text \<open>The walk back over the pages before \<open>previous\<close> that gives up the tail just handed out.\<close>

fun consume_tail :: "nat \<Rightarrow> nat \<Rightarrow> pages \<Rightarrow> pages" where
  "consume_tail 0 remaining fm = fm"
| "consume_tail (Suc previous) remaining fm =
     (if remaining = 0 then fm
      else case fm previous of
        None \<Rightarrow> fm
      | Some sections \<Rightarrow>
          (if sections = [] then fm
           else (let contributed = sec_size (last sections) in
             if remaining < contributed then fm
             else consume_tail previous (remaining - contributed)
                    (if length sections = 1 then fm(previous := None)
                     else fm(previous \<mapsto> butlast sections)))))"

text \<open>
  The loop over the pages. \<open>spill\<close> and \<open>spill_page\<close> are \<open>spillover_from_last_page\<close> and
  \<open>spillover_page\<close>; the result is the offset found and the pages after taking it.

  The page number is a reference into the map. When the page has been emptied it is erased, and the walk
  back starts from what the reference reads then: \<open>slot page\<close>. The map documents that an erase moves its
  last element into the place that became free.
\<close>

fun register_loop :: "(nat \<Rightarrow> nat) \<Rightarrow> nat \<Rightarrow> pages \<Rightarrow> nat list \<Rightarrow> nat \<Rightarrow> nat \<Rightarrow> (nat \<times> pages) option" where
  "register_loop slot sz fm [] spill spill_page = None"
| "register_loop slot sz fm (page # rest) spill spill_page =
     (case fm page of
        None \<Rightarrow> register_loop slot sz fm rest spill spill_page
      | Some sections \<Rightarrow>
          (let page_offset = page * PAGE;
               spill = (if wrap32 (spill_page + 1) \<noteq> page \<or>
                           (sections \<noteq> [] \<and> sec_offset (hd sections) \<noteq> page_offset)
                        then 0 else spill) in
           case find (\<lambda>i. sz \<le> wrap32 (sec_size (sections ! i) + spill)) [0..<length sections] of
             Some i \<Rightarrow>
               (let need = sub32 sz spill;
                    fm' = take_from_section fm page i need;
                    page_number = (if fm' page = None then slot page else page)
                in Some (sub64 (sec_offset (sections ! i)) spill,
                         if 0 < spill then consume_tail page_number spill fm' else fm'))
           | None \<Rightarrow>
               (if sections \<noteq> [] \<and> sec_end (last sections) = page_offset + PAGE
                then register_loop slot sz fm rest (wrap32 (spill + sec_size (last sections))) page
                else register_loop slot sz fm rest 0 spill_page)))"

definition register_blob :: "(nat list \<Rightarrow> nat \<Rightarrow> nat) \<Rightarrow> (pages \<Rightarrow> nat list) \<Rightarrow> nat \<Rightarrow> blob_manager \<Rightarrow> nat \<times> blob_manager" where
  "register_blob slot ord sz m =
     (case register_loop (slot (ord (free_sections m))) sz (free_sections m) (ord (free_sections m)) 0 0 of
        Some (off, fm) \<Rightarrow> (off, m\<lparr>free_sections := fm\<rparr>)
      | None \<Rightarrow> (next_offset m, m\<lparr>next_offset := next_offset m + sz\<rparr>))"

section \<open>Unregistering a blob\<close>

text \<open>
  One page: \<open>std::lower_bound\<close> splits the sorted sections at \<open>off\<close>; the range is refused if it
  overlaps a neighbour (\<open>None\<close>), and merged with the neighbours it touches.
\<close>

definition insert_section :: "section_t list \<Rightarrow> nat \<Rightarrow> nat \<Rightarrow> section_t list option" where
  "insert_section sections off sz =
     (let before = takeWhile (\<lambda>s. sec_offset s < off) sections;
          after = dropWhile (\<lambda>s. sec_offset s < off) sections in
      if before \<noteq> [] \<and> sec_end (last before) > off then None
      else if after \<noteq> [] \<and> sec_offset (hd after) < off + sz then None
      else if before \<noteq> [] \<and> sec_end (last before) = off then
        (let s = (last before)\<lparr>sec_size := sec_size (last before) + sz\<rparr> in
         if after \<noteq> [] \<and> sec_end s = sec_offset (hd after)
         then Some (butlast before @ s\<lparr>sec_size := sec_size s + sec_size (hd after)\<rparr> # tl after)
         else Some (butlast before @ s # after))
      else
        (let s = \<lparr>sec_offset = off, sec_size = sz\<rparr> in
         if after \<noteq> [] \<and> sec_end s = sec_offset (hd after)
         then Some (before @ s\<lparr>sec_size := sz + sec_size (hd after)\<rparr> # tl after)
         else Some (before @ s # after)))"

fun unregister_loop :: "nat \<Rightarrow> nat \<Rightarrow> nat list \<Rightarrow> pages \<Rightarrow> bool \<times> pages" where
  "unregister_loop off stop [] fm = (True, fm)"
| "unregister_loop off stop (page # rest) fm =
     (let sections = (case fm page of None \<Rightarrow> [] | Some sections \<Rightarrow> sections);
          page_start = page * PAGE;
          page_end = page_start + PAGE;
          section_end = min stop page_end;
          offset_for_page = max off page_start;
          size_for_page = section_end - max page_start off in
      case insert_section sections offset_for_page size_for_page of
        None \<Rightarrow> (False, fm(page \<mapsto> sections))
      | Some sections \<Rightarrow>
          unregister_loop off stop rest
            (if sections = [] then fm(page := None) else fm(page \<mapsto> sections)))"

text \<open>
  The file shrinks while its last page, in iteration order, ends with a free section at the end of
  the file. Every round but the last erases a page, so the number of pages bounds the rounds.
\<close>

fun trim_loop :: "nat \<Rightarrow> (pages \<Rightarrow> nat list) \<Rightarrow> blob_manager \<Rightarrow> blob_manager" where
  "trim_loop 0 ord m = m"
| "trim_loop (Suc fuel) ord m =
     (let fm = free_sections m in
      if ord fm = [] then m
      else (let page = last (ord fm) in
        case fm page of
          None \<Rightarrow> m
        | Some sections \<Rightarrow>
            (let s = last sections in
             if sec_end s \<noteq> next_offset m then m
             else (let m = m\<lparr>next_offset := next_offset m - sec_size s\<rparr> in
               if length sections = 1
               then trim_loop fuel ord (m\<lparr>free_sections := fm(page := None)\<rparr>)
               else m\<lparr>free_sections := fm(page \<mapsto> butlast sections)\<rparr>))))"

definition unregister_blob ::
  "(pages \<Rightarrow> nat list) \<Rightarrow> nat \<Rightarrow> nat \<Rightarrow> blob_manager \<Rightarrow> bool \<times> blob_manager" where
  "unregister_blob ord total_offset total_size m =
     (let start_page = offset_page total_offset;
          stop = wrap64 (total_offset + total_size);
          end_page = wrap32 (sub64 stop 1 div PAGE) in
      if next_offset m < stop then (False, m)
      else (let (ok, fm) = unregister_loop total_offset stop [start_page..<Suc end_page] (free_sections m);
                m = m\<lparr>free_sections := fm\<rparr> in
        if \<not> ok then (False, m)
        else if stop = next_offset m
        then (True, trim_loop (Suc (length (ord fm))) ord m)
        else (True, m)))"

section \<open>Claiming a range\<close>

text \<open>The gap a claim beyond the end leaves is freed page by page.\<close>

function claim_gap :: "(pages \<Rightarrow> nat list) \<Rightarrow> nat \<Rightarrow> nat \<Rightarrow> blob_manager \<Rightarrow> bool \<times> blob_manager" where
  "claim_gap ord gap_pos start m =
     (if \<not> gap_pos < start then (True, m)
      else (let page_end = (gap_pos div PAGE + 1) * PAGE;
                piece_end = (if start < page_end then start else page_end);
                (ok, m) = unregister_blob ord gap_pos (wrap32 (piece_end - gap_pos)) m
            in if \<not> ok then (False, m) else claim_gap ord piece_end start m))"
  by pat_completeness auto

lemma page_pos: "0 < PAGE"
  by (simp add: FREE_BLOB_MANAGER_PAGE_SIZE_def)

lemma next_page: "n < (n div PAGE + 1) * PAGE"
  using page_pos by (metis Suc_eq_plus1 dividend_less_div_times mult_Suc add.commute)

termination claim_gap
proof (relation "measure (\<lambda>(ord, gap_pos, start, m). start - gap_pos)")
  fix ord gap_pos start m page_end piece_end x xa y
  assume *: "\<not> \<not> gap_pos < start" "page_end = (gap_pos div PAGE + 1) * PAGE"
    "piece_end = (if start < page_end then start else page_end)"
  have "gap_pos < piece_end" using next_page [of gap_pos] * by auto
  then show "((ord, piece_end, start, y), ord, gap_pos, start, m)
      \<in> measure (\<lambda>(ord, gap_pos, start, m). start - gap_pos)"
    using * by (auto simp: split: if_splits)
qed simp

text \<open>Carving one piece out of the free section that contains it; \<open>None\<close> if there is none.\<close>

definition carve_section :: "section_t list \<Rightarrow> nat \<Rightarrow> nat \<Rightarrow> section_t list option" where
  "carve_section sections pos piece_end =
     (case find (\<lambda>i. \<not> (pos < sec_offset (sections ! i) \<or> sec_end (sections ! i) < piece_end))
             [0..<length sections] of
        None \<Rightarrow> None
      | Some i \<Rightarrow>
          (let s = sections ! i; s_begin = sec_offset s; s_end = sec_end s in
           if pos = s_begin \<and> piece_end = s_end
           then Some (take i sections @ drop (Suc i) sections)
           else if pos = s_begin
           then Some (sections[i := \<lparr>sec_offset = piece_end, sec_size = wrap32 (s_end - piece_end)\<rparr>])
           else if piece_end = s_end
           then Some (sections[i := s\<lparr>sec_size := wrap32 (pos - s_begin)\<rparr>])
           else Some (take i sections @
                  [s\<lparr>sec_size := wrap32 (pos - s_begin)\<rparr>,
                   \<lparr>sec_offset = piece_end, sec_size = wrap32 (s_end - piece_end)\<rparr>] @
                  drop (Suc i) sections)))"

function claim_interior :: "nat \<Rightarrow> nat \<Rightarrow> pages \<Rightarrow> bool \<times> pages" where
  "claim_interior pos stop fm =
     (if \<not> pos < stop then (True, fm)
      else (let page = pos div PAGE;
                page_end = (page + 1) * PAGE;
                piece_end = (if stop < page_end then stop else page_end) in
        case fm (wrap32 page) of
          None \<Rightarrow> (False, fm)
        | Some sections \<Rightarrow>
            (case carve_section sections pos piece_end of
               None \<Rightarrow> (False, fm)
             | Some sections \<Rightarrow>
                 claim_interior piece_end stop
                   (if sections = [] then fm(wrap32 page := None) else fm(wrap32 page \<mapsto> sections)))))"
  by pat_completeness auto

termination claim_interior
proof (relation "measure (\<lambda>(pos, stop, fm). stop - pos)")
  fix pos stop :: nat and fm :: pages and page page_end piece_end x2 x2a
  assume *: "\<not> \<not> pos < stop" "page = pos div PAGE" "page_end = (page + 1) * PAGE"
    "piece_end = (if stop < page_end then stop else page_end)"
  have "pos < piece_end" using next_page [of pos] * by auto
  then show "((piece_end, stop, if x2a = [] then fm(wrap32 page := None) else fm(wrap32 page \<mapsto> x2a)),
      pos, stop, fm) \<in> measure (\<lambda>(pos, stop, fm). stop - pos)"
    using * by (auto split: if_splits)
qed simp

definition claim_blob ::
  "(pages \<Rightarrow> nat list) \<Rightarrow> nat \<Rightarrow> nat \<Rightarrow> blob_manager \<Rightarrow> bool \<times> blob_manager" where
  "claim_blob ord offset sz m =
     (if sz = 0 then (False, m)
      else (let start = offset; stop = wrap64 (offset + sz) in
        if next_offset m \<le> start then claim_gap ord (next_offset m) start (m\<lparr>next_offset := stop\<rparr>)
        else if next_offset m < stop then (False, m)
        else (let (ok, fm) = claim_interior start stop (free_sections m)
              in (ok, m\<lparr>free_sections := fm\<rparr>))))"

section \<open>Reading the state\<close>

definition get_file_size :: "blob_manager \<Rightarrow> nat" where
  "get_file_size m = next_offset m"

definition get_pages_count :: "blob_manager \<Rightarrow> nat" where
  "get_pages_count m = card (dom (free_sections m))"

definition get_free_section :: "nat \<Rightarrow> nat \<Rightarrow> blob_manager \<Rightarrow> section_t option" where
  "get_free_section page n m =
     (case free_sections m page of None \<Rightarrow> None | Some sections \<Rightarrow> Some (sections ! n))"

fun sections_count_loop :: "pages \<Rightarrow> nat list \<Rightarrow> bool \<Rightarrow> nat \<Rightarrow> nat" where
  "sections_count_loop fm [] last_page_ended count = count"
| "sections_count_loop fm (page # rest) last_page_ended count =
     (let sections = (case fm page of None \<Rightarrow> [] | Some sections \<Rightarrow> sections);
          count = (if last_page_ended \<and> sections \<noteq> [] \<and> sec_offset (hd sections) = page * PAGE
                   then count + (length sections - 1) else count + length sections)
      in sections_count_loop fm rest
           (sections \<noteq> [] \<and> sec_end (last sections) = wrap32 (page + 1) * PAGE) count)"

definition get_free_sections_count :: "(pages \<Rightarrow> nat list) \<Rightarrow> blob_manager \<Rightarrow> nat" where
  "get_free_sections_count ord m =
     sections_count_loop (free_sections m) (ord (free_sections m)) False 0"

end
