(* ===== verification/BlobSections.thy ===== *)
theory BlobSections
  imports BlobManager
begin

text \<open>
  The free sections of \<open>src/src/core/blob_manager.cpp\<close> as sets of bytes: the sections of a page stay
  sorted, apart and inside the page (\<open>secs_ok\<close>), the pages together are the invariant
  (\<open>pages_ok\<close>, \<open>manager_ok\<close>), and inserting a range into a page, the unregistering loop and the
  trimming of the file's end do to those sets of bytes what they should.
\<close>

section \<open>Sorted sections\<close>

text \<open>The sections of one page: inside \<open>[lo, hi)\<close>, not empty, sorted, and never adjacent.\<close>

fun secs_ok :: "nat \<Rightarrow> nat \<Rightarrow> section_t list \<Rightarrow> bool" where
  "secs_ok lo hi [] \<longleftrightarrow> True"
| "secs_ok lo hi (s # ss) \<longleftrightarrow>
     lo \<le> sec_offset s \<and> 0 < sec_size s \<and> sec_end s \<le> hi \<and> secs_ok (sec_end s + 1) hi ss"

definition sec_bytes :: "section_t \<Rightarrow> nat set" where
  "sec_bytes s = {sec_offset s..<sec_end s}"

definition secs_bytes :: "section_t list \<Rightarrow> nat set" where
  "secs_bytes ss = (\<Union>s \<in> set ss. sec_bytes s)"

lemma secs_bytes_simps [simp]:
  "secs_bytes [] = {}"
  "secs_bytes (s # ss) = sec_bytes s \<union> secs_bytes ss"
  "secs_bytes (xs @ ys) = secs_bytes xs \<union> secs_bytes ys"
  by (auto simp: secs_bytes_def)

lemma secs_ok_lower: "secs_ok lo hi ss \<Longrightarrow> lo' \<le> lo \<Longrightarrow> secs_ok lo' hi ss"
  by (cases ss) auto

lemma secs_ok_upper: "secs_ok lo hi ss \<Longrightarrow> hi \<le> hi' \<Longrightarrow> secs_ok lo hi' ss"
  by (induction ss arbitrary: lo) auto

lemma secs_ok_raise:
  "secs_ok lo hi ss \<Longrightarrow> (ss \<noteq> [] \<Longrightarrow> lo' \<le> sec_offset (hd ss)) \<Longrightarrow> secs_ok lo' hi ss"
  by (cases ss) auto

lemma secs_ok_append:
  "secs_ok lo hi (xs @ ys) \<longleftrightarrow>
     secs_ok lo hi xs \<and> secs_ok (if xs = [] then lo else sec_end (last xs) + 1) hi ys"
  by (induction xs arbitrary: lo) (auto split: if_splits)

lemma secs_ok_bounds:
  "secs_ok lo hi ss \<Longrightarrow> s \<in> set ss \<Longrightarrow> lo \<le> sec_offset s \<and> 0 < sec_size s \<and> sec_end s \<le> hi"
  by (induction ss arbitrary: lo) fastforce+

lemma secs_bytes_bounds: "secs_ok lo hi ss \<Longrightarrow> secs_bytes ss \<subseteq> {lo..<hi}"
  using secs_ok_bounds by (fastforce simp: secs_bytes_def sec_bytes_def)

lemma secs_ok_shrink_hi:
  "secs_ok lo hi xs \<Longrightarrow> (xs \<noteq> [] \<Longrightarrow> sec_end (last xs) \<le> hi') \<Longrightarrow> secs_ok lo hi' xs"
proof (induction xs arbitrary: lo)
  case (Cons s ss)
  have "ss \<noteq> [] \<Longrightarrow> sec_end s \<le> sec_offset (last ss)"
    using Cons.prems(1) secs_ok_bounds [of "sec_end s + 1" hi ss "last ss"] by fastforce
  then have "sec_end s \<le> hi'" using Cons.prems by (cases "ss = []") fastforce+
  then show ?case using Cons by (auto split: if_splits)
qed simp

text \<open>Everything before a section of a sorted list ends before it starts, everything after starts
  after it ends.\<close>

lemma secs_ok_middle:
  "secs_ok lo hi (xs @ s # ys) \<longleftrightarrow>
     secs_ok lo hi xs \<and> lo \<le> sec_offset s \<and> 0 < sec_size s \<and> sec_end s \<le> hi \<and>
     (xs \<noteq> [] \<longrightarrow> sec_end (last xs) < sec_offset s) \<and> secs_ok (sec_end s + 1) hi ys"
proof -
  have "lo \<le> sec_offset s" if "secs_ok lo hi xs" "xs \<noteq> []" "sec_end (last xs) < sec_offset s"
    using secs_ok_bounds [OF that(1) last_in_set [OF that(2)]] that(3) by linarith
  then show ?thesis by (auto simp: secs_ok_append split: if_splits)
qed

lemma secs_before:
  "secs_ok lo hi xs \<Longrightarrow> (xs \<noteq> [] \<Longrightarrow> sec_end (last xs) \<le> b) \<Longrightarrow> secs_bytes xs \<subseteq> {lo..<b}"
  using secs_bytes_bounds secs_ok_shrink_hi by blast

section \<open>Inserting a range into a page\<close>

lemma lower_bound_split:
  fixes off :: nat
  assumes "secs_ok lo hi ss"
  defines "xs \<equiv> takeWhile (\<lambda>s. sec_offset s < off) ss" and "ys \<equiv> dropWhile (\<lambda>s. sec_offset s < off) ss"
  shows "ss = xs @ ys" and "xs \<noteq> [] \<Longrightarrow> sec_offset (last xs) < off" and "ys \<noteq> [] \<Longrightarrow> off \<le> sec_offset (hd ys)"
proof -
  show "ss = xs @ ys" by (simp add: xs_def ys_def)
  show "xs \<noteq> [] \<Longrightarrow> sec_offset (last xs) < off"
    using last_in_set [of xs] set_takeWhileD unfolding xs_def by fastforce
  show "ys \<noteq> [] \<Longrightarrow> off \<le> sec_offset (hd ys)"
    using hd_dropWhile [of "\<lambda>s. sec_offset s < off" ss] unfolding ys_def by simp
qed

lemma insert_section_none:
  assumes "secs_ok lo hi ss" and "0 < sz"
    and "insert_section ss off sz = None"
  shows "{off..<off + sz} \<inter> secs_bytes ss \<noteq> {}"
proof -
  define xs where "xs = takeWhile (\<lambda>s. sec_offset s < off) ss"
  define ys where "ys = dropWhile (\<lambda>s. sec_offset s < off) ss"
  note lb = lower_bound_split [OF assms(1), of off, folded xs_def ys_def]
  have "xs \<noteq> [] \<and> sec_end (last xs) > off \<or> ys \<noteq> [] \<and> sec_offset (hd ys) < off + sz"
    using assms(3) by (auto simp: insert_section_def Let_def xs_def ys_def split: if_splits)
  then show ?thesis
  proof
    assume h: "xs \<noteq> [] \<and> sec_end (last xs) > off"
    then have "off \<in> sec_bytes (last xs)" using lb(2) by (auto simp: sec_bytes_def)
    moreover have "last xs \<in> set ss" using h lb(1) by (metis UnCI last_in_set set_append)
    ultimately show ?thesis using assms(2) by (fastforce simp: secs_bytes_def)
  next
    assume h: "ys \<noteq> [] \<and> sec_offset (hd ys) < off + sz"
    then have m: "hd ys \<in> set ss" using lb(1) by (metis UnCI hd_in_set set_append)
    then have "sec_offset (hd ys) \<in> sec_bytes (hd ys)"
      using secs_ok_bounds [OF assms(1)] by (auto simp: sec_bytes_def)
    then show ?thesis using h m lb(3) by (fastforce simp: secs_bytes_def)
  qed
qed

lemma insert_section_some:
  assumes ok: "secs_ok lo hi ss" and "0 < sz" and "lo \<le> off" and "off + sz \<le> hi"
    and some: "insert_section ss off sz = Some ss'"
  shows "secs_ok lo hi ss'" and "secs_bytes ss' = secs_bytes ss \<union> {off..<off + sz}"
    and "{off..<off + sz} \<inter> secs_bytes ss = {}" and "ss' \<noteq> []"
proof -
  define xs where "xs = takeWhile (\<lambda>s. sec_offset s < off) ss"
  define ys where "ys = dropWhile (\<lambda>s. sec_offset s < off) ss"
  note lb = lower_bound_split [OF ok, of off, folded xs_def ys_def]
  have c: "xs \<noteq> [] \<Longrightarrow> sec_end (last xs) \<le> off" "ys \<noteq> [] \<Longrightarrow> off + sz \<le> sec_offset (hd ys)"
    using some by (auto simp: insert_section_def Let_def xs_def ys_def split: if_splits)
  have okx: "secs_ok lo hi xs" and oky: "secs_ok (if xs = [] then lo else sec_end (last xs) + 1) hi ys"
    using ok unfolding lb(1) secs_ok_append by auto
  have bx: "secs_bytes xs \<subseteq> {lo..<off}" by (rule secs_before [OF okx c(1)])
  have oky': "secs_ok (off + sz) hi ys" by (rule secs_ok_raise [OF oky c(2)])
  have by': "secs_bytes ys \<subseteq> {off + sz..<hi}" by (rule secs_bytes_bounds [OF oky'])
  show "{off..<off + sz} \<inter> secs_bytes ss = {}" using bx by' unfolding lb(1) by fastforce
  have eq: "Some ss' =
     (if xs \<noteq> [] \<and> sec_end (last xs) = off then
        (let s = (last xs)\<lparr>sec_size := sec_size (last xs) + sz\<rparr> in
         if ys \<noteq> [] \<and> sec_end s = sec_offset (hd ys)
         then Some (butlast xs @ s\<lparr>sec_size := sec_size s + sec_size (hd ys)\<rparr> # tl ys)
         else Some (butlast xs @ s # ys))
      else
        (let s = \<lparr>sec_offset = off, sec_size = sz\<rparr> in
         if ys \<noteq> [] \<and> sec_end s = sec_offset (hd ys)
         then Some (xs @ s\<lparr>sec_size := sz + sec_size (hd ys)\<rparr> # tl ys)
         else Some (xs @ s # ys)))"
    using some c unfolding insert_section_def Let_def xs_def [symmetric] ys_def [symmetric]
    by (auto split: if_splits)
  have tly: "secs_ok (sec_end (hd ys) + 1) hi (tl ys)" "sec_end (hd ys) \<le> hi" "0 < sec_size (hd ys)"
      "secs_bytes ys = sec_bytes (hd ys) \<union> secs_bytes (tl ys)" if "ys \<noteq> []"
    using oky' that by (cases ys; simp)+
  have bxs: "secs_ok lo hi (butlast xs)" "lo \<le> sec_offset (last xs)" "0 < sec_size (last xs)"
      "butlast xs \<noteq> [] \<Longrightarrow> sec_end (last (butlast xs)) < sec_offset (last xs)"
      "secs_bytes xs = secs_bytes (butlast xs) \<union> sec_bytes (last xs)" if "xs \<noteq> []"
    using okx that secs_ok_middle [of lo hi "butlast xs" "last xs" "[]"]
      secs_bytes_simps(3) [of "butlast xs" "[last xs]"] by simp_all
  have ss: "secs_bytes ss = secs_bytes xs \<union> secs_bytes ys" unfolding lb(1) by simp
  have ysep: "secs_ok (off + sz + 1) hi ys" if "ys = [] \<or> off + sz \<noteq> sec_offset (hd ys)"
    by (rule secs_ok_raise [OF oky']) (use that c(2) in fastforce)
  show "secs_ok lo hi ss'"
  proof (cases "xs \<noteq> [] \<and> sec_end (last xs) = off"; cases "ys \<noteq> [] \<and> off + sz = sec_offset (hd ys)")
    assume "xs \<noteq> [] \<and> sec_end (last xs) = off" "ys \<noteq> [] \<and> off + sz = sec_offset (hd ys)"
    moreover from this have e: "sec_offset (last xs) + (sec_size (last xs) + sz + sec_size (hd ys)) = sec_end (hd ys)"
      by linarith
    moreover have "secs_ok (sec_offset (last xs) + (sec_size (last xs) + sz + sec_size (hd ys)) + 1) hi (tl ys)"
      unfolding e using calculation(2) tly(1) by blast
    ultimately show ?thesis using eq bxs tly(2) by (simp add: Let_def secs_ok_middle)
  next
    assume "xs \<noteq> [] \<and> sec_end (last xs) = off" "\<not> (ys \<noteq> [] \<and> off + sz = sec_offset (hd ys))"
    then show ?thesis using eq bxs ysep assms(4) by (auto simp: Let_def secs_ok_middle add.assoc)
  next
    assume n: "\<not> (xs \<noteq> [] \<and> sec_end (last xs) = off)" "ys \<noteq> [] \<and> off + sz = sec_offset (hd ys)"
    then have e: "off + (sz + sec_size (hd ys)) = sec_end (hd ys)" by linarith
    have "secs_ok (off + (sz + sec_size (hd ys)) + 1) hi (tl ys)"
      unfolding e using n(2) tly(1) by blast
    moreover have "xs \<noteq> [] \<Longrightarrow> sec_end (last xs) < off" using n(1) c(1) by fastforce
    moreover have "ss' = xs @ \<lparr>sec_offset = off, sec_size = sz + sec_size (hd ys)\<rparr> # tl ys"
      using eq n by (simp add: Let_def)
    moreover have "off + (sz + sec_size (hd ys)) \<le> hi" unfolding e using n(2) tly(2) by blast
    ultimately show ?thesis using okx assms(2,3) by (simp add: secs_ok_middle)
  next
    assume "\<not> (xs \<noteq> [] \<and> sec_end (last xs) = off)" "\<not> (ys \<noteq> [] \<and> off + sz = sec_offset (hd ys))"
    moreover from this have "xs \<noteq> [] \<Longrightarrow> sec_end (last xs) < off" using c(1) by fastforce
    ultimately show ?thesis using eq okx ysep assms(2-4) by (auto simp: Let_def secs_ok_middle)
  qed
  have join: "{a..<b} \<union> {b..<c} = {a..<c}" if "a \<le> b" "b \<le> c" for a b c :: nat
    using that by auto
  have j1: "sec_bytes (last xs) \<union> {off..<off + sz} = {sec_offset (last xs)..<off + sz}"
    if "xs \<noteq> [] \<and> sec_end (last xs) = off"
    unfolding sec_bytes_def using that by (intro trans [OF _ join [of _ off]]) auto
  have j2: "{a..<off + sz} \<union> sec_bytes (hd ys) = {a..<sec_end (hd ys)}"
    if "ys \<noteq> [] \<and> off + sz = sec_offset (hd ys)" "a \<le> off + sz" for a
    unfolding sec_bytes_def using that by (intro trans [OF _ join [of a "off + sz"]]) auto
  show "secs_bytes ss' = secs_bytes ss \<union> {off..<off + sz}"
  proof (cases "xs \<noteq> [] \<and> sec_end (last xs) = off"; cases "ys \<noteq> [] \<and> off + sz = sec_offset (hd ys)")
    assume x: "xs \<noteq> [] \<and> sec_end (last xs) = off" and y: "ys \<noteq> [] \<and> off + sz = sec_offset (hd ys)"
    have "secs_bytes ss' = secs_bytes (butlast xs) \<union> {sec_offset (last xs)..<sec_end (hd ys)} \<union> secs_bytes (tl ys)"
      using eq x y by (simp add: Let_def sec_bytes_def Un_assoc add.assoc [symmetric])
    also have "{sec_offset (last xs)..<sec_end (hd ys)} = sec_bytes (last xs) \<union> {off..<off + sz} \<union> sec_bytes (hd ys)"
      unfolding j1 [OF x] using j2 [OF y, of "sec_offset (last xs)"] x by simp
    finally show ?thesis using bxs(5) tly(4) x y unfolding ss by auto
  next
    assume x: "xs \<noteq> [] \<and> sec_end (last xs) = off" and y: "\<not> (ys \<noteq> [] \<and> off + sz = sec_offset (hd ys))"
    have "secs_bytes ss' = secs_bytes (butlast xs) \<union> {sec_offset (last xs)..<off + sz} \<union> secs_bytes ys"
      using eq x y by (auto simp: Let_def sec_bytes_def)
    then show ?thesis using bxs(5) x unfolding ss j1 [OF x, symmetric] by auto
  next
    assume x: "\<not> (xs \<noteq> [] \<and> sec_end (last xs) = off)" and y: "ys \<noteq> [] \<and> off + sz = sec_offset (hd ys)"
    have "secs_bytes ss' = secs_bytes xs \<union> {off..<sec_end (hd ys)} \<union> secs_bytes (tl ys)"
      using eq x y by (auto simp: Let_def sec_bytes_def)
    then show ?thesis using tly(4) y unfolding ss using j2 [OF y, of off] by auto
  next
    assume x: "\<not> (xs \<noteq> [] \<and> sec_end (last xs) = off)" and y: "\<not> (ys \<noteq> [] \<and> off + sz = sec_offset (hd ys))"
    have "ss' = xs @ \<lparr>sec_offset = off, sec_size = sz\<rparr> # ys" using eq x y by (simp add: Let_def)
    then show ?thesis unfolding ss by (auto simp: sec_bytes_def)
  qed
  show "ss' \<noteq> []" using eq by (auto simp: Let_def split: if_splits)
qed

section \<open>The invariant and the contract\<close>

definition pages_ok :: "nat \<Rightarrow> pages \<Rightarrow> bool" where
  "pages_ok stop fm \<longleftrightarrow> finite (dom fm) \<and>
     (\<forall>p ss. fm p = Some ss \<longrightarrow> ss \<noteq> [] \<and> secs_ok (p * PAGE) (min ((p + 1) * PAGE) stop) ss)"

definition bytes_at :: "pages \<Rightarrow> nat \<Rightarrow> nat set" where
  "bytes_at fm p = (case fm p of None \<Rightarrow> {} | Some ss \<Rightarrow> secs_bytes ss)"

definition free_bytes :: "pages \<Rightarrow> nat set" where
  "free_bytes fm = (\<Union>p. bytes_at fm p)"

definition allocated :: "blob_manager \<Rightarrow> nat set" where
  "allocated m = {..<next_offset m} - free_bytes (free_sections m)"

definition manager_ok :: "blob_manager \<Rightarrow> bool" where
  "manager_ok m \<longleftrightarrow> pages_ok (next_offset m) (free_sections m) \<and> next_offset m \<le> (2 ^ 32 - 1) * PAGE"

definition page_bytes :: "nat \<Rightarrow> nat set" where
  "page_bytes p = {p * PAGE..<(p + 1) * PAGE}"

lemma page_bytes_iff: "x \<in> page_bytes p \<longleftrightarrow> x div PAGE = p"
proof -
  have "x < (p + 1) * PAGE \<and> p * PAGE \<le> x \<longleftrightarrow> x div PAGE = p"
    using page_pos by (metis Suc_eq_plus1 div_nat_eqI div_times_less_eq_dividend dividend_less_div_times mult.commute mult_Suc_right add.commute)
  then show ?thesis by (auto simp: page_bytes_def)
qed

lemma bytes_at_upd [simp]:
  "bytes_at (fm(p \<mapsto> ss)) q = (if q = p then secs_bytes ss else bytes_at fm q)"
  "bytes_at (fm(p := None)) q = (if q = p then {} else bytes_at fm q)"
  by (auto simp: bytes_at_def)

lemma bytes_at_page:
  assumes "pages_ok stop fm"
  shows "bytes_at fm p \<subseteq> page_bytes p" and "bytes_at fm p \<subseteq> {..<stop}"
proof -
  have "secs_bytes ss \<subseteq> {p * PAGE..<min ((p + 1) * PAGE) stop}" if "fm p = Some ss" for ss
    using assms that by (intro secs_bytes_bounds) (simp add: pages_ok_def)
  then show "bytes_at fm p \<subseteq> page_bytes p" and "bytes_at fm p \<subseteq> {..<stop}"
    by (fastforce simp: bytes_at_def page_bytes_def split: option.splits)+
qed

lemma free_bytes_below: "pages_ok stop fm \<Longrightarrow> free_bytes fm \<subseteq> {..<stop}"
  using bytes_at_page(2) by (auto simp: free_bytes_def)

lemma pages_ok_erase: "pages_ok stop fm \<Longrightarrow> pages_ok stop (fm(p := None))"
  by (auto simp: pages_ok_def)

lemma pages_ok_put:
  "pages_ok stop fm \<Longrightarrow> ss \<noteq> [] \<Longrightarrow> secs_ok (p * PAGE) (min ((p + 1) * PAGE) stop) ss \<Longrightarrow>
   pages_ok stop (fm(p \<mapsto> ss))"
  by (auto simp: pages_ok_def)

lemma pages_okD:
  "pages_ok stop fm \<Longrightarrow> fm p = Some ss \<Longrightarrow> ss \<noteq> [] \<and> secs_ok (p * PAGE) (min ((p + 1) * PAGE) stop) ss"
  by (simp add: pages_ok_def)

section \<open>Unregistering\<close>

lemma unregister_loop_ok:
  assumes "pages_ok hi fm" and "distinct ps" and "stop \<le> hi"
    and "\<And>p. p \<in> set ps \<Longrightarrow> p * PAGE < stop \<and> off < (p + 1) * PAGE" and "off < stop"
    and "unregister_loop off stop ps fm = (ok, fm')"
  shows "pages_ok hi fm' \<and>
    (ok \<longleftrightarrow> (\<forall>q \<in> set ps. {off..<stop} \<inter> bytes_at fm q = {})) \<and>
    (ok \<longrightarrow> (\<forall>q. bytes_at fm' q = bytes_at fm q \<union> (if q \<in> set ps then {off..<stop} \<inter> page_bytes q else {})))"
  using assms
proof (induction ps arbitrary: fm)
  case Nil
  then show ?case by simp
next
  case (Cons p ps)
  define ss where "ss = (case fm p of None \<Rightarrow> [] | Some ss \<Rightarrow> ss)"
  define o' where "o' = max off (p * PAGE)"
  define n where "n = min stop (p * PAGE + PAGE) - max (p * PAGE) off"
  have p: "p * PAGE < stop" "off < p * PAGE + PAGE" using Cons.prems(4) [of p] by auto
  have on: "o' + n = min stop (p * PAGE + PAGE)" "0 < n" "p * PAGE \<le> o'"
    using p Cons.prems(5) page_pos by (auto simp: o'_def n_def)
  have le: "o' + n \<le> min ((p + 1) * PAGE) hi" using on Cons.prems(3) by auto
  have iv: "{o'..<o' + n} = {off..<stop} \<inter> page_bytes p"
    unfolding on(1) by (auto simp: o'_def page_bytes_def)
  have okss: "secs_ok (p * PAGE) (min ((p + 1) * PAGE) hi) ss"
    using Cons.prems(1) by (auto simp: ss_def pages_ok_def split: option.splits)
  have bss: "secs_bytes ss = bytes_at fm p" by (auto simp: ss_def bytes_at_def split: option.splits)
  have sub: "bytes_at fm p \<subseteq> page_bytes p" by (rule bytes_at_page [OF Cons.prems(1)])
  have unfold: "unregister_loop off stop (p # ps) fm =
      (case insert_section ss o' n of
         None \<Rightarrow> (False, fm(p \<mapsto> ss))
       | Some ss' \<Rightarrow> unregister_loop off stop ps (if ss' = [] then fm(p := None) else fm(p \<mapsto> ss')))"
    by (simp only: unregister_loop.simps Let_def ss_def o'_def n_def)
  show ?case
  proof (cases "insert_section ss o' n")
    case None
    have "{o'..<o' + n} \<inter> secs_bytes ss \<noteq> {}" by (rule insert_section_none [OF okss on(2) None])
    then have x: "{off..<stop} \<inter> bytes_at fm p \<noteq> {}" unfolding iv bss by blast
    then have "fm p = Some ss" by (auto simp: ss_def bytes_at_def split: option.splits)
    then have "fm(p \<mapsto> ss) = fm" by auto
    then show ?thesis using x Cons.prems(1,6) unfold None by auto
  next
    case (Some ss')
    note i = insert_section_some [OF okss on(2,3) le Some]
    let ?fm = "fm(p \<mapsto> ss')"
    have ok': "pages_ok hi ?fm" by (rule pages_ok_put [OF Cons.prems(1) i(4,1)])
    have run: "unregister_loop off stop ps ?fm = (ok, fm')"
      using Cons.prems(6) unfold Some i(4) by simp
    have "distinct ps" "p \<notin> set ps" using Cons.prems(2) by auto
    have "q * PAGE < stop \<and> off < (q + 1) * PAGE" if "q \<in> set ps" for q
      using Cons.prems(4) [of q] that by simp
    note IH = Cons.IH [OF ok' \<open>distinct ps\<close> Cons.prems(3) this Cons.prems(5) run]
    have at: "q \<in> set ps \<Longrightarrow> bytes_at ?fm q = bytes_at fm q" for q
      using \<open>p \<notin> set ps\<close> by auto
    have "{off..<stop} \<inter> bytes_at fm p = {}" using i(3) sub unfolding iv bss by blast
    then have "(\<forall>q \<in> set (p # ps). {off..<stop} \<inter> bytes_at fm q = {}) \<longleftrightarrow>
        (\<forall>q \<in> set ps. {off..<stop} \<inter> bytes_at ?fm q = {})"
      using at by simp
    moreover have "bytes_at fm' q = bytes_at fm q \<union> (if q \<in> set (p # ps) then {off..<stop} \<inter> page_bytes q else {})"
      if ok for q
    proof -
      have "bytes_at fm' q = bytes_at ?fm q \<union> (if q \<in> set ps then {off..<stop} \<inter> page_bytes q else {})"
        using IH that by blast
      then show ?thesis
        using i(2) \<open>p \<notin> set ps\<close> unfolding iv bss by (cases "q = p") simp_all
    qed
    ultimately show ?thesis using IH by metis
  qed
qed

lemma trim_step:
  assumes "pages_ok stop fm" and "fm p = Some ss" and "sec_end (last ss) = stop"
  shows "pages_ok (sec_offset (last ss)) (if length ss = 1 then fm(p := None) else fm(p \<mapsto> butlast ss))"
    and "free_bytes fm = free_bytes (if length ss = 1 then fm(p := None) else fm(p \<mapsto> butlast ss)) \<union>
      {sec_offset (last ss)..<stop}"
    and "sec_offset (last ss) < stop"
proof -
  let ?s = "last ss" and ?fm = "if length ss = 1 then fm(p := None) else fm(p \<mapsto> butlast ss)"
  have ne: "ss \<noteq> []" and ok: "secs_ok (p * PAGE) (min ((p + 1) * PAGE) stop) (butlast ss @ [?s])"
    using pages_okD [OF assms(1,2)] by auto
  note m = ok [unfolded secs_ok_middle]
  show "sec_offset ?s < stop" using m assms(3) by auto
  have other: "secs_ok (q * PAGE) (min ((q + 1) * PAGE) (sec_offset ?s)) ts" if q: "fm q = Some ts" "q \<noteq> p" for q ts
  proof (cases "q < p")
    case True
    then have "(q + 1) * PAGE \<le> p * PAGE" by (intro mult_le_mono1) simp
    then have "min ((q + 1) * PAGE) stop \<le> min ((q + 1) * PAGE) (sec_offset ?s)" using m by auto
    then show ?thesis using pages_okD [OF assms(1) q(1)] secs_ok_upper by blast
  next
    case False
    then have "(p + 1) * PAGE \<le> q * PAGE" using q(2) by (intro mult_le_mono1) simp
    then have "stop \<le> q * PAGE" using m assms(3) by auto
    moreover obtain t where "t \<in> set ts" using pages_okD [OF assms(1) q(1)] by (cases ts) auto
    ultimately show ?thesis
      using pages_okD [OF assms(1) q(1)] secs_ok_bounds [of "q * PAGE" "min ((q + 1) * PAGE) stop" ts t] by auto
  qed
  have same: "secs_ok (p * PAGE) (min ((p + 1) * PAGE) (sec_offset ?s)) (butlast ss)"
    by (rule secs_ok_shrink_hi) (use m in \<open>auto intro: less_imp_le\<close>)
  show "pages_ok (sec_offset ?s) ?fm"
    unfolding pages_ok_def
  proof (intro conjI allI impI)
    show "finite (dom ?fm)" using assms(1) by (auto simp: pages_ok_def)
    fix q ts
    assume a: "?fm q = Some ts"
    show "ts \<noteq> []"
    proof (cases "q = p")
      case True
      then have "length ss \<noteq> 1" "ts = butlast ss" using a by (auto split: if_splits)
      then show ?thesis using ne by (cases ss rule: rev_cases) auto
    next
      case False
      then show ?thesis using a pages_okD [OF assms(1)] by (auto split: if_splits)
    qed
    show "secs_ok (q * PAGE) (min ((q + 1) * PAGE) (sec_offset ?s)) ts"
    proof (cases "q = p")
      case True
      then show ?thesis using a same by (auto split: if_splits)
    next
      case False
      then show ?thesis using a by (intro other) (auto split: if_splits)
    qed
  qed
  have "secs_bytes ss = secs_bytes (butlast ss) \<union> {sec_offset ?s..<stop}"
    using secs_bytes_simps(3) [of "butlast ss" "[?s]"] ne assms(3) by (simp add: sec_bytes_def)
  moreover have "length ss = 1 \<Longrightarrow> butlast ss = []" by (cases ss) auto
  ultimately have at: "bytes_at fm q = bytes_at ?fm q \<union> (if q = p then {sec_offset ?s..<stop} else {})" for q
    using assms(2) by (auto simp: bytes_at_def)
  have "free_bytes fm = (\<Union>q. bytes_at ?fm q \<union> (if q = p then {sec_offset ?s..<stop} else {}))"
    unfolding free_bytes_def using at by (intro SUP_cong refl)
  also have "\<dots> = free_bytes ?fm \<union> {sec_offset ?s..<stop}"
    unfolding free_bytes_def UN_Un_distrib by (intro arg_cong2 [where f = "(\<union>)"] refl) auto
  finally show "free_bytes fm = free_bytes ?fm \<union> {sec_offset ?s..<stop}" .
qed

lemma trim_loop_ok:
  assumes "manager_ok m"
  shows "manager_ok (trim_loop fuel ord m) \<and> allocated (trim_loop fuel ord m) = allocated m \<and>
    next_offset (trim_loop fuel ord m) \<le> next_offset m"
  using assms
proof (induction fuel arbitrary: m)
  case 0
  then show ?case by simp
next
  case (Suc fuel)
  let ?fm = "free_sections m" and ?p = "last (ord (free_sections m))"
  show ?case
  proof (cases "ord ?fm = [] \<or> (\<forall>ss. ?fm ?p = Some ss \<longrightarrow> sec_end (last ss) \<noteq> next_offset m)")
    case True
    then have "trim_loop (Suc fuel) ord m = m" by (auto simp: Let_def split: option.splits)
    then show ?thesis using Suc.prems by simp
  next
    case False
    then obtain ss where ss: "ord ?fm \<noteq> []" "?fm ?p = Some ss" "sec_end (last ss) = next_offset m" by auto
    define fm' where "fm' = (if length ss = 1 then ?fm(?p := None) else ?fm(?p \<mapsto> butlast ss))"
    have ok: "pages_ok (next_offset m) ?fm" using Suc.prems by (simp add: manager_ok_def)
    note t = trim_step [OF ok ss(2,3), folded fm'_def]
    have nx: "next_offset m - sec_size (last ss) = sec_offset (last ss)" using ss(3) by simp
    define m' where "m' = \<lparr>next_offset = sec_offset (last ss), free_sections = fm'\<rparr>"
    have m': "length ss = 1 \<Longrightarrow> m\<lparr>next_offset := sec_offset (last ss), free_sections := ?fm(?p := None)\<rparr> = m'"
      "length ss \<noteq> 1 \<Longrightarrow> m\<lparr>next_offset := sec_offset (last ss), free_sections := ?fm(?p \<mapsto> butlast ss)\<rparr> = m'"
      by (simp_all add: m'_def fm'_def)
    have "manager_ok m'" using t Suc.prems by (auto simp: manager_ok_def m'_def)
    moreover have "allocated m' = allocated m"
      using t free_bytes_below [OF t(1)] by (auto simp: allocated_def m'_def)
    moreover have "trim_loop (Suc fuel) ord m = (if length ss = 1 then trim_loop fuel ord m' else m')"
      using ss m' by (simp add: Let_def nx)
    ultimately show ?thesis using Suc.IH [of m'] t(3) by (auto simp: m'_def)
  qed
qed

lemma manager_ok_pages: "manager_ok m \<Longrightarrow> pages_ok (next_offset m) (free_sections m)"
  by (simp add: manager_ok_def)

lemma covers_pages:
  assumes "off < stop"
  shows "q \<in> set [off div PAGE..<Suc ((stop - 1) div PAGE)] \<longleftrightarrow> q * PAGE < stop \<and> off < (q + 1) * PAGE"
proof -
  have "off div PAGE \<le> q \<longleftrightarrow> off < (q + 1) * PAGE"
    using page_pos div_less_iff_less_mult [of PAGE off "q + 1"] by (simp add: less_Suc_eq_le)
  moreover have "q \<le> (stop - 1) div PAGE \<longleftrightarrow> q * PAGE \<le> stop - 1"
    using page_pos by (simp add: less_eq_div_iff_mult_less_eq)
  moreover have "q * PAGE \<le> stop - 1 \<longleftrightarrow> q * PAGE < stop" using assms by linarith
  ultimately show ?thesis by (simp only: set_upt atLeastLessThan_iff less_Suc_eq_le) blast
qed

end
