(* ===== verification/BlobAllocator.thy ===== *)
theory BlobAllocator
  imports BlobSections
begin

text \<open>
  Registering and unregistering (\<open>src/src/core/blob_manager.cpp\<close>) against the byte-set contract:
  \<open>unregister_blob_ok\<close> and \<open>register_blob_ok\<close>, with the spillover of free page tails
  (\<open>tail_free\<close>) and its consumption.
\<close>

lemma page_bound: "x \<le> (2 ^ 32 - 1) * PAGE \<Longrightarrow> x < 2 ^ 64"
  by (simp add: FREE_BLOB_MANAGER_PAGE_SIZE_def)

lemma offset_page_id: "x < 2 ^ 32 * PAGE \<Longrightarrow> wrap32 (x div PAGE) = x div PAGE"
  by (rule wrap32_id) (simp add: less_mult_imp_div_less)

lemma pages_cover:
  assumes "off < stop"
  shows "(\<Union>q \<in> set [off div PAGE..<Suc ((stop - 1) div PAGE)]. {off..<stop} \<inter> page_bytes q) = {off..<stop}"
proof -
  have "x div PAGE \<in> set [off div PAGE..<Suc ((stop - 1) div PAGE)]" if "x \<in> {off..<stop}" for x
  proof -
    have "x div PAGE * PAGE \<le> x" "x < (x div PAGE + 1) * PAGE" using next_page by simp_all
    moreover have "off \<le> x" "x < stop" using that by simp_all
    ultimately have "x div PAGE * PAGE < stop \<and> off < (x div PAGE + 1) * PAGE" by linarith
    then show ?thesis by (simp only: covers_pages [OF assms])
  qed
  then show ?thesis using page_bytes_iff by blast
qed

lemma unregister_blob_ok:
  assumes "manager_ok m" and "0 < sz" and "off + sz < 2 ^ 64"
    and "unregister_blob ord off sz m = (ok, m')"
  shows "manager_ok m' \<and> (ok \<longleftrightarrow> {off..<off + sz} \<subseteq> allocated m) \<and>
    (ok \<longrightarrow> allocated m' = allocated m - {off..<off + sz})"
proof (cases "off + sz \<le> next_offset m")
  case False
  then have "unregister_blob ord off sz m = (False, m)"
    using assms(3) by (simp add: unregister_blob_def wrap64_id Let_def)
  moreover have "\<not> {off..<off + sz} \<subseteq> allocated m"
  proof
    assume "{off..<off + sz} \<subseteq> allocated m"
    moreover have "off + sz - 1 \<in> {off..<off + sz}" using assms(2) by auto
    ultimately have "off + sz - 1 < next_offset m" by (auto simp: allocated_def)
    then show False using False assms(2) by simp
  qed
  ultimately show ?thesis using assms(1,4) by simp
next
  case True
  let ?stop = "off + sz"
  let ?ps = "[off div PAGE..<Suc ((?stop - 1) div PAGE)]"
  have lim: "next_offset m \<le> (2 ^ 32 - 1) * PAGE" using assms(1) by (simp add: manager_ok_def)
  have pages: "offset_page off = off div PAGE" "wrap32 ((?stop - 1) div PAGE) = (?stop - 1) div PAGE"
    unfolding offset_page_def
    by (rule offset_page_id, use lim True assms(2) page_pos in \<open>simp add: left_diff_distrib'\<close>)+
  have w: "wrap64 ?stop = ?stop" "sub64 ?stop 1 = ?stop - 1"
    using assms(2,3) by (simp_all add: wrap64_id sub64_id)
  obtain ok1 fm1 where loop: "unregister_loop off ?stop ?ps (free_sections m) = (ok1, fm1)" by fastforce
  have lt: "off < ?stop" using assms(2) by simp
  note l = unregister_loop_ok [OF manager_ok_pages [OF assms(1)] distinct_upt True _ lt loop]
  have l: "pages_ok (next_offset m) fm1"
    "ok1 \<longleftrightarrow> (\<forall>q \<in> set ?ps. {off..<?stop} \<inter> bytes_at (free_sections m) q = {})"
    "ok1 \<Longrightarrow> bytes_at fm1 q = bytes_at (free_sections m) q \<union> (if q \<in> set ?ps then {off..<?stop} \<inter> page_bytes q else {})" for q
    using l covers_pages [OF lt] by blast+
  have "ok1 \<longleftrightarrow> {off..<?stop} \<inter> free_bytes (free_sections m) = {}"
  proof
    assume ok1
    show "{off..<?stop} \<inter> free_bytes (free_sections m) = {}"
    proof (rule ccontr)
      assume "{off..<?stop} \<inter> free_bytes (free_sections m) \<noteq> {}"
      then obtain x where "x \<in> {off..<?stop}" "x \<in> free_bytes (free_sections m)" by blast
      then obtain q where x: "x \<in> {off..<?stop}" "x \<in> bytes_at (free_sections m) q"
        unfolding free_bytes_def by blast
      then have "x \<in> page_bytes q" using bytes_at_page(1) [OF manager_ok_pages [OF assms(1)]] by blast
      then have "q \<in> set ?ps" using covers_pages [OF lt, of q] x(1) by (auto simp: page_bytes_def)
      then show False using \<open>ok1\<close> l(2) x by blast
    qed
  next
    assume "{off..<?stop} \<inter> free_bytes (free_sections m) = {}"
    then show ok1 unfolding l(2) free_bytes_def by blast
  qed
  then have ok_iff: "ok1 \<longleftrightarrow> {off..<?stop} \<subseteq> allocated m"
    using True by (auto simp: allocated_def)
  define m1 where "m1 = m\<lparr>free_sections := fm1\<rparr>"
  have m1: "manager_ok m1" using l(1) lim by (simp add: manager_ok_def m1_def)
  have alloc: "allocated m1 = allocated m - {off..<?stop}" if ok1
  proof -
    have "free_bytes fm1 = free_bytes (free_sections m) \<union> (\<Union>q \<in> set ?ps. {off..<?stop} \<inter> page_bytes q)"
      using l(3) [OF that] by (auto simp: free_bytes_def split: if_splits)
    then have "free_bytes fm1 = free_bytes (free_sections m) \<union> {off..<?stop}"
      by (simp only: pages_cover [OF lt])
    then show ?thesis by (auto simp: allocated_def m1_def)
  qed
  have res: "unregister_blob ord off sz m =
      (if \<not> ok1 then (False, m1)
       else if ?stop = next_offset m1 then (True, trim_loop (Suc (length (ord fm1))) ord m1) else (True, m1))"
    using True unfolding unregister_blob_def Let_def pages w loop m1_def
    by (simp del: trim_loop.simps upt_Suc)
  define t where "t = trim_loop (Suc (length (ord fm1))) ord m1"
  have t: "manager_ok t" "allocated t = allocated m1" unfolding t_def using trim_loop_ok [OF m1] by blast+
  have m': "ok = ok1" "m' = m1 \<or> ok1 \<and> m' = t"
    using assms(4) res [folded t_def] by (simp_all split: if_splits)
  then show ?thesis using ok_iff m1 alloc t by (elim disjE) simp_all
qed

section \<open>Registering\<close>

text \<open>
  What \<open>spillover_from_last_page\<close> stands for: the \<open>n\<close> bytes before page \<open>p\<close> are free, as the last
  section of the page before and, beyond it, pages that are free as a whole.
\<close>

fun tail_free :: "pages \<Rightarrow> nat \<Rightarrow> nat \<Rightarrow> bool" where
  "tail_free fm 0 n \<longleftrightarrow> n = 0"
| "tail_free fm (Suc p) n \<longleftrightarrow> n = 0 \<or>
     (\<exists>ss. fm p = Some ss \<and> ss \<noteq> [] \<and> sec_end (last ss) = (p + 1) * PAGE \<and> sec_size (last ss) \<le> n \<and>
       (n = sec_size (last ss) \<or>
        length ss = 1 \<and> sec_offset (hd ss) = p * PAGE \<and> tail_free fm p (n - sec_size (last ss))))"

lemma tail_free_zero [simp]: "tail_free fm p 0"
  by (cases p) simp_all

lemma tail_free_cong: "(\<And>q. q < p \<Longrightarrow> fm q = fm' q) \<Longrightarrow> tail_free fm p n \<Longrightarrow> tail_free fm' p n"
proof (induction p arbitrary: n)
  case (Suc p)
  have "tail_free fm p k \<Longrightarrow> tail_free fm' p k" for k
    using Suc.IH Suc.prems(1) by simp
  moreover have "fm' p = fm p" using Suc.prems(1) by simp
  ultimately show ?case using Suc.prems(2) by auto
qed simp

lemma drop_last_section:
  assumes "pages_ok stop fm" and "fm p = Some ss" and "sec_end (last ss) = (p + 1) * PAGE"
  defines "fm' \<equiv> if length ss = 1 then fm(p := None) else fm(p \<mapsto> butlast ss)"
  shows "pages_ok stop fm'"
    and "bytes_at fm' q = bytes_at fm q - (if q = p then {sec_offset (last ss)..<(p + 1) * PAGE} else {})"
    and "{sec_offset (last ss)..<(p + 1) * PAGE} \<subseteq> bytes_at fm p"
proof -
  have ne: "ss \<noteq> []" and ok: "secs_ok (p * PAGE) (min ((p + 1) * PAGE) stop) (butlast ss @ [last ss])"
    using pages_okD [OF assms(1,2)] by auto
  note m = ok [unfolded secs_ok_middle]
  have "secs_bytes ss = secs_bytes (butlast ss) \<union> sec_bytes (last ss)"
    using secs_bytes_simps(3) [of "butlast ss" "[last ss]"] ne by simp
  then have b: "secs_bytes ss = secs_bytes (butlast ss) \<union> {sec_offset (last ss)..<(p + 1) * PAGE}"
    by (simp only: sec_bytes_def assms(3))
  show "pages_ok stop fm'"
  proof (cases "length ss = 1")
    case True
    then show ?thesis using pages_ok_erase [OF assms(1)] by (simp add: fm'_def)
  next
    case False
    then have "butlast ss \<noteq> []" using ne by (cases ss rule: rev_cases) auto
    then show ?thesis using False pages_ok_put [OF assms(1), of "butlast ss" p] m by (simp add: fm'_def)
  qed
  show "{sec_offset (last ss)..<(p + 1) * PAGE} \<subseteq> bytes_at fm p"
    using assms(2) b by (auto simp: bytes_at_def)
  have "secs_bytes (butlast ss) \<subseteq> {p * PAGE..<sec_offset (last ss)}"
    by (rule secs_before) (use m in auto)
  then have "secs_bytes (butlast ss) = secs_bytes ss - {sec_offset (last ss)..<(p + 1) * PAGE}"
    unfolding b by fastforce
  moreover have "length ss = 1 \<Longrightarrow> secs_bytes (butlast ss) = {}" by (cases ss) auto
  ultimately have "bytes_at fm' p = bytes_at fm p - {sec_offset (last ss)..<(p + 1) * PAGE}"
    using assms(2) by (simp add: fm'_def bytes_at_def)
  moreover have "q \<noteq> p \<Longrightarrow> bytes_at fm' q = bytes_at fm q" by (simp add: fm'_def)
  ultimately show "bytes_at fm' q = bytes_at fm q - (if q = p then {sec_offset (last ss)..<(p + 1) * PAGE} else {})"
    by (cases "q = p") simp_all
qed

lemma consume_tail_ok:
  assumes "pages_ok stop fm" and "tail_free fm p n"
  shows "n \<le> p * PAGE \<and> pages_ok stop (consume_tail p n fm) \<and>
    {p * PAGE - n..<p * PAGE} \<subseteq> free_bytes fm \<and>
    free_bytes (consume_tail p n fm) = free_bytes fm - {p * PAGE - n..<p * PAGE}"
  using assms
proof (induction p arbitrary: n fm)
  case 0
  then show ?case by simp
next
  case (Suc p)
  show ?case
  proof (cases "n = 0")
    case True
    then show ?thesis using Suc.prems(1) by simp
  next
    case False
    then obtain ss where ss: "fm p = Some ss" "ss \<noteq> []" "sec_end (last ss) = (p + 1) * PAGE"
      "sec_size (last ss) \<le> n"
      and or: "n = sec_size (last ss) \<or>
        length ss = 1 \<and> sec_offset (hd ss) = p * PAGE \<and> tail_free fm p (n - sec_size (last ss))"
      using Suc.prems(2) by auto
    define c where "c = sec_size (last ss)"
    define fm' where "fm' = (if length ss = 1 then fm(p := None) else fm(p \<mapsto> butlast ss))"
    note d = drop_last_section [OF Suc.prems(1) ss(1,3), folded fm'_def]
    have off: "sec_offset (last ss) = (p + 1) * PAGE - c" "c \<le> (p + 1) * PAGE" using ss(3) by (auto simp: c_def)
    have unfold: "consume_tail (Suc p) n fm = consume_tail p (n - c) fm'"
      using False ss by (simp add: Let_def c_def fm'_def)
    have t: "tail_free fm' p (n - c)"
      using or
    proof
      assume "n = sec_size (last ss)"
      then show ?thesis by (simp add: c_def)
    next
      assume h: "length ss = 1 \<and> sec_offset (hd ss) = p * PAGE \<and> tail_free fm p (n - sec_size (last ss))"
      show ?thesis
        by (rule tail_free_cong [of p fm]) (use h in \<open>auto simp: fm'_def c_def\<close>)
    qed
    note IH = Suc.IH [OF d(1) t]
    have cont: "c = PAGE" if "n \<noteq> c"
    proof -
      have "length ss = 1" "sec_offset (hd ss) = p * PAGE" using or that by (auto simp: c_def)
      then have "sec_offset (last ss) = p * PAGE" by (cases ss) auto
      then show ?thesis using ss(3) by (simp add: c_def)
    qed
    have lo: "(p + 1) * PAGE - c = p * PAGE" if "n \<noteq> c" using cont [OF that] by simp
    have fb: "free_bytes fm' = free_bytes fm - {(p + 1) * PAGE - c..<(p + 1) * PAGE}"
    proof -
      have "bytes_at fm q \<inter> {(p + 1) * PAGE - c..<(p + 1) * PAGE} = {}" if "q \<noteq> p" for q
      proof -
        have "{(p + 1) * PAGE - c..<(p + 1) * PAGE} \<subseteq> page_bytes p"
          using d(3) bytes_at_page(1) [OF Suc.prems(1), of p] off(1) by auto
        moreover have "page_bytes p \<inter> page_bytes q = {}" using that page_bytes_iff by auto
        ultimately show ?thesis using bytes_at_page(1) [OF Suc.prems(1), of q] by blast
      qed
      then have dj: "x \<in> bytes_at fm q \<Longrightarrow> x \<in> {(p + 1) * PAGE - c..<(p + 1) * PAGE} \<Longrightarrow> q = p" for x q
        by blast
      show ?thesis
        unfolding free_bytes_def d(2) off(1) using dj by (auto split: if_splits simp del: atLeastLessThan_iff)
    qed
    have sub: "{(p + 1) * PAGE - c..<(p + 1) * PAGE} \<subseteq> free_bytes fm"
      using d(3) off(1) by (auto simp: free_bytes_def)
    show ?thesis
    proof (cases "n = c")
      case True
      then show ?thesis using IH fb sub off(2) unfold by auto
    next
      case False
      have e: "{Suc p * PAGE - n..<Suc p * PAGE} = {p * PAGE - (n - c)..<p * PAGE} \<union> {(p + 1) * PAGE - c..<(p + 1) * PAGE}"
        using lo [OF False] cont [OF False] IH ss(4) c_def by auto
      have "n \<le> Suc p * PAGE" using IH cont [OF False] ss(4) c_def by auto
      then show ?thesis
        using IH fb sub unfolding unfold e by auto
    qed
  qed
qed

text \<open>
  The search goes wrong in two ways only. Spillover is added to the size of every section of the page, and
  to the spillover that is passed on, although only the first section continues it. And the walk back
  starts at the wrong page when the page was erased and the reference to its number reads another one.
  \<open>spill_sound\<close> follows the search and says that neither happens to this request.
\<close>

fun spill_sound :: "(nat \<Rightarrow> nat) \<Rightarrow> nat \<Rightarrow> pages \<Rightarrow> nat list \<Rightarrow> nat \<Rightarrow> nat \<Rightarrow> bool" where
  "spill_sound slot sz fm [] spill spill_page \<longleftrightarrow> True"
| "spill_sound slot sz fm (page # rest) spill spill_page \<longleftrightarrow>
     (case fm page of
        None \<Rightarrow> spill_sound slot sz fm rest spill spill_page
      | Some sections \<Rightarrow>
          (let spill = (if wrap32 (spill_page + 1) \<noteq> page \<or> (sections \<noteq> [] \<and> sec_offset (hd sections) \<noteq> page * PAGE)
                        then 0 else spill) in
           case find (\<lambda>i. sz \<le> wrap32 (sec_size (sections ! i) + spill)) [0..<length sections] of
             Some i \<Rightarrow> spill = 0 \<or> i = 0 \<and> (take_from_section fm page i (sub32 sz spill) page = None \<longrightarrow> slot page = page)
           | None \<Rightarrow>
               (if sections \<noteq> [] \<and> sec_end (last sections) = page * PAGE + PAGE
                then (spill = 0 \<or> length sections = 1) \<and> spill_sound slot sz fm rest (wrap32 (spill + sec_size (last sections))) page
                else spill_sound slot sz fm rest 0 spill_page)))"

definition request_sound :: "(nat list \<Rightarrow> nat \<Rightarrow> nat) \<Rightarrow> (pages \<Rightarrow> nat list) \<Rightarrow> nat \<Rightarrow> blob_manager \<Rightarrow> bool" where
  "request_sound slot ord sz m \<longleftrightarrow>
     spill_sound (slot (ord (free_sections m))) sz (free_sections m) (ord (free_sections m)) 0 0"

lemma take_from_section_ok:
  assumes "pages_ok stop fm" and "fm p = Some ss" and "i < length ss"
    and "0 < need" and "need \<le> sec_size (ss ! i)" and "sec_size (ss ! i) < 2 ^ 32"
  shows "pages_ok stop (take_from_section fm p i need)"
    and "bytes_at (take_from_section fm p i need) q =
      bytes_at fm q - (if q = p then {sec_offset (ss ! i)..<sec_offset (ss ! i) + need} else {})"
    and "{sec_offset (ss ! i)..<sec_offset (ss ! i) + need} \<subseteq> bytes_at fm p"
    and "q \<noteq> p \<Longrightarrow> take_from_section fm p i need q = fm q"
proof -
  define s where "s = ss ! i"
  define xs ys where "xs = take i ss" and "ys = drop (Suc i) ss"
  let ?R = "{sec_offset s..<sec_offset s + need}"
  have ss: "ss = xs @ s # ys" using assms(3) by (simp add: xs_def ys_def s_def id_take_nth_drop)
  have li: "length xs = i" using assms(3) by (simp add: xs_def)
  have ok: "secs_ok (p * PAGE) (min ((p + 1) * PAGE) stop) (xs @ s # ys)"
    using pages_okD [OF assms(1,2)] ss by simp
  note m = ok [unfolded secs_ok_middle]
  have bx: "secs_bytes xs \<subseteq> {p * PAGE..<sec_offset s}"
    by (rule secs_before) (use m in \<open>auto intro: less_imp_le\<close>)
  have by': "secs_bytes ys \<subseteq> {sec_end s + 1..<min ((p + 1) * PAGE) stop}"
    by (rule secs_bytes_bounds) (use m in blast)
  have need: "0 < need" "need \<le> sec_size s" using assms(4,5) by (simp_all add: s_def)
  define ts where "ts = (if sec_size s = need then xs @ ys
      else xs @ \<lparr>sec_offset = sec_offset s + need, sec_size = sec_size s - need\<rparr> # ys)"
  have sub: "sub32 (sec_size s) need = sec_size s - need"
    using need assms(6) by (intro sub32_id) (simp_all add: s_def)
  have res: "take_from_section fm p i need = (if ts = [] then fm(p := None) else fm(p \<mapsto> ts))"
    using assms(2,3) li ss sub by (auto simp: take_from_section_def Let_def ts_def s_def [symmetric] list_update_append)
  have okt: "secs_ok (p * PAGE) (min ((p + 1) * PAGE) stop) ts"
  proof (cases "sec_size s = need")
    case True
    have "secs_ok (if xs = [] then p * PAGE else sec_end (last xs) + 1) (min ((p + 1) * PAGE) stop) ys"
      by (rule secs_ok_lower [of "sec_end s + 1"]) (use m in auto)
    then show ?thesis using m True by (simp add: ts_def secs_ok_append)
  next
    case False
    then show ?thesis using m need by (auto simp: ts_def secs_ok_middle)
  qed
  have bt: "secs_bytes ts = secs_bytes ss - ?R"
  proof -
    have "sec_bytes s = ?R \<union> {sec_offset s + need..<sec_end s}" using need by (auto simp: sec_bytes_def)
    moreover have "secs_bytes ts = secs_bytes xs \<union> {sec_offset s + need..<sec_end s} \<union> secs_bytes ys"
      using need by (auto simp: ts_def sec_bytes_def)
    moreover have "secs_bytes xs \<inter> ?R = {}" "secs_bytes ys \<inter> ?R = {}" using bx by' need by fastforce+
    ultimately show ?thesis unfolding ss by auto
  qed
  show "pages_ok stop (take_from_section fm p i need)"
    unfolding res using pages_ok_erase [OF assms(1)] pages_ok_put [OF assms(1) _ okt] by simp
  have "bytes_at (take_from_section fm p i need) q = bytes_at fm q - (if q = p then ?R else {})"
    unfolding res using bt assms(2) by (auto simp: bytes_at_def)
  then show "bytes_at (take_from_section fm p i need) q =
      bytes_at fm q - (if q = p then {sec_offset (ss ! i)..<sec_offset (ss ! i) + need} else {})"
    by (simp only: s_def)
  have "?R \<subseteq> bytes_at fm p" using assms(2) need by (auto simp: bytes_at_def ss sec_bytes_def)
  then show "{sec_offset (ss ! i)..<sec_offset (ss ! i) + need} \<subseteq> bytes_at fm p" by (simp only: s_def)
  show "q \<noteq> p \<Longrightarrow> take_from_section fm p i need q = fm q" unfolding res by simp
qed

lemma take_from_section_free:
  assumes "pages_ok stop fm" and "fm p = Some ss" and "i < length ss"
    and "0 < need" and "need \<le> sec_size (ss ! i)" and "sec_size (ss ! i) < 2 ^ 32"
  shows "free_bytes (take_from_section fm p i need) =
      free_bytes fm - {sec_offset (ss ! i)..<sec_offset (ss ! i) + need}"
    and "{sec_offset (ss ! i)..<sec_offset (ss ! i) + need} \<subseteq> free_bytes fm"
proof -
  let ?R = "{sec_offset (ss ! i)..<sec_offset (ss ! i) + need}"
  note t = take_from_section_ok [OF assms]
  show sub: "?R \<subseteq> free_bytes fm" using t(3) by (auto simp: free_bytes_def)
  have "bytes_at fm q \<inter> ?R = {}" if "q \<noteq> p" for q
  proof -
    have "page_bytes p \<inter> page_bytes q = {}" using that page_bytes_iff by auto
    then show ?thesis using t(3) bytes_at_page(1) [OF assms(1)] by blast
  qed
  then have dj: "x \<in> bytes_at fm q \<Longrightarrow> x \<in> ?R \<Longrightarrow> q = p" for x q by blast
  show "free_bytes (take_from_section fm p i need) = free_bytes fm - ?R"
  proof (rule set_eqI)
    fix x
    have "x \<in> bytes_at (take_from_section fm p i need) q \<longleftrightarrow> x \<in> bytes_at fm q \<and> \<not> (q = p \<and> x \<in> ?R)" for q
      unfolding t(2) by (cases "q = p") simp_all
    then show "x \<in> free_bytes (take_from_section fm p i need) \<longleftrightarrow> x \<in> free_bytes fm - ?R"
      unfolding free_bytes_def using dj [of x] by blast
  qed
qed

lemma page_small:
  assumes "pages_ok stop fm" and "stop \<le> (2 ^ 32 - 1) * PAGE" and "fm p = Some ss"
  shows "p < 2 ^ 32 - 1" and "s \<in> set ss \<Longrightarrow> sec_size s \<le> PAGE \<and> sec_end s < 2 ^ 64"
proof -
  note ok = pages_okD [OF assms(1,3)]
  obtain t where t: "t \<in> set ss" using ok by (cases ss) auto
  have "p * PAGE < stop" using secs_ok_bounds [OF _ t] ok by fastforce
  then have "p * PAGE < (2 ^ 32 - 1) * PAGE" using assms(2) by linarith
  then show "p < 2 ^ 32 - 1" using page_pos by simp
  assume s: "s \<in> set ss"
  then have b: "p * PAGE \<le> sec_offset s" "sec_end s \<le> (p + 1) * PAGE" "sec_end s \<le> stop"
    using secs_ok_bounds [OF _ s] ok by fastforce+
  have "(p + 1) * PAGE = p * PAGE + PAGE" by simp
  then have "sec_size s \<le> PAGE" using b by linarith
  moreover have "sec_end s < 2 ^ 64" using b(3) assms(2) by (intro page_bound) linarith
  ultimately show "sec_size s \<le> PAGE \<and> sec_end s < 2 ^ 64" ..
qed

lemma register_loop_ok:
  assumes ok: "pages_ok stop fm" and lim: "stop \<le> (2 ^ 32 - 1) * PAGE"
    and sz: "0 < sz" "sz + PAGE \<le> 2 ^ 32"
    and "spill < sz" and "spill_page < 2 ^ 32 - 1" and "spill = 0 \<or> tail_free fm (Suc spill_page) spill"
    and "spill_sound slot sz fm ps spill spill_page" and "register_loop slot sz fm ps spill spill_page = Some (off, fm')"
  shows "pages_ok stop fm' \<and> {off..<off + sz} \<subseteq> free_bytes fm \<and>
    free_bytes fm' = free_bytes fm - {off..<off + sz}"
  using assms(5-9)
proof (induction ps arbitrary: spill spill_page)
  case Nil
  then show ?case by simp
next
  case (Cons p ps)
  show ?case
  proof (cases "fm p")
    case None
    then show ?thesis using Cons by simp
  next
    case (Some ss)
    define sp where "sp = (if wrap32 (spill_page + 1) \<noteq> p \<or> (ss \<noteq> [] \<and> sec_offset (hd ss) \<noteq> p * PAGE) then 0 else spill)"
    have ne: "ss \<noteq> []" using pages_okD [OF ok Some] by simp
    have small: "p < 2 ^ 32 - 1" "s \<in> set ss \<Longrightarrow> sec_size s \<le> PAGE \<and> sec_end s < 2 ^ 64" for s
      using page_small [OF ok lim Some] by auto
    have w: "wrap32 (spill_page + 1) = Suc spill_page" using Cons.prems(2) by (simp add: wrap32_id)
    have sp: "sp < sz" "sp \<le> spill" using Cons.prems(1) sz(1) by (auto simp: sp_def)
    have tail: "tail_free fm p sp" and front: "0 < sp \<Longrightarrow> sec_offset (hd ss) = p * PAGE"
    proof -
      show "tail_free fm p sp"
        using Cons.prems(3) by (cases "sp = 0") (auto simp only: sp_def w tail_free_zero split: if_splits)
      assume "0 < sp"
      then show "sec_offset (hd ss) = p * PAGE" using ne by (auto simp only: sp_def w split: if_splits)
    qed
    have wsum: "wrap32 (sec_size (ss ! i) + sp) = sec_size (ss ! i) + sp" if "i < length ss" for i
      using small(2) [OF nth_mem [OF that]] sp(1) sz(2) by (intro wrap32_id) linarith
    have run: "register_loop slot sz fm (p # ps) spill spill_page =
        (case find (\<lambda>i. sz \<le> wrap32 (sec_size (ss ! i) + sp)) [0..<length ss] of
           Some i \<Rightarrow> Some (sub64 (sec_offset (ss ! i)) sp,
               if 0 < sp then consume_tail (if take_from_section fm p i (sub32 sz sp) p = None then slot p else p) sp
                 (take_from_section fm p i (sub32 sz sp))
               else take_from_section fm p i (sub32 sz sp))
         | None \<Rightarrow> if ss \<noteq> [] \<and> sec_end (last ss) = p * PAGE + PAGE
             then register_loop slot sz fm ps (wrap32 (sp + sec_size (last ss))) p
             else register_loop slot sz fm ps 0 spill_page)"
      unfolding register_loop.simps Some option.case Let_def sp_def [symmetric] ..
    have sound: "case find (\<lambda>i. sz \<le> wrap32 (sec_size (ss ! i) + sp)) [0..<length ss] of
        Some i \<Rightarrow> sp = 0 \<or> i = 0 \<and> (take_from_section fm p i (sub32 sz sp) p = None \<longrightarrow> slot p = p)
      | None \<Rightarrow> if ss \<noteq> [] \<and> sec_end (last ss) = p * PAGE + PAGE
          then (sp = 0 \<or> length ss = 1) \<and> spill_sound slot sz fm ps (wrap32 (sp + sec_size (last ss))) p
          else spill_sound slot sz fm ps 0 spill_page"
      using Cons.prems(4) unfolding spill_sound.simps Some option.case Let_def sp_def [symmetric] .
    show ?thesis
    proof (cases "find (\<lambda>i. sz \<le> wrap32 (sec_size (ss ! i) + sp)) [0..<length ss]")
      case (Some i)
      then have i: "i < length ss" "sz \<le> sec_size (ss ! i) + sp"
        using wsum by (auto simp: find_Some_iff)
      define need where "need = sz - sp"
      have need: "sub32 sz sp = need" "0 < need" "need \<le> sec_size (ss ! i)" "sec_size (ss ! i) < 2 ^ 32"
        using sp(1) sz i small(2) [OF nth_mem [OF i(1)]] page_pos by (auto simp: need_def sub32_id)
      let ?s = "ss ! i" and ?fm = "take_from_section fm p i need"
      note t = take_from_section_ok [OF ok \<open>fm p = Some ss\<close> i(1) need(2,3,4)]
      note tf = take_from_section_free [OF ok \<open>fm p = Some ss\<close> i(1) need(2,3,4)]
      show ?thesis
      proof (cases "sp = 0")
        case True
        have "sub64 (sec_offset ?s) 0 = sec_offset ?s"
          using small(2) [OF nth_mem [OF i(1)]] by (intro trans [OF sub64_id]) auto
        then have "off = sec_offset ?s" "fm' = ?fm" "need = sz"
          using Cons.prems(5) run Some True need(1) by (auto simp: need_def)
        then show ?thesis using t(1) tf by simp
      next
        case False
        then have s: "i = 0" "?fm p = None \<Longrightarrow> slot p = p" using sound Some need(1) by auto
        have so: "sec_offset ?s = p * PAGE" using front False s(1) ne by (simp add: hd_conv_nth)
        have tail': "tail_free ?fm p sp"
          by (rule tail_free_cong [OF _ tail]) (use t(4) in auto)
        note c = consume_tail_ok [OF t(1) tail']
        have o: "sub64 (p * PAGE) sp = p * PAGE - sp"
          using c small(2) [OF nth_mem [OF i(1)]] so by (intro sub64_id) auto
        have off: "off = p * PAGE - sp" "fm' = consume_tail p sp ?fm"
          using Cons.prems(5) run Some False need(1) so o s(2) by (auto split: if_splits)
        have R: "{off..<off + sz} = {p * PAGE - sp..<p * PAGE} \<union> {p * PAGE..<p * PAGE + need}"
          using c sp(1) by (auto simp: off need_def)
        show ?thesis
          unfolding R off(2) using c tf so by auto
      qed
    next
      case None
      then have small_sections: "sec_size (ss ! i) + sp < sz" if "i < length ss" for i
        using that wsum by (auto simp: find_None_iff)
      show ?thesis
      proof (cases "sec_end (last ss) = p * PAGE + PAGE")
        case True
        have l: "last ss = ss ! (length ss - 1)" "length ss - 1 < length ss" using ne by (simp_all add: last_conv_nth)
        then have lt: "sp + sec_size (last ss) < sz" using small_sections by (simp add: add.commute)
        have w': "wrap32 (sp + sec_size (last ss)) = sp + sec_size (last ss)"
          using lt sz(2) by (intro wrap32_id) linarith
        have "tail_free fm (Suc p) (sp + sec_size (last ss))"
          using \<open>fm p = Some ss\<close> ne True tail front sound None by (cases "sp = 0") auto
        moreover have "spill_sound slot sz fm ps (sp + sec_size (last ss)) p" using sound None True ne w' by simp
        moreover have "register_loop slot sz fm ps (sp + sec_size (last ss)) p = Some (off, fm')"
          using Cons.prems(5) run None True ne w' by simp
        ultimately show ?thesis using Cons.IH [OF lt small(1)] by blast
      next
        case False
        then have "register_loop slot sz fm ps 0 spill_page = Some (off, fm')"
          using Cons.prems(5) run None by simp
        moreover have "spill_sound slot sz fm ps 0 spill_page" using sound None False by simp
        ultimately show ?thesis using Cons.IH [OF sz(1) Cons.prems(2)] by simp
      qed
    qed
  qed
qed

lemma register_blob_ok:
  assumes "manager_ok m" and "request_sound slot ord sz m"
    and "0 < sz" and "sz + PAGE \<le> 2 ^ 32" and "next_offset m + sz \<le> (2 ^ 32 - 1) * PAGE"
    and "register_blob slot ord sz m = (off, m')"
  shows "manager_ok m' \<and> {off..<off + sz} \<inter> allocated m = {} \<and>
    allocated m' = allocated m \<union> {off..<off + sz}"
proof -
  note ok = manager_ok_pages [OF assms(1)]
  have lim: "next_offset m \<le> (2 ^ 32 - 1) * PAGE" using assms(5) by simp
  show ?thesis
  proof (cases "register_loop (slot (ord (free_sections m))) sz (free_sections m) (ord (free_sections m)) 0 0")
    case None
    then have r: "off = next_offset m" "m' = m\<lparr>next_offset := next_offset m + sz\<rparr>"
      using assms(6) by (auto simp: register_blob_def)
    have "pages_ok (next_offset m + sz) (free_sections m)"
      unfolding pages_ok_def
    proof (intro conjI allI impI)
      show "finite (dom (free_sections m))" using ok by (simp add: pages_ok_def)
      fix p ss
      assume "free_sections m p = Some ss"
      note k = pages_okD [OF ok this]
      then show "ss \<noteq> []" by simp
      have "min ((p + 1) * PAGE) (next_offset m) \<le> min ((p + 1) * PAGE) (next_offset m + sz)" by simp
      then show "secs_ok (p * PAGE) (min ((p + 1) * PAGE) (next_offset m + sz)) ss"
        using k secs_ok_upper by blast
    qed
    then have "manager_ok m'" using assms(5) r by (simp add: manager_ok_def)
    then show ?thesis
      using free_bytes_below [OF ok] r by (auto simp: allocated_def)
  next
    case (Some p)
    then obtain fm where p: "p = (off, fm)" and r: "m' = m\<lparr>free_sections := fm\<rparr>"
      using assms(6) by (auto simp: register_blob_def split: prod.splits)
    note l = register_loop_ok [OF ok lim assms(3,4) assms(3) _ _ assms(2) [unfolded request_sound_def] Some [unfolded p]]
    then have l: "pages_ok (next_offset m) fm" "{off..<off + sz} \<subseteq> free_bytes (free_sections m)"
      "free_bytes fm = free_bytes (free_sections m) - {off..<off + sz}" by auto
    have "manager_ok m'" using l(1) lim r by (simp add: manager_ok_def)
    then show ?thesis
      using l(2,3) free_bytes_below [OF ok] r by (auto simp: allocated_def)
  qed
qed

end
