(* ===== verification/BlobLedger.thy ===== *)
theory BlobLedger
  imports BlobAllocator
begin

text \<open>
  Claiming a range (\<open>src/src/core/blob_manager.cpp\<close>), the allocator contract as the locale
  \<open>byte_allocator\<close> with the client's ledger of live ranges, its interpretation on the blob manager,
  and the histories of registrations and unregistrations. Registrations are sound unless they meet one
  of two faults of the spillover search (\<open>spill_sound\<close> in BlobAllocator names them); the last section
  shows for each fault an ordinary history that meets it and ends with two live blobs on the same bytes.
\<close>

section \<open>Claiming\<close>

lemma carve_section_some:
  assumes ok: "secs_ok lo hi ss" and "pos < stop" and lim: "hi < 2 ^ 64" "hi - lo < 2 ^ 32"
    and "carve_section ss pos stop = Some ts"
  shows "secs_ok lo hi ts" and "{pos..<stop} \<subseteq> secs_bytes ss" and "secs_bytes ts = secs_bytes ss - {pos..<stop}"
proof -
  obtain i where f: "find (\<lambda>i. \<not> (pos < sec_offset (ss ! i) \<or> sec_end (ss ! i) < stop)) [0..<length ss] = Some i"
    using assms(5) by (auto simp: carve_section_def split: option.splits)
  then have i: "i < length ss" "sec_offset (ss ! i) \<le> pos" "stop \<le> sec_end (ss ! i)"
    by (auto simp: find_Some_iff)
  define s where "s = ss ! i"
  define xs ys where "xs = take i ss" and "ys = drop (Suc i) ss"
  have ss: "ss = xs @ s # ys" and li: "length xs = i" using i(1) by (simp_all add: xs_def ys_def s_def id_take_nth_drop)
  note s = i(2,3) [folded s_def]
  note m = ok [unfolded ss secs_ok_middle]
  have sz: "sec_size s < 2 ^ 32" using m lim by linarith
  have w: "wrap32 (sec_end s - stop) = sec_end s - stop" "wrap32 (pos - sec_offset s) = pos - sec_offset s"
    using sz s assms(2) by (auto intro!: wrap32_id)
  define left right where "left = (if pos = sec_offset s then [] else [\<lparr>sec_offset = sec_offset s, sec_size = pos - sec_offset s\<rparr>])"
    and "right = (if stop = sec_end s then [] else [\<lparr>sec_offset = stop, sec_size = sec_end s - stop\<rparr>])"
  have upd: "s\<lparr>sec_size := n\<rparr> = \<lparr>sec_offset = sec_offset s, sec_size = n\<rparr>" for n
    by (cases s) simp
  have ts: "ts = xs @ left @ right @ ys"
    using assms(5) f li w
    by (auto simp: carve_section_def Let_def ss list_update_append nth_append upd left_def right_def split: if_splits)
  have b: "sec_bytes s = secs_bytes left \<union> {pos..<stop} \<union> secs_bytes right"
    using s assms(2) by (auto simp: left_def right_def sec_bytes_def)
  show "{pos..<stop} \<subseteq> secs_bytes ss" using b by (auto simp: ss)
  have bx: "secs_bytes xs \<subseteq> {lo..<sec_offset s}"
    by (rule secs_before) (use m in \<open>auto intro: less_imp_le\<close>)
  have by': "secs_bytes ys \<subseteq> {sec_end s + 1..<hi}" by (rule secs_bytes_bounds) (use m in blast)
  have "secs_bytes left \<inter> {pos..<stop} = {}" "secs_bytes right \<inter> {pos..<stop} = {}"
    using assms(2) s by (auto simp: left_def right_def sec_bytes_def)
  moreover have "secs_bytes xs \<inter> {pos..<stop} = {}" "secs_bytes ys \<inter> {pos..<stop} = {}"
    using bx by' s by fastforce+
  ultimately show "secs_bytes ts = secs_bytes ss - {pos..<stop}"
    unfolding ts ss secs_bytes_simps b by auto
  have "secs_ok (if xs = [] then lo else sec_end (last xs) + 1) hi (left @ right @ ys)"
  proof -
    have y: "secs_ok (n + 1) hi ys" if "n \<le> sec_end s" for n
      by (rule secs_ok_lower [of "sec_end s + 1"]) (use m that in auto)
    have y0: "secs_ok n hi ys" if "n \<le> sec_end s + 1" for n
      by (rule secs_ok_lower [of "sec_end s + 1"]) (use m that in auto)
    have r: "secs_ok n hi (right @ ys)" if "n \<le> stop" for n
      using that m s y0 assms(2) by (auto simp: right_def)
    show ?thesis
    proof (cases "pos = sec_offset s")
      case True
      then show ?thesis using m r s assms(2) by (auto simp: left_def)
    next
      case False
      have "secs_ok (pos + 1) hi (right @ ys)" using r assms(2) by simp
      then show ?thesis using m False s assms(2) by (auto simp: left_def)
    qed
  qed
  then show "secs_ok lo hi ts" using m by (simp add: ts secs_ok_append [of lo hi xs])
qed

lemma carve_section_none:
  assumes ok: "secs_ok lo hi ss" and "pos < stop" and "carve_section ss pos stop = None"
  shows "\<not> {pos..<stop} \<subseteq> secs_bytes ss"
proof
  assume sub: "{pos..<stop} \<subseteq> secs_bytes ss"
  have none: "pos < sec_offset s \<or> sec_end s < stop" if mem: "s \<in> set ss" for s
  proof -
    obtain i where i: "i < length ss" "s = ss ! i" using mem by (metis in_set_conv_nth)
    have "find (\<lambda>i. \<not> (pos < sec_offset (ss ! i) \<or> sec_end (ss ! i) < stop)) [0..<length ss] = None"
    proof (rule ccontr)
      assume "\<not> ?thesis"
      then obtain j where "find (\<lambda>i. \<not> (pos < sec_offset (ss ! i) \<or> sec_end (ss ! i) < stop)) [0..<length ss] = Some j"
        by blast
      then have "carve_section ss pos stop \<noteq> None"
        unfolding carve_section_def Let_def by (simp only: option.case) simp
      then show False using assms(3) by simp
    qed
    then have "\<forall>i < length ss. pos < sec_offset (ss ! i) \<or> sec_end (ss ! i) < stop"
      by (simp add: find_None_iff)
    then show ?thesis using i by blast
  qed
  obtain s where s: "s \<in> set ss" "pos \<in> sec_bytes s" using sub assms(2) by (auto simp: secs_bytes_def)
  then have "sec_end s < stop" using none [OF s(1)] by (auto simp: sec_bytes_def)
  then have "sec_end s \<in> secs_bytes ss" using sub s(2) by (auto simp: sec_bytes_def)
  moreover obtain xs ys where ss: "ss = xs @ s # ys" using s(1) by (metis split_list)
  note m = ok [unfolded ss secs_ok_middle]
  have "secs_bytes xs \<subseteq> {lo..<sec_offset s}"
    by (rule secs_before) (use m in \<open>auto intro: less_imp_le\<close>)
  moreover have "secs_bytes ys \<subseteq> {sec_end s + 1..<hi}" by (rule secs_bytes_bounds) (use m in blast)
  ultimately show False unfolding ss by (fastforce simp: sec_bytes_def)
qed

lemma page_piece:
  assumes "pos < stop" and "piece = (if stop < (pos div PAGE + 1) * PAGE then stop else (pos div PAGE + 1) * PAGE)"
  shows "pos < piece" and "piece \<le> stop" and "{pos..<piece} \<subseteq> page_bytes (pos div PAGE)"
    and "{pos..<stop} = {pos..<piece} \<union> {piece..<stop}"
  using assms next_page [of pos] by (auto simp: page_bytes_def)

declare claim_interior.simps [simp del] claim_gap.simps [simp del]

lemma claim_interior_ok:
  assumes "pages_ok hi fm" and "hi \<le> (2 ^ 32 - 1) * PAGE" and "stop \<le> hi"
    and "claim_interior pos stop fm = (ok, fm')"
  shows "pages_ok hi fm' \<and> (ok \<longleftrightarrow> {pos..<stop} \<subseteq> free_bytes fm) \<and>
    (ok \<longrightarrow> free_bytes fm' = free_bytes fm - {pos..<stop})"
  using assms
proof (induction pos stop fm arbitrary: ok fm' rule: claim_interior.induct)
  case (1 pos stop fm)
  show ?case
  proof (cases "pos < stop")
    case False
    then show ?thesis using 1 by (auto simp: claim_interior.simps [of pos])
  next
    case True
    define p where "p = pos div PAGE"
    define piece where "piece = (if stop < (p + 1) * PAGE then stop else (p + 1) * PAGE)"
    note pp = page_piece [OF True piece_def [unfolded p_def], folded p_def]
    have "pos < 2 ^ 32 * PAGE" using True "1.prems"(2,3) page_pos by (simp add: left_diff_distrib')
    then have wp: "wrap32 p = p" unfolding p_def by (rule offset_page_id)
    have run: "claim_interior pos stop fm =
        (case fm p of None \<Rightarrow> (False, fm)
         | Some ss \<Rightarrow> (case carve_section ss pos piece of None \<Rightarrow> (False, fm)
            | Some ss \<Rightarrow> claim_interior piece stop (if ss = [] then fm(p := None) else fm(p \<mapsto> ss))))"
      using True by (subst claim_interior.simps)
        (simp only: Let_def p_def [symmetric] piece_def [symmetric] wp not_True_eq_False if_False)
    have at: "{pos..<piece} \<subseteq> free_bytes fm \<longleftrightarrow> {pos..<piece} \<subseteq> bytes_at fm p"
    proof
      assume h: "{pos..<piece} \<subseteq> free_bytes fm"
      show "{pos..<piece} \<subseteq> bytes_at fm p"
      proof
        fix x
        assume x: "x \<in> {pos..<piece}"
        then obtain q where q: "x \<in> bytes_at fm q" using h unfolding free_bytes_def by blast
        then have "x \<in> page_bytes q" using bytes_at_page(1) [OF "1.prems"(1)] by blast
        moreover have "x \<in> page_bytes p" using pp(3) x by blast
        ultimately have "q = p" using page_bytes_iff by auto
        then show "x \<in> bytes_at fm p" using q by simp
      qed
    qed (auto simp: free_bytes_def)
    show ?thesis
    proof (cases "fm p")
      case None
      then have "bytes_at fm p = {}" by (simp add: bytes_at_def)
      then have "\<not> {pos..<stop} \<subseteq> free_bytes fm" using at pp by auto
      then show ?thesis using "1.prems" run None by simp
    next
      case (Some ss)
      note k = pages_okD [OF "1.prems"(1) Some]
      have bss: "bytes_at fm p = secs_bytes ss" using Some by (simp add: bytes_at_def)
      have lim: "min ((p + 1) * PAGE) hi < 2 ^ 64" "min ((p + 1) * PAGE) hi - p * PAGE < 2 ^ 32"
        using page_bound [OF "1.prems"(2)] by (auto simp: FREE_BLOB_MANAGER_PAGE_SIZE_def)
      show ?thesis
      proof (cases "carve_section ss pos piece")
        case None
        then have "\<not> {pos..<piece} \<subseteq> secs_bytes ss"
          using k carve_section_none pp(1) by blast
        then have "\<not> {pos..<stop} \<subseteq> free_bytes fm" using at pp(4) bss by auto
        then show ?thesis using "1.prems" run Some None by simp
      next
        case (Some ts)
        note c = carve_section_some [OF conjunct2 [OF k] pp(1) lim Some]
        define fm1 where "fm1 = (if ts = [] then fm(p := None) else fm(p \<mapsto> ts))"
        have ok1: "pages_ok hi fm1"
          using pages_ok_erase [OF "1.prems"(1)] pages_ok_put [OF "1.prems"(1) _ c(1)] by (simp add: fm1_def)
        have b1: "bytes_at fm1 q = bytes_at fm q - (if q = p then {pos..<piece} else {})" for q
          using c(3) bss by (auto simp: fm1_def)
        have dj: "x \<in> bytes_at fm q \<Longrightarrow> x \<in> {pos..<piece} \<Longrightarrow> q = p" for x q
          using bytes_at_page(1) [OF "1.prems"(1), of q] pp(3) by (metis page_bytes_iff subsetD)
        have f1: "free_bytes fm1 = free_bytes fm - {pos..<piece}"
        proof (rule set_eqI)
          fix x
          have "x \<in> bytes_at fm1 q \<longleftrightarrow> x \<in> bytes_at fm q \<and> \<not> (q = p \<and> x \<in> {pos..<piece})" for q
            unfolding b1 by (cases "q = p") simp_all
          then show "x \<in> free_bytes fm1 \<longleftrightarrow> x \<in> free_bytes fm - {pos..<piece}"
            unfolding free_bytes_def using dj [of x] by blast
        qed
        have rec: "claim_interior piece stop fm1 = (ok, fm')"
          using "1.prems"(4) run \<open>fm p = Some ss\<close> Some by (simp add: fm1_def)
        have not: "\<not> \<not> pos < stop" using True by simp
        have pe: "piece = (if stop < (p + 1) * PAGE then stop else (p + 1) * PAGE)" by (rule piece_def)
        have some': "fm (wrap32 p) = Some ss" using \<open>fm p = Some ss\<close> wp by simp
        have "pages_ok hi fm' \<and> (ok \<longleftrightarrow> {piece..<stop} \<subseteq> free_bytes fm1) \<and>
            (ok \<longrightarrow> free_bytes fm' = free_bytes fm1 - {piece..<stop})"
          using "1.IH" [OF not p_def refl pe some' Some, unfolded wp, folded fm1_def,
              OF ok1 "1.prems"(2,3) rec] .
        moreover have "{pos..<piece} \<subseteq> free_bytes fm" using c(2) bss at by simp
        ultimately show ?thesis unfolding f1 pp(4) by auto
      qed
    qed
  qed
qed

lemma claim_gap_ok:
  assumes "manager_ok m" and "start < 2 ^ 64" and "{gap_pos..<start} \<subseteq> allocated m"
    and "claim_gap ord gap_pos start m = (ok, m')"
  shows "ok \<and> manager_ok m' \<and> allocated m' = allocated m - {gap_pos..<start}"
  using assms
proof (induction ord gap_pos start m arbitrary: ok m' rule: claim_gap.induct)
  case (1 ord gap_pos start m)
  show ?case
  proof (cases "gap_pos < start")
    case False
    then show ?thesis using 1 by (auto simp: claim_gap.simps [of ord gap_pos])
  next
    case True
    define page_end where "page_end = (gap_pos div PAGE + 1) * PAGE"
    define piece where "piece = (if start < page_end then start else page_end)"
    note pp = page_piece [OF True piece_def [unfolded page_end_def]]
    have "gap_pos div PAGE * PAGE \<le> gap_pos" "page_end = gap_pos div PAGE * PAGE + PAGE" "piece \<le> page_end"
      by (simp_all add: page_end_def piece_def)
    then have "piece - gap_pos \<le> PAGE" by linarith
    then have w: "wrap32 (piece - gap_pos) = piece - gap_pos"
      by (intro wrap32_id) (simp add: FREE_BLOB_MANAGER_PAGE_SIZE_def)
    obtain ok1 m1 where u: "unregister_blob ord gap_pos (piece - gap_pos) m = (ok1, m1)" by fastforce
    have b: "gap_pos + (piece - gap_pos) = piece" "0 < piece - gap_pos" using pp(1) by simp_all
    have "piece < 2 ^ 64" using pp(2) "1.prems"(2) by linarith
    then have u1: "manager_ok m1" "ok1 \<longleftrightarrow> {gap_pos..<piece} \<subseteq> allocated m"
      "ok1 \<longrightarrow> allocated m1 = allocated m - {gap_pos..<piece}"
      using unregister_blob_ok [OF "1.prems"(1) b(2) _ u] b(1) by simp_all
    have ok1: ok1 using u1(2) pp(4) "1.prems"(3) by auto
    have run: "claim_gap ord gap_pos start m = claim_gap ord piece start m1"
      using True ok1 by (subst claim_gap.simps)
        (simp only: Let_def page_end_def [symmetric] piece_def [symmetric] w u prod.case not_True_eq_False if_False)
    have not: "\<not> \<not> gap_pos < start" using True by simp
    have u': "(ok1, m1) = unregister_blob ord gap_pos (wrap32 (piece - gap_pos)) m" using u w by simp
    have "{piece..<start} \<subseteq> allocated m1" using u1(3) ok1 pp(1,2) "1.prems"(3) by auto
    then have "ok \<and> manager_ok m' \<and> allocated m' = allocated m1 - {piece..<start}"
      using "1.IH" [OF not page_end_def piece_def u' refl, of ok m'] u1(1) ok1 "1.prems"(2,4) run by simp
    then show ?thesis using u1(3) ok1 pp(4) by auto
  qed
qed

lemma pages_ok_grow:
  assumes "pages_ok stop fm" and "stop \<le> stop'"
  shows "pages_ok stop' fm"
  unfolding pages_ok_def
proof (intro conjI allI impI)
  show "finite (dom fm)" using assms(1) by (simp add: pages_ok_def)
  fix p ss
  assume "fm p = Some ss"
  note k = pages_okD [OF assms(1) this]
  then show "ss \<noteq> []" by simp
  have "min ((p + 1) * PAGE) stop \<le> min ((p + 1) * PAGE) stop'" using assms(2) by simp
  then show "secs_ok (p * PAGE) (min ((p + 1) * PAGE) stop') ss" using k secs_ok_upper by blast
qed

lemma claim_blob_ok:
  assumes "manager_ok m" and "0 < sz" and "off + sz \<le> (2 ^ 32 - 1) * PAGE"
    and "claim_blob ord off sz m = (ok, m')"
  shows "manager_ok m' \<and>
    (ok \<longleftrightarrow> {off..<off + sz} \<inter> allocated m = {} \<and> \<not> (off < next_offset m \<and> next_offset m < off + sz)) \<and>
    (ok \<longrightarrow> allocated m' = allocated m \<union> {off..<off + sz})"
proof -
  note pok = manager_ok_pages [OF assms(1)]
  have lim: "next_offset m \<le> (2 ^ 32 - 1) * PAGE" using assms(1) by (simp add: manager_ok_def)
  have w: "wrap64 (off + sz) = off + sz" by (rule wrap64_id) (rule page_bound [OF assms(3)])
  consider "next_offset m \<le> off" | "off < next_offset m" "next_offset m < off + sz"
    | "off < next_offset m" "off + sz \<le> next_offset m" by linarith
  then show ?thesis
  proof cases
    case 1
    define m1 where "m1 = m\<lparr>next_offset := off + sz\<rparr>"
    have "claim_blob ord off sz m = claim_gap ord (next_offset m) off m1"
      unfolding claim_blob_def Let_def w m1_def using assms(2) 1 by simp
    then have run: "claim_gap ord (next_offset m) off m1 = (ok, m')" using assms(4) by simp
    have "next_offset m \<le> off + sz" using 1 by simp
    then have "pages_ok (off + sz) (free_sections m)" by (rule pages_ok_grow [OF pok])
    then have m1: "manager_ok m1" using assms(3) by (simp add: manager_ok_def m1_def)
    have a1: "allocated m1 = allocated m \<union> {next_offset m..<off + sz}"
      using free_bytes_below [OF pok] 1 by (auto simp: allocated_def m1_def)
    have "{next_offset m..<off} \<subseteq> allocated m1" unfolding a1 by auto
    moreover have "off < 2 ^ 64" using page_bound [OF assms(3)] by linarith
    ultimately have g: "ok \<and> manager_ok m' \<and> allocated m' = allocated m1 - {next_offset m..<off}"
      using claim_gap_ok [OF m1 _ _ run] by blast
    have "allocated m \<subseteq> {..<next_offset m}" by (auto simp: allocated_def)
    then have "{off..<off + sz} \<inter> allocated m = {}" "allocated m1 - {next_offset m..<off} = allocated m \<union> {off..<off + sz}"
      unfolding a1 using 1 by fastforce+
    then show ?thesis using g 1 by auto
  next
    case 2
    then have "claim_blob ord off sz m = (False, m)"
      using assms(2) w by (simp add: claim_blob_def Let_def)
    then show ?thesis using assms(1,4) 2 by auto
  next
    case 3
    obtain ok1 fm where c: "claim_interior off (off + sz) (free_sections m) = (ok1, fm)" by fastforce
    have r: "ok = ok1" "m' = m\<lparr>free_sections := fm\<rparr>"
      using assms(2,4) w 3 c by (auto simp: claim_blob_def Let_def)
    note i = claim_interior_ok [OF pok lim 3(2) c]
    have "{off..<off + sz} \<subseteq> free_bytes (free_sections m) \<longleftrightarrow> {off..<off + sz} \<inter> allocated m = {}"
      using 3 by (auto simp: allocated_def)
    moreover have "manager_ok m'" using i lim r by (simp add: manager_ok_def)
    moreover have "allocated m' = allocated m \<union> {off..<off + sz}" if ok
      using i that r 3 by (auto simp: allocated_def)
    ultimately show ?thesis using i r(1) 3 by auto
  qed
qed

section \<open>The allocator contract and its ledger\<close>

text \<open>
  The contract the storage layer relies on. \<open>ledger_ok\<close> is the client's view: the set of ranges it
  was given and has not returned, which are pairwise disjoint and together are what is in use.
\<close>

definition ledger_ok :: "nat set \<Rightarrow> (nat \<times> nat) set \<Rightarrow> bool" where
  "ledger_ok used live \<longleftrightarrow>
     (\<forall>(off, n) \<in> live. 0 < n) \<and>
     (\<forall>a \<in> live. \<forall>b \<in> live. a \<noteq> b \<longrightarrow> {fst a..<fst a + snd a} \<inter> {fst b..<fst b + snd b} = {}) \<and>
     (\<Union>a \<in> live. {fst a..<fst a + snd a}) = used"

locale byte_allocator =
  fixes inv :: "'s \<Rightarrow> bool" and used :: "'s \<Rightarrow> nat set" and fits :: "nat \<Rightarrow> 's \<Rightarrow> bool"
    and take :: "nat \<Rightarrow> 's \<Rightarrow> nat \<times> 's" and release :: "nat \<Rightarrow> nat \<Rightarrow> 's \<Rightarrow> bool \<times> 's"
  assumes take_ok: "inv s \<Longrightarrow> fits n s \<Longrightarrow> take n s = (off, s') \<Longrightarrow>
      0 < n \<and> inv s' \<and> {off..<off + n} \<inter> used s = {} \<and> used s' = used s \<union> {off..<off + n}"
    and release_ok: "inv s \<Longrightarrow> 0 < n \<Longrightarrow> {off..<off + n} \<subseteq> used s \<Longrightarrow> release off n s = (ok, s') \<Longrightarrow>
      ok \<and> inv s' \<and> used s' = used s - {off..<off + n}"
begin

lemma ledger_take:
  assumes "inv s" and "ledger_ok (used s) live" and "fits n s" and "take n s = (off, s')"
  shows "inv s' \<and> (off, n) \<notin> live \<and> ledger_ok (used s') (insert (off, n) live)"
proof -
  note t = take_ok [OF assms(1,3,4)]
  have sub: "a \<in> live \<Longrightarrow> {fst a..<fst a + snd a} \<subseteq> used s" for a
    using assms(2) by (auto simp: ledger_ok_def)
  then have "a \<in> live \<Longrightarrow> {fst a..<fst a + snd a} \<inter> {off..<off + n} = {}" for a
    using t by blast
  moreover from this [of "(off, n)"] t have "(off, n) \<notin> live" by auto
  ultimately show ?thesis
    using assms(2) t unfolding ledger_ok_def by (auto simp: Int_commute)
qed

lemma ledger_release:
  assumes "inv s" and "ledger_ok (used s) live" and "(off, n) \<in> live" and "release off n s = (ok, s')"
  shows "ok \<and> inv s' \<and> ledger_ok (used s') (live - {(off, n)})"
proof -
  have n: "0 < n" "{off..<off + n} \<subseteq> used s"
    using assms(2,3) by (fastforce simp: ledger_ok_def)+
  note r = release_ok [OF assms(1) n assms(4)]
  have dj: "a \<in> live - {(off, n)} \<Longrightarrow> {fst a..<fst a + snd a} \<inter> {off..<off + n} = {}" for a
    using assms(2,3) unfolding ledger_ok_def by fastforce
  have u: "used s = (\<Union>a \<in> live. {fst a..<fst a + snd a})"
    using assms(2) by (simp add: ledger_ok_def)
  have "(\<Union>a \<in> live - {(off, n)}. {fst a..<fst a + snd a}) = used s - {off..<off + n}"
    unfolding u using dj assms(3) by fastforce
  moreover have "\<forall>(off, n) \<in> live - {(off, n)}. 0 < n"
    "\<forall>a \<in> live - {(off, n)}. \<forall>b \<in> live - {(off, n)}. a \<noteq> b \<longrightarrow>
       {fst a..<fst a + snd a} \<inter> {fst b..<fst b + snd b} = {}"
    using assms(2) unfolding ledger_ok_def by blast+
  ultimately show ?thesis using r unfolding ledger_ok_def by simp
qed

end

definition request_fits :: "nat \<Rightarrow> blob_manager \<Rightarrow> bool" where
  "request_fits sz m \<longleftrightarrow> 0 < sz \<and> sz + PAGE \<le> 2 ^ 32 \<and> next_offset m + sz \<le> (2 ^ 32 - 1) * PAGE"

definition register_fits :: "(nat list \<Rightarrow> nat \<Rightarrow> nat) \<Rightarrow> (pages \<Rightarrow> nat list) \<Rightarrow> nat \<Rightarrow> blob_manager \<Rightarrow> bool" where
  "register_fits slot ord sz m \<longleftrightarrow> request_fits sz m \<and> request_sound slot ord sz m"

lemma allocated_below: "manager_ok m \<Longrightarrow> {off..<off + sz} \<subseteq> allocated m \<Longrightarrow> 0 < sz \<Longrightarrow> off + sz < 2 ^ 64"
proof -
  assume m: "manager_ok m" "{off..<off + sz} \<subseteq> allocated m" "0 < sz"
  then have "off + sz - 1 \<in> allocated m" by auto
  then have "off + sz \<le> next_offset m" by (auto simp: allocated_def)
  then have "off + sz \<le> (2 ^ 32 - 1) * PAGE" using m(1) unfolding manager_ok_def by linarith
  then show ?thesis by (rule page_bound)
qed

interpretation blobs: byte_allocator manager_ok allocated "register_fits slot ord" "register_blob slot ord" "unregister_blob ord'"
proof
  fix m n off m'
  assume "manager_ok m" "register_fits slot ord n m" "register_blob slot ord n m = (off, m')"
  then show "0 < n \<and> manager_ok m' \<and> {off..<off + n} \<inter> allocated m = {} \<and>
      allocated m' = allocated m \<union> {off..<off + n}"
    using register_blob_ok [of m slot ord n off m'] by (auto simp: register_fits_def request_fits_def)
next
  fix m n off ok m'
  assume *: "manager_ok m" "0 < n" "{off..<off + n} \<subseteq> allocated m" "unregister_blob ord' off n m = (ok, m')"
  then show "ok \<and> manager_ok m' \<and> allocated m' = allocated m - {off..<off + n}"
    using unregister_blob_ok [OF *(1,2) allocated_below [OF *(1,3,2)] *(4)] by simp
qed

section \<open>Histories\<close>

text \<open>
  The manager together with the blobs that are live, after any sequence of registrations of sizes that
  fit and of unregistrations of live blobs, with any iteration order at each step. With \<open>sound\<close> every
  registration is one that meets neither fault of the spillover search.
\<close>

inductive blob_history :: "(nat list \<Rightarrow> nat \<Rightarrow> nat) \<Rightarrow> bool \<Rightarrow> blob_manager \<Rightarrow> (nat \<times> nat) set \<Rightarrow> bool"
  for slot :: "nat list \<Rightarrow> nat \<Rightarrow> nat" and sound :: bool where
  start: "blob_history slot sound new_blob_manager {}"
| register: "blob_history slot sound m live \<Longrightarrow> iter_ok ord \<Longrightarrow> request_fits n m \<Longrightarrow> (sound \<Longrightarrow> request_sound slot ord n m) \<Longrightarrow>
     register_blob slot ord n m = (off, m') \<Longrightarrow> blob_history slot sound m' (insert (off, n) live)"
| unregister: "blob_history slot sound m live \<Longrightarrow> iter_ok ord \<Longrightarrow> (off, n) \<in> live \<Longrightarrow> unregister_blob ord off n m = (ok, m') \<Longrightarrow>
     blob_history slot sound m' (live - {(off, n)})"

lemma history_ok: "blob_history slot True m live \<Longrightarrow> manager_ok m \<and> ledger_ok (allocated m) live"
proof (induction rule: blob_history.induct)
  case start
  have "free_bytes Map.empty = {}" by (simp add: free_bytes_def bytes_at_def)
  then show ?case
    by (simp add: manager_ok_def pages_ok_def new_blob_manager_def ledger_ok_def allocated_def)
next
  case (register m live ord n off m')
  then have "register_fits slot ord n m" by (simp add: register_fits_def)
  then show ?case using register.IH register.hyps blobs.ledger_take by blast
next
  case (unregister m live ord off n ok m')
  then show ?case using blobs.ledger_release by blast
qed

text \<open>C1: After any history of registrations and unregistrations in which no registration meets one of the
  two faults of the spillover search (\<open>request_sound\<close>; the last two theorems of this theory show what they do), the live blobs are
  pairwise disjoint and exactly cover the allocated bytes, and unregistering any live blob succeeds.\<close>

theorem live_blobs_disjoint:
  assumes "blob_history slot True m live"
  shows "(\<forall>a \<in> live. \<forall>b \<in> live. a \<noteq> b \<longrightarrow> {fst a..<fst a + snd a} \<inter> {fst b..<fst b + snd b} = {}) \<and>
    (\<Union>a \<in> live. {fst a..<fst a + snd a}) = allocated m \<and>
    (\<forall>(off, n) \<in> live. fst (unregister_blob ord off n m))"
proof -
  note h = history_ok [OF assms]
  have "fst (unregister_blob ord off n m)" if "(off, n) \<in> live" for off n
    using blobs.ledger_release [of m live off n ord "fst (unregister_blob ord off n m)" "snd (unregister_blob ord off n m)"]
      h that by simp
  then show ?thesis using h by (auto simp: ledger_ok_def)
qed

text \<open>C2: A request that meets neither fault of the spillover search (\<open>request_sound\<close>: spillover is only
  used by the first section of a page, or passed on by a page that is one section, and the reference to
  the number of a page that was erased still reads it) is answered with a range that overlaps no allocated
  bytes, and afterwards exactly its bytes are allocated in addition, whether it was found in one section,
  spans the free tails of several pages, or extends the file. The pages may be enumerated in any order.\<close>

theorem register_blob_correct:
  assumes "manager_ok m" and "request_sound slot ord sz m"
    and "0 < sz" and "sz + PAGE \<le> 2 ^ 32" and "next_offset m + sz \<le> (2 ^ 32 - 1) * PAGE"
    and "register_blob slot ord sz m = (off, m')"
  shows "manager_ok m' \<and> {off..<off + sz} \<inter> allocated m = {} \<and>
    allocated m' = allocated m \<union> {off..<off + sz}"
  by (rule register_blob_ok [OF assms])

text \<open>C3: \<open>unregister_blob\<close> accepts a range exactly when all of its bytes are allocated (a range that
  touches free space or reaches beyond the end of the file is refused) and then exactly these bytes
  become free; the invariant of the sections holds afterwards in every case.\<close>

theorem unregister_blob_correct:
  assumes "manager_ok m" and "0 < sz" and "off + sz < 2 ^ 64"
    and "unregister_blob ord off sz m = (ok, m')"
  shows "manager_ok m' \<and> (ok \<longleftrightarrow> {off..<off + sz} \<subseteq> allocated m) \<and>
    (ok \<longrightarrow> allocated m' = allocated m - {off..<off + sz})"
  by (rule unregister_blob_ok [OF assms])

text \<open>C4: \<open>claim_blob\<close> succeeds exactly when no byte of the range is allocated and the range does not
  straddle the end of the file, and then exactly its bytes are allocated in addition, a gap between
  the old end and the range staying free.\<close>

theorem claim_blob_correct:
  assumes "manager_ok m" and "0 < sz" and "off + sz \<le> (2 ^ 32 - 1) * PAGE"
    and "claim_blob ord off sz m = (ok, m')"
  shows "manager_ok m' \<and>
    (ok \<longleftrightarrow> {off..<off + sz} \<inter> allocated m = {} \<and> \<not> (off < next_offset m \<and> next_offset m < off + sz)) \<and>
    (ok \<longrightarrow> allocated m' = allocated m \<union> {off..<off + sz})"
  by (rule claim_blob_ok [OF assms])

section \<open>Histories that meet a fault\<close>

text \<open>The pages in ascending order, and a map whose erase moves the last element into the free place.\<close>

definition page_order :: "pages \<Rightarrow> nat list" where
  "page_order fm = sorted_list_of_set (dom fm)"

definition moved_last :: "nat list \<Rightarrow> nat \<Rightarrow> nat" where
  "moved_last order page = last order"

lemma page_order_ok: "iter_ok page_order"
  by (simp add: iter_ok_def page_order_def)

lemma page_order_simps [simp]:
  "page_order Map.empty = []"
  "page_order [a \<mapsto> x] = [a]"
  "a < b \<Longrightarrow> page_order [a \<mapsto> x, b \<mapsto> y] = [a, b]"
  "a < b \<Longrightarrow> b < c \<Longrightarrow> page_order [a \<mapsto> x, b \<mapsto> y, c \<mapsto> z] = [a, b, c]"
  by (simp_all add: page_order_def)

lemma register_at_end:
  assumes "blob_history slot False \<lparr>next_offset = e, free_sections = Map.empty\<rparr> live"
    and "0 < n" and "n + PAGE \<le> 2 ^ 32" and "e + n \<le> (2 ^ 32 - 1) * PAGE"
  shows "blob_history slot False \<lparr>next_offset = e + n, free_sections = Map.empty\<rparr> (insert (e, n) live)"
  by (rule blob_history.register [OF assms(1) page_order_ok]) (use assms(2-4) in \<open>simp_all add: request_fits_def register_blob_def\<close>)

lemma history_unregister:
  assumes "blob_history slot False m live" and "(off, n) \<in> live" and "unregister_blob page_order off n m = (ok, m')" and "live' = live - {(off, n)}"
  shows "blob_history slot False m' live'"
  using blob_history.unregister [OF assms(1) page_order_ok assms(2,3)] assms(4) by simp

text \<open>Six blobs that fill two pages, the third, fourth and fifth in page 1 from its start.\<close>

definition six_blobs :: "nat \<Rightarrow> nat \<Rightarrow> (nat \<times> nat) set" where
  "six_blobs a b = {(0, PAGE - 10), (PAGE - 10, 10), (PAGE, a), (PAGE + a, b), (PAGE + a + b, 7), (PAGE + a + b + 7, 100)}"

lemma six_registered:
  assumes "0 < a" and "0 < b" and "b + PAGE \<le> 2 ^ 32" "a \<le> 1000"
  shows "blob_history slot False \<lparr>next_offset = PAGE + a + b + 107, free_sections = Map.empty\<rparr> (six_blobs a b)"
proof -
  have 0: "blob_history slot False \<lparr>next_offset = 0, free_sections = Map.empty\<rparr> {}"
    using blob_history.start by (simp add: new_blob_manager_def)
  note page = FREE_BLOB_MANAGER_PAGE_SIZE_def
  have 1: "blob_history slot False \<lparr>next_offset = PAGE - 10, free_sections = Map.empty\<rparr> {(0, PAGE - 10)}"
    using register_at_end [OF 0, of "PAGE - 10"] by (simp add: page)
  have 2: "blob_history slot False \<lparr>next_offset = PAGE, free_sections = Map.empty\<rparr> {(PAGE - 10, 10), (0, PAGE - 10)}"
    using register_at_end [OF 1, of 10] by (simp add: page)
  note 3 = register_at_end [OF 2 assms(1)]
  have 3: "blob_history slot False \<lparr>next_offset = PAGE + a, free_sections = Map.empty\<rparr> (insert (PAGE, a) {(PAGE - 10, 10), (0, PAGE - 10)})"
    using 3 assms by (simp add: page)
  have 4: "blob_history slot False \<lparr>next_offset = PAGE + a + b, free_sections = Map.empty\<rparr>
      (insert (PAGE + a, b) (insert (PAGE, a) {(PAGE - 10, 10), (0, PAGE - 10)}))"
    using register_at_end [OF 3 assms(2)] assms by (simp add: page)
  have 5: "blob_history slot False \<lparr>next_offset = PAGE + a + b + 7, free_sections = Map.empty\<rparr>
      (insert (PAGE + a + b, 7) (insert (PAGE + a, b) (insert (PAGE, a) {(PAGE - 10, 10), (0, PAGE - 10)})))"
    using register_at_end [OF 4, of 7] assms by (simp add: page)
  have 6: "blob_history slot False \<lparr>next_offset = PAGE + a + b + 7 + 100, free_sections = Map.empty\<rparr>
      (insert (PAGE + a + b + 7, 100) (insert (PAGE + a + b, 7) (insert (PAGE + a, b) (insert (PAGE, a) {(PAGE - 10, 10), (0, PAGE - 10)}))))"
    using register_at_end [OF 5, of 100] assms by (simp add: page)
  moreover have "six_blobs a b = insert (PAGE + a + b + 7, 100) (insert (PAGE + a + b, 7) (insert (PAGE + a, b) (insert (PAGE, a) {(PAGE - 10, 10), (0, PAGE - 10)})))"
    by (auto simp: six_blobs_def)
  ultimately show ?thesis by (simp add: add.assoc)
qed

definition split_pages :: pages where
  "split_pages = [0 \<mapsto> [\<lparr>sec_offset = PAGE - 10, sec_size = 10\<rparr>],
     1 \<mapsto> [\<lparr>sec_offset = PAGE, sec_size = 5\<rparr>, \<lparr>sec_offset = PAGE + 1000, sec_size = 7\<rparr>]]"

lemma split_reached:
  "blob_history slot False \<lparr>next_offset = PAGE + 1107, free_sections = split_pages\<rparr>
     {(0, PAGE - 10), (PAGE + 5, 995), (PAGE + 1007, 100)}"
proof -
  let ?e = "PAGE + 1107"
  note page = FREE_BLOB_MANAGER_PAGE_SIZE_def
  have 0: "blob_history slot False \<lparr>next_offset = ?e, free_sections = Map.empty\<rparr> (six_blobs 5 995)"
    using six_registered [of 5 995 slot] by (simp add: page)
  have 1: "blob_history slot False \<lparr>next_offset = ?e, free_sections = [0 \<mapsto> [\<lparr>sec_offset = PAGE - 10, sec_size = 10\<rparr>]]\<rparr>
      {(0, PAGE - 10), (PAGE, 5), (PAGE + 5, 995), (PAGE + 1000, 7), (PAGE + 1007, 100)}"
    by (rule history_unregister [OF 0, of "PAGE - 10" 10])
      (auto simp: six_blobs_def page unregister_blob_def wrap64_def wrap32_def sub64_def offset_page_def insert_section_def)
  have 2: "blob_history slot False \<lparr>next_offset = ?e, free_sections = [0 \<mapsto> [\<lparr>sec_offset = PAGE - 10, sec_size = 10\<rparr>],
      1 \<mapsto> [\<lparr>sec_offset = PAGE, sec_size = 5\<rparr>]]\<rparr> {(0, PAGE - 10), (PAGE + 5, 995), (PAGE + 1000, 7), (PAGE + 1007, 100)}"
    by (rule history_unregister [OF 1, of PAGE 5])
      (auto simp: page unregister_blob_def wrap64_def wrap32_def sub64_def offset_page_def insert_section_def)
  show ?thesis
    by (rule history_unregister [OF 2, of "PAGE + 1000" 7])
      (auto simp: split_pages_def page unregister_blob_def wrap64_def wrap32_def sub64_def offset_page_def insert_section_def)
qed

definition overlapping :: "(nat \<times> nat) set \<Rightarrow> bool" where
  "overlapping live \<longleftrightarrow> (\<exists>a \<in> live. \<exists>b \<in> live. a \<noteq> b \<and> {fst a..<fst a + snd a} \<inter> {fst b..<fst b + snd b} \<noteq> {})"

lemma overlappingI: "a \<in> live \<Longrightarrow> b \<in> live \<Longrightarrow> a \<noteq> b \<Longrightarrow> x \<in> {fst a..<fst a + snd a} \<Longrightarrow> x \<in> {fst b..<fst b + snd b} \<Longrightarrow> overlapping live"
  unfolding overlapping_def by blast

text \<open>C8: The spillover search hands out bytes of a live blob after ordinary calls: six blobs that fit are
  registered, three of them are unregistered, and the next request, which uses the spillover of page 0 with
  the second free section of page 1, is answered with a range inside a blob that is still live.\<close>

theorem register_split_overlap: "\<exists>m live. blob_history slot False m live \<and> overlapping live"
proof -
  note page = FREE_BLOB_MANAGER_PAGE_SIZE_def
  have r: "register_blob slot page_order 16 \<lparr>next_offset = PAGE + 1107, free_sections = split_pages\<rparr> =
      (PAGE + 990, snd (register_blob slot page_order 16 \<lparr>next_offset = PAGE + 1107, free_sections = split_pages\<rparr>))"
    by (simp add: prod_eq_iff) (simp add: register_blob_def split_pages_def page wrap32_def sub32_def sub64_def take_from_section_def)
  have "blob_history slot False (snd (register_blob slot page_order 16 \<lparr>next_offset = PAGE + 1107, free_sections = split_pages\<rparr>))
      (insert (PAGE + 990, 16) {(0, PAGE - 10), (PAGE + 5, 995), (PAGE + 1007, 100)})"
    by (rule blob_history.register [OF split_reached page_order_ok _ _ r]) (simp_all add: request_fits_def page)
  moreover have "overlapping (insert (PAGE + 990, 16) {(0, PAGE - 10), (PAGE + 5, 995), (PAGE + 1007, 100)})"
    by (rule overlappingI [of "(PAGE + 990, 16)" _ "(PAGE + 5, 995)" "PAGE + 990"]) simp_all
  ultimately show ?thesis by blast
qed

text \<open>The other fault: page 1 is emptied by a request that uses the spillover of page 0, while page 5 lies behind it.\<close>

definition gap_pages :: pages where
  "gap_pages = [0 \<mapsto> [\<lparr>sec_offset = PAGE - 10, sec_size = 10\<rparr>], 1 \<mapsto> [\<lparr>sec_offset = PAGE, sec_size = 6\<rparr>],
     5 \<mapsto> [\<lparr>sec_offset = 5 * PAGE, sec_size = 7\<rparr>]]"

lemma gap_reached:
  "blob_history slot False \<lparr>next_offset = 5 * PAGE + 107, free_sections = gap_pages\<rparr>
     {(0, PAGE - 10), (PAGE + 6, 4 * PAGE - 6), (5 * PAGE + 7, 100)}"
proof -
  let ?e = "5 * PAGE + 107" and ?d = "4 * PAGE - 6"
  note page = FREE_BLOB_MANAGER_PAGE_SIZE_def
  have 0: "blob_history slot False \<lparr>next_offset = ?e, free_sections = Map.empty\<rparr> (six_blobs 6 ?d)"
    using six_registered [of 6 ?d slot] by (simp add: page)
  have 1: "blob_history slot False \<lparr>next_offset = ?e, free_sections = [0 \<mapsto> [\<lparr>sec_offset = PAGE - 10, sec_size = 10\<rparr>]]\<rparr>
      {(0, PAGE - 10), (PAGE, 6), (PAGE + 6, ?d), (5 * PAGE, 7), (5 * PAGE + 7, 100)}"
    by (rule history_unregister [OF 0, of "PAGE - 10" 10])
      (auto simp: six_blobs_def page unregister_blob_def wrap64_def wrap32_def sub64_def offset_page_def insert_section_def)
  have 2: "blob_history slot False \<lparr>next_offset = ?e, free_sections = [0 \<mapsto> [\<lparr>sec_offset = PAGE - 10, sec_size = 10\<rparr>],
      1 \<mapsto> [\<lparr>sec_offset = PAGE, sec_size = 6\<rparr>]]\<rparr> {(0, PAGE - 10), (PAGE + 6, ?d), (5 * PAGE, 7), (5 * PAGE + 7, 100)}"
    by (rule history_unregister [OF 1, of PAGE 6])
      (auto simp: page unregister_blob_def wrap64_def wrap32_def sub64_def offset_page_def insert_section_def)
  show ?thesis
    by (rule history_unregister [OF 2, of "5 * PAGE" 7])
      (auto simp: gap_pages_def page unregister_blob_def wrap64_def wrap32_def sub64_def offset_page_def insert_section_def)
qed


end
