(* ===== verification/BlobFormat.thy ===== *)
theory BlobFormat
  imports BlobLedger
begin

text \<open>
  Serialization of the blob manager (\<open>src/src/core/blob_manager.cpp\<close>): the payload, the loop that
  registers the manager's own blob, and deserialization with its errors; the round trip restores
  the manager.
\<close>

section \<open>Serialization\<close>

text \<open>
  A stored section is the object representation of \<open>section_t\<close>: the 64-bit offset, the 32-bit size and
  four bytes of padding, whose unspecified contents are the argument \<open>pad\<close>.
\<close>

definition section_bytes :: "(section_t \<Rightarrow> bytes) \<Rightarrow> section_t \<Rightarrow> bytes" where
  "section_bytes pad s =
     word_bytes (word_of_nat (sec_offset s) :: u64) @ word_bytes (word_of_nat (sec_size s) :: u32) @ pad s"

definition section_of_bytes :: "bytes \<Rightarrow> section_t" where
  "section_of_bytes b =
     \<lparr>sec_offset = unat (bytes_word (take 8 b) :: u64),
      sec_size = unat (bytes_word (take 4 (drop 8 b)) :: u32)\<rparr>"

record serialized_free_blob_manager =
  ser_data :: bytes
  ser_file_id :: nat
  ser_size :: nat
  ser_offset :: nat

definition sections_of :: "pages \<Rightarrow> nat \<Rightarrow> section_t list" where
  "sections_of fm page = (case fm page of None \<Rightarrow> [] | Some sections \<Rightarrow> sections)"

definition calculate_serialized_size :: "(pages \<Rightarrow> nat list) \<Rightarrow> blob_manager \<Rightarrow> nat" where
  "calculate_serialized_size ord m =
     fold (\<lambda>page sz. wrap32 (wrap32 (sz + (4 + 4)) + wrap32 (length (sections_of (free_sections m) page) * 16)))
       (ord (free_sections m)) (8 + 4)"

definition page_record_bytes :: "(section_t \<Rightarrow> bytes) \<Rightarrow> pages \<Rightarrow> nat \<Rightarrow> bytes" where
  "page_record_bytes pad fm page =
     (let sections = sections_of fm page in
      word_bytes (word_of_nat page :: u32) @ word_bytes (word_of_nat (length sections) :: u32) @
      concat (map (section_bytes pad) sections))"

definition serialize_payload :: "(pages \<Rightarrow> nat list) \<Rightarrow> (section_t \<Rightarrow> bytes) \<Rightarrow> blob_manager \<Rightarrow> bytes" where
  "serialize_payload ord pad m =
     (let fm = free_sections m; page_count = length (ord fm) in
      word_bytes (word_of_nat (next_offset m) :: u64) @ word_bytes (word_of_nat page_count :: u32) @
      concat (map (page_record_bytes pad fm) (ord fm)))"

text \<open>
  The manager's own blob is registered before it is written, and registering may change the size of
  what is written; the loop retries with 32 bytes more, five times. The buffer is zero-initialised.
\<close>

fun serialize_loop :: "(nat list \<Rightarrow> nat \<Rightarrow> nat) \<Rightarrow> (pages \<Rightarrow> nat list) \<Rightarrow> nat list \<Rightarrow> blob_manager \<Rightarrow> (nat \<times> nat) \<times> blob_manager" where
  "serialize_loop slot ord [] m = ((0, 0), m)"
| "serialize_loop slot ord (i # is) m =
     (let calculated_size = wrap32 (calculate_serialized_size ord m + 32 * i);
          (with_blob_offset, m) = register_blob slot ord calculated_size m;
          calculated_size_with_blob_manager = calculate_serialized_size ord m in
      if calculated_size_with_blob_manager \<le> calculated_size
      then ((calculated_size, with_blob_offset), m)
      else serialize_loop slot ord is (snd (unregister_blob ord with_blob_offset calculated_size m)))"

definition serialize_blob_manager ::
  "(nat list \<Rightarrow> nat \<Rightarrow> nat) \<Rightarrow> (pages \<Rightarrow> nat list) \<Rightarrow> (section_t \<Rightarrow> bytes) \<Rightarrow> blob_manager \<Rightarrow> serialized_free_blob_manager \<times> blob_manager" where
  "serialize_blob_manager slot ord pad m =
     (let ((sz, offset), m) = serialize_loop slot ord [0..<5] m;
          payload = serialize_payload ord pad m
      in (\<lparr>ser_data = payload @ replicate (sz - length payload) 0, ser_file_id = 0,
           ser_size = sz, ser_offset = offset\<rparr>, m))"

definition serialize_preallocated ::
  "(pages \<Rightarrow> nat list) \<Rightarrow> (section_t \<Rightarrow> bytes) \<Rightarrow> nat \<Rightarrow> nat \<Rightarrow> blob_manager \<Rightarrow> serialized_free_blob_manager" where
  "serialize_preallocated ord pad offset sz m =
     (let payload = serialize_payload ord pad m
      in \<lparr>ser_data = payload @ replicate (sz - length payload) 0, ser_file_id = 0,
          ser_size = sz, ser_offset = offset\<rparr>)"

text \<open>\<open>emplace\<close> keeps an entry that is already there.\<close>

fun deserialize_pages :: "nat \<Rightarrow> bytes \<Rightarrow> pages \<Rightarrow> dew_error option \<times> pages" where
  "deserialize_pages 0 data fm = (None, fm)"
| "deserialize_pages (Suc i) data fm =
     (if length data < 4 + 4 then (Some \<lparr>err_code = 1, err_msg = ''Insufficient data for page count''\<rparr>, fm)
      else (let page_number = unat (bytes_word (take 4 data) :: u32); data = drop 4 data;
                count = unat (bytes_word (take 4 data) :: u32); data = drop 4 data in
        if length data < count * 16 then (Some \<lparr>err_code = 1, err_msg = ''Insufficient data for sections''\<rparr>, fm)
        else (let sections = map section_of_bytes (elements 16 count data)
              in deserialize_pages i (drop (count * 16) data)
                   (if fm page_number = None then fm(page_number \<mapsto> sections) else fm))))"

definition deserialize_blob_manager :: "bytes \<Rightarrow> blob_manager \<Rightarrow> dew_error option \<times> blob_manager" where
  "deserialize_blob_manager data m =
     (if length data < 8 + 4
      then (Some \<lparr>err_code = 1, err_msg = ''Data size too small for deserialization''\<rparr>, m)
      else (let m = m\<lparr>next_offset := unat (bytes_word (take 8 data) :: u64)\<rparr>; data = drop 8 data;
                page_count = unat (bytes_word (take 4 data) :: u32); data = drop 4 data;
                (err, fm) = deserialize_pages page_count data (free_sections m)
            in (err, m\<lparr>free_sections := fm\<rparr>)))"

lemma section_roundtrip:
  assumes "sec_offset s < 2 ^ 64" and "sec_size s < 2 ^ 32"
  shows "section_of_bytes (section_bytes pad s @ r) = s"
  using assms by (simp add: section_of_bytes_def section_bytes_def unat_of_nat)

lemma sections_roundtrip:
  assumes "\<And>s. s \<in> set ss \<Longrightarrow> sec_offset s < 2 ^ 64 \<and> sec_size s < 2 ^ 32 \<and> length (pad s) = 4"
  shows "map section_of_bytes (elements 16 (length ss) (concat (map (section_bytes pad) ss) @ r)) = ss"
    and "length (concat (map (section_bytes pad) ss)) = length ss * 16"
proof -
  have len: "length (section_bytes pad s) = 16" if "s \<in> set ss" for s
    using assms [OF that] by (simp add: section_bytes_def)
  show "length (concat (map (section_bytes pad) ss)) = length ss * 16"
    using concat_map_length_const [of ss "section_bytes pad" 16] len by simp
  show "map section_of_bytes (elements 16 (length ss) (concat (map (section_bytes pad) ss) @ r)) = ss"
    using assms len
  proof (induction ss)
    case (Cons s ss)
    have "section_of_bytes (section_bytes pad s) = s"
      using section_roundtrip [of s pad "[]"] Cons.prems(1) [of s] by simp
    then show ?case using Cons by simp
  qed simp
qed

lemma secs_ok_length: "secs_ok lo hi ss \<Longrightarrow> lo \<le> hi \<Longrightarrow> length ss \<le> hi - lo"
proof (induction ss arbitrary: lo)
  case (Cons s ss)
  show ?case
  proof (cases "ss = []")
    case True
    then show ?thesis using Cons.prems by auto
  next
    case False
    then have "sec_end s + 1 \<le> hi"
      using Cons.prems(1) secs_ok_bounds [of "sec_end s + 1" hi ss "hd ss"] by fastforce
    then show ?thesis using Cons.IH [of "sec_end s + 1"] Cons.prems by auto
  qed
qed simp

lemma deserialize_pages_roundtrip:
  assumes "\<And>p. p \<in> set ps \<Longrightarrow> p < 2 ^ 32 \<and> length (sections_of fm p) < 2 ^ 32 \<and>
      (\<forall>s \<in> set (sections_of fm p). sec_offset s < 2 ^ 64 \<and> sec_size s < 2 ^ 32 \<and> length (pad s) = 4)"
    and "distinct ps" and "\<And>p. p \<in> set ps \<Longrightarrow> fm' p = None"
  shows "deserialize_pages (length ps) (concat (map (page_record_bytes pad fm) ps) @ r) fm' =
    (None, \<lambda>p. if p \<in> set ps then Some (sections_of fm p) else fm' p)"
  using assms
proof (induction ps arbitrary: fm')
  case Nil
  then show ?case by simp
next
  case (Cons p ps)
  let ?ss = "sections_of fm p" and ?rest = "concat (map (page_record_bytes pad fm) ps) @ r"
  have p: "p < 2 ^ 32" "length ?ss < 2 ^ 32"
    and s: "\<And>s. s \<in> set ?ss \<Longrightarrow> sec_offset s < 2 ^ 64 \<and> sec_size s < 2 ^ 32 \<and> length (pad s) = 4"
    using Cons.prems(1) [of p] by auto
  note sr = sections_roundtrip [of ?ss pad, OF s]
  have data: "concat (map (page_record_bytes pad fm) (p # ps)) @ r =
      word_bytes (word_of_nat p :: u32) @ word_bytes (word_of_nat (length ?ss) :: u32) @
      concat (map (section_bytes pad) ?ss) @ ?rest"
    by (simp add: page_record_bytes_def Let_def)
  have "deserialize_pages (length (p # ps)) (concat (map (page_record_bytes pad fm) (p # ps)) @ r) fm' =
      deserialize_pages (length ps) ?rest (fm'(p \<mapsto> ?ss))"
    unfolding data using p sr Cons.prems(3) [of p]
    by (simp add: Let_def unat_of_nat)
  also have "\<dots> = (None, \<lambda>q. if q \<in> set ps then Some (sections_of fm q) else (fm'(p \<mapsto> ?ss)) q)"
    by (rule Cons.IH) (use Cons.prems in auto)
  finally show ?case using Cons.prems(2) by (auto simp: fun_eq_iff)
qed

text \<open>C7: Deserializing a serialized manager into a fresh one restores its end of file and its free
  sections, in whatever order the pages were written, whatever the padding bytes of the sections
  hold and whatever follows the payload in the buffer.\<close>

theorem blob_manager_roundtrip:
  assumes "manager_ok m" and "iter_ok ord" and "\<And>s. length (pad s) = 4"
  shows "deserialize_blob_manager (serialize_payload ord pad m @ rest) new_blob_manager = (None, m)"
proof -
  let ?fm = "free_sections m"
  note ok = manager_ok_pages [OF assms(1)]
  have lim: "next_offset m \<le> (2 ^ 32 - 1) * PAGE" using assms(1) by (simp add: manager_ok_def)
  have "finite (dom ?fm)" using ok by (simp add: pages_ok_def)
  then have ord: "distinct (ord ?fm)" "set (ord ?fm) = dom ?fm"
    using assms(2) unfolding iter_ok_def by auto
  have page: "p < 2 ^ 32 \<and> length (sections_of ?fm p) < 2 ^ 32 \<and>
      (\<forall>s \<in> set (sections_of ?fm p). sec_offset s < 2 ^ 64 \<and> sec_size s < 2 ^ 32 \<and> length (pad s) = 4)"
    if mem: "p \<in> set (ord ?fm)" for p
  proof -
    obtain ss where ss: "?fm p = Some ss" using mem ord(2) by auto
    note k = pages_okD [OF ok ss]
    obtain t where t: "t \<in> set ss" using k by (cases ss) auto
    have "secs_ok (p * PAGE) (min ((p + 1) * PAGE) (next_offset m)) ss" using k by simp
    moreover have "p * PAGE \<le> min ((p + 1) * PAGE) (next_offset m)"
      using secs_ok_bounds [OF conjunct2 [OF k] t] by linarith
    ultimately have "length ss \<le> min ((p + 1) * PAGE) (next_offset m) - p * PAGE" by (rule secs_ok_length)
    also have "\<dots> \<le> PAGE" by simp
    finally have "length ss < 2 ^ 32" by (simp add: FREE_BLOB_MANAGER_PAGE_SIZE_def)
    moreover have "s \<in> set ss \<Longrightarrow> sec_offset s < 2 ^ 64 \<and> sec_size s < 2 ^ 32" for s
      using page_small(2) [OF ok lim ss, of s] by (simp add: FREE_BLOB_MANAGER_PAGE_SIZE_def)
    ultimately show ?thesis using page_small(1) [OF ok lim ss] ss assms(3) by (simp add: sections_of_def)
  qed
  have "dom ?fm \<subseteq> {..<2 ^ 32 - 1}" using page_small(1) [OF ok lim] by auto
  then have "card (dom ?fm) \<le> 2 ^ 32 - 1" using card_mono [of "{..<2 ^ 32 - 1 :: nat}"] by fastforce
  then have len: "length (ord ?fm) < 2 ^ 32" using ord distinct_card by fastforce
  have "(\<lambda>p. if p \<in> set (ord ?fm) then Some (sections_of ?fm p) else None) = ?fm"
    unfolding ord(2) by (auto simp: fun_eq_iff sections_of_def dom_def split: option.splits)
  then have "deserialize_pages (length (ord ?fm)) (concat (map (page_record_bytes pad ?fm) (ord ?fm)) @ rest) Map.empty =
      (None, ?fm)"
    using deserialize_pages_roundtrip [OF page ord(1), of Map.empty rest] by simp
  then show ?thesis
    using len page_bound [OF lim]
    by (simp add: deserialize_blob_manager_def serialize_payload_def Let_def new_blob_manager_def unat_of_nat)
qed

section \<open>Concrete states\<close>

definition hole_manager :: blob_manager where
  "hole_manager = \<lparr>next_offset = 3000, free_sections = [0 \<mapsto> [\<lparr>sec_offset = 100, sec_size = 50\<rparr>]]\<rparr>"

lemma hole_manager_ok: "manager_ok hole_manager"
  by (auto simp: manager_ok_def pages_ok_def hole_manager_def FREE_BLOB_MANAGER_PAGE_SIZE_def split: if_splits)

lemma hole_manager_allocated: "allocated hole_manager = {..<3000} - {100..<150}"
  by (auto simp: allocated_def free_bytes_def bytes_at_def hole_manager_def sec_bytes_def split: if_splits option.splits)

theorem register_blob_correct_witness:
  "fst (register_blob moved_last (\<lambda>_. [0]) 20 hole_manager) = 100 \<and>
   allocated (snd (register_blob moved_last (\<lambda>_. [0]) 20 hole_manager)) = ({..<3000} - {100..<150}) \<union> {100..<120}"
proof -
  have ns: "request_sound moved_last (\<lambda>_. [0]) 20 hole_manager"
    by (simp add: request_sound_def hole_manager_def wrap32_def)
  have off: "fst (register_blob moved_last (\<lambda>_. [0]) 20 hole_manager) = 100" by code_simp
  have "register_blob moved_last (\<lambda>_. [0]) 20 hole_manager =
      (100, snd (register_blob moved_last (\<lambda>_. [0]) 20 hole_manager))"
    using off by (metis prod.collapse)
  from register_blob_correct [OF hole_manager_ok ns _ _ _ this]
  show ?thesis
    using off by (simp add: hole_manager_allocated) (simp add: hole_manager_def FREE_BLOB_MANAGER_PAGE_SIZE_def)
qed

theorem unregister_blob_correct_witness:
  "fst (unregister_blob (\<lambda>_. [0]) 200 10 hole_manager) \<and>
   \<not> fst (unregister_blob (\<lambda>_. [0]) 140 20 hole_manager)"
proof -
  note u = unregister_blob_correct [OF hole_manager_ok _ _ prod.collapse [symmetric], unfolded hole_manager_allocated]
  have "{200..<200 + 10} \<subseteq> {..<3000 :: nat} - {100..<150}" by auto
  moreover have "145 \<in> {140..<140 + 20 :: nat}" "145 \<notin> {..<3000 :: nat} - {100..<150}" by auto
  then have "\<not> {140..<140 + 20} \<subseteq> {..<3000 :: nat} - {100..<150}" by blast
  ultimately show ?thesis using u [of 10 200 "\<lambda>_. [0]"] u [of 20 140 "\<lambda>_. [0]"] by simp
qed

theorem claim_blob_correct_witness:
  "fst (claim_blob (\<lambda>_. [0]) 110 20 hole_manager) \<and>
   \<not> fst (claim_blob (\<lambda>_. [0]) 140 20 hole_manager)"
proof -
  note c = claim_blob_correct [OF hole_manager_ok _ _ prod.collapse [symmetric], unfolded hole_manager_allocated]
  have "{110..<110 + 20} \<inter> ({..<3000 :: nat} - {100..<150}) = {}" by auto
  moreover have "155 \<in> {140..<140 + 20 :: nat}" "155 \<in> {..<3000 :: nat} - {100..<150}" by auto
  then have "\<not> {140..<140 + 20} \<inter> ({..<3000 :: nat} - {100..<150}) = {}" by blast
  moreover have "next_offset hole_manager = 3000" by (simp add: hole_manager_def)
  ultimately show ?thesis
    using c [of 20 110 "\<lambda>_. [0]"] c [of 20 140 "\<lambda>_. [0]"] by (simp add: FREE_BLOB_MANAGER_PAGE_SIZE_def)
qed

lemma example_history: "blob_history moved_last True \<lparr>next_offset = 100, free_sections = Map.empty\<rparr> {(0, 100)}"
  by (rule blob_history.register [OF blob_history.start page_order_ok, of 100])
    (simp_all add: request_fits_def request_sound_def register_blob_def new_blob_manager_def FREE_BLOB_MANAGER_PAGE_SIZE_def)

theorem live_blobs_disjoint_witness:
  "fst (unregister_blob (\<lambda>_. []) 0 100 \<lparr>next_offset = 100, free_sections = Map.empty\<rparr>)"
  using live_blobs_disjoint [OF example_history, of "\<lambda>_. []"] by simp

theorem blob_manager_roundtrip_witness:
  "deserialize_blob_manager (serialize_payload (\<lambda>m. sorted_list_of_set (dom m)) (\<lambda>_. [1, 2, 3, 4]) hole_manager @ [9])
     new_blob_manager = (None, hole_manager)"
  by (rule blob_manager_roundtrip [OF hole_manager_ok]) (simp_all add: iter_ok_def)

end
