(* ===== verification/Dataset.thy ===== *)
theory Dataset
  imports MemoryIO Morton
begin

text \<open>
  The plain data of \<open>src/src/core/dataset_types.hpp\<close> and \<open>dew/core/format.h\<close> that the stored formats
  are made of, with their object representations. A structure is copied to and from a buffer as a
  whole, padding included: padding bytes are fields here, so that the representation determines
  the value. Floating-point fields are kept as the 64 bits of their representation. Every structure
  is interpreted as a \<open>pod_codec\<close>.
\<close>

section \<open>Point formats\<close>

datatype dew_type = dew_type_u8 | dew_type_i8 | dew_type_u16 | dew_type_i16 | dew_type_u32 | dew_type_i32
  | dew_type_m32 | dew_type_r32 | dew_type_u64 | dew_type_i64 | dew_type_m64 | dew_type_r64
  | dew_type_m128 | dew_type_m192

datatype dew_components = dew_components_1 | dew_components_2 | dew_components_3 | dew_components_4
  | dew_components_4x4

fun components_int :: "dew_components \<Rightarrow> nat" where
  "components_int dew_components_1 = 1"
| "components_int dew_components_2 = 2"
| "components_int dew_components_3 = 3"
| "components_int dew_components_4 = 4"
| "components_int dew_components_4x4 = 5"

fun size_for_format :: "dew_type \<Rightarrow> nat" where
  "size_for_format dew_type_u8 = 1"
| "size_for_format dew_type_i8 = 1"
| "size_for_format dew_type_u16 = 2"
| "size_for_format dew_type_i16 = 2"
| "size_for_format dew_type_u32 = 4"
| "size_for_format dew_type_i32 = 4"
| "size_for_format dew_type_r32 = 4"
| "size_for_format dew_type_m32 = 4"
| "size_for_format dew_type_u64 = 8"
| "size_for_format dew_type_i64 = 8"
| "size_for_format dew_type_r64 = 8"
| "size_for_format dew_type_m64 = 8"
| "size_for_format dew_type_m128 = 16"
| "size_for_format dew_type_m192 = 24"

definition size_for_point_format :: "dew_type \<Rightarrow> dew_components \<Rightarrow> nat" where
  "size_for_point_format format components = size_for_format format * components_int components"

section \<open>Identifiers and locations\<close>

record input_data_id =
  id_data :: u32
  id_sub :: u32

definition input_data_id_lt :: "input_data_id \<Rightarrow> input_data_id \<Rightarrow> bool" where
  "input_data_id_lt a b \<longleftrightarrow> id_data a < id_data b \<or> (id_data a = id_data b \<and> id_sub a < id_sub b)"

definition input_data_id_is_leaf :: "input_data_id \<Rightarrow> bool" where
  "input_data_id_is_leaf input \<longleftrightarrow> id_sub input AND push_bit 31 1 = 0"

definition input_data_id_is_collapsed_leaf :: "input_data_id \<Rightarrow> bool" where
  "input_data_id_is_collapsed_leaf input \<longleftrightarrow> id_sub input AND 0xC0000000 = 0x40000000"

type_synonym attributes_id = u32

record storage_location =
  file_id :: u32
  loc_size :: u32
  loc_offset :: u64

definition no_location :: storage_location where
  "no_location = \<lparr>file_id = 0, loc_size = 0, loc_offset = 0\<rparr>"

record points_subset =
  ps_input :: input_data_id
  ps_offset :: u32
  ps_count :: u32

text \<open>A morton code of three words as one value; \<open>m192_words\<close> is the list the operations of \<open>Morton\<close> use.\<close>

datatype m192 = M192 u64 u64 u64

fun m192_words :: "m192 \<Rightarrow> morton192" where
  "m192_words (M192 a b c) = [a, b, c]"

definition m192_of :: "morton192 \<Rightarrow> m192" where
  "m192_of m = M192 (m ! 0) (m ! 1) (m ! 2)"

definition m192_min :: m192 where
  "m192_min = m192_of (morton_init_min [0, 0, 0])"

definition m192_max :: m192 where
  "m192_max = m192_of (morton_init_max [0, 0, 0])"

definition m192_lt :: "m192 \<Rightarrow> m192 \<Rightarrow> bool" where
  "m192_lt a b = morton_lt (m192_words a) (m192_words b)"

lemma length_m192_words [simp]: "length (m192_words m) = 3"
  by (cases m) simp

lemma m192_of_words [simp]: "m192_of (m192_words m) = m"
  by (cases m) (simp add: m192_of_def)

instantiation m192 :: linorder
begin

definition less_m192 :: "m192 \<Rightarrow> m192 \<Rightarrow> bool" where
  "less_m192 a b = m192_lt a b"

definition less_eq_m192 :: "m192 \<Rightarrow> m192 \<Rightarrow> bool" where
  "less_eq_m192 a b = morton_le (m192_words a) (m192_words b)"

instance
proof
  fix a b c :: m192
  have le: "a \<le> b \<longleftrightarrow> morton_val (m192_words a) \<le> morton_val (m192_words b)" for a b :: m192
    unfolding less_eq_m192_def by (rule morton_le_val) simp_all
  have lt: "a < b \<longleftrightarrow> morton_val (m192_words a) < morton_val (m192_words b)" for a b :: m192
    unfolding less_m192_def m192_lt_def by (rule morton_lt_val) simp_all
  show "(a < b) = (a \<le> b \<and> \<not> b \<le> a)" unfolding le lt by auto
  show "a \<le> a" unfolding le by simp
  show "a \<le> b \<Longrightarrow> b \<le> c \<Longrightarrow> a \<le> c" unfolding le by simp
  show "a \<le> b \<Longrightarrow> b \<le> a \<Longrightarrow> a = b"
    unfolding le by (metis le_antisym length_m192_words m192_of_words morton_val_inject)
  show "a \<le> b \<or> b \<le> a" unfolding le by auto
qed

end

section \<open>Object representations\<close>

definition enc_id :: "input_data_id \<Rightarrow> bytes" where
  "enc_id i = word_bytes (id_data i) @ word_bytes (id_sub i)"

definition dec_id :: "bytes \<Rightarrow> input_data_id" where
  "dec_id b = \<lparr>id_data = bytes_word (take 4 b), id_sub = bytes_word (take 4 (drop 4 b))\<rparr>"

definition enc_location :: "storage_location \<Rightarrow> bytes" where
  "enc_location l = word_bytes (file_id l) @ word_bytes (loc_size l) @ word_bytes (loc_offset l)"

definition dec_location :: "bytes \<Rightarrow> storage_location" where
  "dec_location b =
     \<lparr>file_id = bytes_word (take 4 b), loc_size = bytes_word (take 4 (drop 4 b)),
      loc_offset = bytes_word (take 8 (drop 8 b))\<rparr>"

definition enc_subset :: "points_subset \<Rightarrow> bytes" where
  "enc_subset s = enc_id (ps_input s) @ word_bytes (ps_offset s) @ word_bytes (ps_count s)"

definition dec_subset :: "bytes \<Rightarrow> points_subset" where
  "dec_subset b =
     \<lparr>ps_input = dec_id (take 8 b), ps_offset = bytes_word (take 4 (drop 8 b)),
      ps_count = bytes_word (take 4 (drop 12 b))\<rparr>"

fun enc_m192 :: "m192 \<Rightarrow> bytes" where
  "enc_m192 (M192 a b c) = word_bytes a @ word_bytes b @ word_bytes c"

definition dec_m192 :: "bytes \<Rightarrow> m192" where
  "dec_m192 b = M192 (bytes_word (take 8 b)) (bytes_word (take 8 (drop 8 b))) (bytes_word (take 8 (drop 16 b)))"

interpretation idc: pod_codec enc_id dec_id 8
  by unfold_locales (simp_all add: enc_id_def dec_id_def)

interpretation locc: pod_codec enc_location dec_location 16
  by unfold_locales (simp_all add: enc_location_def dec_location_def)

interpretation subc: pod_codec enc_subset dec_subset 16
  by unfold_locales (simp_all add: enc_subset_def dec_subset_def idc.enc_length idc.dec_enc)

lemma length_enc_m192 [simp]: "length (enc_m192 m) = 24"
  by (cases m) simp

interpretation m192c: pod_codec enc_m192 dec_m192 24
proof
  show "dec_m192 (enc_m192 m) = m" for m by (cases m) (simp add: dec_m192_def)
qed simp

lemmas struct_codec_simps =
  idc.enc_length idc.dec_enc idc.read_one idc.read_vec idc.length_concat_enc
  locc.enc_length locc.dec_enc locc.read_one locc.read_vec locc.length_concat_enc
  subc.enc_length subc.dec_enc subc.read_one subc.read_vec subc.length_concat_enc
  m192c.dec_enc m192c.read_one m192c.read_vec m192c.length_concat_enc

text \<open>
  \<open>storage_header_t\<close> is 80 bytes: the enumerations of the point format are 32-bit, and there are
  four bytes of padding before the codes and at the end.
\<close>

record storage_header =
  sh_input :: input_data_id
  sh_count :: u32
  sh_type :: u32
  sh_components :: u32
  sh_pad :: u32
  sh_min :: m192
  sh_max :: m192
  sh_lod_span :: u32
  sh_pad_end :: u32

definition storage_header_initialize :: "storage_header \<Rightarrow> storage_header" where
  "storage_header_initialize h = h\<lparr>sh_count := 0, sh_max := m192_min, sh_min := m192_max, sh_lod_span := 255\<rparr>"

definition enc_header :: "storage_header \<Rightarrow> bytes" where
  "enc_header h = enc_id (sh_input h) @ word_bytes (sh_count h) @ word_bytes (sh_type h) @
     word_bytes (sh_components h) @ word_bytes (sh_pad h) @ enc_m192 (sh_min h) @ enc_m192 (sh_max h) @
     word_bytes (sh_lod_span h) @ word_bytes (sh_pad_end h)"

definition dec_header :: "bytes \<Rightarrow> storage_header" where
  "dec_header b =
     \<lparr>sh_input = dec_id (take 8 b), sh_count = bytes_word (take 4 (drop 8 b)),
      sh_type = bytes_word (take 4 (drop 12 b)), sh_components = bytes_word (take 4 (drop 16 b)),
      sh_pad = bytes_word (take 4 (drop 20 b)), sh_min = dec_m192 (take 24 (drop 24 b)),
      sh_max = dec_m192 (take 24 (drop 48 b)), sh_lod_span = bytes_word (take 4 (drop 72 b)),
      sh_pad_end = bytes_word (take 4 (drop 76 b))\<rparr>"

interpretation headc: pod_codec enc_header dec_header 80
  by unfold_locales (simp_all add: enc_header_def dec_header_def idc.enc_length idc.dec_enc m192c.dec_enc)

definition deserialize_points :: "bytes \<Rightarrow> (storage_header \<times> bytes) result" where
  "deserialize_points data =
     (if length data < 80 then Inl \<lparr>err_code = 2, err_msg = ''Invalid input size''\<rparr>
      else Inr (dec_header (take 80 data), drop 80 data))"

end
