(* ===== verification/Manifests.thy ===== *)
theory Manifests
  imports Dataset
begin

text \<open>
  The fixed metadata blocks: the root and band manifests of the object bucket
  (\<open>src/src/core/bucket_format.cpp\<close>) and the 128-byte index of the packed file
  (\<open>src/src/core/index_format.hpp\<close>). A dataset uuid is its 16 bytes. The writers allocate a buffer
  of the computed size and fill it field by field; the readers check the magic and refuse a buffer
  that is too short. A reader's output parameter is the value of the result on success only.
\<close>

section \<open>Root manifest\<close>

definition k_root_manifest_magic :: u32 where "k_root_manifest_magic = 0x32574544"
definition k_root_manifest_magic_legacy_jlp2 :: u32 where "k_root_manifest_magic_legacy_jlp2 = 0x32504c4a"
definition k_root_manifest_size :: nat where "k_root_manifest_size = 256"

definition is_root_manifest_magic :: "u32 \<Rightarrow> bool" where
  "is_root_manifest_magic magic \<longleftrightarrow> magic = k_root_manifest_magic \<or> magic = k_root_manifest_magic_legacy_jlp2"

record root_manifest =
  rm_version :: u32
  rm_uuid :: bytes
  rm_complete :: u8
  rm_band_count :: u32
  rm_next_object_id :: u32
  rm_attribute_configs :: storage_location
  rm_tree_registry :: storage_location
  rm_compression_stats :: storage_location
  rm_perf_stats :: storage_location

definition root_fields :: "root_manifest \<Rightarrow> bytes list" where
  "root_fields m =
     [word_bytes (rm_version m), rm_uuid m, word_bytes (rm_complete m), word_bytes (rm_band_count m),
      word_bytes (rm_next_object_id m), enc_location (rm_attribute_configs m),
      enc_location (rm_tree_registry m), enc_location (rm_compression_stats m), enc_location (rm_perf_stats m)]"

definition serialize_root_manifest :: "root_manifest \<Rightarrow> bytes option" where
  "serialize_root_manifest m =
     map_option buffer_of
       (write_seq (word_bytes k_root_manifest_magic # root_fields m) (fresh k_root_manifest_size))"

definition invalid_root :: dew_error where
  "invalid_root = \<lparr>err_code = 1, err_msg = ''Invalid DEW2 root manifest''\<rparr>"

definition read_root_fields :: "bytes \<Rightarrow> root_manifest option" where
  "read_root_fields p = do {
     (version, p) \<leftarrow> read_memory 4 bytes_word p;
     (uuid, p) \<leftarrow> read_memory 16 id p;
     (complete, p) \<leftarrow> read_memory 1 bytes_word p;
     (band_count, p) \<leftarrow> read_memory 4 bytes_word p;
     (next_object_id, p) \<leftarrow> read_memory 4 bytes_word p;
     (attribute_configs, p) \<leftarrow> read_memory 16 dec_location p;
     (tree_registry, p) \<leftarrow> read_memory 16 dec_location p;
     (compression_stats, p) \<leftarrow> read_memory 16 dec_location p;
     (perf_stats, p) \<leftarrow> read_memory 16 dec_location p;
     Some \<lparr>rm_version = version, rm_uuid = uuid, rm_complete = complete, rm_band_count = band_count,
       rm_next_object_id = next_object_id, rm_attribute_configs = attribute_configs,
       rm_tree_registry = tree_registry, rm_compression_stats = compression_stats,
       rm_perf_stats = perf_stats\<rparr> }"

definition deserialize_root_manifest :: "bytes \<Rightarrow> root_manifest result" where
  "deserialize_root_manifest data =
     (if length data < k_root_manifest_size then Inl invalid_root
      else case read_memory 4 bytes_word data of
        None \<Rightarrow> Inl invalid_root
      | Some (magic, p) \<Rightarrow>
          (if \<not> is_root_manifest_magic magic then Inl invalid_root
           else case read_root_fields p of None \<Rightarrow> Inl invalid_root | Some m \<Rightarrow> Inr m))"

lemma root_fields_length: "length (rm_uuid m) = 16 \<Longrightarrow> length (concat (root_fields m)) = 93"
  by (simp add: root_fields_def struct_codec_simps)

lemma read_root_fields_written:
  "length (rm_uuid m) = 16 \<Longrightarrow> read_root_fields (concat (root_fields m) @ r) = Some m"
  by (simp add: read_root_fields_def root_fields_def struct_codec_simps)

text \<open>A root manifest is written into its 256-byte block and read back unchanged, also when the
  block carries the magic of the format's old name; every block shorter than 256 bytes is refused.\<close>

theorem root_manifest_roundtrip:
  assumes "length (rm_uuid m) = 16"
  shows "\<exists>data. serialize_root_manifest m = Some data \<and> length data = k_root_manifest_size \<and>
    deserialize_root_manifest data = Inr m \<and>
    deserialize_root_manifest (word_bytes k_root_manifest_magic_legacy_jlp2 @ drop 4 data) = Inr m \<and>
    deserialize_root_manifest (butlast data) = Inl invalid_root"
proof -
  let ?f = "concat (root_fields m)"
  let ?data = "word_bytes k_root_manifest_magic @ ?f @ replicate 159 0"
  have "concat (word_bytes k_root_manifest_magic # root_fields m) = word_bytes k_root_manifest_magic @ ?f" by simp
  then have "serialize_root_manifest m = Some ?data"
    using write_seq_fits [of "word_bytes k_root_manifest_magic # root_fields m" k_root_manifest_size]
    by (simp add: serialize_root_manifest_def root_fields_length [OF assms] k_root_manifest_size_def)
  moreover have len: "length ?data = k_root_manifest_size"
    by (simp add: root_fields_length [OF assms] k_root_manifest_size_def)
  moreover have "deserialize_root_manifest (word_bytes magic @ ?f @ replicate 159 0) = Inr m"
    if "is_root_manifest_magic magic" for magic
    using that by (simp add: deserialize_root_manifest_def root_fields_length [OF assms]
        k_root_manifest_size_def word_codec_simps read_root_fields_written [OF assms])
  moreover have "is_root_manifest_magic k_root_manifest_magic" "is_root_manifest_magic k_root_manifest_magic_legacy_jlp2"
    by (simp_all add: is_root_manifest_magic_def)
  moreover have "drop 4 ?data = ?f @ replicate 159 0" by simp
  moreover have "deserialize_root_manifest (butlast ?data) = Inl invalid_root"
    using len by (simp add: deserialize_root_manifest_def k_root_manifest_size_def)
  ultimately show ?thesis by metis
qed

section \<open>Band manifest\<close>

definition k_band_manifest_magic :: u32 where "k_band_manifest_magic = 0x32444e42"

record band_tree_entry =
  bt_tree_id :: u32
  bt_pad :: u32
  bt_location :: storage_location

record band_dedup_entry =
  bd_cache_offset :: u64
  bd_location :: storage_location

record band_manifest =
  bm_band_id :: u32
  bm_uuid :: bytes
  bm_watermark :: m192
  bm_first_object_id :: u32
  bm_next_object_id :: u32
  bm_trees :: "band_tree_entry list"
  bm_blobs :: "band_dedup_entry list"
  bm_attributes_snapshot :: bytes

definition enc_tree_entry :: "band_tree_entry \<Rightarrow> bytes" where
  "enc_tree_entry e = word_bytes (bt_tree_id e) @ word_bytes (bt_pad e) @ enc_location (bt_location e)"

definition dec_tree_entry :: "bytes \<Rightarrow> band_tree_entry" where
  "dec_tree_entry b =
     \<lparr>bt_tree_id = bytes_word (take 4 b), bt_pad = bytes_word (take 4 (drop 4 b)),
      bt_location = dec_location (take 16 (drop 8 b))\<rparr>"

definition enc_dedup_entry :: "band_dedup_entry \<Rightarrow> bytes" where
  "enc_dedup_entry e = word_bytes (bd_cache_offset e) @ enc_location (bd_location e)"

definition dec_dedup_entry :: "bytes \<Rightarrow> band_dedup_entry" where
  "dec_dedup_entry b = \<lparr>bd_cache_offset = bytes_word (take 8 b), bd_location = dec_location (take 16 (drop 8 b))\<rparr>"

interpretation btc: pod_codec enc_tree_entry dec_tree_entry 24
  by unfold_locales (simp_all add: enc_tree_entry_def dec_tree_entry_def struct_codec_simps)

interpretation bdc: pod_codec enc_dedup_entry dec_dedup_entry 24
  by unfold_locales (simp_all add: enc_dedup_entry_def dec_dedup_entry_def struct_codec_simps)

definition band_manifest_size :: "band_manifest \<Rightarrow> nat" where
  "band_manifest_size m =
     wrap32 (4 + 4 + 16 + 24 + 4 + 4 + (4 + length (bm_trees m) * 24) + (4 + length (bm_blobs m) * 24) +
       (4 + length (bm_attributes_snapshot m)))"

definition write_band_fields :: "band_manifest \<Rightarrow> wcursor \<Rightarrow> wcursor option" where
  "write_band_fields m c = do {
     c \<leftarrow> write_memory (word_bytes k_band_manifest_magic) c;
     c \<leftarrow> write_memory (word_bytes (bm_band_id m)) c;
     c \<leftarrow> write_memory (bm_uuid m) c;
     c \<leftarrow> write_memory (enc_m192 (bm_watermark m)) c;
     c \<leftarrow> write_memory (word_bytes (bm_first_object_id m)) c;
     c \<leftarrow> write_memory (word_bytes (bm_next_object_id m)) c;
     c \<leftarrow> write_memory (word_bytes (word_of_nat (length (bm_trees m)) :: u32)) c;
     c \<leftarrow> write_vec_type (map enc_tree_entry (bm_trees m)) c;
     c \<leftarrow> write_memory (word_bytes (word_of_nat (length (bm_blobs m)) :: u32)) c;
     c \<leftarrow> write_vec_type (map enc_dedup_entry (bm_blobs m)) c;
     c \<leftarrow> write_memory (word_bytes (word_of_nat (length (bm_attributes_snapshot m)) :: u32)) c;
     if bm_attributes_snapshot m = [] then Some c
     else write_vec_type (map (\<lambda>b. [b]) (bm_attributes_snapshot m)) c }"

definition serialize_band_manifest :: "band_manifest \<Rightarrow> bytes" where
  "serialize_band_manifest m =
     (case write_band_fields m (fresh (band_manifest_size m)) of
        None \<Rightarrow> []
      | Some c \<Rightarrow> buffer_of c)"

definition invalid_band :: dew_error where
  "invalid_band = \<lparr>err_code = 1, err_msg = ''Invalid DEW2 band manifest''\<rparr>"

definition read_band_fields :: "bytes \<Rightarrow> band_manifest option" where
  "read_band_fields p = do {
     (band_id, p) \<leftarrow> read_memory 4 bytes_word p;
     (uuid, p) \<leftarrow> read_memory 16 id p;
     (watermark, p) \<leftarrow> read_memory 24 dec_m192 p;
     (first_object_id, p) \<leftarrow> read_memory 4 bytes_word p;
     (next_object_id, p) \<leftarrow> read_memory 4 bytes_word p;
     (tree_count :: u32, p) \<leftarrow> read_memory 4 bytes_word p;
     (trees, p) \<leftarrow> read_vec_type 24 dec_tree_entry (unat tree_count) p;
     (blob_count :: u32, p) \<leftarrow> read_memory 4 bytes_word p;
     (blobs, p) \<leftarrow> read_vec_type 24 dec_dedup_entry (unat blob_count) p;
     (attrs_size :: u32, p) \<leftarrow> read_memory 4 bytes_word p;
     (attrs, p) \<leftarrow> read_vec_type 1 bytes_word (unat attrs_size) p;
     Some \<lparr>bm_band_id = band_id, bm_uuid = uuid, bm_watermark = watermark,
       bm_first_object_id = first_object_id, bm_next_object_id = next_object_id, bm_trees = trees,
       bm_blobs = blobs, bm_attributes_snapshot = attrs\<rparr> }"

definition deserialize_band_manifest :: "bytes \<Rightarrow> band_manifest result" where
  "deserialize_band_manifest data =
     (case read_memory 4 bytes_word data of
        None \<Rightarrow> Inl invalid_band
      | Some (magic, p) \<Rightarrow>
          (if magic \<noteq> k_band_manifest_magic then Inl invalid_band
           else case read_band_fields p of None \<Rightarrow> Inl invalid_band | Some m \<Rightarrow> Inr m))"

definition band_fields :: "band_manifest \<Rightarrow> bytes list" where
  "band_fields m =
     [word_bytes k_band_manifest_magic, word_bytes (bm_band_id m), bm_uuid m, enc_m192 (bm_watermark m),
      word_bytes (bm_first_object_id m), word_bytes (bm_next_object_id m),
      word_bytes (word_of_nat (length (bm_trees m)) :: u32), concat (map enc_tree_entry (bm_trees m)),
      word_bytes (word_of_nat (length (bm_blobs m)) :: u32), concat (map enc_dedup_entry (bm_blobs m)),
      word_bytes (word_of_nat (length (bm_attributes_snapshot m)) :: u32), bm_attributes_snapshot m]"

lemma write_band_fields_seq: "write_band_fields m c = write_seq (band_fields m) c"
proof -
  have last: "(if bm_attributes_snapshot m = [] then Some c
      else write_memory (concat (map (\<lambda>b. [b]) (bm_attributes_snapshot m))) c) = write_seq [bm_attributes_snapshot m] c" for c
    by (simp add: concat_singletons split: option.splits)
  show ?thesis
    unfolding write_band_fields_def band_fields_def last write_vec_concat bind_write_seq ..
qed

lemma read_band_fields_written:
  assumes "length (bm_uuid m) = 16" and "length (bm_trees m) < 2 ^ 32" and "length (bm_blobs m) < 2 ^ 32"
    and "length (bm_attributes_snapshot m) < 2 ^ 32"
  shows "read_band_fields (concat (tl (band_fields m)) @ r) = Some m"
  using assms
  by (simp add: read_band_fields_def band_fields_def struct_codec_simps btc.read_vec bdc.read_vec
      read_bytes_vec [unfolded One_nat_def] unat_of_nat)

text \<open>A band manifest that fits a 32-bit size is written completely and read back unchanged, the
  padding bytes of its entries included.\<close>

theorem band_manifest_roundtrip:
  assumes "length (bm_uuid m) = 16"
    and "24 * length (bm_trees m) + 24 * length (bm_blobs m) + length (bm_attributes_snapshot m) + 68 < 2 ^ 32"
  shows "deserialize_band_manifest (serialize_band_manifest m) = Inr m"
proof -
  have len: "length (concat (band_fields m)) =
      68 + 24 * length (bm_trees m) + 24 * length (bm_blobs m) + length (bm_attributes_snapshot m)"
    using assms(1) by (simp add: band_fields_def btc.length_concat_enc bdc.length_concat_enc)
  have size: "band_manifest_size m = length (concat (band_fields m))"
    unfolding len band_manifest_size_def using assms(2) by (subst wrap32_id) simp_all
  have "serialize_band_manifest m = concat (band_fields m)"
    using write_seq_fits [of "band_fields m" "band_manifest_size m"] size
    by (cases "write_seq (band_fields m) (fresh (band_manifest_size m))")
      (simp_all add: serialize_band_manifest_def write_band_fields_seq)
  moreover have "concat (band_fields m) = word_bytes k_band_manifest_magic @ concat (tl (band_fields m)) @ []"
    by (simp add: band_fields_def)
  ultimately show ?thesis
    using read_band_fields_written [of m "[]"] assms
    by (simp add: deserialize_band_manifest_def word_codec_simps)
qed

section \<open>The packed file's index\<close>

definition k_serialized_index_size :: nat where "k_serialized_index_size = 128"

record index_extras =
  ix_residency_table :: storage_location
  ix_uuid :: bytes
  ix_version_flags :: u32

text \<open>The five locations in the order of the arguments: free blobs, attribute configurations, tree
  registry, compression statistics, performance statistics.\<close>

record index_locations =
  il_free_blobs :: storage_location
  il_attribute_configs :: storage_location
  il_tree_registry :: storage_location
  il_compression_stats :: storage_location
  il_perf_stats :: storage_location

definition index_magic :: bytes where "index_magic = [0x44, 0x45, 0x57, 0]"
definition index_magic_legacy_jlp :: bytes where "index_magic_legacy_jlp = [0x4a, 0x4c, 0x50, 0]"

definition enc_index_locations :: "index_locations \<Rightarrow> bytes" where
  "enc_index_locations l =
     enc_location (il_free_blobs l) @ enc_location (il_attribute_configs l) @
     enc_location (il_tree_registry l) @ enc_location (il_compression_stats l) @
     enc_location (il_perf_stats l)"

definition enc_index_extras :: "index_extras \<Rightarrow> bytes" where
  "enc_index_extras e = enc_location (ix_residency_table e) @ ix_uuid e @ word_bytes (ix_version_flags e)"

definition serialize_index :: "nat \<Rightarrow> index_locations \<Rightarrow> index_extras option \<Rightarrow> bytes" where
  "serialize_index index_size l extras =
     (let written = index_magic @ enc_index_locations l @
            (case extras of None \<Rightarrow> [] | Some e \<Rightarrow> enc_index_extras e)
      in written @ drop (length written) (replicate index_size 0))"

definition dec_index_locations :: "bytes \<Rightarrow> index_locations" where
  "dec_index_locations p =
     \<lparr>il_free_blobs = dec_location (take 16 p), il_attribute_configs = dec_location (take 16 (drop 16 p)),
      il_tree_registry = dec_location (take 16 (drop 32 p)),
      il_compression_stats = dec_location (take 16 (drop 48 p)),
      il_perf_stats = dec_location (take 16 (drop 64 p))\<rparr>"

definition dec_index_extras :: "bytes \<Rightarrow> index_extras" where
  "dec_index_extras p =
     \<lparr>ix_residency_table = dec_location (take 16 p), ix_uuid = take 16 (drop 16 p),
      ix_version_flags = bytes_word (take 4 (drop 32 p))\<rparr>"

definition deserialize_index :: "bytes \<Rightarrow> (index_locations \<times> index_extras) result" where
  "deserialize_index buffer =
     (if take 4 buffer \<noteq> index_magic \<and> take 4 buffer \<noteq> index_magic_legacy_jlp
      then Inl \<lparr>err_code = 1, err_msg = ''Wrong magic.''\<rparr>
      else (let ptr = drop 4 buffer
            in Inr (dec_index_locations (take 80 ptr), dec_index_extras (drop 80 ptr))))"

definition no_extras :: index_extras where
  "no_extras = \<lparr>ix_residency_table = no_location, ix_uuid = replicate 16 0, ix_version_flags = 0\<rparr>"

lemma length_enc_index_locations [simp]: "length (enc_index_locations l) = 80"
  by (simp add: enc_index_locations_def struct_codec_simps)

lemma dec_enc_index_locations [simp]: "dec_index_locations (enc_index_locations l) = l"
  by (simp add: enc_index_locations_def dec_index_locations_def struct_codec_simps)

lemma le_nat_zeros: "le_nat (replicate n 0) = 0"
  by (induction n) simp_all

lemma bytes_word_zeros [simp]: "bytes_word (replicate n 0) = 0"
  by (simp add: bytes_word_def le_nat_zeros)

text \<open>The index block written with or without the extras region is read back unchanged: a block of
  a writer that knows no extras reads as no residency table, no uuid and version 0, and the magic
  of the format's old name is accepted.\<close>

theorem index_roundtrip:
  assumes "length (ix_uuid e) = 16"
  shows "deserialize_index (serialize_index k_serialized_index_size l (Some e)) = Inr (l, e) \<and>
    deserialize_index (serialize_index k_serialized_index_size l None) = Inr (l, no_extras) \<and>
    deserialize_index (index_magic_legacy_jlp @ drop 4 (serialize_index k_serialized_index_size l (Some e))) =
      Inr (l, e)"
proof -
  have magic: "length index_magic = 4" "length index_magic_legacy_jlp = 4"
    by (simp_all add: index_magic_def index_magic_legacy_jlp_def)
  have e: "length (enc_index_extras e) = 36" "dec_index_extras (enc_index_extras e @ r) = e" for r
    using assms by (simp_all add: enc_index_extras_def dec_index_extras_def struct_codec_simps)
  have z: "dec_index_extras (replicate 44 0) = no_extras"
    by (simp add: dec_index_extras_def dec_location_def no_extras_def no_location_def)
  have some: "serialize_index k_serialized_index_size l (Some e) =
      index_magic @ enc_index_locations l @ enc_index_extras e @ replicate 8 0"
    by (simp add: serialize_index_def Let_def magic e k_serialized_index_size_def)
  have none: "serialize_index k_serialized_index_size l None = index_magic @ enc_index_locations l @ replicate 44 0"
    by (simp add: serialize_index_def Let_def magic k_serialized_index_size_def)
  show ?thesis
    unfolding some none by (simp add: deserialize_index_def magic e z)
qed

section \<open>Examples\<close>

theorem root_manifest_roundtrip_witness:
  "\<exists>data. serialize_root_manifest
       \<lparr>rm_version = 1, rm_uuid = replicate 16 7, rm_complete = 1, rm_band_count = 2, rm_next_object_id = 9,
        rm_attribute_configs = no_location, rm_tree_registry = no_location,
        rm_compression_stats = no_location, rm_perf_stats = no_location\<rparr> = Some data \<and>
     length data = k_root_manifest_size"
  using root_manifest_roundtrip [of "\<lparr>rm_version = 1, rm_uuid = replicate 16 7, rm_complete = 1, rm_band_count = 2,
        rm_next_object_id = 9, rm_attribute_configs = no_location, rm_tree_registry = no_location,
        rm_compression_stats = no_location, rm_perf_stats = no_location\<rparr>"] by auto

definition example_band :: band_manifest where
  "example_band = \<lparr>bm_band_id = 3, bm_uuid = replicate 16 7, bm_watermark = M192 1 2 3, bm_first_object_id = 4,
     bm_next_object_id = 9, bm_trees = [\<lparr>bt_tree_id = 5, bt_pad = 0, bt_location = no_location\<rparr>],
     bm_blobs = [], bm_attributes_snapshot = [1, 2, 3]\<rparr>"

theorem band_manifest_roundtrip_witness:
  "deserialize_band_manifest (serialize_band_manifest example_band) = Inr example_band"
  by (rule band_manifest_roundtrip) (simp_all add: example_band_def)

theorem index_roundtrip_witness:
  "deserialize_index (serialize_index k_serialized_index_size
       \<lparr>il_free_blobs = no_location, il_attribute_configs = no_location, il_tree_registry = no_location,
        il_compression_stats = no_location, il_perf_stats = no_location\<rparr> None) =
     Inr (\<lparr>il_free_blobs = no_location, il_attribute_configs = no_location, il_tree_registry = no_location,
        il_compression_stats = no_location, il_perf_stats = no_location\<rparr>, no_extras)"
  using index_roundtrip [of no_extras] by (simp add: no_extras_def)

end
