(* ===== verification/StorageMap.thy ===== *)
theory StorageMap
  imports Manifests "HOL-Library.Multiset"
begin

text \<open>
  \<open>src/src/core/input_storage_map.hpp/.cpp\<close>: the reference-counted table from an input unit to the
  blobs that hold its attributes, with the list of blobs that the next checkpoint may free. The
  hash map is a partial function; the order in which it is iterated is a parameter \<open>ids\<close> of the
  operations that iterate it. The reference counts are 32-bit and wrap. The functions are those
  of a build without assertions: \<open>_map[id]\<close> of an unknown id creates an empty entry, \<open>_map.at(id)\<close>
  of one throws, here \<open>None\<close>. The lemmas state the contract of the table: what it holds, what it
  has discarded and what it has handed out are together exactly the blobs it was given, and an
  entry is present as long as references remain.
\<close>

section \<open>The table\<close>

record storage_value =
  sv_attributes_id :: attributes_id
  sv_storage :: "storage_location list"
  sv_ref_count :: u32

record input_storage_map =
  sm_map :: "input_data_id \<rightharpoonup> storage_value"
  sm_discarded :: "storage_location list"

definition new_storage_map :: input_storage_map where
  "new_storage_map = \<lparr>sm_map = Map.empty, sm_discarded = []\<rparr>"

definition value_at :: "input_storage_map \<Rightarrow> input_data_id \<Rightarrow> storage_value" where
  "value_at m i = (case sm_map m i of Some v \<Rightarrow> v
     | None \<Rightarrow> \<lparr>sv_attributes_id = 0, sv_storage = [], sv_ref_count = 0\<rparr>)"

definition stored_locations :: "storage_location list \<Rightarrow> storage_location list" where
  "stored_locations ls = filter (\<lambda>l. loc_size l \<noteq> 0) ls"

definition add_storage :: "input_data_id \<Rightarrow> attributes_id \<Rightarrow> storage_location list \<Rightarrow>
    input_storage_map \<Rightarrow> input_storage_map" where
  "add_storage i a storage m =
     (let replacing = (sm_map m i \<noteq> None);
          v = value_at m i;
          v' = v\<lparr>sv_attributes_id := a, sv_storage := storage,
                 sv_ref_count := (if replacing then sv_ref_count v else sv_ref_count v + 1)\<rparr>
      in m\<lparr>sm_map := (sm_map m)(i \<mapsto> v'),
           sm_discarded := sm_discarded m @ stored_locations (sv_storage v)\<rparr>)"

definition append_storage :: "input_data_id \<Rightarrow> attributes_id \<Rightarrow> storage_location list \<Rightarrow>
    input_storage_map \<Rightarrow> input_storage_map" where
  "append_storage i a extra m =
     (case sm_map m i of
        None \<Rightarrow> m
      | Some v \<Rightarrow> m\<lparr>sm_map := (sm_map m)(i \<mapsto> v\<lparr>sv_attributes_id := a, sv_storage := sv_storage v @ extra\<rparr>)\<rparr>)"

definition dereference_discard :: "input_data_id \<Rightarrow> input_storage_map \<Rightarrow> input_storage_map" where
  "dereference_discard i m =
     (let v = value_at m i; n = sv_ref_count v - 1
      in if n = 0
         then m\<lparr>sm_map := (sm_map m)(i := None), sm_discarded := sm_discarded m @ stored_locations (sv_storage v)\<rparr>
         else m\<lparr>sm_map := (sm_map m)(i \<mapsto> v\<lparr>sv_ref_count := n\<rparr>)\<rparr>)"

definition dereference :: "input_data_id \<Rightarrow> input_storage_map \<Rightarrow>
    (attributes_id \<times> storage_location list) \<times> input_storage_map" where
  "dereference i m =
     (let v = value_at m i; n = sv_ref_count v - 1
      in ((sv_attributes_id v, sv_storage v),
          m\<lparr>sm_map := (if n = 0 then (sm_map m)(i := None) else (sm_map m)(i \<mapsto> v\<lparr>sv_ref_count := n\<rparr>))\<rparr>))"

definition info :: "input_data_id \<Rightarrow> input_storage_map \<Rightarrow> (attributes_id \<times> storage_location list) option" where
  "info i m = map_option (\<lambda>v. (sv_attributes_id v, sv_storage v)) (sm_map m i)"

definition location :: "input_data_id \<Rightarrow> nat \<Rightarrow> input_storage_map \<Rightarrow> storage_location option" where
  "location i k m =
     (case sm_map m i of
        None \<Rightarrow> None
      | Some v \<Rightarrow> if k < length (sv_storage v) then Some (sv_storage v ! k) else None)"

definition add_ref :: "input_data_id \<Rightarrow> input_storage_map \<Rightarrow> input_storage_map" where
  "add_ref i m =
     (let v = value_at m i in m\<lparr>sm_map := (sm_map m)(i \<mapsto> v\<lparr>sv_ref_count := sv_ref_count v + 1\<rparr>)\<rparr>)"

definition attribute_id :: "input_data_id \<Rightarrow> input_storage_map \<Rightarrow> attributes_id option" where
  "attribute_id i m = map_option sv_attributes_id (sm_map m i)"

definition contains :: "input_data_id \<Rightarrow> input_storage_map \<Rightarrow> bool" where
  "contains i m \<longleftrightarrow> sm_map m i \<noteq> None"

definition ref_count :: "input_data_id \<Rightarrow> input_storage_map \<Rightarrow> u32" where
  "ref_count i m = (case sm_map m i of None \<Rightarrow> 0 | Some v \<Rightarrow> sv_ref_count v)"

definition remap_storage :: "(storage_location list \<Rightarrow> storage_location list) \<Rightarrow> input_storage_map \<Rightarrow> input_storage_map" where
  "remap_storage f m = m\<lparr>sm_map := (\<lambda>i. map_option (\<lambda>v. v\<lparr>sv_storage := f (sv_storage v)\<rparr>) (sm_map m i))\<rparr>"

definition take_discarded :: "input_storage_map \<Rightarrow> storage_location list \<times> input_storage_map" where
  "take_discarded m = (sm_discarded m, m\<lparr>sm_discarded := []\<rparr>)"

definition restore_discarded :: "storage_location list \<Rightarrow> input_storage_map \<Rightarrow> input_storage_map" where
  "restore_discarded ls m =
     m\<lparr>sm_discarded := (if sm_discarded m = [] then ls else sm_discarded m @ ls)\<rparr>"

text \<open>The destructor of \<open>deref_on_destruct_t\<close>: the ids in the order they were added.\<close>

definition deref_on_destruct :: "input_data_id list \<Rightarrow> input_storage_map \<Rightarrow> input_storage_map" where
  "deref_on_destruct ids m = foldl (\<lambda>s i. dereference_discard i s) m ids"

section \<open>The stored form\<close>

definition storage_map_size :: "input_data_id list \<Rightarrow> input_storage_map \<Rightarrow> u32" where
  "storage_map_size ids m =
     foldl (\<lambda>sz i. sz + 8 + 4 + 4 + 4 + word_of_nat (length (sv_storage (value_at m i))) * 16) 4 ids"

definition write_entry :: "input_data_id \<Rightarrow> storage_value \<Rightarrow> wcursor \<Rightarrow> wcursor option" where
  "write_entry i v c =
     Option.bind (write_memory (enc_id i) c) (\<lambda>c.
     Option.bind (write_memory (word_bytes (sv_attributes_id v)) c) (\<lambda>c.
     Option.bind (write_memory (word_bytes (sv_ref_count v)) c) (\<lambda>c.
     Option.bind (write_memory (word_bytes (word_of_nat (length (sv_storage v)) :: u32)) c) (\<lambda>c.
     write_vec_type (map enc_location (sv_storage v)) c))))"

fun write_entries :: "input_data_id list \<Rightarrow> input_storage_map \<Rightarrow> wcursor \<Rightarrow> wcursor option" where
  "write_entries [] m c = Some c"
| "write_entries (i # ids) m c =
     Option.bind (write_entry i (value_at m i) c) (\<lambda>c. write_entries ids m c)"

definition serialize_storage_map :: "input_data_id list \<Rightarrow> input_storage_map \<Rightarrow> wcursor \<Rightarrow> wcursor option" where
  "serialize_storage_map ids m c =
     Option.bind (write_memory (word_bytes (word_of_nat (length ids) :: u32)) c) (\<lambda>c. write_entries ids m c)"

definition read_entry :: "bytes \<Rightarrow> ((input_data_id \<times> storage_value) \<times> bytes) option" where
  "read_entry p =
     Option.bind (read_memory 8 dec_id p) (\<lambda>(i, p).
     Option.bind (read_memory 4 bytes_word p) (\<lambda>(a, p).
     Option.bind (read_memory 4 bytes_word p) (\<lambda>(r, p).
     Option.bind (read_memory 4 bytes_word p) (\<lambda>(k :: u32, p).
     Option.bind (read_vec_type 16 dec_location (unat k) p) (\<lambda>(ls, p).
     Some ((i, \<lparr>sv_attributes_id = a, sv_storage = ls, sv_ref_count = r\<rparr>), p))))))"

fun read_entries :: "nat \<Rightarrow> input_storage_map \<Rightarrow> bytes \<Rightarrow> (input_storage_map \<times> bytes) option" where
  "read_entries 0 m p = Some (m, p)"
| "read_entries (Suc n) m p =
     (case read_entry p of
        None \<Rightarrow> None
      | Some ((i, v), p') \<Rightarrow> read_entries n (m\<lparr>sm_map := (sm_map m)(i \<mapsto> v)\<rparr>) p')"

definition deserialize_storage_map :: "bytes \<Rightarrow> input_storage_map \<Rightarrow> (input_storage_map \<times> bytes) option" where
  "deserialize_storage_map p m =
     Option.bind (read_memory 4 bytes_word p) (\<lambda>(n :: u32, p). read_entries (unat n) m p)"


section \<open>The table and the references\<close>

text \<open>What the table still holds, as a multiset of the locations with a nonzero size.\<close>

definition value_blobs :: "storage_value \<Rightarrow> storage_location multiset" where
  "value_blobs v = mset (stored_locations (sv_storage v))"

definition held :: "input_storage_map \<Rightarrow> storage_location multiset" where
  "held m = (\<Sum>i\<in>dom (sm_map m). value_blobs (value_at m i))"

text \<open>
  A life of the table: \<open>refs\<close> counts the references the callers hold on each unit, \<open>added\<close> collects
  every blob the table was given, \<open>given\<close> every blob it handed out. The callers respect the
  assertions of the code and keep fewer than 2^32 references.
\<close>

inductive map_history :: "input_storage_map \<Rightarrow> (input_data_id \<Rightarrow> nat) \<Rightarrow>
    storage_location multiset \<Rightarrow> storage_location multiset \<Rightarrow> bool" where
  start: "map_history new_storage_map (\<lambda>i. 0) {#} {#}"
| add: "map_history m refs added given \<Longrightarrow> storage \<noteq> [] \<Longrightarrow>
    map_history (add_storage i a storage m) (refs(i := max 1 (refs i)))
      (added + mset (stored_locations storage)) given"
| append: "map_history m refs added given \<Longrightarrow> 0 < refs i \<Longrightarrow> extra \<noteq> [] \<Longrightarrow>
    map_history (append_storage i a extra m) refs (added + mset (stored_locations extra)) given"
| ref: "map_history m refs added given \<Longrightarrow> 0 < refs i \<Longrightarrow> refs i + 1 < 2 ^ 32 \<Longrightarrow>
    map_history (add_ref i m) (refs(i := refs i + 1)) added given"
| discard: "map_history m refs added given \<Longrightarrow> 0 < refs i \<Longrightarrow>
    map_history (dereference_discard i m) (refs(i := refs i - 1)) added given"
| deref: "map_history m refs added given \<Longrightarrow> 0 < refs i \<Longrightarrow> dereference i m = ((a, ls), m') \<Longrightarrow>
    map_history m' (refs(i := refs i - 1)) added
      (if refs i = 1 then given + mset (stored_locations ls) else given)"
| drain: "map_history m refs added given \<Longrightarrow> take_discarded m = (ls, m') \<Longrightarrow>
    map_history m' refs added (given + mset ls)"
| give_back: "map_history m refs added given \<Longrightarrow> mset ls \<subseteq># given \<Longrightarrow>
    map_history (restore_discarded ls m) refs added (given - mset ls)"

definition refs_ok :: "input_storage_map \<Rightarrow> (input_data_id \<Rightarrow> nat) \<Rightarrow> bool" where
  "refs_ok m refs \<longleftrightarrow> finite (dom (sm_map m)) \<and>
     (\<forall>i. refs i < 2 ^ 32 \<and> (contains i m \<longleftrightarrow> 0 < refs i) \<and> unat (ref_count i m) = refs i)"

lemma refs_ok_finite: "refs_ok m refs \<Longrightarrow> finite (dom (sm_map m))"
  by (simp add: refs_ok_def)

lemma refs_okD:
  assumes "refs_ok m refs"
  shows "refs i < 2 ^ 32" and "sm_map m i \<noteq> None \<longleftrightarrow> 0 < refs i"
    and "unat (sv_ref_count (value_at m i)) = refs i"
proof -
  show "refs i < 2 ^ 32" and c: "sm_map m i \<noteq> None \<longleftrightarrow> 0 < refs i"
    using assms by (simp_all add: refs_ok_def contains_def)
  have "sv_ref_count (value_at m i) = ref_count i m"
    by (simp add: value_at_def ref_count_def split: option.splits)
  then show "unat (sv_ref_count (value_at m i)) = refs i"
    using assms by (simp add: refs_ok_def)
qed

lemma refs_ok_other:
  assumes "refs_ok m refs"
    and "\<And>k. k \<noteq> i \<Longrightarrow> sm_map m' k = sm_map m k" and "\<And>k. k \<noteq> i \<Longrightarrow> refs' k = refs k"
    and "refs' i < 2 ^ 32" and "contains i m' \<longleftrightarrow> 0 < refs' i" and "unat (ref_count i m') = refs' i"
  shows "refs_ok m' refs'"
proof -
  have "dom (sm_map m') \<subseteq> insert i (dom (sm_map m))"
    using assms(2) by (metis domIff insertCI subsetI)
  then have "finite (dom (sm_map m'))"
    using refs_ok_finite [OF assms(1)] by (meson finite_insert finite_subset)
  moreover have "refs' k < 2 ^ 32 \<and> (contains k m' \<longleftrightarrow> 0 < refs' k) \<and> unat (ref_count k m') = refs' k" for k
  proof (cases "k = i")
    case True
    then show ?thesis using assms by simp
  next
    case False
    then show ?thesis
      using assms(1,2,3) by (simp add: refs_ok_def contains_def ref_count_def)
  qed
  ultimately show ?thesis by (simp add: refs_ok_def)
qed

lemma unat_dec: "unat (w :: u32) = n \<Longrightarrow> 0 < n \<Longrightarrow> unat (w - 1) = n - 1"
  by (metis less_numeral_extra(3) unat_minus_one unsigned_0)

lemma unat_plus_one_u32: "unat (w :: u32) = n \<Longrightarrow> n + 1 < 2 ^ 32 \<Longrightarrow> unat (w + 1) = n + 1"
  by (simp add: unat_word_ariths)

lemma refs_ok_add:
  assumes "refs_ok m refs"
  shows "refs_ok (add_storage i a storage m) (refs(i := max 1 (refs i)))"
proof (rule refs_ok_other [OF assms, of i])
  note d = refs_okD [OF assms, of i]
  show "unat (ref_count i (add_storage i a storage m)) = (refs(i := max 1 (refs i))) i"
    using d unat_plus_one_u32 [OF d(3)] by (auto simp: add_storage_def Let_def ref_count_def)
qed (use refs_okD [OF assms, of i] in \<open>auto simp: add_storage_def Let_def contains_def\<close>)

lemma refs_ok_append:
  assumes "refs_ok m refs" and "0 < refs i"
  shows "refs_ok (append_storage i a extra m) refs"
proof (rule refs_ok_other [OF assms(1), of i])
  show "unat (ref_count i (append_storage i a extra m)) = refs i"
    using refs_okD [OF assms(1), of i] assms(2)
    by (auto simp: append_storage_def ref_count_def value_at_def split: option.splits)
qed (use refs_okD [OF assms(1), of i] assms(2) in \<open>auto simp: append_storage_def contains_def split: option.splits\<close>)

lemma refs_ok_ref:
  assumes "refs_ok m refs" and "0 < refs i" and "refs i + 1 < 2 ^ 32"
  shows "refs_ok (add_ref i m) (refs(i := refs i + 1))"
proof (rule refs_ok_other [OF assms(1), of i])
  show "unat (ref_count i (add_ref i m)) = (refs(i := refs i + 1)) i"
    using unat_plus_one_u32 [OF refs_okD(3) [OF assms(1), of i] assms(3)]
    by (simp add: add_ref_def Let_def ref_count_def)
qed (use assms in \<open>auto simp: add_ref_def Let_def contains_def\<close>)

text \<open>Both ways of dropping a reference do the same to the table.\<close>

lemma dereference_table:
  "sm_map (snd (dereference i m)) = sm_map (dereference_discard i m)"
  by (simp add: dereference_def dereference_discard_def Let_def)

lemma refs_ok_drop:
  assumes "refs_ok m refs" and "0 < refs i" and "sm_map m' = sm_map (dereference_discard i m)"
  shows "refs_ok m' (refs(i := refs i - 1))"
proof (rule refs_ok_other [OF assms(1), of i])
  note n = unat_dec [OF refs_okD(3) [OF assms(1), of i] assms(2)]
  have z: "sv_ref_count (value_at m i) - 1 = 0 \<longleftrightarrow> refs i = 1"
    using n assms(2) by (auto simp: unat_eq_zero [symmetric] simp del: unat_eq_zero)
  show "unat (ref_count i m') = (refs(i := refs i - 1)) i"
    using n z assms by (auto simp: dereference_discard_def Let_def ref_count_def)
  show "contains i m' = (0 < (refs(i := refs i - 1)) i)"
    using z assms by (auto simp: dereference_discard_def Let_def contains_def)
  show "(refs(i := refs i - 1)) i < 2 ^ 32" using refs_okD(1) [OF assms(1), of i] by simp
qed (use assms in \<open>auto simp: dereference_discard_def Let_def\<close>)

lemma refs_ok_cong: "refs_ok m refs \<Longrightarrow> sm_map m' = sm_map m \<Longrightarrow> refs_ok m' refs"
  by (simp add: refs_ok_def contains_def ref_count_def)

lemma history_refs_ok: "map_history m refs added given \<Longrightarrow> refs_ok m refs"
proof (induction rule: map_history.induct)
  case start
  then show ?case by (simp add: refs_ok_def new_storage_map_def contains_def ref_count_def)
next
  case (add m refs added given storage i a)
  show ?case by (rule refs_ok_add [OF add.IH])
next
  case (append m refs added given i extra a)
  show ?case by (rule refs_ok_append) fact+
next
  case (ref m refs added given i)
  show ?case by (rule refs_ok_ref) fact+
next
  case (discard m refs added given i)
  show ?case by (rule refs_ok_drop [OF discard.IH discard.hyps(2)]) simp
next
  case (deref m refs added given i a ls m')
  show ?case
    by (rule refs_ok_drop [OF deref.IH deref.hyps(2)]) (use deref.hyps(3) dereference_table [of i m] in simp)
next
  case (drain m refs added given ls m')
  show ?case by (rule refs_ok_cong [OF drain.IH]) (use drain.hyps in \<open>auto simp: take_discarded_def\<close>)
next
  case (give_back m refs added given ls)
  show ?case by (rule refs_ok_cong [OF give_back.IH]) (simp add: restore_discarded_def)
qed

section \<open>Nothing is lost\<close>

definition held_elsewhere :: "input_data_id \<Rightarrow> input_storage_map \<Rightarrow> storage_location multiset" where
  "held_elsewhere i m = (\<Sum>k\<in>dom (sm_map m) - {i}. value_blobs (value_at m k))"

lemma value_blobs_absent [simp]: "sm_map m i = None \<Longrightarrow> value_blobs (value_at m i) = {#}"
  by (simp add: value_at_def value_blobs_def stored_locations_def)

lemma held_split:
  assumes "finite (dom (sm_map m))"
  shows "held m = value_blobs (value_at m i) + held_elsewhere i m"
proof (cases "i \<in> dom (sm_map m)")
  case True
  then show ?thesis
    unfolding held_def held_elsewhere_def using assms by (rule sum.remove [rotated])
next
  case False
  then have "sm_map m i = None" and "dom (sm_map m) - {i} = dom (sm_map m)" by auto
  then show ?thesis by (simp add: held_def held_elsewhere_def)
qed

lemma held_elsewhere_cong:
  assumes "\<And>k. k \<noteq> i \<Longrightarrow> sm_map m' k = sm_map m k"
  shows "held_elsewhere i m' = held_elsewhere i m"
proof -
  have "dom (sm_map m') - {i} = dom (sm_map m) - {i}"
    using assms by (auto simp: dom_def)
  then show ?thesis
    unfolding held_elsewhere_def by (intro sum.cong) (auto simp: value_at_def assms)
qed

text \<open>What the table holds or has set aside, entry \<open>i\<close> apart from the others.\<close>

definition kept :: "input_storage_map \<Rightarrow> storage_location multiset" where
  "kept m = held m + mset (sm_discarded m)"

lemma kept_step:
  assumes "refs_ok m refs" and "refs_ok m' refs'"
    and "\<And>k. k \<noteq> i \<Longrightarrow> sm_map m' k = sm_map m k"
    and "value_blobs (value_at m' i) + mset (sm_discarded m') + out =
         value_blobs (value_at m i) + mset (sm_discarded m) + new"
  shows "kept m' + out = kept m + new"
proof -
  have "held m = value_blobs (value_at m i) + held_elsewhere i m"
    by (rule held_split [OF refs_ok_finite [OF assms(1)]])
  moreover have "held m' = value_blobs (value_at m' i) + held_elsewhere i m"
    using held_split [OF refs_ok_finite [OF assms(2)], of i] held_elsewhere_cong [of i m' m, OF assms(3)] by simp
  ultimately show ?thesis
    using assms(4) by (simp add: kept_def ac_simps)
qed

lemma stored_append [simp]: "stored_locations (xs @ ys) = stored_locations xs @ stored_locations ys"
  by (simp add: stored_locations_def)

lemma stored_Nil [simp]: "stored_locations [] = []"
  by (simp add: stored_locations_def)

lemma value_at_updated [simp]: "sm_map m i = Some v \<Longrightarrow> value_at m i = v"
  by (simp add: value_at_def)

lemma value_at_absent [simp]: "sm_map m i = None \<Longrightarrow> sv_storage (value_at m i) = []"
  by (simp add: value_at_def)

lemma last_reference:
  assumes "refs_ok m refs" and "0 < refs i"
  shows "sv_ref_count (value_at m i) - 1 = 0 \<longleftrightarrow> refs i = 1"
  using unat_dec [OF refs_okD(3) [OF assms(1), of i] assms(2)] assms(2)
  by (auto simp: unat_eq_zero [symmetric] simp del: unat_eq_zero)

lemma kept_add:
  assumes "refs_ok m refs"
  shows "kept (add_storage i a storage m) = kept m + mset (stored_locations storage)"
  using kept_step [OF assms refs_ok_add [OF assms, of i a storage], of i "{#}" "mset (stored_locations storage)"]
  by (simp add: add_storage_def Let_def value_at_def value_blobs_def)

lemma kept_append:
  assumes "refs_ok m refs" and "0 < refs i"
  shows "kept (append_storage i a extra m) = kept m + mset (stored_locations extra)"
proof -
  obtain v where "sm_map m i = Some v" using refs_okD(2) [OF assms(1), of i] assms(2) by auto
  then show ?thesis
    using kept_step [OF assms(1) refs_ok_append [OF assms, of a extra], of i "{#}" "mset (stored_locations extra)"]
    by (simp add: append_storage_def value_at_def value_blobs_def)
qed

lemma kept_ref:
  assumes "refs_ok m refs" and "0 < refs i" and "refs i + 1 < 2 ^ 32"
  shows "kept (add_ref i m) = kept m"
proof -
  have "value_blobs (value_at (add_ref i m) i) = value_blobs (value_at m i)"
    by (simp add: add_ref_def Let_def value_at_def value_blobs_def)
  then show ?thesis
    using kept_step [OF assms(1) refs_ok_ref [OF assms], of i "{#}" "{#}"]
    by (simp add: add_ref_def Let_def)
qed

lemma kept_discard:
  assumes "refs_ok m refs" and "0 < refs i"
  shows "kept (dereference_discard i m) = kept m"
proof -
  have "value_blobs (value_at (dereference_discard i m) i) + mset (sm_discarded (dereference_discard i m)) =
      value_blobs (value_at m i) + mset (sm_discarded m)"
    by (simp add: dereference_discard_def Let_def value_blobs_def)
  then show ?thesis
    using kept_step [OF assms(1) refs_ok_drop [OF assms refl], of i "{#}" "{#}"]
    by (simp add: dereference_discard_def Let_def)
qed

lemma kept_dereference:
  assumes "refs_ok m refs" and "0 < refs i" and "dereference i m = ((a, ls), m')"
  shows "kept m' + (if refs i = 1 then mset (stored_locations ls) else {#}) = kept m"
proof -
  have t: "sm_map m' = sm_map (dereference_discard i m)" using dereference_table [of i m] assms(3) by simp
  have ls: "ls = sv_storage (value_at m i)" and d: "sm_discarded m' = sm_discarded m"
    using assms(3) by (auto simp: dereference_def Let_def)
  have "value_blobs (value_at m' i) + (if refs i = 1 then mset (stored_locations ls) else {#}) =
      value_blobs (value_at m i)"
    using t ls last_reference [OF assms(1,2)]
    by (simp add: dereference_discard_def Let_def value_blobs_def stored_locations_def)
  then show ?thesis
    using kept_step [OF assms(1) refs_ok_drop [OF assms(1,2) t], of i
        "if refs i = 1 then mset (stored_locations ls) else {#}" "{#}"] t d
    by (auto simp: dereference_discard_def Let_def ac_simps)
qed

lemma history_conserves:
  "map_history m refs added given \<Longrightarrow> kept m + given = added"
proof (induction rule: map_history.induct)
  case start
  then show ?case by (simp add: kept_def held_def new_storage_map_def)
next
  case (add m refs added given storage i a)
  then show ?case using kept_add [OF history_refs_ok [OF add.hyps(1)], of i a storage] by simp
next
  case (append m refs added given i extra a)
  then show ?case using kept_append [OF history_refs_ok [OF append.hyps(1)], of i a extra] by simp
next
  case (ref m refs added given i)
  then show ?case using kept_ref [OF history_refs_ok [OF ref.hyps(1)], of i] by simp
next
  case (discard m refs added given i)
  then show ?case using kept_discard [OF history_refs_ok [OF discard.hyps(1)], of i] by simp
next
  case (deref m refs added given i a ls m')
  then show ?case using kept_dereference [OF history_refs_ok [OF deref.hyps(1)], of i a ls m']
    by (auto split: if_splits)
next
  case (drain m refs added given ls m')
  then show ?case by (auto simp: take_discarded_def kept_def held_def value_at_def)
next
  case (give_back m refs added given ls)
  have "kept (restore_discarded ls m) = kept m + mset ls"
    by (simp add: restore_discarded_def kept_def held_def value_at_def)
  moreover have "given = mset ls + (given - mset ls)"
    using give_back.hyps(2) by simp
  ultimately show ?case using give_back.IH by (metis add.assoc)
qed

text \<open>C5: Over every life of the table no blob is lost or freed twice: the blobs its entries hold, the
  discarded ones waiting for a checkpoint and the ones handed out are together, with their
  multiplicities, exactly the blobs it was given.\<close>

theorem storage_map_conserves:
  assumes "map_history m refs added given"
  shows "held m + mset (sm_discarded m) + given = added"
  using history_conserves [OF assms] by (simp add: kept_def)

text \<open>C6: The table has an entry for exactly the units somebody still references, its count is the number
  of references, and describing a unit again (replacing its blobs) does not add one: the
  references that existed before drop the entry.\<close>

theorem storage_map_references:
  assumes "map_history m refs added given"
  shows "(contains i m \<longleftrightarrow> 0 < refs i) \<and> unat (ref_count i m) = refs i \<and>
    unat (ref_count i (add_storage i a storage m)) = max 1 (refs i) \<and>
    (contains i (dereference_discard i (add_storage i a storage m)) \<longleftrightarrow> 1 < refs i)"
proof -
  note ok = history_refs_ok [OF assms]
  note added = refs_ok_add [OF ok, of i a storage]
  have "refs_ok (dereference_discard i (add_storage i a storage m))
      ((refs(i := max 1 (refs i)))(i := (refs(i := max 1 (refs i))) i - 1))"
    by (rule refs_ok_drop [OF added _ refl]) simp
  then have "contains i (dereference_discard i (add_storage i a storage m)) \<longleftrightarrow> 1 < refs i"
    by (simp add: refs_ok_def) linarith
  moreover have "unat (ref_count i (add_storage i a storage m)) = max 1 (refs i)"
    using added by (simp add: refs_ok_def)
  ultimately show ?thesis
    using ok by (simp add: refs_ok_def)
qed

section \<open>Serialization\<close>

definition entry_fields :: "input_data_id \<Rightarrow> storage_value \<Rightarrow> bytes list" where
  "entry_fields i v =
     [enc_id i, word_bytes (sv_attributes_id v), word_bytes (sv_ref_count v),
      word_bytes (word_of_nat (length (sv_storage v)) :: u32), concat (map enc_location (sv_storage v))]"

lemma write_entry_seq: "write_entry i v c = write_seq (entry_fields i v) c"
  unfolding write_entry_def entry_fields_def write_vec_concat
  by (simp add: Option.bind_def split: option.splits)

lemma write_entries_seq:
  "write_entries ids m c = write_seq (concat (map (\<lambda>i. entry_fields i (value_at m i)) ids)) c"
proof (induction ids arbitrary: c)
  case Nil
  then show ?case by simp
next
  case (Cons i ids)
  have "write_entries ids m = write_seq (concat (map (\<lambda>i. entry_fields i (value_at m i)) ids))"
    by (rule ext) (rule Cons.IH)
  then show ?case by (simp add: write_entry_seq write_seq_append)
qed

definition map_fields :: "input_data_id list \<Rightarrow> input_storage_map \<Rightarrow> bytes list" where
  "map_fields ids m = word_bytes (word_of_nat (length ids) :: u32) #
     concat (map (\<lambda>i. entry_fields i (value_at m i)) ids)"

lemma serialize_storage_map_seq: "serialize_storage_map ids m c = write_seq (map_fields ids m) c"
  unfolding serialize_storage_map_def map_fields_def write_entries_seq bind_write_seq ..

text \<open>The size the code computes, without the wrap-around.\<close>

definition map_bytes :: "input_data_id list \<Rightarrow> input_storage_map \<Rightarrow> nat" where
  "map_bytes ids m = 4 + (\<Sum>i\<leftarrow>ids. 20 + 16 * length (sv_storage (value_at m i)))"

lemma length_entry_fields: "length (concat (entry_fields i v)) = 20 + 16 * length (sv_storage v)"
  by (simp add: entry_fields_def struct_codec_simps)

lemma length_map_fields: "length (concat (map_fields ids m)) = map_bytes ids m"
proof -
  have "length (concat (concat (map (\<lambda>i. entry_fields i (value_at m i)) ids))) =
      (\<Sum>i\<leftarrow>ids. 20 + 16 * length (sv_storage (value_at m i)))"
    by (induction ids) (simp_all add: length_entry_fields [unfolded length_concat] length_concat)
  then show ?thesis by (simp add: map_fields_def map_bytes_def)
qed

lemma storage_map_size_bytes: "storage_map_size ids m = word_of_nat (map_bytes ids m)"
proof -
  have "foldl (\<lambda>sz i. sz + 8 + 4 + 4 + 4 + word_of_nat (length (sv_storage (value_at m i))) * 16) (a :: u32) ids =
      a + word_of_nat (\<Sum>i\<leftarrow>ids. 20 + 16 * length (sv_storage (value_at m i)))" for a
    by (induction ids arbitrary: a) (simp_all add: algebra_simps)
  then show ?thesis by (simp add: storage_map_size_def map_bytes_def)
qed

lemma read_entry_written:
  assumes "length (sv_storage v) < 2 ^ 32"
  shows "read_entry (concat (entry_fields i v) @ r) = Some ((i, v), r)"
  using assms by (simp add: read_entry_def entry_fields_def struct_codec_simps word_codec_simps unat_of_nat)

lemma read_entries_written:
  assumes "\<And>i. i \<in> set ids \<Longrightarrow> length (sv_storage (value_at m i)) < 2 ^ 32"
  shows "read_entries (length ids) n (concat (concat (map (\<lambda>i. entry_fields i (value_at m i)) ids)) @ r) =
    Some (n\<lparr>sm_map := (\<lambda>i. if i \<in> set ids then Some (value_at m i) else sm_map n i)\<rparr>, r)"
  using assms
proof (induction ids arbitrary: n)
  case Nil
  then show ?case by simp
next
  case (Cons i ids)
  have upd: "(\<lambda>k. if k \<in> set ids then Some (value_at m k) else if k = i then Some (value_at m i) else sm_map n k) =
      (\<lambda>k. if k = i \<or> k \<in> set ids then Some (value_at m k) else sm_map n k)"
    by auto
  have "read_entry (concat (entry_fields i (value_at m i)) @
      concat (concat (map (\<lambda>i. entry_fields i (value_at m i)) ids)) @ r) =
      Some ((i, value_at m i), concat (concat (map (\<lambda>i. entry_fields i (value_at m i)) ids)) @ r)"
    by (rule read_entry_written) (rule Cons.prems, simp)
  then show ?case
    using Cons.IH [of "n\<lparr>sm_map := (sm_map n)(i \<mapsto> value_at m i)\<rparr>", OF Cons.prems]
    by (simp add: upd cong: if_cong)
qed

lemma map_bytes_bounds:
  assumes "map_bytes ids m < b"
  shows "length ids < b" and "i \<in> set ids \<Longrightarrow> length (sv_storage (value_at m i)) < b"
proof -
  have "length ids \<le> (\<Sum>i\<leftarrow>ids. 20 + 16 * length (sv_storage (value_at m i)))"
    by (induction ids) simp_all
  then show "length ids < b" using assms by (simp add: map_bytes_def)
  assume "i \<in> set ids"
  then have "20 + 16 * length (sv_storage (value_at m i)) \<le> (\<Sum>i\<leftarrow>ids. 20 + 16 * length (sv_storage (value_at m i)))"
    by (intro member_le_sum_list) auto
  then show "length (sv_storage (value_at m i)) < b" using assms by (simp add: map_bytes_def)
qed

lemma read_map_written:
  assumes "set ids = dom (sm_map m)" and "map_bytes ids m < 2 ^ 32"
  shows "deserialize_storage_map (concat (map_fields ids m) @ rest) new_storage_map =
    Some (m\<lparr>sm_discarded := []\<rparr>, rest)"
proof -
  have "(\<lambda>i. if i \<in> set ids then Some (value_at m i) else None) = sm_map m"
  proof
    fix i
    show "(if i \<in> set ids then Some (value_at m i) else None) = sm_map m i"
      by (cases "sm_map m i") (simp_all add: assms(1) domIff value_at_def)
  qed
  moreover have "new_storage_map\<lparr>sm_map := f\<rparr> = m\<lparr>sm_map := f, sm_discarded := []\<rparr>" for f
    by (simp add: new_storage_map_def)
  moreover have "sm_map new_storage_map = Map.empty" by (simp add: new_storage_map_def)
  ultimately have "read_entries (length ids) new_storage_map
      (concat (concat (map (\<lambda>i. entry_fields i (value_at m i)) ids)) @ rest) = Some (m\<lparr>sm_discarded := []\<rparr>, rest)"
    using read_entries_written [of ids m new_storage_map rest] map_bytes_bounds [OF assms(2)]
    by (simp cong: if_cong)
  then show ?thesis
    using map_bytes_bounds(1) [OF assms(2)]
    by (simp add: deserialize_storage_map_def map_fields_def word_codec_simps unat_of_nat)
qed

lemma storage_map_size_exact:
  "map_bytes ids m < 2 ^ 32 \<Longrightarrow> unat (storage_map_size ids m) = map_bytes ids m"
  by (simp add: storage_map_size_bytes unat_of_nat)

text \<open>In whatever order the map is iterated, a table of less than 4 GiB is written into exactly
  the number of bytes the code computes, a smaller buffer is refused, and reading the bytes into an
  empty table gives every entry back with its attributes, its locations and its reference count,
  while the discarded list is not stored.\<close>

theorem storage_map_roundtrip:
  assumes "set ids = dom (sm_map m)" and "map_bytes ids m < 2 ^ 32"
  shows "\<exists>data. map_option buffer_of (serialize_storage_map ids m (fresh (unat (storage_map_size ids m)))) = Some data \<and>
    length data = unat (storage_map_size ids m) \<and>
    deserialize_storage_map (data @ rest) new_storage_map = Some (m\<lparr>sm_discarded := []\<rparr>, rest) \<and>
    (k < length data \<longrightarrow> serialize_storage_map ids m (fresh k) = None)"
proof -
  let ?data = "concat (map_fields ids m)"
  have n: "unat (storage_map_size ids m) = length ?data"
    by (simp add: storage_map_size_exact [OF assms(2)] length_map_fields)
  have "map_option buffer_of (serialize_storage_map ids m (fresh (unat (storage_map_size ids m)))) = Some ?data"
    using write_seq_fits [of "map_fields ids m" "length ?data"] by (simp add: n serialize_storage_map_seq)
  moreover have "k < length ?data \<longrightarrow> serialize_storage_map ids m (fresh k) = None"
    by (simp add: serialize_storage_map_seq write_seq_overflow)
  ultimately show ?thesis using n read_map_written [OF assms, of rest] by auto
qed

section \<open>Examples\<close>

definition example_location :: storage_location where
  "example_location = \<lparr>file_id = 0, loc_size = 100, loc_offset = 4096\<rparr>"

definition example_unit :: input_data_id where
  "example_unit = \<lparr>id_data = 1, id_sub = 2\<rparr>"

text \<open>A unit described, described again and dropped: one blob discarded by the replacement, the other by
  the last reference.\<close>

lemma example_table_history:
  "map_history (dereference_discard example_unit (add_storage example_unit 7 [example_location]
       (add_storage example_unit 6 [example_location\<lparr>loc_offset := 0\<rparr>] new_storage_map)))
     (((\<lambda>i. 0)(example_unit := max 1 ((\<lambda>i. 0) example_unit)))
        (example_unit := max 1 (((\<lambda>i. 0)(example_unit := max 1 ((\<lambda>i. 0) example_unit))) example_unit),
         example_unit := (((\<lambda>i. 0)(example_unit := max 1 ((\<lambda>i. 0) example_unit)))
        (example_unit := max 1 (((\<lambda>i. 0)(example_unit := max 1 ((\<lambda>i. 0) example_unit))) example_unit))) example_unit - 1))
     ({#} + mset (stored_locations [example_location\<lparr>loc_offset := 0\<rparr>]) + mset (stored_locations [example_location])) {#}"
  by (intro map_history.intros) simp_all

theorem storage_map_conserves_witness:
  "mset (sm_discarded (dereference_discard example_unit (add_storage example_unit 7 [example_location]
       (add_storage example_unit 6 [example_location\<lparr>loc_offset := 0\<rparr>] new_storage_map)))) =
     {#example_location\<lparr>loc_offset := 0\<rparr>, example_location#}"
proof -
  let ?m = "dereference_discard example_unit (add_storage example_unit 7 [example_location]
       (add_storage example_unit 6 [example_location\<lparr>loc_offset := 0\<rparr>] new_storage_map))"
  have "held ?m = {#}"
    by (simp add: held_def dereference_discard_def add_storage_def Let_def value_at_def new_storage_map_def)
  then show ?thesis
    using storage_map_conserves [OF example_table_history]
    by (simp add: stored_locations_def example_location_def)
qed

theorem storage_map_references_witness:
  "\<not> contains example_unit (dereference_discard example_unit (add_storage example_unit 7 [example_location]
       (add_storage example_unit 6 [example_location\<lparr>loc_offset := 0\<rparr>] new_storage_map)))"
  using storage_map_references [OF example_table_history, of example_unit] by simp

theorem storage_map_roundtrip_witness:
  "\<exists>data. deserialize_storage_map data new_storage_map =
     Some (add_storage example_unit 7 [example_location] new_storage_map, [])"
proof -
  have "set [example_unit] = dom (sm_map (add_storage example_unit 7 [example_location] new_storage_map))"
    by (simp add: add_storage_def Let_def new_storage_map_def)
  moreover have "map_bytes [example_unit] (add_storage example_unit 7 [example_location] new_storage_map) < 2 ^ 32"
    by (simp add: map_bytes_def add_storage_def Let_def new_storage_map_def value_at_def)
  moreover have "(add_storage example_unit 7 [example_location] new_storage_map)\<lparr>sm_discarded := []\<rparr> =
      add_storage example_unit 7 [example_location] new_storage_map"
    by (simp add: add_storage_def Let_def new_storage_map_def value_at_def stored_locations_def)
  ultimately show ?thesis
    using storage_map_roundtrip [of "[example_unit]" "add_storage example_unit 7 [example_location] new_storage_map" "[]"]
    by auto
qed

end
