(* ===== verification/TreeFormat.thy ===== *)
theory TreeFormat
  imports StorageMap
begin

text \<open>
  \<open>src/src/core/tree.hpp\<close> and \<open>tree.cpp\<close>: the collections of point subsets a tree node holds, the
  tree of five levels, and their stored form. A level is the record of the four parallel vectors of
  the code, \<open>nodes[i]\<close>, \<open>skips[i]\<close>, \<open>node_ids[i]\<close> and \<open>data[i]\<close>; the signed 16-bit skips are kept as
  their 16 bits. The sizes that the code keeps in 32 bits wrap. The lemmas state what merging
  collections keeps, when a tree counts as collapsed, and that a stored tree is read back.
\<close>

section \<open>Collections of subsets\<close>

record points_collection =
  pc_count :: u64
  pc_min :: m192
  pc_max :: m192
  pc_min_lod :: u32
  pc_data :: "points_subset list"

definition m192_lod :: "m192 \<Rightarrow> m192 \<Rightarrow> u32" where
  "m192_lod a b = word_of_nat (morton_lod (m192_words a) (m192_words b))"

definition whole_unit :: "storage_header \<Rightarrow> points_subset" where
  "whole_unit h = \<lparr>ps_input = sh_input h, ps_offset = 0, ps_count = sh_count h\<rparr>"

definition points_data_initialize :: "points_collection \<Rightarrow> storage_header \<Rightarrow> points_collection" where
  "points_data_initialize c h =
     c\<lparr>pc_count := ucast (sh_count h), pc_data := pc_data c @ [whole_unit h],
       pc_max := sh_max h, pc_min := sh_min h, pc_min_lod := sh_lod_span h\<rparr>"

text \<open>The part both overloads of \<open>points_data_add\<close> share: the bounds and the level are widened.\<close>

definition widen :: "points_collection \<Rightarrow> m192 \<Rightarrow> m192 \<Rightarrow> points_collection" where
  "widen dest lo hi =
     (let mn = (if m192_lt lo (pc_min dest) then lo else pc_min dest);
          mx = (if m192_lt (pc_max dest) hi then hi else pc_max dest)
      in dest\<lparr>pc_min := mn, pc_max := mx, pc_min_lod := m192_lod mn mx\<rparr>)"

definition points_data_add :: "points_collection \<Rightarrow> points_collection \<Rightarrow> points_collection" where
  "points_data_add dest to_add =
     (if pc_count dest = 0 then to_add
      else widen (dest\<lparr>pc_data := pc_data dest @ pc_data to_add, pc_count := pc_count dest + pc_count to_add\<rparr>)
             (pc_min to_add) (pc_max to_add))"

definition points_data_add_unit :: "points_collection \<Rightarrow> storage_header \<Rightarrow> points_collection" where
  "points_data_add_unit dest h =
     (if pc_count dest = 0 then points_data_initialize dest h
      else widen (dest\<lparr>pc_data := pc_data dest @ [whole_unit h], pc_count := pc_count dest + ucast (sh_count h)\<rparr>)
             (sh_min h) (sh_max h))"

section \<open>The tree\<close>

record tree_level =
  lv_nodes :: "u8 list"
  lv_skips :: "u16 list"
  lv_node_ids :: "u16 list"
  lv_data :: "points_collection list"

record tree_t =
  t_min :: m192
  t_max :: m192
  t_levels :: "tree_level list"
  t_sub_trees :: "u32 list"
  t_id :: u32
  t_magnitude :: u8
  t_is_dirty :: bool
  t_leaves_collapsed :: bool
  t_storage_map :: input_storage_map

definition empty_level :: tree_level where
  "empty_level = \<lparr>lv_nodes = [], lv_skips = [], lv_node_ids = [], lv_data = []\<rparr>"

section \<open>Writing a tree\<close>

definition collection_size :: "points_collection \<Rightarrow> nat" where
  "collection_size p = wrap32 (8 + 24 + 24 + 4 + 4 + 16 * wrap32 (length (pc_data p)))"

definition collections_size :: "points_collection list \<Rightarrow> nat" where
  "collections_size ps = foldl (\<lambda>sz p. wrap32 (sz + collection_size p)) 4 ps"

definition write_collection :: "points_collection \<Rightarrow> wcursor \<Rightarrow> wcursor option" where
  "write_collection p c = do {
     c \<leftarrow> write_memory (word_bytes (pc_count p)) c;
     c \<leftarrow> write_memory (enc_m192 (pc_min p)) c;
     c \<leftarrow> write_memory (enc_m192 (pc_max p)) c;
     c \<leftarrow> write_memory (word_bytes (pc_min_lod p)) c;
     c \<leftarrow> write_memory (word_bytes (word_of_nat (length (pc_data p)) :: u32)) c;
     write_vec_type (map enc_subset (pc_data p)) c }"

definition write_collections :: "points_collection list \<Rightarrow> wcursor \<Rightarrow> wcursor option" where
  "write_collections ps c = do {
     c \<leftarrow> write_memory (word_bytes (word_of_nat (length ps) :: u32)) c;
     write_all write_collection ps c }"

definition level_bytes :: "tree_level \<Rightarrow> nat" where
  "level_bytes l =
     (let level_size = wrap32 (length (lv_nodes l))
      in 4 + level_size * 1 + level_size * 2 + level_size * 2 + collections_size (lv_data l))"

definition write_level :: "tree_level \<Rightarrow> wcursor \<Rightarrow> wcursor option" where
  "write_level l c = do {
     let level_size = (word_of_nat (length (lv_nodes l)) :: u32);
     c \<leftarrow> write_memory (word_bytes level_size) c;
     if level_size = 0 then Some c
     else do {
       c \<leftarrow> write_vec_type (map word_bytes (lv_nodes l)) c;
       c \<leftarrow> write_vec_type (map word_bytes (lv_skips l)) c;
       c \<leftarrow> write_vec_type (map word_bytes (lv_node_ids l)) c;
       write_collections (lv_data l) c } }"

definition tree_bytes :: "input_data_id list \<Rightarrow> tree_t \<Rightarrow> nat" where
  "tree_bytes ids t =
     24 + 24 + 4 + 1 + sum_list (map level_bytes (t_levels t)) + 4 + length (t_sub_trees t) * 4 +
     unat (storage_map_size ids (t_storage_map t))"

definition write_tree :: "input_data_id list \<Rightarrow> tree_t \<Rightarrow> wcursor \<Rightarrow> wcursor option" where
  "write_tree ids t c = do {
     c \<leftarrow> write_memory (enc_m192 (t_min t)) c;
     c \<leftarrow> write_memory (enc_m192 (t_max t)) c;
     c \<leftarrow> write_memory (word_bytes (t_id t)) c;
     c \<leftarrow> write_memory (word_bytes (t_magnitude t)) c;
     c \<leftarrow> write_all write_level (t_levels t) c;
     let sub_trees_size = (word_of_nat (length (t_sub_trees t)) :: u32);
     c \<leftarrow> write_memory (word_bytes sub_trees_size) c;
     c \<leftarrow> (if sub_trees_size > 0 then write_vec_type (map word_bytes (t_sub_trees t)) c else Some c);
     serialize_storage_map ids (t_storage_map t) c }"

definition tree_serialize :: "input_data_id list \<Rightarrow> tree_t \<Rightarrow> bytes option" where
  "tree_serialize ids t = map_option buffer_of (write_tree ids t (fresh (tree_bytes ids t)))"

section \<open>Reading a tree\<close>

definition read_collection :: "bytes \<Rightarrow> (points_collection \<times> bytes) option" where
  "read_collection p = do {
     (point_count, p) \<leftarrow> read_memory 8 bytes_word p;
     (mn, p) \<leftarrow> read_memory 24 dec_m192 p;
     (mx, p) \<leftarrow> read_memory 24 dec_m192 p;
     (min_lod, p) \<leftarrow> read_memory 4 bytes_word p;
     (data_size :: u32, p) \<leftarrow> read_memory 4 bytes_word p;
     (data, p) \<leftarrow> read_vec_type 16 dec_subset (unat data_size) p;
     Some (\<lparr>pc_count = point_count, pc_min = mn, pc_max = mx, pc_min_lod = min_lod, pc_data = data\<rparr>, p) }"

definition read_collections :: "bytes \<Rightarrow> (points_collection list \<times> bytes) option" where
  "read_collections p = do {
     (n :: u32, p) \<leftarrow> read_memory 4 bytes_word p;
     read_all read_collection (unat n) p }"

text \<open>An empty level leaves the vectors of the tree that is read into as they are.\<close>

definition read_level :: "tree_level \<Rightarrow> bytes \<Rightarrow> (tree_level \<times> bytes) option" where
  "read_level old p = do {
     (level_size :: u32, p) \<leftarrow> read_memory 4 bytes_word p;
     if level_size = 0 then Some (old, p)
     else do {
       (nodes, p) \<leftarrow> read_vec_type 1 bytes_word (unat level_size) p;
       (skips, p) \<leftarrow> read_vec_type 2 bytes_word (unat level_size) p;
       (node_ids, p) \<leftarrow> read_vec_type 2 bytes_word (unat level_size) p;
       (data, p) \<leftarrow> read_collections p;
       Some (\<lparr>lv_nodes = nodes, lv_skips = skips, lv_node_ids = node_ids, lv_data = data\<rparr>, p) } }"

fun read_levels :: "tree_level list \<Rightarrow> bytes \<Rightarrow> (tree_level list \<times> bytes) option" where
  "read_levels [] p = Some ([], p)"
| "read_levels (old # olds) p = do {
     (l, p) \<leftarrow> read_level old p;
     (ls, p) \<leftarrow> read_levels olds p;
     Some (l # ls, p) }"

definition read_tree :: "tree_t \<Rightarrow> bytes \<Rightarrow> (tree_t \<times> bytes) option" where
  "read_tree t p = do {
     (mn, p) \<leftarrow> read_memory 24 dec_m192 p;
     (mx, p) \<leftarrow> read_memory 24 dec_m192 p;
     (i, p) \<leftarrow> read_memory 4 bytes_word p;
     (magnitude, p) \<leftarrow> read_memory 1 bytes_word p;
     (levels, p) \<leftarrow> read_levels (t_levels t) p;
     (sub_trees_size :: u32, p) \<leftarrow> read_memory 4 bytes_word p;
     (sub_trees, p) \<leftarrow> (if sub_trees_size > 0 then read_vec_type 4 bytes_word (unat sub_trees_size) p
                          else Some (t_sub_trees t, p));
     (storage_map, p) \<leftarrow> deserialize_storage_map p (t_storage_map t);
     Some (t\<lparr>t_min := mn, t_max := mx, t_id := i, t_magnitude := magnitude, t_levels := levels,
            t_sub_trees := sub_trees, t_storage_map := storage_map\<rparr>, p) }"

definition invalid_tree :: dew_error where
  "invalid_tree = \<lparr>err_code = 1, err_msg = ''Invalid tree data''\<rparr>"

definition tree_deserialize :: "bytes \<Rightarrow> tree_t \<Rightarrow> tree_t result" where
  "tree_deserialize data t =
     (case read_tree t data of None \<Rightarrow> Inl invalid_tree | Some (t', _) \<Rightarrow> Inr t')"

section \<open>The state derived on load\<close>

record chunk_ref =
  cr_tree_count :: u32
  cr_point_count :: u32

definition leaf_collapsed :: "(input_data_id \<rightharpoonup> chunk_ref) \<Rightarrow> points_collection \<Rightarrow> bool" where
  "leaf_collapsed refs c =
     (case pc_data c of
        [s] \<Rightarrow>
          (if ps_offset s \<noteq> 0 \<or> ucast (ps_count s) \<noteq> pc_count c then False
           else if input_data_id_is_collapsed_leaf (ps_input s) then True
           else (case refs (ps_input s) of
                   None \<Rightarrow> False
                 | Some r \<Rightarrow> cr_point_count r = ps_count s))
      | _ \<Rightarrow> False)"

text \<open>The scan of one level: the nodes and their collections in step, up to the first leaf that fails.\<close>

fun level_collapsed :: "(input_data_id \<rightharpoonup> chunk_ref) \<Rightarrow> u8 list \<Rightarrow> points_collection list \<Rightarrow> bool" where
  "level_collapsed refs (n # ns) (c # cs) =
     (if n \<noteq> 0 \<or> pc_count c = 0 then level_collapsed refs ns cs
      else if \<not> leaf_collapsed refs c then False
      else level_collapsed refs ns cs)"
| "level_collapsed refs ns cs = True"

definition tree_compute_leaves_collapsed :: "(input_data_id \<rightharpoonup> chunk_ref) \<Rightarrow> tree_t \<Rightarrow> tree_t" where
  "tree_compute_leaves_collapsed refs t =
     t\<lparr>t_leaves_collapsed := list_all (\<lambda>l. level_collapsed refs (lv_nodes l) (lv_data l)) (t_levels t)\<rparr>"

text \<open>
  \<open>tree_compute_mins\<close>: the walk that gives every node the smallest code of its cell. A work item is
  the pair of the node's index in its level and its name.
\<close>

definition child_entries :: "nat \<Rightarrow> u8 \<Rightarrow> u16 \<Rightarrow> u16 \<Rightarrow> (u16 \<times> u16) list" where
  "child_entries level node skip parent_node_name =
     (let children = filter (\<lambda>i. node AND push_bit i 1 \<noteq> 0) [0..<8]
      in map (\<lambda>k. (skip + word_of_nat k, morton_get_name parent_node_name level (children ! k)))
           [0..<length children])"

definition mins_step :: "u8 \<Rightarrow> m192 \<Rightarrow> nat \<Rightarrow> tree_level \<Rightarrow> (u16 \<times> u16) \<Rightarrow>
    m192 list \<times> (u16 \<times> u16) list \<Rightarrow> m192 list \<times> (u16 \<times> u16) list" where
  "mins_step magnitude mn level l e acc =
     (let (skip, name) = e; (mins, next) = acc in
      if length mins \<le> unat skip then (mins, next)
      else (let mins = mins[unat skip := m192_of (set_name_in_morton (unat magnitude) (m192_words mn) name)] in
        if level = 4 then (mins, next)
        else (mins, next @ child_entries level (lv_nodes l ! unat skip) (lv_skips l ! unat skip)
                             (push_bit 3 (lv_node_ids l ! unat skip)))))"

fun mins_levels :: "u8 \<Rightarrow> m192 \<Rightarrow> nat \<Rightarrow> tree_level list \<Rightarrow> (u16 \<times> u16) list \<Rightarrow> m192 list list" where
  "mins_levels magnitude mn level [] current = []"
| "mins_levels magnitude mn level (l # ls) current =
     (let (mins, next) = fold (mins_step magnitude mn level l) current
            (replicate (length (lv_nodes l)) (M192 0 0 0), [])
      in mins # mins_levels magnitude mn (Suc level) ls next)"

definition tree_compute_mins :: "tree_t \<Rightarrow> m192 list list" where
  "tree_compute_mins t =
     (let root_name = ucast (morton_get_child_mask (unat (morton_magnitude_to_lod (unat (t_magnitude t))))
                              (m192_words (t_min t))) :: u16
      in mins_levels (t_magnitude t) (t_min t) 0 (t_levels t)
           (if t_levels t = [] \<or> lv_nodes (hd (t_levels t)) = [] then [] else [(0, push_bit 12 root_name)]))"

section \<open>What the writers store\<close>

definition collection_fields :: "points_collection \<Rightarrow> bytes list" where
  "collection_fields p =
     [word_bytes (pc_count p), enc_m192 (pc_min p), enc_m192 (pc_max p), word_bytes (pc_min_lod p),
      word_bytes (word_of_nat (length (pc_data p)) :: u32), concat (map enc_subset (pc_data p))]"

definition collections_fields :: "points_collection list \<Rightarrow> bytes list" where
  "collections_fields ps =
     word_bytes (word_of_nat (length ps) :: u32) # concat (map collection_fields ps)"

definition level_fields :: "tree_level \<Rightarrow> bytes list" where
  "level_fields l =
     word_bytes (word_of_nat (length (lv_nodes l)) :: u32) #
     (if lv_nodes l = [] then []
      else [concat (map word_bytes (lv_nodes l)), concat (map word_bytes (lv_skips l)),
            concat (map word_bytes (lv_node_ids l))] @ collections_fields (lv_data l))"

definition tree_fields :: "input_data_id list \<Rightarrow> tree_t \<Rightarrow> bytes list" where
  "tree_fields ids t =
     [enc_m192 (t_min t), enc_m192 (t_max t), word_bytes (t_id t), word_bytes (t_magnitude t)] @
     concat (map level_fields (t_levels t)) @
     [word_bytes (word_of_nat (length (t_sub_trees t)) :: u32), concat (map word_bytes (t_sub_trees t))] @
     map_fields ids (t_storage_map t)"

text \<open>The sizes of the code, without the wrap-around.\<close>

definition collections_length :: "points_collection list \<Rightarrow> nat" where
  "collections_length ps = 4 + (\<Sum>p\<leftarrow>ps. 64 + 16 * length (pc_data p))"

definition level_length :: "tree_level \<Rightarrow> nat" where
  "level_length l = 4 + 5 * length (lv_nodes l) + collections_length (lv_data l)"

definition tree_length :: "input_data_id list \<Rightarrow> tree_t \<Rightarrow> nat" where
  "tree_length ids t = 57 + (\<Sum>l\<leftarrow>t_levels t. level_length l) + 4 * length (t_sub_trees t) +
     map_bytes ids (t_storage_map t)"

text \<open>The shape of a tree in memory: five levels of parallel vectors, small enough to be stored.\<close>

definition level_ok :: "tree_level \<Rightarrow> bool" where
  "level_ok l \<longleftrightarrow> length (lv_skips l) = length (lv_nodes l) \<and> length (lv_node_ids l) = length (lv_nodes l) \<and>
     length (lv_data l) = length (lv_nodes l) \<and> level_length l < 2 ^ 32"

definition tree_ok :: "input_data_id list \<Rightarrow> tree_t \<Rightarrow> bool" where
  "tree_ok ids t \<longleftrightarrow> length (t_levels t) = 5 \<and> (\<forall>l \<in> set (t_levels t). level_ok l) \<and>
     set ids = dom (sm_map (t_storage_map t)) \<and> tree_length ids t < 2 ^ 31"

lemma write_collection_seq: "write_collection p c = write_seq (collection_fields p) c"
  unfolding write_collection_def collection_fields_def write_vec_concat
  by (simp add: Option.bind_def split: option.splits)

lemma write_collections_seq: "write_collections ps c = write_seq (collections_fields ps) c"
proof -
  have "write_all write_collection ps = write_seq (concat (map collection_fields ps))"
    by (rule ext) (rule write_all_seq, rule write_collection_seq)
  then show ?thesis
    unfolding write_collections_def collections_fields_def by (simp only: bind_write_seq)
qed

lemma small_count: "n < 2 ^ 32 \<Longrightarrow> (word_of_nat n :: u32) = 0 \<longleftrightarrow> n = 0"
  by (simp add: word_of_nat_eq_0_iff nat_dvd_not_less) (metis dvd_imp_le not_gr_zero not_le dvd_0_right)

lemma level_okD:
  assumes "level_ok l"
  shows "length (lv_skips l) = length (lv_nodes l)" and "length (lv_node_ids l) = length (lv_nodes l)"
    and "length (lv_data l) = length (lv_nodes l)" and "length (lv_nodes l) < 2 ^ 32"
    and "p \<in> set (lv_data l) \<Longrightarrow> length (pc_data p) < 2 ^ 32"
proof -
  show "length (lv_skips l) = length (lv_nodes l)" and "length (lv_node_ids l) = length (lv_nodes l)"
    and "length (lv_data l) = length (lv_nodes l)" and "length (lv_nodes l) < 2 ^ 32"
    using assms by (simp_all add: level_ok_def level_length_def)
  assume "p \<in> set (lv_data l)"
  then have "64 + 16 * length (pc_data p) \<le> (\<Sum>p\<leftarrow>lv_data l. 64 + 16 * length (pc_data p))"
    by (intro member_le_sum_list) auto
  then show "length (pc_data p) < 2 ^ 32"
    using assms by (simp add: level_ok_def level_length_def collections_length_def)
qed

lemma write_level_seq:
  assumes "level_ok l"
  shows "write_level l c = write_seq (level_fields l) c"
proof (cases "lv_nodes l = []")
  case True
  then show ?thesis
    by (simp add: write_level_def level_fields_def Let_def split: option.splits)
next
  case False
  then have "(word_of_nat (length (lv_nodes l)) :: u32) \<noteq> 0"
    using small_count [OF level_okD(4) [OF assms]] by simp
  then show ?thesis
    unfolding write_level_def level_fields_def write_vec_concat Let_def
    using False by (simp add: write_collections_seq bind_write_seq [symmetric] Option.bind_def
        split: option.splits)
qed

lemma tree_okD:
  assumes "tree_ok ids t"
  shows "length (t_levels t) = 5" and "l \<in> set (t_levels t) \<Longrightarrow> level_ok l"
    and "set ids = dom (sm_map (t_storage_map t))" and "tree_length ids t < 2 ^ 31"
    and "map_bytes ids (t_storage_map t) < 2 ^ 32" and "length (t_sub_trees t) < 2 ^ 32"
  using assms by (auto simp: tree_ok_def tree_length_def)

lemma write_tree_seq:
  assumes "tree_ok ids t"
  shows "write_tree ids t c = write_seq (tree_fields ids t) c"
proof -
  have levels: "write_all write_level (t_levels t) = write_seq (concat (map level_fields (t_levels t)))"
    by (rule ext) (rule write_all_seq, rule write_level_seq, rule tree_okD(2) [OF assms])
  have subs: "(if (word_of_nat (length (t_sub_trees t)) :: u32) > 0
      then write_vec_type (map word_bytes (t_sub_trees t)) c else Some c) =
      write_memory (concat (map word_bytes (t_sub_trees t))) c" for c
    using small_count [OF tree_okD(6) [OF assms]] by (simp add: word_gt_0 write_vec_concat)
  have stored: "serialize_storage_map ids (t_storage_map t) = write_seq (map_fields ids (t_storage_map t))"
    by (rule ext) (rule serialize_storage_map_seq)
  show ?thesis
    unfolding write_tree_def tree_fields_def Let_def levels subs stored
    by (simp only: bind_write_seq write_seq_append [symmetric] append_Cons append_Nil)
qed


lemma bytes_words_1: "concat (map word_bytes (ws :: u8 list)) = ws"
proof -
  have "word_bytes b = [b]" for b :: u8
    using unat_byte_less [of b] by (simp add: word_bytes_def)
  then show ?thesis by (induction ws) simp_all
qed

lemma read_collection_written:
  "length (pc_data p) < 2 ^ 32 \<Longrightarrow> read_collection (concat (collection_fields p) @ r) = Some (p, r)"
  by (simp add: read_collection_def collection_fields_def struct_codec_simps word_codec_simps unat_of_nat)

lemma read_collections_written:
  assumes "length ps < 2 ^ 32" and "\<And>p. p \<in> set ps \<Longrightarrow> length (pc_data p) < 2 ^ 32"
  shows "read_collections (concat (collections_fields ps) @ r) = Some (ps, r)"
proof -
  have "read_all read_collection (length ps) (concat (concat (map collection_fields ps)) @ r) = Some (ps, r)"
    by (rule read_all_written) (rule read_collection_written, rule assms(2))
  then show ?thesis
    using assms(1) by (simp add: read_collections_def collections_fields_def word_codec_simps unat_of_nat)
qed

lemma read_level_written:
  assumes "level_ok l"
  shows "read_level empty_level (concat (level_fields l) @ r) = Some (l, r)"
proof (cases "lv_nodes l = []")
  case True
  then have "l = empty_level" using level_okD(1-3) [OF assms] by (simp add: empty_level_def)
  then show ?thesis
    by (simp add: read_level_def level_fields_def empty_level_def word_codec_simps)
next
  case False
  note d = level_okD [OF assms]
  have nz: "(word_of_nat (length (lv_nodes l)) :: u32) \<noteq> 0" using False small_count [OF d(4)] by simp
  have n: "unat (word_of_nat (length (lv_nodes l)) :: u32) = length (lv_nodes l)"
    using d(4) by (simp add: unat_of_nat)
  have data: "read_collections (concat (collections_fields (lv_data l)) @ r) = Some (lv_data l, r)"
    by (rule read_collections_written) (use d in auto)
  have "read_vec_type 1 bytes_word (length (lv_nodes l)) (concat (map word_bytes (lv_nodes l)) @ q) = Some (lv_nodes l, q)" for q
    by (rule u8c.read_vec)
  moreover have "read_vec_type 2 bytes_word (length (lv_nodes l)) (concat (map word_bytes (lv_skips l)) @ q) = Some (lv_skips l, q)" for q
    using u16c.read_vec [of "lv_skips l" q] d(1) by simp
  moreover have "read_vec_type 2 bytes_word (length (lv_nodes l)) (concat (map word_bytes (lv_node_ids l)) @ q) = Some (lv_node_ids l, q)" for q
    using u16c.read_vec [of "lv_node_ids l" q] d(2) by simp
  moreover have "concat (level_fields l) @ r = word_bytes (word_of_nat (length (lv_nodes l)) :: u32) @
      concat (map word_bytes (lv_nodes l)) @ concat (map word_bytes (lv_skips l)) @
      concat (map word_bytes (lv_node_ids l)) @ concat (collections_fields (lv_data l)) @ r"
    using False by (simp add: level_fields_def)
  ultimately show ?thesis
    using nz data by (simp add: read_level_def u32c.read_one n del: u8c.read_vec)
qed

lemma read_levels_written:
  "(\<And>l. l \<in> set ls \<Longrightarrow> level_ok l) \<Longrightarrow>
   read_levels (replicate (length ls) empty_level) (concat (concat (map level_fields ls)) @ r) = Some (ls, r)"
  by (induction ls) (simp_all add: read_level_written)

text \<open>The tree an opening caller reads into: nothing in it but the flags.\<close>

definition blank_tree :: "tree_t \<Rightarrow> bool" where
  "blank_tree t \<longleftrightarrow> t_levels t = replicate 5 empty_level \<and> t_sub_trees t = [] \<and> t_storage_map t = new_storage_map"

lemma read_tree_written:
  assumes "tree_ok ids t" and "blank_tree t0"
  shows "read_tree t0 (concat (tree_fields ids t) @ r) =
    Some (t\<lparr>t_is_dirty := t_is_dirty t0, t_leaves_collapsed := t_leaves_collapsed t0,
           t_storage_map := (t_storage_map t)\<lparr>sm_discarded := []\<rparr>\<rparr>, r)"
proof -
  note d = tree_okD [OF assms(1)]
  have levels: "read_levels (t_levels t0) (concat (concat (map level_fields (t_levels t))) @ q) = Some (t_levels t, q)" for q
    using read_levels_written [of "t_levels t" q] d(1,2) assms(2) by (simp add: blank_tree_def)
  have subs: "(if (word_of_nat (length (t_sub_trees t)) :: u32) > 0
      then read_vec_type 4 bytes_word (unat (word_of_nat (length (t_sub_trees t)) :: u32)) (concat (map word_bytes (t_sub_trees t)) @ q)
      else Some (t_sub_trees t0, concat (map word_bytes (t_sub_trees t)) @ q)) = Some (t_sub_trees t, q)" for q
    using small_count [OF d(6)] u32c.read_vec [of "t_sub_trees t" q] d(6) assms(2)
    by (auto simp: word_gt_0 unat_of_nat blank_tree_def)
  have stored: "deserialize_storage_map (concat (map_fields ids (t_storage_map t)) @ q) (t_storage_map t0) =
      Some ((t_storage_map t)\<lparr>sm_discarded := []\<rparr>, q)" for q
    using read_map_written [OF d(3,5)] assms(2) by (simp add: blank_tree_def)
  show ?thesis
    by (simp add: read_tree_def tree_fields_def struct_codec_simps word_codec_simps levels subs stored)
qed


lemma collections_size_exact:
  assumes "collections_length ps < 2 ^ 32"
  shows "collections_size ps = collections_length ps"
proof -
  have "foldl (\<lambda>sz p. wrap32 (sz + collection_size p)) a ps = a + (\<Sum>p\<leftarrow>ps. 64 + 16 * length (pc_data p))"
    if "a + (\<Sum>p\<leftarrow>ps. 64 + 16 * length (pc_data p)) < 2 ^ 32" for a
    using that
  proof (induction ps arbitrary: a)
    case Nil
    then show ?case by simp
  next
    case (Cons p ps)
    have n: "length (pc_data p) < 2 ^ 32" "64 + 16 * length (pc_data p) < 2 ^ 32"
      "a + (64 + 16 * length (pc_data p)) < 2 ^ 32"
      using Cons.prems by simp_all
    have "collection_size p = 64 + 16 * length (pc_data p)"
      using wrap32_id [OF n(1)] wrap32_id [OF n(2)] by (simp add: collection_size_def)
    then have "wrap32 (a + collection_size p) = a + (64 + 16 * length (pc_data p))"
      using wrap32_id [OF n(3)] by simp
    then show ?case
      using Cons.IH [of "a + (64 + 16 * length (pc_data p))"] Cons.prems by simp
  qed
  then show ?thesis
    using assms unfolding collections_size_def collections_length_def by blast
qed

lemma level_bytes_exact: "level_ok l \<Longrightarrow> level_bytes l = level_length l"
proof -
  assume "level_ok l"
  then have "length (lv_nodes l) < 2 ^ 32" and "collections_length (lv_data l) < 2 ^ 32"
    by (simp_all add: level_ok_def level_length_def)
  then show ?thesis
    by (simp add: level_bytes_def Let_def wrap32_id collections_size_exact level_length_def)
qed

lemma tree_bytes_exact:
  assumes "tree_ok ids t"
  shows "tree_bytes ids t = tree_length ids t"
proof -
  have "sum_list (map level_bytes (t_levels t)) = sum_list (map level_length (t_levels t))"
    using tree_okD(2) [OF assms] by (intro arg_cong [of _ _ sum_list] map_cong) (auto intro: level_bytes_exact)
  then show ?thesis
    using storage_map_size_exact [OF tree_okD(5) [OF assms]]
    by (simp add: tree_bytes_def tree_length_def)
qed

lemma length_collections_fields: "length (concat (collections_fields ps)) = collections_length ps"
proof -
  have "length (concat (collection_fields p)) = 64 + 16 * length (pc_data p)" for p
    by (simp add: collection_fields_def struct_codec_simps)
  then have "length (concat (concat (map collection_fields ps))) = (\<Sum>p\<leftarrow>ps. 64 + 16 * length (pc_data p))"
    by (induction ps) simp_all
  then show ?thesis by (simp add: collections_fields_def collections_length_def)
qed

lemma length_level_fields: "level_ok l \<Longrightarrow> length (concat (level_fields l)) \<le> level_length l"
  using level_okD(1-3) [of l]
  by (simp add: level_fields_def level_length_def length_collections_fields u8c.length_concat_enc
      u16c.length_concat_enc)

lemma length_tree_fields:
  assumes "tree_ok ids t"
  shows "length (concat (tree_fields ids t)) \<le> tree_length ids t"
proof -
  have "length (concat (concat (map level_fields ls))) \<le> (\<Sum>l\<leftarrow>ls. level_length l)"
    if "\<forall>l \<in> set ls. level_ok l" for ls
    using that by (induction ls) (auto dest: length_level_fields)
  then have "length (concat (concat (map level_fields (t_levels t)))) \<le> (\<Sum>l\<leftarrow>t_levels t. level_length l)"
    using tree_okD(2) [OF assms] by blast
  then show ?thesis
    by (simp add: tree_fields_def tree_length_def length_map_fields u32c.length_concat_enc)
qed

text \<open>C10: A tree of five levels, with any collections, sub-trees and storage map that fit a 31-bit size,
  is written into the size the code computes and read back into a blank tree completely, in
  whatever order its storage map is iterated; the flags are not stored. This covers the empty
  levels, whose collection count is part of the size but never written.\<close>

theorem tree_roundtrip:
  assumes "tree_ok ids t" and "blank_tree t0"
  shows "\<exists>data. tree_serialize ids t = Some data \<and> length data = tree_bytes ids t \<and>
    tree_deserialize data t0 =
      Inr (t\<lparr>t_is_dirty := t_is_dirty t0, t_leaves_collapsed := t_leaves_collapsed t0,
             t_storage_map := (t_storage_map t)\<lparr>sm_discarded := []\<rparr>\<rparr>)"
proof -
  let ?f = "concat (tree_fields ids t)"
  have fits: "length ?f \<le> tree_bytes ids t"
    using length_tree_fields [OF assms(1)] by (simp add: tree_bytes_exact [OF assms(1)])
  then have "tree_serialize ids t = Some (?f @ replicate (tree_bytes ids t - length ?f) 0)"
    using write_seq_fits [OF fits] by (simp add: tree_serialize_def write_tree_seq [OF assms(1)])
  moreover have "tree_deserialize (?f @ r) t0 =
      Inr (t\<lparr>t_is_dirty := t_is_dirty t0, t_leaves_collapsed := t_leaves_collapsed t0,
             t_storage_map := (t_storage_map t)\<lparr>sm_discarded := []\<rparr>\<rparr>)" for r
    by (simp add: tree_deserialize_def read_tree_written [OF assms])
  ultimately show ?thesis using fits by auto
qed

section \<open>Merging collections\<close>

definition points_total :: "points_subset list \<Rightarrow> u64" where
  "points_total ss = (\<Sum>s\<leftarrow>ss. ucast (ps_count s))"

definition collection_ok :: "points_collection \<Rightarrow> bool" where
  "collection_ok c \<longleftrightarrow> pc_count c = points_total (pc_data c) \<and>
     (pc_count c \<noteq> 0 \<longrightarrow> pc_min_lod c = m192_lod (pc_min c) (pc_max c))"

definition header_ok :: "storage_header \<Rightarrow> bool" where
  "header_ok h \<longleftrightarrow> sh_lod_span h = m192_lod (sh_min h) (sh_max h)"

lemma points_total_append [simp]: "points_total (xs @ ys) = points_total xs + points_total ys"
  by (simp add: points_total_def)

lemma m192_lt_less: "m192_lt a b \<longleftrightarrow> a < b"
  by (simp add: less_m192_def)

lemma widen_bounds:
  "pc_min (widen c lo hi) = min lo (pc_min c) \<and> pc_max (widen c lo hi) = max (pc_max c) hi \<and>
   pc_min_lod (widen c lo hi) = m192_lod (pc_min (widen c lo hi)) (pc_max (widen c lo hi))"
  by (auto simp: widen_def Let_def m192_lt_less min_def max_def)

lemma widen_data [simp]: "pc_data (widen c lo hi) = pc_data c" "pc_count (widen c lo hi) = pc_count c"
  by (simp_all add: widen_def Let_def)

lemma unit_total: "points_total [whole_unit h] = ucast (sh_count h)"
  by (simp add: points_total_def whole_unit_def)

text \<open>C11: Adding a collection or a whole unit to a node keeps the node's collection consistent: its count
  is the sum of its subsets' counts, its level is the level of its bounds, the counts add up, and
  the bounds are the smallest and the largest code of the two parts.\<close>

theorem points_data_add_ok:
  assumes "collection_ok c" and "collection_ok d" and "header_ok h"
  shows "collection_ok (points_data_add c d) \<and> collection_ok (points_data_add_unit c h) \<and>
    pc_count (points_data_add c d) = pc_count c + pc_count d \<and>
    pc_count (points_data_add_unit c h) = pc_count c + ucast (sh_count h) \<and>
    (pc_count c \<noteq> 0 \<longrightarrow>
       pc_min (points_data_add c d) = min (pc_min d) (pc_min c) \<and>
       pc_max (points_data_add c d) = max (pc_max c) (pc_max d) \<and>
       pc_min (points_data_add_unit c h) = min (sh_min h) (pc_min c) \<and>
       pc_max (points_data_add_unit c h) = max (pc_max c) (sh_max h) \<and>
       pc_data (points_data_add c d) = pc_data c @ pc_data d)"
proof (cases "pc_count c = 0")
  case True
  then show ?thesis
    using assms by (simp add: points_data_add_def points_data_add_unit_def points_data_initialize_def
        collection_ok_def header_ok_def unit_total)
next
  case False
  then show ?thesis
    using assms by (simp add: points_data_add_def points_data_add_unit_def collection_ok_def
        widen_bounds unit_total)
qed

section \<open>Collapsed leaves\<close>

lemma level_collapsed_iff:
  "length ns = length cs \<Longrightarrow>
   level_collapsed refs ns cs \<longleftrightarrow>
     (\<forall>k < length ns. ns ! k = 0 \<and> pc_count (cs ! k) \<noteq> 0 \<longrightarrow> leaf_collapsed refs (cs ! k))"
  by (induction ns cs rule: list_induct2) (auto simp: nth_Cons split: nat.splits)

lemma leaf_collapsed_iff:
  "leaf_collapsed refs c \<longleftrightarrow>
     (\<exists>s. pc_data c = [s] \<and> ps_offset s = 0 \<and> ucast (ps_count s) = pc_count c \<and>
        (input_data_id_is_collapsed_leaf (ps_input s) \<or>
         (\<exists>r. refs (ps_input s) = Some r \<and> cr_point_count r = ps_count s)))"
  by (auto simp: leaf_collapsed_def split: list.splits option.splits)

section \<open>Examples\<close>

definition example_tree :: tree_t where
  "example_tree =
     \<lparr>t_min = M192 0 0 0, t_max = M192 511 0 0,
      t_levels = [\<lparr>lv_nodes = [0], lv_skips = [0], lv_node_ids = [0],
          lv_data = [\<lparr>pc_count = 3, pc_min = M192 1 0 0, pc_max = M192 9 0 0, pc_min_lod = 1,
             pc_data = [\<lparr>ps_input = example_unit, ps_offset = 0, ps_count = 3\<rparr>]\<rparr>]\<rparr>,
         empty_level, empty_level, empty_level, empty_level],
      t_sub_trees = [7], t_id = 0, t_magnitude = 0, t_is_dirty = True, t_leaves_collapsed = False,
      t_storage_map = add_storage example_unit 7 [example_location] new_storage_map\<rparr>"

theorem tree_roundtrip_witness:
  "\<exists>data t'. tree_serialize [example_unit] example_tree = Some data \<and>
     tree_deserialize data (example_tree\<lparr>t_levels := replicate 5 empty_level, t_sub_trees := [],
       t_storage_map := new_storage_map\<rparr>) = Inr t' \<and> t_levels t' = t_levels example_tree"
proof -
  have ok: "tree_ok [example_unit] example_tree"
    by (simp add: tree_ok_def example_tree_def level_ok_def level_length_def collections_length_def
        empty_level_def tree_length_def map_bytes_def add_storage_def Let_def new_storage_map_def value_at_def)
  have "blank_tree (example_tree\<lparr>t_levels := replicate 5 empty_level, t_sub_trees := [], t_storage_map := new_storage_map\<rparr>)"
    by (simp add: blank_tree_def)
  from tree_roundtrip [OF ok this] show ?thesis by auto
qed

theorem points_data_add_ok_witness:
  "collection_ok (points_data_add
     \<lparr>pc_count = 3, pc_min = M192 1 0 0, pc_max = M192 9 0 0, pc_min_lod = m192_lod (M192 1 0 0) (M192 9 0 0),
      pc_data = [\<lparr>ps_input = example_unit, ps_offset = 0, ps_count = 3\<rparr>]\<rparr>
     \<lparr>pc_count = 2, pc_min = M192 0 0 0, pc_max = M192 2 0 0, pc_min_lod = m192_lod (M192 0 0 0) (M192 2 0 0),
      pc_data = [\<lparr>ps_input = example_unit, ps_offset = 3, ps_count = 2\<rparr>]\<rparr>)"
  using points_data_add_ok [of
     "\<lparr>pc_count = 3, pc_min = M192 1 0 0, pc_max = M192 9 0 0, pc_min_lod = m192_lod (M192 1 0 0) (M192 9 0 0),
      pc_data = [\<lparr>ps_input = example_unit, ps_offset = 0, ps_count = 3\<rparr>]\<rparr>"
     "\<lparr>pc_count = 2, pc_min = M192 0 0 0, pc_max = M192 2 0 0, pc_min_lod = m192_lod (M192 0 0 0) (M192 2 0 0),
      pc_data = [\<lparr>ps_input = example_unit, ps_offset = 3, ps_count = 2\<rparr>]\<rparr>"
     "\<lparr>sh_input = example_unit, sh_count = 2, sh_type = 0, sh_components = 0, sh_pad = 0, sh_min = M192 0 0 0,
       sh_max = M192 2 0 0, sh_lod_span = m192_lod (M192 0 0 0) (M192 2 0 0), sh_pad_end = 0\<rparr>"]
  by (simp add: collection_ok_def header_ok_def points_total_def)

end
