(* ===== verification/TreeRegistry.thy ===== *)
theory TreeRegistry
  imports TreeFormat
begin

text \<open>
  The tree registry of \<open>src/src/core/tree.hpp\<close> and its stored form in \<open>tree.cpp\<close>, with the older
  layouts that are still read (\<open>TRG2\<close>, \<open>TRG3\<close> and the layout before them, which starts with the
  node limit instead of a magic). The doubles of the configuration are the 64 bits of their
  representation; the padding of the structure is a field. The loaded trees (\<open>data\<close>) are kept
  apart: the registry here holds how many slots there are.
\<close>

section \<open>The registry\<close>

record tree_config =
  tc_scale :: u64
  tc_offset0 :: u64
  tc_offset1 :: u64
  tc_offset2 :: u64
  tc_store_original_order :: u8
  tc_pad :: "24 word"
  tc_node_point_limit :: u32
  tc_read_chunk_byte_target :: u64
  tc_lod_all_attributes :: u8
  tc_lod_adaptive_sampling :: u8
  tc_mutable_dataset :: u8
  tc_reserved :: "40 word"

definition new_tree_config :: tree_config where
  "new_tree_config =
     \<lparr>tc_scale = 0, tc_offset0 = 0, tc_offset1 = 0, tc_offset2 = 0, tc_store_original_order = 0, tc_pad = 0,
      tc_node_point_limit = 200000, tc_read_chunk_byte_target = push_bit 20 64, tc_lod_all_attributes = 0,
      tc_lod_adaptive_sampling = 0, tc_mutable_dataset = 0, tc_reserved = 0\<rparr>"

definition enc_config :: "tree_config \<Rightarrow> bytes" where
  "enc_config c = word_bytes (tc_scale c) @ word_bytes (tc_offset0 c) @ word_bytes (tc_offset1 c) @
     word_bytes (tc_offset2 c) @ word_bytes (tc_store_original_order c) @ word_bytes (tc_pad c) @
     word_bytes (tc_node_point_limit c) @ word_bytes (tc_read_chunk_byte_target c) @
     word_bytes (tc_lod_all_attributes c) @ word_bytes (tc_lod_adaptive_sampling c) @
     word_bytes (tc_mutable_dataset c) @ word_bytes (tc_reserved c)"

definition dec_config :: "bytes \<Rightarrow> tree_config" where
  "dec_config b =
     \<lparr>tc_scale = bytes_word (take 8 b), tc_offset0 = bytes_word (take 8 (drop 8 b)),
      tc_offset1 = bytes_word (take 8 (drop 16 b)), tc_offset2 = bytes_word (take 8 (drop 24 b)),
      tc_store_original_order = bytes_word (take 1 (drop 32 b)), tc_pad = bytes_word (take 3 (drop 33 b)),
      tc_node_point_limit = bytes_word (take 4 (drop 36 b)),
      tc_read_chunk_byte_target = bytes_word (take 8 (drop 40 b)),
      tc_lod_all_attributes = bytes_word (take 1 (drop 48 b)),
      tc_lod_adaptive_sampling = bytes_word (take 1 (drop 49 b)),
      tc_mutable_dataset = bytes_word (take 1 (drop 50 b)), tc_reserved = bytes_word (take 5 (drop 51 b))\<rparr>"

text \<open>The 40 and 48 byte layouts share their prefix with the structure: the fields they set.\<close>

definition set_config_v2 :: "bytes \<Rightarrow> tree_config \<Rightarrow> tree_config" where
  "set_config_v2 b c =
     c\<lparr>tc_scale := bytes_word (take 8 b), tc_offset0 := bytes_word (take 8 (drop 8 b)),
       tc_offset1 := bytes_word (take 8 (drop 16 b)), tc_offset2 := bytes_word (take 8 (drop 24 b)),
       tc_store_original_order := bytes_word (take 1 (drop 32 b)),
       tc_node_point_limit := bytes_word (take 4 (drop 36 b)),
       tc_lod_all_attributes := 1, tc_lod_adaptive_sampling := 0\<rparr>"

definition set_config_v3 :: "bytes \<Rightarrow> tree_config \<Rightarrow> tree_config" where
  "set_config_v3 b c = (set_config_v2 b c)\<lparr>tc_read_chunk_byte_target := bytes_word (take 8 (drop 40 b))\<rparr>"

record tree_registry =
  tr_node_limit :: u32
  tr_current_id :: u32
  tr_root :: u32
  tr_config :: tree_config
  tr_current_lod_node_id :: u64
  tr_current_collapsed_node_id :: u64
  tr_chunk_refs :: "input_data_id \<rightharpoonup> chunk_ref"
  tr_lod_watermark :: m192
  tr_slots :: nat
  tr_locations :: "storage_location list"
  tr_id_initialized :: "u8 list"
  tr_state :: "u8 list"
  tr_band :: "u32 list"
  tr_input_snapshot :: bytes

definition tree_state_building :: u8 where "tree_state_building = 0"
definition tree_state_final :: u8 where "tree_state_final = 1"
definition tree_state_uploaded :: u8 where "tree_state_uploaded = 2"
definition tree_band_none :: u32 where "tree_band_none = 0xFFFFFFFF"

definition new_tree_registry :: tree_registry where
  "new_tree_registry =
     \<lparr>tr_node_limit = 0, tr_current_id = 0, tr_root = 0, tr_config = new_tree_config,
      tr_current_lod_node_id = push_bit 63 1, tr_current_collapsed_node_id = push_bit 62 1,
      tr_chunk_refs = Map.empty, tr_lod_watermark = M192 0 0 0, tr_slots = 0, tr_locations = [],
      tr_id_initialized = [], tr_state = [], tr_band = [], tr_input_snapshot = []\<rparr>"

definition k_tree_registry_magic_v2 :: u32 where "k_tree_registry_magic_v2 = 0x32475254"
definition k_tree_registry_magic_v3 :: u32 where "k_tree_registry_magic_v3 = 0x33475254"
definition k_tree_registry_magic_v4 :: u32 where "k_tree_registry_magic_v4 = 0x34475254"

section \<open>Writing\<close>

definition tree_registry_size :: "input_data_id list \<Rightarrow> tree_registry \<Rightarrow> nat" where
  "tree_registry_size ids r =
     wrap32 (4 + 4 + 4 + 4 + 56 + 8 + 8 + 24 + 4 + 16 * length ids + 4 + 16 * length (tr_locations r) +
       length (tr_locations r) + 4 * length (tr_locations r) + 4 + length (tr_input_snapshot r))"

definition write_chunk_ref :: "(input_data_id \<rightharpoonup> chunk_ref) \<Rightarrow> input_data_id \<Rightarrow> wcursor \<Rightarrow> wcursor option" where
  "write_chunk_ref refs i c =
     (case refs i of
        None \<Rightarrow> Some c
      | Some r \<Rightarrow> do {
          c \<leftarrow> write_memory (enc_id i) c;
          c \<leftarrow> write_memory (word_bytes (cr_tree_count r)) c;
          write_memory (word_bytes (cr_point_count r)) c })"

definition write_registry :: "input_data_id list \<Rightarrow> tree_registry \<Rightarrow> wcursor \<Rightarrow> wcursor option" where
  "write_registry ids r c = do {
     c \<leftarrow> write_memory (word_bytes k_tree_registry_magic_v4) c;
     c \<leftarrow> write_memory (word_bytes (tr_node_limit r)) c;
     c \<leftarrow> write_memory (word_bytes (tr_current_id r)) c;
     c \<leftarrow> write_memory (word_bytes (tr_root r)) c;
     c \<leftarrow> write_memory (enc_config (tr_config r)) c;
     c \<leftarrow> write_memory (word_bytes (tr_current_lod_node_id r)) c;
     c \<leftarrow> write_memory (word_bytes (tr_current_collapsed_node_id r)) c;
     c \<leftarrow> write_memory (enc_m192 (tr_lod_watermark r)) c;
     c \<leftarrow> write_memory (word_bytes (word_of_nat (length ids) :: u32)) c;
     c \<leftarrow> write_all (write_chunk_ref (tr_chunk_refs r)) ids c;
     c \<leftarrow> write_memory (word_bytes (word_of_nat (length (tr_locations r)) :: u32)) c;
     c \<leftarrow> write_vec_type (map enc_location (tr_locations r)) c;
     c \<leftarrow> write_vec_type (map word_bytes (tr_state r)) c;
     c \<leftarrow> write_vec_type (map word_bytes (tr_band r)) c;
     c \<leftarrow> write_memory (word_bytes (word_of_nat (length (tr_input_snapshot r)) :: u32)) c;
     (if (word_of_nat (length (tr_input_snapshot r)) :: u32) \<noteq> 0
      then write_vec_type (map word_bytes (tr_input_snapshot r)) c else Some c) }"

definition tree_registry_serialize :: "input_data_id list \<Rightarrow> tree_registry \<Rightarrow> bytes option" where
  "tree_registry_serialize ids r =
     map_option buffer_of (write_registry ids r (fresh (tree_registry_size ids r)))"

section \<open>Reading\<close>

definition invalid_registry :: dew_error where
  "invalid_registry = \<lparr>err_code = 1, err_msg = ''Invalid tree registry data''\<rparr>"

definition newer_registry :: dew_error where
  "newer_registry = \<lparr>err_code = 1, err_msg = ''Tree registry was written by a newer version of dewfall (unknown 'TRG' format); upgrade to read it''\<rparr>"

fun read_chunk_refs :: "nat \<Rightarrow> (input_data_id \<rightharpoonup> chunk_ref) \<Rightarrow> bytes \<Rightarrow> ((input_data_id \<rightharpoonup> chunk_ref) \<times> bytes) option" where
  "read_chunk_refs 0 refs p = Some (refs, p)"
| "read_chunk_refs (Suc n) refs p = do {
     (chunk_id, p) \<leftarrow> read_memory 8 dec_id p;
     (tree_count, p) \<leftarrow> read_memory 4 bytes_word p;
     (point_count, p) \<leftarrow> read_memory 4 bytes_word p;
     read_chunk_refs n (refs(chunk_id \<mapsto> \<lparr>cr_tree_count = tree_count, cr_point_count = point_count\<rparr>)) p }"

definition read_config :: "bool \<Rightarrow> bool \<Rightarrow> tree_config \<Rightarrow> bytes \<Rightarrow> (tree_config \<times> bytes) option" where
  "read_config v4 v3 c p =
     (if v4 then read_memory 56 dec_config p
      else if v3 then read_memory 48 (\<lambda>b. set_config_v3 b c) p
      else read_memory 40 (\<lambda>b. set_config_v2 b c) p)"

definition read_v2_state :: "bool \<Rightarrow> bool \<Rightarrow> tree_registry \<Rightarrow> bytes \<Rightarrow> (tree_registry \<times> bytes) option" where
  "read_v2_state v3 v2 r p =
     (if \<not> v2 then Some (r, p)
      else do {
        (lod, p) \<leftarrow> read_memory 8 bytes_word p;
        (collapsed, p) \<leftarrow> (if v3 then read_memory 8 bytes_word p else Some (tr_current_collapsed_node_id r, p));
        (watermark, p) \<leftarrow> read_memory 24 dec_m192 p;
        (refs, p) \<leftarrow> (if v3
          then do { (n :: u32, p) \<leftarrow> read_memory 4 bytes_word p; read_chunk_refs (unat n) (tr_chunk_refs r) p }
          else Some (tr_chunk_refs r, p));
        Some (r\<lparr>tr_current_lod_node_id := lod, tr_current_collapsed_node_id := collapsed,
               tr_lod_watermark := watermark, tr_chunk_refs := refs\<rparr>, p) })"

definition read_tree_rows :: "bool \<Rightarrow> tree_registry \<Rightarrow> bytes \<Rightarrow> (tree_registry \<times> bytes) option" where
  "read_tree_rows v2 r p = do {
     (n :: u32, p) \<leftarrow> read_memory 4 bytes_word p;
     (locations, p) \<leftarrow> read_vec_type 16 dec_location (unat n) p;
     let r = r\<lparr>tr_locations := locations\<rparr>;
     if v2
     then do {
       (state, p) \<leftarrow> read_vec_type 1 bytes_word (unat n) p;
       (band, p) \<leftarrow> read_vec_type 4 bytes_word (unat n) p;
       (snapshot_size :: u32, p) \<leftarrow> read_memory 4 bytes_word p;
       (snapshot, p) \<leftarrow> read_vec_type 1 bytes_word (unat snapshot_size) p;
       Some (r\<lparr>tr_state := state, tr_band := band, tr_input_snapshot := snapshot\<rparr>, p) }
     else Some (r\<lparr>tr_state := replicate (unat n) tree_state_building, tr_band := replicate (unat n) tree_band_none\<rparr>, p) }"

text \<open>\<open>std::vector::resize\<close>: cut off, or filled up with zeros.\<close>

definition resize_bytes :: "nat \<Rightarrow> bytes \<Rightarrow> bytes" where
  "resize_bytes n bs = take n bs @ replicate (n - length bs) 0"

definition read_registry :: "tree_registry \<Rightarrow> u32 \<Rightarrow> bytes \<Rightarrow> (tree_registry \<times> bytes) option" where
  "read_registry r first_word p = do {
     let v4 = (first_word = k_tree_registry_magic_v4);
     let v3 = (v4 \<or> first_word = k_tree_registry_magic_v3);
     let v2 = (v3 \<or> first_word = k_tree_registry_magic_v2);
     (limit, p) \<leftarrow> (if v2 then read_memory 4 bytes_word p else Some (first_word, p));
     (current_id, p) \<leftarrow> read_memory 4 bytes_word p;
     (root, p) \<leftarrow> read_memory 4 bytes_word p;
     (config, p) \<leftarrow> read_config v4 v3 (tr_config r) p;
     let r = r\<lparr>tr_node_limit := limit, tr_current_id := current_id, tr_root := root, tr_config := config\<rparr>;
     (r, p) \<leftarrow> read_v2_state v3 v2 r p;
     (r, p) \<leftarrow> read_tree_rows v2 r p;
     let n = length (tr_locations r);
     Some (r\<lparr>tr_slots := n, tr_id_initialized := resize_bytes n (tr_id_initialized r)\<rparr>, p) }"

definition known_registry_magic :: "u32 \<Rightarrow> bool" where
  "known_registry_magic w \<longleftrightarrow>
     w = k_tree_registry_magic_v4 \<or> w = k_tree_registry_magic_v3 \<or> w = k_tree_registry_magic_v2"

definition tree_registry_deserialize :: "bytes \<Rightarrow> tree_registry \<Rightarrow> tree_registry result" where
  "tree_registry_deserialize data r =
     (case read_memory 4 bytes_word data of
        None \<Rightarrow> Inl invalid_registry
      | Some (first_word, p) \<Rightarrow>
          (if \<not> known_registry_magic first_word \<and> first_word AND 0x00ffffff = 0x00475254
           then Inl newer_registry
           else (case read_registry r first_word p of
                   None \<Rightarrow> Inl invalid_registry
                 | Some (r', _) \<Rightarrow> Inr r')))"

section \<open>The layouts\<close>

lemma bytes_word_24 [simp]: "bytes_word (word_bytes (w :: 24 word)) = w"
  by (rule bytes_word_bytes) simp

lemma bytes_word_40 [simp]: "bytes_word (word_bytes (w :: 40 word)) = w"
  by (rule bytes_word_bytes) simp

lemma length_enc_config [simp]: "length (enc_config c) = 56"
  by (simp add: enc_config_def)

interpretation configc: pod_codec enc_config dec_config 56
proof
  show "dec_config (enc_config c) = c" for c
    by (simp add: enc_config_def dec_config_def)
qed simp

text \<open>The four layouts the reader knows; the writer uses the last one.\<close>

datatype layout = V1 | V2 | V3 | V4

definition chunk_fields :: "(input_data_id \<rightharpoonup> chunk_ref) \<Rightarrow> input_data_id \<Rightarrow> bytes list" where
  "chunk_fields refs i =
     (case refs i of None \<Rightarrow> [] | Some r \<Rightarrow> [enc_id i, word_bytes (cr_tree_count r), word_bytes (cr_point_count r)])"

definition head_fields :: "layout \<Rightarrow> tree_registry \<Rightarrow> bytes list" where
  "head_fields v r =
     (case v of V1 \<Rightarrow> [] | V2 \<Rightarrow> [word_bytes k_tree_registry_magic_v2] | V3 \<Rightarrow> [word_bytes k_tree_registry_magic_v3]
        | V4 \<Rightarrow> [word_bytes k_tree_registry_magic_v4]) @
     [word_bytes (tr_node_limit r), word_bytes (tr_current_id r), word_bytes (tr_root r)]"

definition config_bytes :: "layout \<Rightarrow> tree_config \<Rightarrow> bytes" where
  "config_bytes v c = take (case v of V4 \<Rightarrow> 56 | V3 \<Rightarrow> 48 | _ \<Rightarrow> 40) (enc_config c)"

definition v2_fields :: "layout \<Rightarrow> input_data_id list \<Rightarrow> tree_registry \<Rightarrow> bytes list" where
  "v2_fields v ids r =
     (case v of V1 \<Rightarrow> []
      | V2 \<Rightarrow> [word_bytes (tr_current_lod_node_id r), enc_m192 (tr_lod_watermark r)]
      | _ \<Rightarrow> [word_bytes (tr_current_lod_node_id r), word_bytes (tr_current_collapsed_node_id r),
             enc_m192 (tr_lod_watermark r), word_bytes (word_of_nat (length ids) :: u32)] @
            concat (map (chunk_fields (tr_chunk_refs r)) ids))"

definition row_fields :: "layout \<Rightarrow> tree_registry \<Rightarrow> bytes list" where
  "row_fields v r =
     [word_bytes (word_of_nat (length (tr_locations r)) :: u32), concat (map enc_location (tr_locations r))] @
     (case v of V1 \<Rightarrow> []
      | _ \<Rightarrow> [concat (map word_bytes (tr_state r)), concat (map word_bytes (tr_band r)),
             word_bytes (word_of_nat (length (tr_input_snapshot r)) :: u32), tr_input_snapshot r])"

definition registry_fields :: "layout \<Rightarrow> input_data_id list \<Rightarrow> tree_registry \<Rightarrow> bytes list" where
  "registry_fields v ids r = head_fields v r @ [config_bytes v (tr_config r)] @ v2_fields v ids r @ row_fields v r"

definition registry_ok :: "input_data_id list \<Rightarrow> tree_registry \<Rightarrow> bool" where
  "registry_ok ids r \<longleftrightarrow> set ids = dom (tr_chunk_refs r) \<and> length (tr_state r) = length (tr_locations r) \<and>
     length (tr_band r) = length (tr_locations r) \<and>
     124 + 16 * length ids + 21 * length (tr_locations r) + length (tr_input_snapshot r) < 2 ^ 32"

lemma registry_okD:
  assumes "registry_ok ids r"
  shows "set ids = dom (tr_chunk_refs r)" and "length (tr_state r) = length (tr_locations r)"
    and "length (tr_band r) = length (tr_locations r)" and "length ids < 2 ^ 32"
    and "length (tr_locations r) < 2 ^ 32" and "length (tr_input_snapshot r) < 2 ^ 32"
  using assms by (auto simp: registry_ok_def)

lemma write_chunk_ref_seq:
  "write_chunk_ref refs i c = write_seq (chunk_fields refs i) c"
  by (simp add: write_chunk_ref_def chunk_fields_def Option.bind_def split: option.splits)

lemma write_registry_seq:
  assumes "registry_ok ids r"
  shows "write_registry ids r c = write_seq (registry_fields V4 ids r) c"
proof -
  have refs: "write_all (write_chunk_ref (tr_chunk_refs r)) ids =
      write_seq (concat (map (chunk_fields (tr_chunk_refs r)) ids))"
    by (rule ext) (rule write_all_seq, rule write_chunk_ref_seq)
  have snapshot: "(if (word_of_nat (length (tr_input_snapshot r)) :: u32) \<noteq> 0
      then write_memory (concat (map word_bytes (tr_input_snapshot r))) c else Some c) =
      write_seq [tr_input_snapshot r] c" for c
    using small_count [OF registry_okD(6) [OF assms]]
    by (simp add: bytes_words_1 split: option.splits)
  show ?thesis
    unfolding write_registry_def registry_fields_def head_fields_def v2_fields_def row_fields_def config_bytes_def
      Let_def refs snapshot write_vec_concat layout.case append_Nil append_Cons append_assoc
    by (simp only: bind_write_seq write_seq_append [symmetric] append_Cons append_Nil length_enc_config take_all order_refl)
qed

lemma length_chunk_fields:
  assumes "set ids \<subseteq> dom refs"
  shows "length (concat (concat (map (chunk_fields refs) ids))) = 16 * length ids"
  using assms by (induction ids) (auto simp: chunk_fields_def struct_codec_simps)

lemma length_registry_fields:
  assumes "registry_ok ids r"
  shows "length (concat (registry_fields V4 ids r)) = tree_registry_size ids r"
proof -
  note d = registry_okD [OF assms]
  have "length (concat (registry_fields V4 ids r)) =
      124 + 16 * length ids + 21 * length (tr_locations r) + length (tr_input_snapshot r)"
    using d(1) by (simp add: registry_fields_def head_fields_def v2_fields_def row_fields_def config_bytes_def
        length_chunk_fields struct_codec_simps word_codec_simps d(2,3))
  moreover have "tree_registry_size ids r =
      124 + 16 * length ids + 21 * length (tr_locations r) + length (tr_input_snapshot r)"
    unfolding tree_registry_size_def using assms by (subst wrap32_id) (simp_all add: registry_ok_def)
  ultimately show ?thesis by simp
qed

section \<open>Reading a layout\<close>

text \<open>
  What a resumed conversion finds in a registry of an older layout: the classic behaviour of the
  levels of detail, default counters, trees that may still change.
\<close>

definition migrated_config :: "layout \<Rightarrow> tree_config \<Rightarrow> tree_config" where
  "migrated_config v c =
     (case v of V4 \<Rightarrow> c
      | V3 \<Rightarrow> new_tree_config\<lparr>tc_scale := tc_scale c, tc_offset0 := tc_offset0 c, tc_offset1 := tc_offset1 c,
          tc_offset2 := tc_offset2 c, tc_store_original_order := tc_store_original_order c,
          tc_node_point_limit := tc_node_point_limit c, tc_read_chunk_byte_target := tc_read_chunk_byte_target c,
          tc_lod_all_attributes := 1\<rparr>
      | _ \<Rightarrow> new_tree_config\<lparr>tc_scale := tc_scale c, tc_offset0 := tc_offset0 c, tc_offset1 := tc_offset1 c,
          tc_offset2 := tc_offset2 c, tc_store_original_order := tc_store_original_order c,
          tc_node_point_limit := tc_node_point_limit c, tc_lod_all_attributes := 1\<rparr>)"

definition migrated :: "layout \<Rightarrow> tree_registry \<Rightarrow> tree_registry" where
  "migrated v r =
     r\<lparr>tr_config := migrated_config v (tr_config r),
       tr_current_lod_node_id := (if v = V1 then push_bit 63 1 else tr_current_lod_node_id r),
       tr_current_collapsed_node_id := (if v = V1 \<or> v = V2 then push_bit 62 1 else tr_current_collapsed_node_id r),
       tr_lod_watermark := (if v = V1 then M192 0 0 0 else tr_lod_watermark r),
       tr_chunk_refs := (if v = V1 \<or> v = V2 then Map.empty else tr_chunk_refs r),
       tr_slots := length (tr_locations r), tr_id_initialized := replicate (length (tr_locations r)) 0,
       tr_state := (if v = V1 then replicate (length (tr_locations r)) tree_state_building else tr_state r),
       tr_band := (if v = V1 then replicate (length (tr_locations r)) tree_band_none else tr_band r),
       tr_input_snapshot := (if v = V1 then [] else tr_input_snapshot r)\<rparr>"

lemma read_config_written:
  "read_config (v = V4) (v = V4 \<or> v = V3) new_tree_config (config_bytes v c @ q) = Some (migrated_config v c, q)"
proof (cases v)
  case V4
  then show ?thesis by (simp add: read_config_def config_bytes_def migrated_config_def configc.read_one)
next
  case V3
  have "length (config_bytes V3 c) = 48" by (simp add: config_bytes_def)
  moreover have "set_config_v3 (config_bytes V3 c) new_tree_config = migrated_config V3 c"
    by (simp add: set_config_v3_def set_config_v2_def config_bytes_def enc_config_def migrated_config_def new_tree_config_def)
  ultimately show ?thesis using V3 by (simp add: read_config_def)
next
  case V2
  have "length (config_bytes V2 c) = 40" by (simp add: config_bytes_def)
  moreover have "set_config_v2 (config_bytes V2 c) new_tree_config = migrated_config V2 c"
    by (simp add: set_config_v2_def config_bytes_def enc_config_def migrated_config_def new_tree_config_def)
  ultimately show ?thesis using V2 by (simp add: read_config_def)
next
  case V1
  have "length (config_bytes V1 c) = 40" by (simp add: config_bytes_def)
  moreover have "set_config_v2 (config_bytes V1 c) new_tree_config = migrated_config V1 c"
    by (simp add: set_config_v2_def config_bytes_def enc_config_def migrated_config_def new_tree_config_def)
  ultimately show ?thesis using V1 by (simp add: read_config_def)
qed

lemma read_chunk_refs_written:
  assumes "set ids \<subseteq> dom refs"
  shows "read_chunk_refs (length ids) old (concat (concat (map (chunk_fields refs) ids)) @ q) =
    Some (\<lambda>i. if i \<in> set ids then refs i else old i, q)"
  using assms
proof (induction ids arbitrary: old)
  case Nil
  then show ?case by simp
next
  case (Cons i ids)
  obtain a b where c: "refs i = Some \<lparr>cr_tree_count = a, cr_point_count = b\<rparr>"
    using Cons.prems by (metis chunk_ref.cases domD insert_subset list.simps(15))
  then have f: "chunk_fields refs i = [enc_id i, word_bytes a, word_bytes b]" by (simp add: chunk_fields_def)
  let ?old = "old(i \<mapsto> \<lparr>cr_tree_count = a, cr_point_count = b\<rparr>)"
  have eq: "(\<lambda>k. if k \<in> set ids then refs k else ?old k) = (\<lambda>k. if k \<in> set (i # ids) then refs k else old k)"
    using c by auto
  have "read_chunk_refs (length ids) ?old (concat (concat (map (chunk_fields refs) ids)) @ q) =
      Some (\<lambda>k. if k \<in> set ids then refs k else ?old k, q)"
    by (rule Cons.IH) (use Cons.prems in simp)
  then have ih: "read_chunk_refs (length ids) ?old (concat (concat (map (chunk_fields refs) ids)) @ q) =
      Some (\<lambda>k. if k \<in> set (i # ids) then refs k else old k, q)"
    unfolding eq .
  have "read_chunk_refs (length (i # ids)) old (concat (concat (map (chunk_fields refs) (i # ids))) @ q) =
      read_chunk_refs (length ids) ?old (concat (concat (map (chunk_fields refs) ids)) @ q)"
    by (simp add: f struct_codec_simps word_codec_simps)
  then show ?case unfolding ih .
qed


lemma read_chunk_refs_whole:
  assumes "set ids = dom refs"
  shows "read_chunk_refs (length ids) Map.empty (concat (concat (map (chunk_fields refs) ids)) @ q) = Some (refs, q)"
proof -
  have "(\<lambda>i. if i \<in> set ids then refs i else None) = refs"
    using assms by (auto simp: domIff)
  then show ?thesis
    using read_chunk_refs_written [of ids refs Map.empty q] assms by simp
qed

lemma read_v2_state_written:
  assumes "registry_ok ids r" and "tr_chunk_refs new = Map.empty"
  shows "read_v2_state (v = V4 \<or> v = V3) ((v = V4 \<or> v = V3) \<or> v = V2) new (concat (v2_fields v ids r) @ q) =
    Some (if v = V1 then new
     else if v = V2 then new\<lparr>tr_current_lod_node_id := tr_current_lod_node_id r, tr_lod_watermark := tr_lod_watermark r\<rparr>
     else new\<lparr>tr_current_lod_node_id := tr_current_lod_node_id r,
            tr_current_collapsed_node_id := tr_current_collapsed_node_id r,
            tr_lod_watermark := tr_lod_watermark r, tr_chunk_refs := tr_chunk_refs r\<rparr>, q)"
  using registry_okD(4) [OF assms(1)] read_chunk_refs_whole [OF registry_okD(1) [OF assms(1)], of q] assms(2)
  by (cases v) (simp_all add: read_v2_state_def v2_fields_def struct_codec_simps word_codec_simps unat_of_nat)

lemma read_tree_rows_written:
  assumes "registry_ok ids r"
  shows "read_tree_rows ((v = V4 \<or> v = V3) \<or> v = V2) new (concat (row_fields v r) @ q) =
    Some (new\<lparr>tr_locations := tr_locations r,
       tr_state := (if v = V1 then replicate (length (tr_locations r)) tree_state_building else tr_state r),
       tr_band := (if v = V1 then replicate (length (tr_locations r)) tree_band_none else tr_band r),
       tr_input_snapshot := (if v = V1 then tr_input_snapshot new else tr_input_snapshot r)\<rparr>, q)"
proof -
  note d = registry_okD [OF assms]
  have n: "unat (word_of_nat (length (tr_locations r)) :: u32) = length (tr_locations r)"
    "unat (word_of_nat (length (tr_input_snapshot r)) :: u32) = length (tr_input_snapshot r)"
    using d(5,6) by (simp_all add: unat_of_nat)
  have rows: "read_vec_type 16 dec_location (length (tr_locations r)) (concat (map enc_location (tr_locations r)) @ q) = Some (tr_locations r, q)"
    "read_vec_type 1 bytes_word (length (tr_locations r)) (concat (map word_bytes (tr_state r)) @ q) = Some (tr_state r, q)"
    "read_vec_type 4 bytes_word (length (tr_locations r)) (concat (map word_bytes (tr_band r)) @ q) = Some (tr_band r, q)"
    "read_vec_type 1 bytes_word (length (tr_input_snapshot r)) (tr_input_snapshot r @ q) = Some (tr_input_snapshot r, q)" for q
    using locc.read_vec [of "tr_locations r" q] u8c.read_vec [of "tr_state r" q] u32c.read_vec [of "tr_band r" q]
      read_bytes_vec [of "tr_input_snapshot r" q] d(2,3) by simp_all
  show ?thesis
    by (cases v) (simp_all add: read_tree_rows_def row_fields_def word_codec_simps(1-4) n rows [unfolded One_nat_def] rows)
qed

lemma registry_magics:
  "k_tree_registry_magic_v2 \<noteq> k_tree_registry_magic_v3" "k_tree_registry_magic_v2 \<noteq> k_tree_registry_magic_v4"
  "k_tree_registry_magic_v3 \<noteq> k_tree_registry_magic_v4"
  by (simp_all add: k_tree_registry_magic_v2_def k_tree_registry_magic_v3_def k_tree_registry_magic_v4_def)

definition first_word_of :: "layout \<Rightarrow> tree_registry \<Rightarrow> u32" where
  "first_word_of v r = (case v of V1 \<Rightarrow> tr_node_limit r | V2 \<Rightarrow> k_tree_registry_magic_v2
     | V3 \<Rightarrow> k_tree_registry_magic_v3 | V4 \<Rightarrow> k_tree_registry_magic_v4)"

lemma first_word_layout:
  assumes "v = V1 \<longrightarrow> \<not> known_registry_magic (tr_node_limit r)"
  shows "(first_word_of v r = k_tree_registry_magic_v4) = (v = V4)"
    "(first_word_of v r = k_tree_registry_magic_v3) = (v = V3)"
    "(first_word_of v r = k_tree_registry_magic_v2) = (v = V2)"
  using assms registry_magics by (cases v; auto simp: first_word_of_def known_registry_magic_def)+

lemma read_registry_written:
  assumes "registry_ok ids r" and "v = V1 \<longrightarrow> \<not> known_registry_magic (tr_node_limit r)"
  shows "read_registry new_tree_registry (first_word_of v r) (drop 4 (concat (registry_fields v ids r)) @ q) =
    Some (migrated v r, q)"
proof -
  have head: "(if (v = V4 \<or> v = V3) \<or> v = V2 then read_memory 4 bytes_word (drop 4 (concat (registry_fields v ids r)) @ q)
      else Some (first_word_of v r, drop 4 (concat (registry_fields v ids r)) @ q)) =
      Some (tr_node_limit r, word_bytes (tr_current_id r) @ word_bytes (tr_root r) @
        config_bytes v (tr_config r) @ concat (v2_fields v ids r) @ concat (row_fields v r) @ q)"
    by (cases v) (simp_all add: registry_fields_def head_fields_def first_word_of_def word_codec_simps)
  have new: "tr_config new_tree_registry = new_tree_config" "tr_chunk_refs new_tree_registry = Map.empty"
    "tr_id_initialized new_tree_registry = []" "tr_input_snapshot new_tree_registry = []"
    by (simp_all add: new_tree_registry_def)
  have empty: "tr_chunk_refs (new_tree_registry\<lparr>tr_node_limit := a, tr_current_id := b, tr_root := c, tr_config := d\<rparr>) = Map.empty"
    for a b c d by (simp add: new)
  show ?thesis
    unfolding read_registry_def first_word_layout [OF assms(2)] Let_def head new(1)
    by (simp only: bind.simps prod.case u32c.read_one read_config_written read_v2_state_written [OF assms(1) empty]
        read_tree_rows_written [OF assms(1)])
      (cases v; simp add: migrated_def new_tree_registry_def resize_bytes_def)
qed


lemma take_first_word: "take 4 (concat (registry_fields v ids r)) = word_bytes (first_word_of v r)"
  by (cases v) (simp_all add: registry_fields_def head_fields_def first_word_of_def)

lemma registry_first_word:
  "concat (registry_fields v ids r) = word_bytes (first_word_of v r) @ drop 4 (concat (registry_fields v ids r))"
  by (metis take_first_word append_take_drop_id)

lemma deserialize_layout:
  assumes "registry_ok ids r" and "v = V1 \<longrightarrow> tr_node_limit r AND 0x00ffffff \<noteq> 0x00475254"
  shows "tree_registry_deserialize (concat (registry_fields v ids r) @ q) new_tree_registry = Inr (migrated v r)"
proof -
  have trg: "w AND 0x00ffffff = 0x00475254" if "known_registry_magic w" for w
    using that by (auto simp: known_registry_magic_def k_tree_registry_magic_v2_def k_tree_registry_magic_v3_def
        k_tree_registry_magic_v4_def)
  have v1: "v = V1 \<longrightarrow> \<not> known_registry_magic (tr_node_limit r)"
    using assms(2) trg by blast
  have "known_registry_magic (first_word_of v r) \<or> first_word_of v r AND 0x00ffffff \<noteq> 0x00475254"
    using assms(2) by (cases v) (simp_all add: first_word_of_def known_registry_magic_def)
  then show ?thesis
    using read_registry_written [OF assms(1) v1, of q]
    by (subst registry_first_word) (simp add: tree_registry_deserialize_def u32c.read_one)
qed

lemma extends_chunk_refs: "extends (read_chunk_refs n refs)"
proof (induction n arbitrary: refs)
  case 0
  then show ?case by (simp add: extends_def)
next
  case (Suc n)
  show ?case unfolding read_chunk_refs.simps by (intro reader_intros Suc.IH)
qed

lemma extends_registry: "extends (read_registry r w)"
  unfolding read_registry_def read_config_def read_v2_state_def read_tree_rows_def
  by (intro reader_intros extends_chunk_refs)

lemma registry_cut:
  assumes "registry_ok ids r" and "n < length (concat (registry_fields V4 ids r))"
  shows "tree_registry_deserialize (take n (concat (registry_fields V4 ids r))) new_tree_registry = Inl invalid_registry"
proof (cases "n < 4")
  case True
  then show ?thesis by (simp add: tree_registry_deserialize_def read_memory_none)
next
  case False
  let ?rest = "drop 4 (concat (registry_fields V4 ids r))"
  have "read_registry new_tree_registry k_tree_registry_magic_v4 ?rest = Some (migrated V4 r, [])"
    using read_registry_written [OF assms(1), of V4 "[]"] by (simp add: first_word_of_def)
  then have "read_registry new_tree_registry k_tree_registry_magic_v4 (take (n - 4) ?rest) = None"
    by (rule strict_prefix_refused [OF extends_registry]) (use assms(2) False in simp)
  moreover have "take n (concat (registry_fields V4 ids r)) = word_bytes k_tree_registry_magic_v4 @ take (n - 4) ?rest"
  proof -
    have "first_word_of V4 r = k_tree_registry_magic_v4" by (simp add: first_word_of_def)
    then have "take n (concat (registry_fields V4 ids r)) = take n (word_bytes k_tree_registry_magic_v4 @ ?rest)"
      using arg_cong [OF registry_first_word [of V4 ids r], of "take n"] by (simp only:)
    also have "\<dots> = word_bytes k_tree_registry_magic_v4 @ take (n - 4) ?rest"
      using False by (simp add: take_append)
    finally show ?thesis .
  qed
  ultimately show ?thesis
    by (simp add: tree_registry_deserialize_def u32c.read_one known_registry_magic_def)
qed

text \<open>C12: The registry is written into exactly the computed size and read back into a new registry
  unchanged: counters, configuration with its padding, watermark, chunk lifetimes in whatever order
  they were iterated, locations, states, bands and the input snapshot; the slots of the loaded
  trees come back empty.\<close>

theorem registry_roundtrip:
  assumes "registry_ok ids r"
  shows "\<exists>data. tree_registry_serialize ids r = Some data \<and> length data = tree_registry_size ids r \<and>
    tree_registry_deserialize data new_tree_registry =
      Inr (r\<lparr>tr_slots := length (tr_locations r), tr_id_initialized := replicate (length (tr_locations r)) 0\<rparr>)"
proof -
  let ?f = "concat (registry_fields V4 ids r)"
  have "tree_registry_serialize ids r = Some ?f"
    using write_seq_fits [of "registry_fields V4 ids r" "tree_registry_size ids r"]
    by (simp add: tree_registry_serialize_def write_registry_seq [OF assms] length_registry_fields [OF assms])
  moreover have "tree_registry_deserialize ?f new_tree_registry = Inr (migrated V4 r)"
    using deserialize_layout [OF assms, of V4 "[]"] by simp
  ultimately show ?thesis
    using length_registry_fields [OF assms] by (auto simp: migrated_def migrated_config_def)
qed

text \<open>C13: Registries of the older layouts stay readable: \<open>TRG3\<close> and \<open>TRG2\<close> and the layout without a magic
  give the stored fields, with the classic level-of-detail behaviour, the counters' starting values
  and no chunk lifetimes where the layout has none, and, without a magic, every tree still
  building, none in a band, no watermark and no snapshot.\<close>

theorem registry_layouts_readable:
  assumes "registry_ok ids r"
  shows "tree_registry_deserialize (concat (registry_fields V3 ids r)) new_tree_registry = Inr (migrated V3 r) \<and>
    tree_registry_deserialize (concat (registry_fields V2 ids r)) new_tree_registry = Inr (migrated V2 r) \<and>
    (tr_node_limit r AND 0x00ffffff \<noteq> 0x00475254 \<longrightarrow>
       tree_registry_deserialize (concat (registry_fields V1 ids r)) new_tree_registry = Inr (migrated V1 r))"
  using deserialize_layout [OF assms, of V3 "[]"] deserialize_layout [OF assms, of V2 "[]"]
    deserialize_layout [OF assms, of V1 "[]"] by simp

text \<open>C14: A registry that was cut off anywhere is refused as invalid, and one whose first word names a
  version this program does not know is refused as written by a newer version, never read as the
  layout without a magic.\<close>

theorem registry_refused:
  assumes "registry_ok ids r"
    and "w AND 0x00ffffff = (0x00475254 :: u32)"
    and "w \<notin> {k_tree_registry_magic_v2, k_tree_registry_magic_v3, k_tree_registry_magic_v4}"
  shows "(\<forall>data n. tree_registry_serialize ids r = Some data \<and> n < length data \<longrightarrow>
      tree_registry_deserialize (take n data) new_tree_registry = Inl invalid_registry) \<and>
    tree_registry_deserialize (word_bytes w @ rest) new_tree_registry = Inl newer_registry"
proof -
  have "tree_registry_serialize ids r = Some (concat (registry_fields V4 ids r))"
    using write_seq_fits [of "registry_fields V4 ids r" "tree_registry_size ids r"]
    by (simp add: tree_registry_serialize_def write_registry_seq [OF assms(1)] length_registry_fields [OF assms(1)])
  then show ?thesis
    using registry_cut [OF assms(1)] assms(2,3)
    by (simp add: tree_registry_deserialize_def u32c.read_one known_registry_magic_def)
qed

section \<open>Examples\<close>

definition example_registry :: tree_registry where
  "example_registry = new_tree_registry\<lparr>tr_node_limit := 100, tr_chunk_refs := [example_unit \<mapsto> \<lparr>cr_tree_count = 1, cr_point_count = 5\<rparr>],
     tr_locations := [example_location], tr_state := [1], tr_band := [0], tr_input_snapshot := [1, 2, 3]\<rparr>"

lemma example_registry_ok: "registry_ok [example_unit] example_registry"
  by (simp add: registry_ok_def example_registry_def new_tree_registry_def)

theorem registry_roundtrip_witness:
  "\<exists>data. tree_registry_serialize [example_unit] example_registry = Some data"
  using registry_roundtrip [OF example_registry_ok] by blast

theorem registry_layouts_readable_witness:
  "tree_registry_deserialize (concat (registry_fields V1 [example_unit] example_registry)) new_tree_registry =
     Inr (migrated V1 example_registry)"
  using registry_layouts_readable [OF example_registry_ok]
  by (simp add: example_registry_def)

theorem registry_refused_witness:
  "tree_registry_deserialize (word_bytes (0x35475254 :: u32)) new_tree_registry = Inl newer_registry"
  using registry_refused [OF example_registry_ok, of "0x35475254" "[]"]
  by (simp add: k_tree_registry_magic_v2_def k_tree_registry_magic_v3_def k_tree_registry_magic_v4_def)

end
