(* ===== verification/Residency.thy ===== *)
theory Residency
  imports Dataset
begin

text \<open>
  \<open>src/src/core/blob_residency.hpp/.cpp\<close>: which data blobs still have local bytes, which live only
  remotely, and which local bytes may be reclaimed. The entries sit in a slab; the hash map from a
  blob's offset to its slab slot is a partial function, its iteration order a parameter where it is
  iterated. The evictable entries form a doubly linked list through the slab, its links 32-bit slot
  numbers with \<open>k_invalid_index\<close> for none. Slot numbers are natural numbers, taken modulo 2^32 where
  the code casts the slab's size. This theory holds the operations; the lemmas follow in
  \<open>ResidencyLru\<close> and \<open>ResidencyDurable\<close>.
\<close>

section \<open>The state\<close>

datatype blob_residency_state = local_uploaded | remote_uploaded | local_spilled | remote_spilled

definition k_invalid_index :: nat where "k_invalid_index = 2 ^ 32 - 1"

record residency_entry =
  re_offset :: u64
  re_size :: u32
  re_state :: blob_residency_state
  re_durable :: bool
  re_inflight :: u16
  re_generation :: u32
  re_remote_id :: u64
  re_prev :: nat
  re_next :: nat

definition new_entry :: residency_entry where
  "new_entry = \<lparr>re_offset = 0, re_size = 0, re_state = local_uploaded, re_durable = False, re_inflight = 0,
     re_generation = 0, re_remote_id = 0, re_prev = k_invalid_index, re_next = k_invalid_index\<rparr>"

record blob_residency =
  rs_map :: "u64 \<rightharpoonup> nat"
  rs_slab :: "residency_entry list"
  rs_free :: "nat list"
  rs_head :: nat
  rs_tail :: nat
  rs_resident :: u64
  rs_cap :: u64
  rs_generation :: u32

definition new_residency :: blob_residency where
  "new_residency = \<lparr>rs_map = Map.empty, rs_slab = [], rs_free = [], rs_head = k_invalid_index,
     rs_tail = k_invalid_index, rs_resident = 0, rs_cap = 0, rs_generation = 1\<rparr>"

definition upd :: "nat \<Rightarrow> (residency_entry \<Rightarrow> residency_entry) \<Rightarrow> blob_residency \<Rightarrow> blob_residency" where
  "upd i f r = r\<lparr>rs_slab := (rs_slab r)[i := f (rs_slab r ! i)]\<rparr>"

section \<open>Resident bytes\<close>

definition set_cap :: "u64 \<Rightarrow> blob_residency \<Rightarrow> blob_residency" where
  "set_cap cap_bytes r = r\<lparr>rs_cap := cap_bytes\<rparr>"

definition account_alloc :: "u64 \<Rightarrow> blob_residency \<Rightarrow> blob_residency" where
  "account_alloc n r = r\<lparr>rs_resident := rs_resident r + n\<rparr>"

definition account_freed :: "u64 \<Rightarrow> blob_residency \<Rightarrow> blob_residency" where
  "account_freed n r = r\<lparr>rs_resident := rs_resident r - (if n < rs_resident r then n else rs_resident r)\<rparr>"

definition over_soft :: "blob_residency \<Rightarrow> bool" where
  "over_soft r \<longleftrightarrow> rs_cap r \<noteq> 0 \<and> rs_cap r - rs_cap r div 8 < rs_resident r"

definition over_hard :: "u64 \<Rightarrow> blob_residency \<Rightarrow> bool" where
  "over_hard incoming r \<longleftrightarrow> rs_cap r \<noteq> 0 \<and> rs_cap r < rs_resident r + incoming"

section \<open>The slab and the list through it\<close>

definition get_or_create :: "u64 \<Rightarrow> u32 \<Rightarrow> blob_residency \<Rightarrow> nat \<times> blob_residency" where
  "get_or_create offset sz r =
     (case rs_map r offset of
        Some i \<Rightarrow> (i, r)
      | None \<Rightarrow>
          (let (i, r) =
             (if rs_free r \<noteq> []
              then (last (rs_free r),
                    r\<lparr>rs_free := butlast (rs_free r), rs_slab := (rs_slab r)[last (rs_free r) := new_entry]\<rparr>)
              else (wrap32 (length (rs_slab r)), r\<lparr>rs_slab := rs_slab r @ [new_entry]\<rparr>))
           in (i, (upd i (\<lambda>e. e\<lparr>re_offset := offset, re_size := sz\<rparr>) r)\<lparr>rs_map := (rs_map r)(offset \<mapsto> i)\<rparr>)))"

definition lru_unlink :: "nat \<Rightarrow> blob_residency \<Rightarrow> blob_residency" where
  "lru_unlink i r =
     (let e = rs_slab r ! i;
          r = (if re_prev e \<noteq> k_invalid_index then upd (re_prev e) (\<lambda>p. p\<lparr>re_next := re_next e\<rparr>) r
               else if rs_head r = i then r\<lparr>rs_head := re_next e\<rparr> else r);
          e = rs_slab r ! i;
          r = (if re_next e \<noteq> k_invalid_index then upd (re_next e) (\<lambda>n. n\<lparr>re_prev := re_prev e\<rparr>) r
               else if rs_tail r = i then r\<lparr>rs_tail := re_prev e\<rparr> else r)
      in upd i (\<lambda>e. e\<lparr>re_prev := k_invalid_index, re_next := k_invalid_index\<rparr>) r)"

definition lru_push_front :: "nat \<Rightarrow> blob_residency \<Rightarrow> blob_residency" where
  "lru_push_front i r =
     (let r = upd i (\<lambda>e. e\<lparr>re_prev := k_invalid_index, re_next := rs_head r\<rparr>) r;
          r = (if rs_head r \<noteq> k_invalid_index then upd (rs_head r) (\<lambda>h. h\<lparr>re_prev := i\<rparr>) r else r);
          r = r\<lparr>rs_head := i\<rparr>
      in if rs_tail r = k_invalid_index then r\<lparr>rs_tail := i\<rparr> else r)"

section \<open>Recording remote copies\<close>

definition record_remote :: "nat \<Rightarrow> u64 \<Rightarrow> blob_residency_state \<Rightarrow> blob_residency \<Rightarrow> blob_residency" where
  "record_remote i remote_id st r =
     upd i (\<lambda>e. e\<lparr>re_state := st, re_remote_id := remote_id, re_durable := False, re_generation := rs_generation r\<rparr>) r"

fun uploaded_state :: "blob_residency_state \<Rightarrow> blob_residency_state" where
  "uploaded_state local_spilled = local_uploaded"
| "uploaded_state remote_spilled = remote_uploaded"
| "uploaded_state local_uploaded = local_uploaded"
| "uploaded_state remote_uploaded = remote_uploaded"

definition mark_uploaded :: "u64 \<Rightarrow> u32 \<Rightarrow> u64 \<Rightarrow> blob_residency \<Rightarrow> u64 \<times> blob_residency" where
  "mark_uploaded offset sz remote_id r =
     (let (i, r) = get_or_create offset sz r;
          e = rs_slab r ! i;
          previous_spill_id = (if re_state e = local_spilled \<or> re_state e = remote_spilled then re_remote_id e else 0);
          st = uploaded_state (re_state e);
          r = record_remote i remote_id st r
      in (previous_spill_id, if st = local_uploaded then lru_push_front i (lru_unlink i r) else r))"

definition mark_spilled :: "u64 \<Rightarrow> u32 \<Rightarrow> u64 \<Rightarrow> blob_residency \<Rightarrow> blob_residency" where
  "mark_spilled offset sz remote_id r =
     (let (i, r) = get_or_create offset sz r
      in record_remote i remote_id local_spilled (lru_unlink i r))"

definition mark_spilled_remote :: "u64 \<Rightarrow> u32 \<Rightarrow> u64 \<Rightarrow> blob_residency \<Rightarrow> blob_residency" where
  "mark_spilled_remote offset sz remote_id r =
     (let (i, r) = get_or_create offset sz r
      in record_remote i remote_id remote_spilled (lru_unlink i r))"

section \<open>The checkpoint barrier\<close>

definition serialize_generation :: "blob_residency \<Rightarrow> u32 \<times> blob_residency" where
  "serialize_generation r = (rs_generation r, r\<lparr>rs_generation := rs_generation r + 1\<rparr>)"

definition commit_entry :: "u32 \<Rightarrow> residency_entry \<Rightarrow> residency_entry" where
  "commit_entry g e = (if \<not> re_durable e \<and> re_generation e \<le> g then e\<lparr>re_durable := True\<rparr> else e)"

definition commit_durable :: "u64 list \<Rightarrow> u32 \<Rightarrow> blob_residency \<Rightarrow> blob_residency" where
  "commit_durable offsets g r =
     foldl (\<lambda>r off. case rs_map r off of None \<Rightarrow> r | Some i \<Rightarrow> upd i (commit_entry g) r) r offsets"

section \<open>Giving up local bytes\<close>

definition has_local_bytes :: "residency_entry \<Rightarrow> bool" where
  "has_local_bytes e \<longleftrightarrow> re_state e = local_uploaded \<or> re_state e = local_spilled"

definition evict :: "u64 \<Rightarrow> blob_residency \<Rightarrow> bool \<times> blob_residency" where
  "evict offset r =
     (case rs_map r offset of
        None \<Rightarrow> (False, r)
      | Some i \<Rightarrow>
          (let e = rs_slab r ! i in
           if re_state e \<noteq> local_uploaded \<or> \<not> re_durable e \<or> re_inflight e \<noteq> 0 then (False, r)
           else (True, account_freed (ucast (re_size e))
                         (upd i (\<lambda>e. e\<lparr>re_state := remote_uploaded\<rparr>) (lru_unlink i r)))))"

definition drop_spilled_local :: "u64 \<Rightarrow> blob_residency \<Rightarrow> bool \<times> blob_residency" where
  "drop_spilled_local offset r =
     (case rs_map r offset of
        None \<Rightarrow> (False, r)
      | Some i \<Rightarrow>
          (let e = rs_slab r ! i in
           if re_state e \<noteq> local_spilled \<or> \<not> re_durable e \<or> re_inflight e \<noteq> 0 then (False, r)
           else (True, account_freed (ucast (re_size e)) (upd i (\<lambda>e. e\<lparr>re_state := remote_spilled\<rparr>) r))))"

record forgotten_blob =
  fb_existed :: bool
  fb_punch_local :: bool
  fb_spilled :: bool
  fb_remote_id :: u64

definition forget :: "u64 \<Rightarrow> blob_residency \<Rightarrow> forgotten_blob \<times> blob_residency" where
  "forget offset r =
     (case rs_map r offset of
        None \<Rightarrow> (\<lparr>fb_existed = False, fb_punch_local = False, fb_spilled = False, fb_remote_id = 0\<rparr>, r)
      | Some i \<Rightarrow>
          (let e = rs_slab r ! i;
               here = has_local_bytes e;
               out = \<lparr>fb_existed = True, fb_punch_local = (here \<and> re_inflight e = 0),
                      fb_spilled = (re_state e = local_spilled \<or> re_state e = remote_spilled),
                      fb_remote_id = re_remote_id e\<rparr>;
               r = (if here then account_freed (ucast (re_size e)) r else r);
               r = lru_unlink i r
           in (out, (upd i (\<lambda>_. new_entry) r)\<lparr>rs_map := (rs_map r)(offset := None), rs_free := rs_free r @ [i]\<rparr>)))"

section \<open>Reads and eviction\<close>

definition find_entry :: "u64 \<Rightarrow> blob_residency \<Rightarrow> residency_entry option" where
  "find_entry offset r = map_option (\<lambda>i. rs_slab r ! i) (rs_map r offset)"

definition touch :: "nat \<Rightarrow> blob_residency \<Rightarrow> blob_residency" where
  "touch i r = (if re_state (rs_slab r ! i) \<noteq> local_uploaded then r else lru_push_front i (lru_unlink i r))"

definition begin_local_read :: "nat \<Rightarrow> blob_residency \<Rightarrow> blob_residency" where
  "begin_local_read i r = upd i (\<lambda>e. e\<lparr>re_inflight := re_inflight e + 1\<rparr>) r"

definition end_local_read :: "nat \<Rightarrow> blob_residency \<Rightarrow> blob_residency" where
  "end_local_read i r = upd i (\<lambda>e. if re_inflight e \<noteq> 0 then e\<lparr>re_inflight := re_inflight e - 1\<rparr> else e) r"

text \<open>The walk from the tail; the fuel is the number of slots, which bounds the length of the list.\<close>

fun victim_walk :: "nat \<Rightarrow> residency_entry list \<Rightarrow> nat \<Rightarrow> nat option" where
  "victim_walk 0 slab i = None"
| "victim_walk (Suc fuel) slab i =
     (if i = k_invalid_index then None
      else (let e = slab ! i in
        if re_durable e \<and> re_inflight e = 0 then Some i else victim_walk fuel slab (re_prev e)))"

definition pick_evict_victim :: "blob_residency \<Rightarrow> nat option" where
  "pick_evict_victim r = victim_walk (length (rs_slab r)) (rs_slab r) (rs_tail r)"

section \<open>The stored table\<close>

definition k_residency_magic :: u32 where "k_residency_magic = 0x31534252"

fun state_code :: "blob_residency_state \<Rightarrow> u8" where
  "state_code local_uploaded = 1"
| "state_code remote_uploaded = 2"
| "state_code local_spilled = 3"
| "state_code remote_spilled = 4"

definition code_state :: "u8 \<Rightarrow> blob_residency_state option" where
  "code_state c = (if c = 1 then Some local_uploaded else if c = 2 then Some remote_uploaded
     else if c = 3 then Some local_spilled else if c = 4 then Some remote_spilled else None)"

definition write_residency_entry :: "residency_entry \<Rightarrow> wcursor \<Rightarrow> wcursor option" where
  "write_residency_entry e c = do {
     c \<leftarrow> write_memory (word_bytes (re_offset e)) c;
     c \<leftarrow> write_memory (word_bytes (re_remote_id e)) c;
     c \<leftarrow> write_memory (word_bytes (re_size e)) c;
     c \<leftarrow> write_memory (word_bytes (state_code (re_state e))) c;
     write_memory (word_bytes ((if re_durable e then 1 else 0) :: u8)) c }"

definition entry_at :: "blob_residency \<Rightarrow> u64 \<Rightarrow> residency_entry" where
  "entry_at r off = (case rs_map r off of None \<Rightarrow> new_entry | Some i \<Rightarrow> rs_slab r ! i)"

definition residency_size :: "u64 list \<Rightarrow> nat" where
  "residency_size offsets = wrap32 (4 + 1 + 8 * 2 + 4 * 2 + wrap32 (length offsets) * (8 * 2 + 4 + 1 * 2))"

definition serialize_residency :: "u64 list \<Rightarrow> bool \<Rightarrow> blob_residency \<Rightarrow> bytes" where
  "serialize_residency offsets clean_shutdown r =
     (case (do {
        c \<leftarrow> write_memory (word_bytes k_residency_magic) (fresh (residency_size offsets));
        c \<leftarrow> write_memory (word_bytes ((if clean_shutdown then 1 else 0) :: u8)) c;
        c \<leftarrow> write_memory (word_bytes (rs_cap r)) c;
        c \<leftarrow> write_memory (word_bytes (rs_resident r)) c;
        c \<leftarrow> write_memory (word_bytes (rs_generation r)) c;
        c \<leftarrow> write_memory (word_bytes (word_of_nat (length offsets) :: u32)) c;
        write_all (\<lambda>off. write_residency_entry (entry_at r off)) offsets c })
      of None \<Rightarrow> [] | Some c \<Rightarrow> buffer_of c)"

definition invalid_residency :: dew_error where
  "invalid_residency = \<lparr>err_code = 1, err_msg = ''Invalid blob residency data''\<rparr>"

fun demoted_state :: "blob_residency_state \<Rightarrow> blob_residency_state" where
  "demoted_state local_uploaded = remote_uploaded"
| "demoted_state local_spilled = remote_spilled"
| "demoted_state remote_uploaded = remote_uploaded"
| "demoted_state remote_spilled = remote_spilled"

text \<open>One entry of the reading loop: an unclean shutdown demotes it to its remote copy.\<close>

definition add_read_entry :: "bool \<Rightarrow> residency_entry \<Rightarrow> blob_residency \<Rightarrow> blob_residency" where
  "add_read_entry clean e r =
     (let r = (if \<not> clean \<and> has_local_bytes e then account_freed (ucast (re_size e)) r else r);
          e = (if clean then e else e\<lparr>re_state := demoted_state (re_state e)\<rparr>);
          i = wrap32 (length (rs_slab r));
          r = r\<lparr>rs_slab := rs_slab r @ [e], rs_map := (rs_map r)(re_offset e \<mapsto> i)\<rparr>
      in if re_state e = local_uploaded then lru_push_front i r else r)"

definition read_residency_entry :: "bytes \<Rightarrow> (residency_entry \<times> bytes) option" where
  "read_residency_entry p = do {
     (offset, p) \<leftarrow> read_memory 8 bytes_word p;
     (remote_id, p) \<leftarrow> read_memory 8 bytes_word p;
     (sz, p) \<leftarrow> read_memory 4 bytes_word p;
     (st :: u8, p) \<leftarrow> read_memory 1 bytes_word p;
     (durable :: u8, p) \<leftarrow> read_memory 1 bytes_word p;
     st \<leftarrow> code_state st;
     Some (new_entry\<lparr>re_offset := offset, re_remote_id := remote_id, re_size := sz, re_state := st,
             re_durable := True\<rparr>, p) }"

fun read_residency_entries :: "nat \<Rightarrow> bool \<Rightarrow> blob_residency \<Rightarrow> bytes \<Rightarrow> (blob_residency \<times> bytes) option" where
  "read_residency_entries 0 clean r p = Some (r, p)"
| "read_residency_entries (Suc n) clean r p =
     (case read_residency_entry p of
        None \<Rightarrow> None
      | Some (e, p') \<Rightarrow> read_residency_entries n clean (add_read_entry clean e r) p')"

definition deserialize_residency :: "bytes \<Rightarrow> blob_residency result" where
  "deserialize_residency data =
     (case (do {
        (magic :: u32, p) \<leftarrow> read_memory 4 bytes_word data;
        if magic \<noteq> k_residency_magic then None
        else do {
          (clean :: u8, p) \<leftarrow> read_memory 1 bytes_word p;
          (cap_bytes, p) \<leftarrow> read_memory 8 bytes_word p;
          (resident, p) \<leftarrow> read_memory 8 bytes_word p;
          (generation, p) \<leftarrow> read_memory 4 bytes_word p;
          (n :: u32, p) \<leftarrow> read_memory 4 bytes_word p;
          read_residency_entries (unat n) (clean \<noteq> 0)
            (new_residency\<lparr>rs_cap := cap_bytes, rs_resident := resident, rs_generation := generation\<rparr>) p } })
      of None \<Rightarrow> Inl invalid_residency | Some (r, _) \<Rightarrow> Inr r)"

end
