(* ===== verification/ResidencyLru.thy ===== *)
theory ResidencyLru
  imports Residency
begin

text \<open>
  The invariant of \<open>Residency\<close>: the links through the slab describe one list of slots, unlinking and
  pushing act on it as removal and prepending, and the list holds exactly the entries that may be
  evicted. Finding or creating an entry keeps the invariant up to the entry that is being entered.
\<close>

section \<open>A list through the slab\<close>

text \<open>The slot after \<open>x\<close> in a list of slots, \<open>k_invalid_index\<close> at its end and for slots not in it.\<close>

fun next_of :: "nat list \<Rightarrow> nat \<Rightarrow> nat" where
  "next_of [] x = k_invalid_index"
| "next_of (y # ys) x = (if x = y then (if ys = [] then k_invalid_index else hd ys) else next_of ys x)"

definition first_of :: "nat list \<Rightarrow> nat" where
  "first_of xs = (if xs = [] then k_invalid_index else hd xs)"

text \<open>The list \<open>xs\<close> of slots, most recently used first, is what the links and the two ends say.\<close>

definition lru_list :: "blob_residency \<Rightarrow> nat list \<Rightarrow> bool" where
  "lru_list r xs \<longleftrightarrow> distinct xs \<and> (\<forall>x \<in> set xs. x < length (rs_slab r)) \<and>
     length (rs_slab r) \<le> k_invalid_index \<and>
     rs_head r = first_of xs \<and> rs_tail r = first_of (rev xs) \<and>
     (\<forall>x < length (rs_slab r). re_next (rs_slab r ! x) = next_of xs x \<and> re_prev (rs_slab r ! x) = next_of (rev xs) x)"

lemma lru_listD:
  assumes "lru_list r xs"
  shows "distinct xs" and "\<And>x. x \<in> set xs \<Longrightarrow> x < length (rs_slab r)" and "length (rs_slab r) \<le> k_invalid_index"
    and "rs_head r = first_of xs" and "rs_tail r = first_of (rev xs)"
    and "\<And>x. x < length (rs_slab r) \<Longrightarrow> re_next (rs_slab r ! x) = next_of xs x"
    and "\<And>x. x < length (rs_slab r) \<Longrightarrow> re_prev (rs_slab r ! x) = next_of (rev xs) x"
  using assms unfolding lru_list_def by blast+

lemma next_of_notin [simp]: "x \<notin> set xs \<Longrightarrow> next_of xs x = k_invalid_index"
  by (induction xs) auto

lemma next_of_in: "next_of xs x \<noteq> k_invalid_index \<Longrightarrow> next_of xs x \<in> set xs \<and> x \<in> set xs"
  by (induction xs) (auto split: if_splits)

lemma next_of_append:
  "distinct (xs @ ys) \<Longrightarrow> next_of (xs @ ys) x =
     (if x \<in> set ys then next_of ys x
      else if xs \<noteq> [] \<and> x = last xs then first_of ys else next_of xs x)"
  by (induction xs) (auto simp: first_of_def)


lemma next_of_remove:
  assumes "distinct xs" and "x \<in> set xs" and "x \<noteq> k_invalid_index"
  shows "next_of (remove1 x xs) y =
    (if y = x then k_invalid_index else if next_of xs y = x then next_of xs x else next_of xs y)"
proof -
  obtain as bs where xs: "xs = as @ x # bs" and x: "x \<notin> set as" "x \<notin> set bs"
    using assms(1,2) by (metis in_set_conv_decomp_first distinct_append distinct.simps(2))
  have rem: "remove1 x (as @ x # bs) = as @ bs" using x by (simp add: remove1_append)
  have d: "distinct (as @ bs)" "distinct (as @ x # bs)" using assms(1) by (auto simp: xs)
  have out: "next_of as y \<noteq> x" "next_of bs y \<noteq> x"
    using next_of_in [of as y] next_of_in [of bs y] x assms(3) by metis+
  have at: "next_of xs x = first_of bs"
    using x by (simp add: xs next_of_append [OF d(2)] first_of_def)
  show ?thesis
    unfolding at unfolding xs rem unfolding next_of_append [OF d(1)] next_of_append [OF d(2)]
    using x d out by (auto simp: first_of_def)
qed

lemma next_of_push:
  assumes "x \<notin> set xs"
  shows "next_of (x # xs) y = (if y = x then first_of xs else next_of xs y)"
  by (simp add: first_of_def)

lemma prev_of_push:
  assumes "distinct xs" and "x \<notin> set xs"
  shows "next_of (rev (x # xs)) y =
    (if y = x then k_invalid_index else if xs \<noteq> [] \<and> y = hd xs then x else next_of (rev xs) y)"
  using assms by (cases "xs = []") (simp_all add: next_of_append last_rev first_of_def)

lemma rev_remove1: "distinct xs \<Longrightarrow> rev (remove1 x xs) = remove1 x (rev xs)"
  by (simp add: distinct_remove1_removeAll removeAll_filter_not_eq rev_filter)

text \<open>Going forth and back: the slot before \<open>x\<close> is the one whose successor is \<open>x\<close>.\<close>

lemma next_prev:
  assumes "distinct xs" and "x \<in> set xs" and "y \<in> set xs"
    and "\<And>z. z \<in> set xs \<Longrightarrow> z \<noteq> k_invalid_index"
  shows "next_of (rev xs) x = y \<longleftrightarrow> next_of xs y = x"
  using assms
proof (induction xs)
  case Nil
  then show ?case by simp
next
  case (Cons z zs)
  have p: "next_of (rev (z # zs)) x = (if x = z then k_invalid_index else if zs \<noteq> [] \<and> x = hd zs then z else next_of (rev zs) x)"
    by (rule prev_of_push) (use Cons.prems in auto)
  have in_zs: "next_of (rev zs) x \<noteq> z" using next_of_in [of "rev zs" x] Cons.prems by fastforce
  have in_zs': "next_of zs y \<noteq> z" using next_of_in [of zs y] Cons.prems by fastforce
  consider "x = z" | "x \<noteq> z" "y = z" | "x \<noteq> z" "y \<noteq> z" by blast
  then show ?case
  proof cases
    case 1
    then show ?thesis using p in_zs' Cons.prems by (auto split: if_splits)
  next
    case 2
    then have "x \<in> set zs" using Cons.prems by simp
    then show ?thesis using p 2 in_zs by (auto split: if_splits)
  next
    case 3
    then have m: "x \<in> set zs" "y \<in> set zs" using Cons.prems by auto
    have ih: "next_of (rev zs) x = y \<longleftrightarrow> next_of zs y = x"
      using Cons.IH m Cons.prems by simp
    have hd: "next_of (rev zs) (hd zs) = k_invalid_index"
    proof (cases zs)
      case (Cons a as)
      then show ?thesis using Cons.prems prev_of_push [of as a a] \<open>distinct (z # zs)\<close> by auto
    qed simp
    show ?thesis using p 3 m ih hd Cons.prems by (auto split: if_splits)
  qed
qed

lemma first_of_remove:
  "distinct xs \<Longrightarrow> x \<in> set xs \<Longrightarrow> first_of (remove1 x xs) = (if first_of xs = x then next_of xs x else first_of xs)"
  by (cases xs) (auto simp: first_of_def)


section \<open>Unlinking and pushing\<close>

text \<open>An entry without its links, and the rest of the state: what the list operations leave alone.\<close>

definition core :: "residency_entry \<Rightarrow> residency_entry" where
  "core e = e\<lparr>re_prev := k_invalid_index, re_next := k_invalid_index\<rparr>"

definition same_table :: "blob_residency \<Rightarrow> blob_residency \<Rightarrow> bool" where
  "same_table r r' \<longleftrightarrow> map core (rs_slab r') = map core (rs_slab r) \<and> rs_map r' = rs_map r \<and> rs_free r' = rs_free r \<and>
     rs_resident r' = rs_resident r \<and> rs_cap r' = rs_cap r \<and> rs_generation r' = rs_generation r"

lemma same_table_refl [simp]: "same_table r r"
  by (simp add: same_table_def)

lemma same_table_trans: "same_table a b \<Longrightarrow> same_table b c \<Longrightarrow> same_table a c"
  by (simp add: same_table_def)

lemma same_tableD:
  assumes "same_table r r'"
  shows "length (rs_slab r') = length (rs_slab r)" and "rs_map r' = rs_map r" and "rs_free r' = rs_free r"
    and "rs_resident r' = rs_resident r" and "rs_cap r' = rs_cap r" and "rs_generation r' = rs_generation r"
    and "i < length (rs_slab r) \<Longrightarrow> core (rs_slab r' ! i) = core (rs_slab r ! i)"
proof -
  show len: "length (rs_slab r') = length (rs_slab r)"
    using assms unfolding same_table_def by (metis length_map)
  show "rs_map r' = rs_map r" and "rs_free r' = rs_free r" and "rs_resident r' = rs_resident r"
    and "rs_cap r' = rs_cap r" and "rs_generation r' = rs_generation r"
    using assms by (simp_all add: same_table_def)
  assume "i < length (rs_slab r)"
  then show "core (rs_slab r' ! i) = core (rs_slab r ! i)"
    using assms len unfolding same_table_def by (metis nth_map)
qed

lemma core_fields:
  assumes "core a = core b"
  shows "re_offset a = re_offset b" and "re_size a = re_size b" and "re_state a = re_state b"
    and "re_durable a = re_durable b" and "re_inflight a = re_inflight b" and "re_generation a = re_generation b"
    and "re_remote_id a = re_remote_id b"
  using assms by (cases a; cases b; simp add: core_def)+

lemma core_links [simp]: "core (e\<lparr>re_prev := a\<rparr>) = core e" "core (e\<lparr>re_next := b\<rparr>) = core e"
  by (simp_all add: core_def)

lemma upd_same_table:
  assumes "\<And>e. core (f e) = core e"
  shows "same_table r (upd i f r)"
proof -
  have "map core ((rs_slab r)[i := f (rs_slab r ! i)]) = map core (rs_slab r)"
    by (cases "i < length (rs_slab r)") (simp_all add: map_update assms list_update_same_conv list_update_beyond)
  then show ?thesis by (simp add: same_table_def upd_def)
qed

lemma ends_same_table: "same_table r (r\<lparr>rs_head := a\<rparr>)" "same_table r (r\<lparr>rs_tail := b\<rparr>)"
  by (simp_all add: same_table_def)

lemma step_same_table:
  "same_table r (if a then upd k (\<lambda>e. e\<lparr>re_next := n\<rparr>) r else if b then r\<lparr>rs_head := h\<rparr> else r)"
  "same_table r (if a then upd k (\<lambda>e. e\<lparr>re_prev := n\<rparr>) r else if b then r\<lparr>rs_tail := h\<rparr> else r)"
  by (auto intro: upd_same_table ends_same_table)

lemma unlink_same_table: "same_table r (lru_unlink i r)"
  unfolding lru_unlink_def Let_def
  by (rule same_table_trans [OF same_table_trans [OF step_same_table(1) step_same_table(2)] upd_same_table]) simp

lemma push_same_table: "same_table r (lru_push_front i r)"
proof -
  have one: "same_table r (upd i (\<lambda>e. e\<lparr>re_prev := k_invalid_index, re_next := rs_head r\<rparr>) r)"
    by (rule upd_same_table) simp
  have "same_table r' (if rs_head r' \<noteq> k_invalid_index then upd (rs_head r') (\<lambda>h. h\<lparr>re_prev := i\<rparr>) r' else r')" for r'
    by (auto intro: upd_same_table)
  note two = same_table_trans [OF one this]
  note three = same_table_trans [OF two ends_same_table(1) [of _ i]]
  show ?thesis
    unfolding lru_push_front_def Let_def
    using three same_table_trans [OF three ends_same_table(2) [of _ i]] by simp
qed

lemma nth_update: "y < length xs \<Longrightarrow> xs[p := v] ! y = (if y = p then v else xs ! y)"
  by (metis nth_list_update_eq nth_list_update_neq)

lemma unlink_links:
  assumes "i < length (rs_slab r)" and "length (rs_slab r) \<le> k_invalid_index"
    and "re_prev (rs_slab r ! i) \<noteq> i" and "re_next (rs_slab r ! i) \<noteq> i" and "y < length (rs_slab r)"
  shows "re_next (rs_slab (lru_unlink i r) ! y) =
      (if y = i then k_invalid_index else if y = re_prev (rs_slab r ! i) then re_next (rs_slab r ! i) else re_next (rs_slab r ! y))"
    and "re_prev (rs_slab (lru_unlink i r) ! y) =
      (if y = i then k_invalid_index else if y = re_next (rs_slab r ! i) then re_prev (rs_slab r ! i) else re_prev (rs_slab r ! y))"
    and "rs_head (lru_unlink i r) =
      (if re_prev (rs_slab r ! i) = k_invalid_index \<and> rs_head r = i then re_next (rs_slab r ! i) else rs_head r)"
    and "rs_tail (lru_unlink i r) =
      (if re_next (rs_slab r ! i) = k_invalid_index \<and> rs_tail r = i then re_prev (rs_slab r ! i) else rs_tail r)"
  using assms by (simp_all add: lru_unlink_def Let_def upd_def nth_update)

lemma first_of_in: "first_of xs \<noteq> k_invalid_index \<Longrightarrow> first_of xs \<in> set xs"
  by (auto simp: first_of_def split: if_splits)

lemma next_of_self: "distinct xs \<Longrightarrow> x \<noteq> k_invalid_index \<Longrightarrow> next_of xs x \<noteq> x"
proof (induction xs)
  case (Cons y ys)
  then show ?case using next_of_in [of ys x] by (auto simp: neq_Nil_conv)
qed simp

lemma next_of_end:
  assumes "distinct xs" and "x \<in> set xs" and "\<And>z. z \<in> set xs \<Longrightarrow> z \<noteq> k_invalid_index"
  shows "next_of xs x = k_invalid_index \<longleftrightarrow> x = last xs"
  using assms by (induction xs) auto

lemma prev_first:
  assumes "distinct xs" and "x \<in> set xs" and "\<And>z. z \<in> set xs \<Longrightarrow> z \<noteq> k_invalid_index"
  shows "next_of (rev xs) x = k_invalid_index \<longleftrightarrow> first_of xs = x"
proof -
  have "xs \<noteq> []" using assms(2) by auto
  then show ?thesis
    using next_of_end [of "rev xs" x] assms by (auto simp: last_rev first_of_def)
qed

lemma prev_is:
  assumes "distinct xs" and "x \<in> set xs" and "\<And>z. z \<in> set xs \<Longrightarrow> z \<noteq> k_invalid_index"
    and "y \<noteq> k_invalid_index"
  shows "y = next_of (rev xs) x \<longleftrightarrow> next_of xs y = x"
proof (cases "y \<in> set xs")
  case True
  then show ?thesis using next_prev [OF assms(1,2) True assms(3)] by auto
next
  case False
  then have "next_of (rev xs) x \<noteq> y" using next_of_in [of "rev xs" x] assms(4) by auto
  then show ?thesis using False assms(2,3) by auto
qed

lemma lru_unlink_list:
  assumes "lru_list r xs" and "i < length (rs_slab r)"
  shows "lru_list (lru_unlink i r) (remove1 i xs)"
proof -
  note d = lru_listD [OF assms(1)]
  have i: "i \<noteq> k_invalid_index" using assms(2) d(3) by simp
  have valid: "z \<noteq> k_invalid_index" if "z \<in> set xs" for z using d(2) [OF that] d(3) by simp
  have links: "re_next (rs_slab r ! i) = next_of xs i" "re_prev (rs_slab r ! i) = next_of (rev xs) i"
    using d(6,7) [OF assms(2)] by simp_all
  have "next_of (rev xs) i \<noteq> i" "next_of xs i \<noteq> i"
    using next_of_self [of "rev xs"] next_of_self [of xs] d(1) i by simp_all
  note u = unlink_links [OF assms(2) d(3), unfolded links, OF this]
  have len: "length (rs_slab (lru_unlink i r)) = length (rs_slab r)"
    by (rule same_tableD(1) [OF unlink_same_table])
  show ?thesis
  proof (cases "i \<in> set xs")
    case True
    have fst': "rs_head (lru_unlink i r) = first_of (remove1 i xs)"
      using prev_first [OF d(1) True valid] first_of_remove [OF d(1) True] u(3) [OF assms(2)] d(4) by auto
    have "rs_tail (lru_unlink i r) = first_of (remove1 i (rev xs))"
      using prev_first [of "rev xs" i] first_of_remove [of "rev xs" i] u(4) [OF assms(2)] d(1,5) True valid by auto
    then have lst': "rs_tail (lru_unlink i r) = first_of (rev (remove1 i xs))"
      by (simp add: rev_remove1 d(1))
    have nxt: "re_next (rs_slab (lru_unlink i r) ! y) = next_of (remove1 i xs) y" if "y < length (rs_slab r)" for y
    proof -
      have "y \<noteq> k_invalid_index" using that d(3) by simp
      then show ?thesis
        unfolding next_of_remove [OF d(1) True i] u(1) [OF that] d(6) [OF that]
        using prev_is [OF d(1) True valid, of y] by simp
    qed
    have prv: "re_prev (rs_slab (lru_unlink i r) ! y) = next_of (rev (remove1 i xs)) y" if "y < length (rs_slab r)" for y
    proof -
      have "y \<noteq> k_invalid_index" using that d(3) by simp
      then have "y = next_of xs i \<longleftrightarrow> next_of (rev xs) y = i"
        using prev_is [of "rev xs" i y] d(1) True valid by simp
      moreover have "next_of (remove1 i (rev xs)) y =
          (if y = i then k_invalid_index else if next_of (rev xs) y = i then next_of (rev xs) i else next_of (rev xs) y)"
        by (rule next_of_remove) (use d(1) True i in auto)
      ultimately show ?thesis
        unfolding rev_remove1 [OF d(1)] u(2) [OF that] d(7) [OF that] by simp
    qed
    show ?thesis
      unfolding lru_list_def len
      using d(1,2,3) fst' lst' nxt prv by (auto dest: notin_set_remove1)
  next
    case False
    then have "remove1 i xs = xs" by (simp add: remove1_idem)
    moreover have "first_of xs \<noteq> i" "first_of (rev xs) \<noteq> i"
      using False first_of_in [of xs] first_of_in [of "rev xs"] i by auto
    ultimately show ?thesis
      unfolding lru_list_def len
      using d u u(3,4) [OF assms(2)] False by auto
  qed
qed


lemma push_links:
  assumes "i < length (rs_slab r)" and "length (rs_slab r) \<le> k_invalid_index" and "y < length (rs_slab r)"
    and "rs_head r \<noteq> i" and "rs_head r \<noteq> k_invalid_index \<Longrightarrow> rs_head r < length (rs_slab r)"
  shows "re_next (rs_slab (lru_push_front i r) ! y) = (if y = i then rs_head r else re_next (rs_slab r ! y))"
    and "re_prev (rs_slab (lru_push_front i r) ! y) =
      (if y = i then k_invalid_index else if y = rs_head r then i else re_prev (rs_slab r ! y))"
    and "rs_head (lru_push_front i r) = i"
    and "rs_tail (lru_push_front i r) = (if rs_tail r = k_invalid_index then i else rs_tail r)"
  using assms by (simp_all add: lru_push_front_def Let_def upd_def nth_update)

lemma lru_push_list:
  assumes "lru_list r xs" and "i < length (rs_slab r)" and "i \<notin> set xs"
  shows "lru_list (lru_push_front i r) (i # xs)"
proof -
  note d = lru_listD [OF assms(1)]
  have valid: "z \<noteq> k_invalid_index" if "z \<in> set xs" for z using d(2) [OF that] d(3) by simp
  have i: "i \<noteq> k_invalid_index" using assms(2) d(3) by simp
  have head: "rs_head r \<noteq> i" "rs_head r \<noteq> k_invalid_index \<Longrightarrow> rs_head r < length (rs_slab r)"
    using d(2,4) first_of_in [of xs] assms(3) i by auto
  note u = push_links [OF assms(2) d(3) _ head]
  have len: "length (rs_slab (lru_push_front i r)) = length (rs_slab r)"
    by (rule same_tableD(1) [OF push_same_table])
  have tail: "rs_tail (lru_push_front i r) = first_of (rev (i # xs))"
  proof (cases "xs = []")
    case True
    then show ?thesis using u(4) [OF assms(2)] d(5) by (simp add: first_of_def)
  next
    case False
    then show ?thesis using u(4) [OF assms(2)] d(5) valid [of "last xs"] by (simp add: first_of_def hd_rev)
  qed
  have nxt: "re_next (rs_slab (lru_push_front i r) ! y) = next_of (i # xs) y" if "y < length (rs_slab r)" for y
    using u(1) [OF that] d(4,6) that by (simp add: first_of_def)
  have prv: "re_prev (rs_slab (lru_push_front i r) ! y) = next_of (rev (i # xs)) y" if "y < length (rs_slab r)" for y
    using u(2) [OF that] d(4) d(7) [OF that] that d(3)
    by (auto simp: prev_of_push [OF d(1) assms(3)] first_of_def simp del: rev.simps)
  show ?thesis
    unfolding lru_list_def len
    using d(1,2,3) assms(2,3) u(3) [OF assms(2)] tail nxt prv by (auto simp: first_of_def)
qed

section \<open>The invariant\<close>

text \<open>
  The slots in use are those of the map's entries, each entry's offset is its key; the free slots
  are the others; the list holds exactly the slots in use whose entry is \<open>local_uploaded\<close>, apart
  from the slots in \<open>a\<close>, which an operation has taken but not entered yet.
\<close>

definition evictable :: "blob_residency \<Rightarrow> nat set" where
  "evictable r = {i \<in> ran (rs_map r). re_state (rs_slab r ! i) = local_uploaded}"

definition residency_but :: "nat set \<Rightarrow> blob_residency \<Rightarrow> nat list \<Rightarrow> bool" where
  "residency_but a r xs \<longleftrightarrow> lru_list r xs \<and> inj_on (rs_map r) (dom (rs_map r)) \<and> distinct (rs_free r) \<and>
     set (rs_free r) \<union> ran (rs_map r) = {..<length (rs_slab r)} \<and> set (rs_free r) \<inter> ran (rs_map r) = {} \<and>
     (\<forall>off i. rs_map r off = Some i \<longrightarrow> re_offset (rs_slab r ! i) = off) \<and>
     set xs \<subseteq> evictable r \<and> evictable r - a \<subseteq> set xs"

abbreviation residency_ok :: "blob_residency \<Rightarrow> nat list \<Rightarrow> bool" where
  "residency_ok \<equiv> residency_but {}"

lemma residency_butD:
  assumes "residency_but a r xs"
  shows "lru_list r xs" and "inj_on (rs_map r) (dom (rs_map r))" and "distinct (rs_free r)"
    and "set (rs_free r) \<union> ran (rs_map r) = {..<length (rs_slab r)}" and "set (rs_free r) \<inter> ran (rs_map r) = {}"
    and "\<And>off i. rs_map r off = Some i \<Longrightarrow> re_offset (rs_slab r ! i) = off"
    and "\<And>off i. rs_map r off = Some i \<Longrightarrow> i < length (rs_slab r)"
    and "set xs \<subseteq> evictable r" and "evictable r - a \<subseteq> set xs"
  using assms unfolding residency_but_def by (blast intro: ranI)+

lemma residency_ok_but: "residency_ok r xs \<Longrightarrow> residency_but a r xs"
  by (auto simp: residency_but_def)

text \<open>An operation that changes one entry, keeping its offset, and enters it into the list or not.\<close>

lemma entry_changed:
  assumes "residency_but {i} r xs" and "i \<in> ran (rs_map r)"
    and "rs_map r' = rs_map r" and "rs_free r' = rs_free r" and "length (rs_slab r') = length (rs_slab r)"
    and "\<And>k. k < length (rs_slab r) \<Longrightarrow> k \<noteq> i \<Longrightarrow> core (rs_slab r' ! k) = core (rs_slab r ! k)"
    and "re_offset (rs_slab r' ! i) = re_offset (rs_slab r ! i)"
    and "lru_list r' ys" and "set ys = (set xs - {i}) \<union> (if re_state (rs_slab r' ! i) = local_uploaded then {i} else {})"
  shows "residency_ok r' ys"
proof -
  note d = residency_butD [OF assms(1)]
  have off: "re_offset (rs_slab r' ! k) = re_offset (rs_slab r ! k)" if "k < length (rs_slab r)" for k
    using assms(6) [OF that] assms(7) core_fields(1) by metis
  have st: "re_state (rs_slab r' ! k) = re_state (rs_slab r ! k)" if "k < length (rs_slab r)" "k \<noteq> i" for k
    using core_fields(3) [OF assms(6) [OF that]] .
  have bound: "k < length (rs_slab r)" if "k \<in> ran (rs_map r)" for k using d(4) that by auto
  have ev: "evictable r' = (evictable r - {i}) \<union> (if re_state (rs_slab r' ! i) = local_uploaded then {i} else {})"
  proof (rule set_eqI)
    fix k
    show "k \<in> evictable r' \<longleftrightarrow> k \<in> (evictable r - {i}) \<union> (if re_state (rs_slab r' ! i) = local_uploaded then {i} else {})"
    proof (cases "k = i")
      case True
      then show ?thesis using assms(2) by (simp add: evictable_def assms(3))
    next
      case False
      then show ?thesis using st bound by (auto simp: evictable_def assms(3))
    qed
  qed
  have "set ys = evictable r'"
    unfolding assms(9) ev using d(8,9) by auto
  moreover have "\<forall>o' k. rs_map r o' = Some k \<longrightarrow> re_offset (rs_slab r' ! k) = o'"
    using d(6,7) off by metis
  ultimately show ?thesis
    unfolding residency_but_def assms(3-5) using d(2-5) assms(8) by simp
qed

lemma upd_list:
  assumes "lru_list r xs" and "\<And>e. re_prev (f e) = re_prev e \<and> re_next (f e) = re_next e"
  shows "lru_list (upd i f r) xs"
  using lru_listD [OF assms(1)] assms(2) by (auto simp: lru_list_def upd_def nth_update)

lemma upd_frame [simp]:
  "rs_map (upd i f r) = rs_map r" "rs_free (upd i f r) = rs_free r" "length (rs_slab (upd i f r)) = length (rs_slab r)"
  "rs_generation (upd i f r) = rs_generation r" "rs_resident (upd i f r) = rs_resident r" "rs_cap (upd i f r) = rs_cap r"
  "rs_head (upd i f r) = rs_head r" "rs_tail (upd i f r) = rs_tail r"
  by (simp_all add: upd_def)

lemma upd_slab: "k < length (rs_slab r) \<Longrightarrow> rs_slab (upd i f r) ! k = (if k = i then f (rs_slab r ! i) else rs_slab r ! k)"
  by (simp add: upd_def nth_update)

text \<open>Finding or creating the entry of an offset.\<close>

lemma members_used: "residency_but a r xs \<Longrightarrow> set xs \<subseteq> ran (rs_map r)"
  using residency_butD(8) by (auto simp: evictable_def)

lemma entered:
  assumes "residency_ok r xs" and "rs_map r off = None" and "i \<notin> ran (rs_map r)" and "i < length (rs_slab r')"
    and "rs_map r' = (rs_map r)(off \<mapsto> i)" and "distinct (rs_free r')" and "i \<notin> set (rs_free r')"
    and "set (rs_free r') \<inter> ran (rs_map r) = {}"
    and "set (rs_free r') \<union> insert i (ran (rs_map r)) = {..<length (rs_slab r')}"
    and "\<And>k. k < length (rs_slab r) \<Longrightarrow> k \<noteq> i \<Longrightarrow> rs_slab r' ! k = rs_slab r ! k"
    and "re_offset (rs_slab r' ! i) = off" and "lru_list r' xs"
  shows "residency_but {i} r' xs"
proof -
  note d = residency_butD [OF assms(1)]
  have ran: "ran (rs_map r') = insert i (ran (rs_map r))" using assms(2) by (simp add: assms(5) ran_map_upd)
  have inj: "inj_on (rs_map r') (dom (rs_map r'))"
    using d(2) assms(2,3) by (auto simp: assms(5) inj_on_def ran_def dom_def)
  have off: "re_offset (rs_slab r' ! k) = o'" if "rs_map r' o' = Some k" for o' k
  proof (cases "o' = off")
    case True
    then show ?thesis using that assms(5,11) by auto
  next
    case False
    then have m: "rs_map r o' = Some k" using that assms(5) by simp
    then have "k \<noteq> i" using assms(3) by (auto simp: ran_def)
    then show ?thesis using assms(10) [OF d(7) [OF m]] d(6) [OF m] by simp
  qed
  have st: "re_state (rs_slab r' ! k) = re_state (rs_slab r ! k)" if "k \<in> ran (rs_map r)" for k
  proof -
    have "k \<noteq> i" using that assms(3) by auto
    moreover have "k < length (rs_slab r)" using that d(7) by (auto simp: ran_def)
    ultimately show ?thesis using assms(10) by simp
  qed
  have ev: "evictable r' - {i} = evictable r"
    unfolding evictable_def ran using st assms(3) by auto
  then show ?thesis
    unfolding residency_but_def using assms(6,7,8,9,12) ran inj off d(8,9) by auto
qed

lemma get_or_create_ok:
  assumes "residency_ok r xs" and "length (rs_slab r) < k_invalid_index" and "get_or_create off sz r = (i, r')"
  shows "residency_but {i} r' xs \<and> rs_map r' = (rs_map r)(off \<mapsto> i) \<and> rs_generation r' = rs_generation r \<and>
    (rs_map r off \<noteq> None \<longrightarrow> r' = r) \<and>
    (rs_map r off = None \<longrightarrow> i \<notin> ran (rs_map r) \<and> rs_slab r' ! i = new_entry\<lparr>re_offset := off, re_size := sz\<rparr>) \<and>
    (\<forall>k < length (rs_slab r). k \<noteq> i \<longrightarrow> rs_slab r' ! k = rs_slab r ! k)"
proof (cases "rs_map r off")
  case (Some k)
  then show ?thesis
    using assms(1,3) residency_ok_but [of r xs] by (auto simp: get_or_create_def fun_upd_idem)
next
  case None
  note d = residency_butD [OF assms(1)]
  note l = lru_listD [OF d(1)]
  show ?thesis
  proof (cases "rs_free r = []")
    case False
    define i0 where "i0 = last (rs_free r)"
    have step: "get_or_create off sz r = (i0, r\<lparr>rs_free := butlast (rs_free r),
          rs_slab := (rs_slab r)[i0 := new_entry\<lparr>re_offset := off, re_size := sz\<rparr>], rs_map := (rs_map r)(off \<mapsto> i0)\<rparr>)"
      if "i0 < length (rs_slab r)"
      using None False that by (simp add: get_or_create_def upd_def Let_def i0_def)
    have mem: "i0 \<in> set (rs_free r)" using False by (simp add: i0_def)
    then have lt: "i0 < length (rs_slab r)" using d(4) by blast
    have eq: "i = i0" using assms(3) step [OF lt] by simp
    have i: "i = last (rs_free r)" "i \<in> set (rs_free r)" "i < length (rs_slab r)"
      and r': "r' = r\<lparr>rs_free := butlast (rs_free r),
          rs_slab := (rs_slab r)[i := new_entry\<lparr>re_offset := off, re_size := sz\<rparr>], rs_map := (rs_map r)(off \<mapsto> i)\<rparr>"
      using assms(3) step [OF lt] mem lt by (simp_all add: eq, simp add: i0_def)
    obtain ys where ys: "rs_free r = ys @ [i]"
      using False i(1) by (metis append_butlast_last_id)
    then have free: "distinct (butlast (rs_free r))" "i \<notin> set (butlast (rs_free r))"
      "set (rs_free r) = insert i (set (butlast (rs_free r)))"
      using d(3) by auto
    have out: "i \<notin> ran (rs_map r)" using d(5) i(2) by auto
    have "i \<notin> set xs" using out members_used [OF assms(1)] by blast
    then have list: "lru_list r' xs"
      using l by (auto simp: lru_list_def r' nth_update new_entry_def)
    have "residency_but {i} r' xs"
      by (rule entered [OF assms(1) None out _ _ _ _ _ _ _ _ list]) (use free d(4,5) i in \<open>auto simp: r'\<close>)
    then show ?thesis using None out i(3) by (auto simp: r')
  next
    case True
    then have i: "i = length (rs_slab r)" using assms(2,3) None
      by (auto simp: get_or_create_def Let_def wrap32_def k_invalid_index_def)
    have r': "r' = r\<lparr>rs_slab := rs_slab r @ [new_entry\<lparr>re_offset := off, re_size := sz\<rparr>], rs_map := (rs_map r)(off \<mapsto> i)\<rparr>"
      using assms(3) None True i by (auto simp: get_or_create_def Let_def upd_def)
    have out: "i \<notin> ran (rs_map r)" using d(7) i by (auto simp: ran_def)
    have "i \<notin> set xs" using out members_used [OF assms(1)] by blast
    then have list: "lru_list r' xs"
      using l assms(2) i
      by (auto simp: lru_list_def r' nth_append new_entry_def less_Suc_eq)
    have ran: "ran (rs_map r) = {..<i}" using d(4) True i by simp
    have "residency_but {i} r' xs"
      by (rule entered [OF assms(1) None out _ _ _ _ _ _ _ _ list]) (simp_all add: r' ran i [symmetric] True lessThan_Suc nth_append)
    then show ?thesis using None out i by (auto simp: r' nth_append)
  qed
qed

end
