(* ===== verification/ResidencyDurable.thy ===== *)
theory ResidencyDurable
  imports ResidencyLru
begin

text \<open>
  What the operations of \<open>Residency\<close> do, seen as a map from offsets to entries (\<open>look\<close>), and what this
  gives over a life of the table: local bytes are given up only for copies that a committed
  checkpoint records, and the victim of an eviction is the least recently used one there is.
\<close>

section \<open>The table as a map\<close>

text \<open>What the table says of an offset, the links aside.\<close>

definition look :: "blob_residency \<Rightarrow> u64 \<Rightarrow> residency_entry option" where
  "look r off = map_option core (find_entry off r)"

definition blank :: "u64 \<Rightarrow> u32 \<Rightarrow> residency_entry" where
  "blank off sz = core (new_entry\<lparr>re_offset := off, re_size := sz\<rparr>)"

definition entry_or_blank :: "blob_residency \<Rightarrow> u64 \<Rightarrow> u32 \<Rightarrow> residency_entry" where
  "entry_or_blank r off sz = (case look r off of None \<Rightarrow> blank off sz | Some e \<Rightarrow> e)"

definition remote_fact :: "blob_residency_state \<Rightarrow> u64 \<Rightarrow> u32 \<Rightarrow> residency_entry \<Rightarrow> residency_entry" where
  "remote_fact st rid g e = e\<lparr>re_state := st, re_remote_id := rid, re_durable := False, re_generation := g\<rparr>"

lemma look_some: "rs_map r off = Some i \<Longrightarrow> look r off = Some (core (rs_slab r ! i))"
  by (simp add: look_def find_entry_def)

lemma look_none: "look r off = None \<longleftrightarrow> rs_map r off = None"
  by (simp add: look_def find_entry_def)

lemma core_update:
  "core (e\<lparr>re_state := st\<rparr>) = (core e)\<lparr>re_state := st\<rparr>"
  "core (e\<lparr>re_durable := b\<rparr>) = (core e)\<lparr>re_durable := b\<rparr>"
  "core (e\<lparr>re_inflight := n\<rparr>) = (core e)\<lparr>re_inflight := n\<rparr>"
  "core (remote_fact st rid g e) = remote_fact st rid g (core e)"
  by (simp_all add: core_def remote_fact_def)

lemma core_select [simp]:
  "re_offset (core e) = re_offset e" "re_size (core e) = re_size e" "re_state (core e) = re_state e"
  "re_durable (core e) = re_durable e" "re_inflight (core e) = re_inflight e"
  "re_generation (core e) = re_generation e" "re_remote_id (core e) = re_remote_id e"
  by (simp_all add: core_def)

text \<open>One entry changed: the list invariant and the map.\<close>

lemma entry_changed_look:
  assumes "residency_but {i} r xs" and "rs_map r off = Some i"
    and "rs_map r' = rs_map r" and "rs_free r' = rs_free r" and "length (rs_slab r') = length (rs_slab r)"
    and "\<And>k. k < length (rs_slab r) \<Longrightarrow> k \<noteq> i \<Longrightarrow> core (rs_slab r' ! k) = core (rs_slab r ! k)"
    and "core (rs_slab r' ! i) = e" and "re_offset e = off"
    and "lru_list r' ys" and "set ys = (set xs - {i}) \<union> (if re_state e = local_uploaded then {i} else {})"
  shows "residency_ok r' ys \<and> look r' = (look r)(off \<mapsto> e)"
proof
  note d = residency_butD [OF assms(1)]
  have "re_offset (rs_slab r' ! i) = re_offset (rs_slab r ! i)"
    using assms(7,8) d(6) [OF assms(2)] core_select(1) by metis
  moreover have "set ys = (set xs - {i}) \<union> (if re_state (rs_slab r' ! i) = local_uploaded then {i} else {})"
    using assms(7,10) core_select(3) by metis
  ultimately show "residency_ok r' ys"
    using entry_changed [OF assms(1) _ assms(3-6) _ assms(9)] ranI [of "rs_map r", OF assms(2)] by blast
  show "look r' = (look r)(off \<mapsto> e)"
  proof
    fix o'
    show "look r' o' = ((look r)(off \<mapsto> e)) o'"
    proof (cases "o' = off")
      case True
      then show ?thesis using assms(2,3,7) by (simp add: look_some)
    next
      case False
      show ?thesis
      proof (cases "rs_map r o'")
        case None
        then show ?thesis using assms(3) False by (metis fun_upd_apply look_none)
      next
        case (Some k)
        then have "k \<noteq> i" using d(2) assms(2) False by (metis domI inj_onD)
        then have "core (rs_slab r' ! k) = core (rs_slab r ! k)" using assms(6) d(7) [OF Some] by blast
        then show ?thesis using Some assms(3) False by (simp add: look_some)
      qed
    qed
  qed
qed

lemma record_remote_eq:
  "record_remote i rid st r = upd i (remote_fact st rid (rs_generation r)) r"
  by (simp add: record_remote_def remote_fact_def [abs_def])

lemma get_or_create_look:
  assumes "residency_ok r xs" and "length (rs_slab r) < k_invalid_index" and "get_or_create off sz r = (i, r')"
  shows "residency_but {i} r' xs" and "rs_map r' off = Some i" and "core (rs_slab r' ! i) = entry_or_blank r off sz"
    and "rs_generation r' = rs_generation r" and "look r' = (look r)(off \<mapsto> entry_or_blank r off sz)"
    and "re_offset (entry_or_blank r off sz) = off"
proof -
  note g = get_or_create_ok [OF assms]
  note d = residency_butD [OF assms(1)]
  show "residency_but {i} r' xs" and m: "rs_map r' off = Some i" and "rs_generation r' = rs_generation r"
    using g by simp_all
  show e: "core (rs_slab r' ! i) = entry_or_blank r off sz"
  proof (cases "rs_map r off")
    case None
    then show ?thesis using g by (simp add: entry_or_blank_def blank_def look_none [THEN iffD2])
  next
    case (Some k)
    then show ?thesis using g m by (simp add: entry_or_blank_def look_some)
  qed
  show "re_offset (entry_or_blank r off sz) = off"
    using residency_butD(6) [of "{i}" r' xs off i] g m e core_select(1) by metis
  show "look r' = (look r)(off \<mapsto> entry_or_blank r off sz)"
  proof
    fix o'
    show "look r' o' = ((look r)(off \<mapsto> entry_or_blank r off sz)) o'"
    proof (cases "o' = off")
      case True
      then show ?thesis using m e by (simp add: look_some)
    next
      case False
      then have map: "rs_map r' o' = rs_map r o'" using g by simp
      show ?thesis
      proof (cases "rs_map r o'")
        case None
        then show ?thesis using map False by (metis fun_upd_apply look_none)
      next
        case (Some k)
        have "k \<noteq> i" using residency_butD(2) [of "{i}" r' xs] g m map Some False by (metis domI inj_onD)
        then show ?thesis using g d(7) [OF Some] map Some False by (simp add: look_some)
      qed
    qed
  qed
qed


section \<open>What the operations do\<close>

lemma uploaded_local: "uploaded_state st = local_uploaded \<longleftrightarrow> st = local_uploaded \<or> st = local_spilled"
  by (cases st) simp_all

lemma mark_uploaded_ok:
  assumes "residency_ok r xs" and "length (rs_slab r) < k_invalid_index" and "mark_uploaded off sz rid r = (prev, r')"
  shows "(\<exists>ys. residency_ok r' ys) \<and> rs_generation r' = rs_generation r \<and>
    look r' = (look r)(off \<mapsto> remote_fact (uploaded_state (re_state (entry_or_blank r off sz))) rid (rs_generation r)
                 (entry_or_blank r off sz)) \<and>
    prev = (if re_state (entry_or_blank r off sz) \<in> {local_spilled, remote_spilled}
            then re_remote_id (entry_or_blank r off sz) else 0)"
proof -
  obtain i r1 where goc: "get_or_create off sz r = (i, r1)" by fastforce
  note g = get_or_create_look [OF assms(1,2) goc]
  note d = residency_butD [OF g(1)]
  let ?e = "entry_or_blank r off sz"
  have e: "re_state (rs_slab r1 ! i) = re_state ?e" "re_remote_id (rs_slab r1 ! i) = re_remote_id ?e"
    using g(3) core_select by metis+
  define st where "st = uploaded_state (re_state ?e)"
  define r2 where "r2 = upd i (remote_fact st rid (rs_generation r1)) r1"
  have r': "r' = (if st = local_uploaded then lru_push_front i (lru_unlink i r2) else r2)"
    and prev: "prev = (if re_state ?e \<in> {local_spilled, remote_spilled} then re_remote_id ?e else 0)"
    using assms(3) by (auto simp: mark_uploaded_def goc Let_def e record_remote_eq r2_def st_def split: if_splits)
  have i: "i < length (rs_slab r1)" by (rule d(7) [OF g(2)])
  have list2: "lru_list r2 xs"
    unfolding r2_def by (rule upd_list [OF d(1)]) (simp add: remote_fact_def)
  have len2: "length (rs_slab r2) = length (rs_slab r1)" by (simp add: r2_def)
  have same: "same_table r2 r'"
    using same_table_trans [OF unlink_same_table push_same_table] by (simp add: r')
  note t = same_tableD [OF same]
  define ys where "ys = (if st = local_uploaded then i # remove1 i xs else xs)"
  have dist: "i \<notin> set (remove1 i xs)" using lru_listD(1) [OF d(1)] by (simp add: set_remove1_eq)
  have list: "lru_list r' ys"
  proof (cases "st = local_uploaded")
    case True
    have "lru_list (lru_push_front i (lru_unlink i r2)) (i # remove1 i xs)"
      by (rule lru_push_list [OF lru_unlink_list [OF list2] _ dist]) (use i len2 same_tableD(1) [OF unlink_same_table] in auto)
    then show ?thesis by (simp add: True r' ys_def)
  qed (use list2 in \<open>simp add: r' ys_def\<close>)
  have out: "i \<notin> set xs" if "st \<noteq> local_uploaded"
    using d(8) that e(1) by (auto simp: st_def evictable_def uploaded_local)
  have "residency_ok r' ys \<and> look r' = (look r1)(off \<mapsto> remote_fact st rid (rs_generation r1) ?e)"
  proof (rule entry_changed_look [OF g(1,2) _ _ _ _ _ _ list])
    show "rs_map r' = rs_map r1" "rs_free r' = rs_free r1" "length (rs_slab r') = length (rs_slab r1)"
      using t by (simp_all add: r2_def)
    show "core (rs_slab r' ! k) = core (rs_slab r1 ! k)" if "k < length (rs_slab r1)" "k \<noteq> i" for k
      using t(7) [of k] that by (simp add: r2_def upd_slab)
    show "core (rs_slab r' ! i) = remote_fact st rid (rs_generation r1) ?e"
      using t(7) [of i] i g(3) by (simp add: r2_def upd_slab core_update)
    show "re_offset (remote_fact st rid (rs_generation r1) ?e) = off" using g(6) by (simp add: remote_fact_def)
    show "set ys = (set xs - {i}) \<union> (if re_state (remote_fact st rid (rs_generation r1) ?e) = local_uploaded then {i} else {})"
      using out lru_listD(1) [OF d(1)] by (auto simp: remote_fact_def ys_def)
  qed
  then show ?thesis
    using g(4,5) prev t(6) by (auto simp: st_def r2_def)
qed

text \<open>Both ways of spilling take the entry out of the list and record the copy.\<close>

lemma spill_step:
  assumes "residency_ok r xs" and "length (rs_slab r) < k_invalid_index" and "st \<noteq> local_uploaded"
    and "get_or_create off sz r = (i, r1)" and "r' = record_remote i rid st (lru_unlink i r1)"
  shows "(\<exists>ys. residency_ok r' ys) \<and> rs_generation r' = rs_generation r \<and>
    look r' = (look r)(off \<mapsto> remote_fact st rid (rs_generation r) (entry_or_blank r off sz))"
proof -
  note g = get_or_create_look [OF assms(1,2,4)]
  note d = residency_butD [OF g(1)]
  let ?e = "entry_or_blank r off sz"
  have i: "i < length (rs_slab r1)" by (rule d(7) [OF g(2)])
  note t = same_tableD [OF unlink_same_table [of r1 i]]
  have r': "r' = upd i (remote_fact st rid (rs_generation r1)) (lru_unlink i r1)"
    using t(6) by (simp add: assms(5) record_remote_eq)
  have list: "lru_list r' (remove1 i xs)"
    unfolding r' by (rule upd_list [OF lru_unlink_list [OF d(1) i]]) (simp add: remote_fact_def)
  have "residency_ok r' (remove1 i xs) \<and> look r' = (look r1)(off \<mapsto> remote_fact st rid (rs_generation r1) ?e)"
  proof (rule entry_changed_look [OF g(1,2) _ _ _ _ _ _ list])
    show "rs_map r' = rs_map r1" "rs_free r' = rs_free r1" "length (rs_slab r') = length (rs_slab r1)"
      using t by (simp_all add: r')
    show "core (rs_slab r' ! k) = core (rs_slab r1 ! k)" if "k < length (rs_slab r1)" "k \<noteq> i" for k
      using t that by (simp add: r' upd_slab)
    show "core (rs_slab r' ! i) = remote_fact st rid (rs_generation r1) ?e"
      using t i g(3) by (simp add: r' upd_slab core_update)
    show "re_offset (remote_fact st rid (rs_generation r1) ?e) = off" using g(6) by (simp add: remote_fact_def)
    show "set (remove1 i xs) = (set xs - {i}) \<union> (if re_state (remote_fact st rid (rs_generation r1) ?e) = local_uploaded then {i} else {})"
      using assms(3) lru_listD(1) [OF d(1)] by (simp add: remote_fact_def set_remove1_eq)
  qed
  then show ?thesis using g(4,5) t(6) by (auto simp: r')
qed

lemma mark_spilled_ok:
  assumes "residency_ok r xs" and "length (rs_slab r) < k_invalid_index"
  shows "(\<exists>ys. residency_ok (mark_spilled off sz rid r) ys) \<and> rs_generation (mark_spilled off sz rid r) = rs_generation r \<and>
    look (mark_spilled off sz rid r) = (look r)(off \<mapsto> remote_fact local_spilled rid (rs_generation r) (entry_or_blank r off sz))"
proof -
  obtain i r1 where goc: "get_or_create off sz r = (i, r1)" by fastforce
  then have "mark_spilled off sz rid r = record_remote i rid local_spilled (lru_unlink i r1)"
    by (simp add: mark_spilled_def)
  then show ?thesis using spill_step [OF assms _ goc refl, of local_spilled rid] by (simp only: blob_residency_state.distinct not_False_eq_True simp_thms)
qed

lemma mark_spilled_remote_ok:
  assumes "residency_ok r xs" and "length (rs_slab r) < k_invalid_index"
  shows "(\<exists>ys. residency_ok (mark_spilled_remote off sz rid r) ys) \<and>
    rs_generation (mark_spilled_remote off sz rid r) = rs_generation r \<and>
    look (mark_spilled_remote off sz rid r) = (look r)(off \<mapsto> remote_fact remote_spilled rid (rs_generation r) (entry_or_blank r off sz))"
proof -
  obtain i r1 where goc: "get_or_create off sz r = (i, r1)" by fastforce
  then have "mark_spilled_remote off sz rid r = record_remote i rid remote_spilled (lru_unlink i r1)"
    by (simp add: mark_spilled_remote_def)
  then show ?thesis using spill_step [OF assms _ goc refl, of remote_spilled rid] by (simp only: blob_residency_state.distinct not_False_eq_True simp_thms)
qed


text \<open>An operation on the entry \<open>i\<close> that may take it out of the list and keeps the links otherwise.\<close>

lemma change_entry:
  assumes "residency_ok r xs" and "rs_map r off = Some i"
    and "\<And>e. re_prev (f e) = re_prev e \<and> re_next (f e) = re_next e" and "\<And>e. core (f e) = f (core e)"
    and "\<And>e. re_offset (f e) = re_offset e"
    and "unl \<Longrightarrow> re_state (f (rs_slab r ! i)) \<noteq> local_uploaded"
    and "\<not> unl \<Longrightarrow> re_state (f (rs_slab r ! i)) = local_uploaded \<longleftrightarrow> re_state (rs_slab r ! i) = local_uploaded"
    and "r' = upd i f (if unl then lru_unlink i r else r)"
  shows "residency_ok r' (if unl then remove1 i xs else xs) \<and> rs_generation r' = rs_generation r \<and>
    rs_map r' = rs_map r \<and> length (rs_slab r') = length (rs_slab r) \<and>
    look r' = (look r)(off \<mapsto> f (core (rs_slab r ! i)))"
proof -
  note d = residency_butD [OF assms(1)]
  have i: "i < length (rs_slab r)" by (rule d(7) [OF assms(2)])
  let ?u = "if unl then lru_unlink i r else r"
  have "same_table r ?u" by (simp add: unlink_same_table)
  note t = same_tableD [OF this]
  have st: "re_state (f (core (rs_slab r ! i))) = re_state (f (rs_slab r ! i))"
    using assms(4) core_select(3) by metis
  have mem: "i \<in> set xs \<longleftrightarrow> re_state (rs_slab r ! i) = local_uploaded"
    using d(8,9) ranI [of "rs_map r", OF assms(2)] by (auto simp: evictable_def)
  have list: "lru_list r' (if unl then remove1 i xs else xs)"
    unfolding assms(8) by (rule upd_list) (use lru_unlink_list [OF d(1) i] d(1) assms(3) in auto)
  have "residency_ok r' (if unl then remove1 i xs else xs) \<and> look r' = (look r)(off \<mapsto> f (core (rs_slab r ! i)))"
  proof (rule entry_changed_look [OF residency_ok_but [OF assms(1)] assms(2) _ _ _ _ _ _ list])
    show "rs_map r' = rs_map r" "rs_free r' = rs_free r" "length (rs_slab r') = length (rs_slab r)"
      using t by (simp_all add: assms(8))
    show "core (rs_slab r' ! k) = core (rs_slab r ! k)" if "k < length (rs_slab r)" "k \<noteq> i" for k
      using t(1) t(7) [OF that(1)] that by (simp add: assms(8) upd_slab)
    show "core (rs_slab r' ! i) = f (core (rs_slab r ! i))"
      using t(1) t(7) [OF i] i assms(4) by (simp add: assms(8) upd_slab)
    show "re_offset (f (core (rs_slab r ! i))) = off"
      using d(6) [OF assms(2)] assms(5) by simp
    show "set (if unl then remove1 i xs else xs) =
        (set xs - {i}) \<union> (if re_state (f (core (rs_slab r ! i))) = local_uploaded then {i} else {})"
      using assms(6,7) mem lru_listD(1) [OF d(1)] unfolding st by (auto simp: set_remove1_eq)
  qed
  moreover have "rs_map r' = rs_map r" "length (rs_slab r') = length (rs_slab r)" "rs_generation r' = rs_generation r"
    using t by (simp_all add: assms(8))
  ultimately show ?thesis by simp
qed

lemma resident_frame [simp]:
  "residency_but a (r\<lparr>rs_resident := n\<rparr>) xs = residency_but a r xs" "look (r\<lparr>rs_resident := n\<rparr>) = look r"
  "residency_but a (r\<lparr>rs_generation := g\<rparr>) xs = residency_but a r xs" "look (r\<lparr>rs_generation := g\<rparr>) = look r"
  "residency_but a (r\<lparr>rs_cap := n\<rparr>) xs = residency_but a r xs" "look (r\<lparr>rs_cap := n\<rparr>) = look r"
  by (simp_all add: residency_but_def lru_list_def evictable_def look_def find_entry_def fun_eq_iff)

lemma look_entry:
  assumes "rs_map r off = Some i" and "look r off = Some e"
  shows "e = core (rs_slab r ! i)"
  using assms by (simp add: look_some)

lemma evict_ok:
  assumes "residency_ok r xs" and "evict off r = (ok, r')"
  shows "(\<exists>ys. residency_ok r' ys) \<and> rs_generation r' = rs_generation r \<and>
    (ok \<longleftrightarrow> (\<exists>e. look r off = Some e \<and> re_state e = local_uploaded \<and> re_durable e \<and> re_inflight e = 0)) \<and>
    look r' = (if ok then (look r)(off \<mapsto> (the (look r off))\<lparr>re_state := remote_uploaded\<rparr>) else look r)"
proof (cases "rs_map r off")
  case None
  then show ?thesis using assms look_none [of r off] by (auto simp: evict_def)
next
  case (Some i)
  note c = change_entry [OF assms(1) Some, of "\<lambda>e. e\<lparr>re_state := remote_uploaded\<rparr>" True, OF _ _ _ _ _ refl]
  show ?thesis
  proof (cases "ok")
    case True
    then have "r' = account_freed (ucast (re_size (rs_slab r ! i)))
        (upd i (\<lambda>e. e\<lparr>re_state := remote_uploaded\<rparr>) (lru_unlink i r))"
      and "re_state (rs_slab r ! i) = local_uploaded" "re_durable (rs_slab r ! i)" "re_inflight (rs_slab r ! i) = 0"
      using assms(2) Some by (auto simp: evict_def Let_def split: if_splits)
    then show ?thesis
      using c True by (auto simp: account_freed_def look_some [OF Some] core_update(1))
  next
    case False
    then have "r' = r" and "\<not> (re_state (rs_slab r ! i) = local_uploaded \<and> re_durable (rs_slab r ! i) \<and> re_inflight (rs_slab r ! i) = 0)"
      using assms(2) Some by (auto simp: evict_def Let_def split: if_splits)
    then show ?thesis using False assms(1) by (auto simp: look_some [OF Some])
  qed
qed

lemma drop_spilled_ok:
  assumes "residency_ok r xs" and "drop_spilled_local off r = (ok, r')"
  shows "(\<exists>ys. residency_ok r' ys) \<and> rs_generation r' = rs_generation r \<and>
    (ok \<longleftrightarrow> (\<exists>e. look r off = Some e \<and> re_state e = local_spilled \<and> re_durable e \<and> re_inflight e = 0)) \<and>
    look r' = (if ok then (look r)(off \<mapsto> (the (look r off))\<lparr>re_state := remote_spilled\<rparr>) else look r)"
proof (cases "rs_map r off")
  case None
  then show ?thesis using assms look_none [of r off] by (auto simp: drop_spilled_local_def)
next
  case (Some i)
  note c = change_entry [OF assms(1) Some, of "\<lambda>e. e\<lparr>re_state := remote_spilled\<rparr>" False, OF _ _ _ _ _ refl]
  show ?thesis
  proof (cases "ok")
    case True
    then have "r' = account_freed (ucast (re_size (rs_slab r ! i))) (upd i (\<lambda>e. e\<lparr>re_state := remote_spilled\<rparr>) r)"
      and "re_state (rs_slab r ! i) = local_spilled" "re_durable (rs_slab r ! i)" "re_inflight (rs_slab r ! i) = 0"
      using assms(2) Some by (auto simp: drop_spilled_local_def Let_def split: if_splits)
    then show ?thesis
      using c True by (auto simp: account_freed_def look_some [OF Some] core_update(1))
  next
    case False
    then have "r' = r" and "\<not> (re_state (rs_slab r ! i) = local_spilled \<and> re_durable (rs_slab r ! i) \<and> re_inflight (rs_slab r ! i) = 0)"
      using assms(2) Some by (auto simp: drop_spilled_local_def Let_def split: if_splits)
    then show ?thesis using False assms(1) by (auto simp: look_some [OF Some])
  qed
qed


lemma read_ok:
  assumes "residency_ok r xs" and "rs_map r off = Some i"
    and "f = (\<lambda>e. e\<lparr>re_inflight := re_inflight e + 1\<rparr>) \<or>
         f = (\<lambda>e. if re_inflight e \<noteq> 0 then e\<lparr>re_inflight := re_inflight e - 1\<rparr> else e)"
  shows "residency_ok (upd i f r) xs \<and> look (upd i f r) = (look r)(off \<mapsto> f (core (rs_slab r ! i)))"
proof -
  have f: "re_prev (f e) = re_prev e \<and> re_next (f e) = re_next e" "core (f e) = f (core e)"
    "re_offset (f e) = re_offset e" "re_state (f e) = re_state e" for e
    using assms(3) by (auto simp: core_def)
  show ?thesis
    using change_entry [OF assms(1,2) f(1,2,3), where unl = False] f(4) by simp
qed

lemma commit_entry_frame:
  "re_prev (commit_entry g e) = re_prev e \<and> re_next (commit_entry g e) = re_next e"
  "core (commit_entry g e) = commit_entry g (core e)" "re_offset (commit_entry g e) = re_offset e"
  "re_state (commit_entry g e) = re_state e" "commit_entry g (commit_entry g e) = commit_entry g e"
  by (simp_all add: commit_entry_def core_def)

lemma commit_durable_ok:
  assumes "residency_ok r xs"
  shows "residency_ok (commit_durable offsets g r) xs \<and> rs_generation (commit_durable offsets g r) = rs_generation r \<and>
    length (rs_slab (commit_durable offsets g r)) = length (rs_slab r) \<and>
    look (commit_durable offsets g r) =
      (\<lambda>off. if off \<in> set offsets then map_option (commit_entry g) (look r off) else look r off)"
  using assms
proof (induction offsets arbitrary: r)
  case Nil
  then show ?case by (simp add: commit_durable_def)
next
  case (Cons off offsets)
  define r1 where "r1 = (case rs_map r off of None \<Rightarrow> r | Some i \<Rightarrow> upd i (commit_entry g) r)"
  have step: "residency_ok r1 xs \<and> rs_generation r1 = rs_generation r \<and> length (rs_slab r1) = length (rs_slab r) \<and>
      look r1 = (look r)(off := map_option (commit_entry g) (look r off))"
  proof (cases "rs_map r off")
    case None
    then have "look r off = None" by (simp add: look_none)
    then show ?thesis using Cons.prems None by (simp add: r1_def fun_upd_idem)
  next
    case (Some i)
    note f = commit_entry_frame [of g]
    have "residency_ok (upd i (commit_entry g) r) (if False then remove1 i xs else xs) \<and>
        rs_generation (upd i (commit_entry g) r) = rs_generation r \<and> rs_map (upd i (commit_entry g) r) = rs_map r \<and>
        length (rs_slab (upd i (commit_entry g) r)) = length (rs_slab r) \<and>
        look (upd i (commit_entry g) r) = (look r)(off \<mapsto> commit_entry g (core (rs_slab r ! i)))"
      by (rule change_entry [OF Cons.prems Some]) (simp_all only: f if_False simp_thms)
    then show ?thesis by (simp add: r1_def Some look_some)
  qed
  have "commit_durable (off # offsets) g r = commit_durable offsets g r1"
    by (simp add: commit_durable_def r1_def)
  then show ?case
    using Cons.IH [of r1] step commit_entry_frame(5)
    by (auto simp: fun_eq_iff option.map_comp comp_def)
qed

lemma touch_ok:
  assumes "residency_ok r xs" and "rs_map r off = Some i"
  shows "residency_ok (touch i r) (if re_state (rs_slab r ! i) = local_uploaded then i # remove1 i xs else xs) \<and>
    look (touch i r) = look r \<and> rs_generation (touch i r) = rs_generation r"
proof (cases "re_state (rs_slab r ! i) = local_uploaded")
  case False
  then show ?thesis using assms(1) by (simp add: touch_def)
next
  case True
  note d = residency_butD [OF assms(1)]
  have i: "i < length (rs_slab r)" by (rule d(7) [OF assms(2)])
  have touch: "touch i r = lru_push_front i (lru_unlink i r)" using True by (simp add: touch_def)
  have "same_table r (touch i r)"
    unfolding touch by (rule same_table_trans [OF unlink_same_table push_same_table])
  note t = same_tableD [OF this]
  have dist: "i \<notin> set (remove1 i xs)" using lru_listD(1) [OF d(1)] by (simp add: set_remove1_eq)
  have list: "lru_list (touch i r) (i # remove1 i xs)"
    unfolding touch
    by (rule lru_push_list [OF lru_unlink_list [OF d(1) i] _ dist]) (use i same_tableD(1) [OF unlink_same_table] in auto)
  have "residency_ok (touch i r) (i # remove1 i xs) \<and> look (touch i r) = (look r)(off \<mapsto> core (rs_slab r ! i))"
    by (rule entry_changed_look [OF residency_ok_but [OF assms(1)] assms(2) _ _ _ _ _ _ list])
      (use t i True d(6) [OF assms(2)] lru_listD(1) [OF d(1)] in \<open>auto simp: set_remove1_eq\<close>)
  moreover have "(look r)(off \<mapsto> core (rs_slab r ! i)) = look r"
    using look_some [OF assms(2)] by (simp add: fun_upd_idem)
  ultimately show ?thesis using True t(6) by simp
qed

lemma forget_ok:
  assumes "residency_ok r xs" and "forget off r = (out, r')"
  shows "(\<exists>ys. residency_ok r' ys) \<and> rs_generation r' = rs_generation r \<and> look r' = (look r)(off := None)"
proof (cases "rs_map r off")
  case None
  then show ?thesis using assms look_none [of r off] by (auto simp: forget_def fun_upd_idem)
next
  case (Some i)
  note d = residency_butD [OF assms(1)]
  have i: "i < length (rs_slab r)" by (rule d(7) [OF Some])
  define r1 where "r1 = (if has_local_bytes (rs_slab r ! i) then account_freed (ucast (re_size (rs_slab r ! i))) r else r)"
  have r1: "residency_but a r1 ys = residency_but a r ys" "rs_map r1 = rs_map r" "rs_free r1 = rs_free r"
    "rs_slab r1 = rs_slab r" "rs_generation r1 = rs_generation r" for a ys
    by (simp_all add: r1_def account_freed_def)
  define r2 where "r2 = lru_unlink i r1"
  note t = same_tableD [OF unlink_same_table [of r1 i], folded r2_def, unfolded r1]
  have r': "r' = (upd i (\<lambda>_. new_entry) r2)\<lparr>rs_map := (rs_map r)(off := None), rs_free := rs_free r @ [i]\<rparr>"
    using assms(2) Some t(2,3) by (simp add: forget_def Let_def r1_def r2_def)
  have list2: "lru_list r2 (remove1 i xs)"
    unfolding r2_def by (rule lru_unlink_list) (use d(1) i r1 in \<open>auto simp: residency_but_def lru_list_def r1_def account_freed_def\<close>)
  have out: "i \<notin> set (remove1 i xs)" using lru_listD(1) [OF d(1)] by (simp add: set_remove1_eq)
  have list: "lru_list r' (remove1 i xs)"
    using lru_listD [OF list2] out by (auto simp: lru_list_def r' upd_def nth_update new_entry_def)
  have ran: "ran ((rs_map r)(off := None)) = ran (rs_map r) - {i}"
  proof (rule set_eqI)
    fix k
    show "k \<in> ran ((rs_map r)(off := None)) \<longleftrightarrow> k \<in> ran (rs_map r) - {i}"
    proof (cases "k = i")
      case True
      then show ?thesis using d(2) Some by (auto simp: ran_def inj_on_def dom_def)
    next
      case False
      then show ?thesis using Some by (simp add: ran_def) (metis option.inject)
    qed
  qed
  have slot: "core (rs_slab r' ! k) = core (rs_slab r ! k)" if "k < length (rs_slab r)" "k \<noteq> i" for k
    using t(1) t(7) [OF that(1)] that by (simp add: r' upd_slab)
  have keep: "re_state (rs_slab r' ! k) = re_state (rs_slab r ! k)" "re_offset (rs_slab r' ! k) = re_offset (rs_slab r ! k)"
    if "k < length (rs_slab r)" "k \<noteq> i" for k
    using core_fields [OF slot [OF that]] by simp_all
  have other: "k \<noteq> i" "k < length (rs_slab r)" if "o' \<noteq> off" "rs_map r o' = Some k" for o' k
    using d(2,7) Some that by (metis domI inj_onD, blast)
  have ev: "evictable r' = evictable r - {i}"
  proof (rule set_eqI)
    fix k
    have "k < length (rs_slab r)" if "k \<in> ran (rs_map r)" for k using d(4) that by auto
    then show "k \<in> evictable r' \<longleftrightarrow> k \<in> evictable r - {i}"
      using keep(1) [of k] by (auto simp: evictable_def r' ran)
  qed
  have "inj_on (rs_map r') (dom (rs_map r'))" using d(2) by (auto simp: r' inj_on_def)
  moreover have "distinct (rs_free r')" "set (rs_free r') \<inter> ran (rs_map r') = {}"
    using d(3,5) ranI [of "rs_map r", OF Some] by (auto simp: r' ran)
  moreover have "set (rs_free r') \<union> ran (rs_map r') = {..<length (rs_slab r')}"
    using d(4) ranI [of "rs_map r", OF Some] t(1) by (auto simp: r' ran)
  moreover have "\<forall>o' k. rs_map r' o' = Some k \<longrightarrow> re_offset (rs_slab r' ! k) = o'"
    using other keep(2) d(6) by (auto simp: r' split: if_splits)
  moreover have "set (remove1 i xs) = evictable r'"
    using d(8,9) lru_listD(1) [OF d(1)] by (simp add: ev set_remove1_eq)
  ultimately have "residency_ok r' (remove1 i xs)"
    unfolding residency_but_def using list by simp
  moreover have "look r' = (look r)(off := None)"
  proof
    fix o'
    show "look r' o' = ((look r)(off := None)) o'"
    proof (cases "o' = off \<or> rs_map r o' = None")
      case True
      then show ?thesis using look_none [of r' o'] look_none [of r o'] by (auto simp: r')
    next
      case False
      then obtain k where k: "rs_map r o' = Some k" "o' \<noteq> off" by auto
      then have "rs_map r' o' = Some k" by (simp add: r')
      then show ?thesis using slot [OF other(2,1) [OF k(2,1)]] k by (simp add: look_some)
    qed
  qed
  ultimately show ?thesis using t(6) by (auto simp: r')
qed


section \<open>The victim\<close>

lemma victim_walk_find:
  assumes "lru_list r xs" and "rev xs = as @ bs" and "length bs \<le> fuel"
  shows "victim_walk fuel (rs_slab r) (first_of bs) =
    find (\<lambda>i. re_durable (rs_slab r ! i) \<and> re_inflight (rs_slab r ! i) = 0) bs"
  using assms(2,3)
proof (induction bs arbitrary: as fuel)
  case Nil
  then show ?case by (cases fuel) (simp_all add: first_of_def)
next
  case (Cons b bs)
  note d = lru_listD [OF assms(1)]
  obtain k where k: "fuel = Suc k" using Cons.prems(2) by (cases fuel) auto
  have "b \<in> set xs" using Cons.prems(1) by (metis in_set_conv_decomp set_rev)
  then have b: "b < length (rs_slab r)" "b \<noteq> k_invalid_index" using d(2,3) by fastforce+
  have "distinct (as @ b # bs)" using d(1) Cons.prems(1) by (metis distinct_rev)
  then have "next_of (rev xs) b = first_of bs"
    unfolding Cons.prems(1) by (simp add: next_of_append first_of_def)
  then have prv: "re_prev (rs_slab r ! b) = first_of bs" using d(7) [OF b(1)] by simp
  have "victim_walk k (rs_slab r) (first_of bs) =
      find (\<lambda>i. re_durable (rs_slab r ! i) \<and> re_inflight (rs_slab r ! i) = 0) bs"
    by (rule Cons.IH [of "as @ [b]"]) (use Cons.prems k in auto)
  then show ?case using b prv by (simp add: k first_of_def [of "b # bs"] Let_def)
qed

lemma pick_find:
  assumes "lru_list r xs"
  shows "pick_evict_victim r = find (\<lambda>i. re_durable (rs_slab r ! i) \<and> re_inflight (rs_slab r ! i) = 0) (rev xs)"
proof -
  note d = lru_listD [OF assms]
  have "card (set xs) \<le> card {..<length (rs_slab r)}"
    by (rule card_mono) (use d(2) in auto)
  then have "length (rev xs) \<le> length (rs_slab r)" using distinct_card [OF d(1)] by simp
  then show ?thesis
    using victim_walk_find [OF assms, of "[]" "rev xs"] d(5) by (simp add: pick_evict_victim_def)
qed

lemma pick_ok:
  assumes "residency_ok r xs"
  shows "(pick_evict_victim r = None \<longleftrightarrow> (\<forall>off. \<not> fst (evict off r))) \<and>
    (\<forall>i. pick_evict_victim r = Some i \<longrightarrow>
       fst (evict (re_offset (rs_slab r ! i)) r) \<and>
       (\<exists>older newer. xs = newer @ i # older \<and>
          (\<forall>k \<in> set older. \<not> (re_durable (rs_slab r ! k) \<and> re_inflight (rs_slab r ! k) = 0))))"
proof -
  note d = residency_butD [OF assms]
  let ?p = "\<lambda>i. re_durable (rs_slab r ! i) \<and> re_inflight (rs_slab r ! i) = 0"
  have ev: "fst (evict off r) \<longleftrightarrow> (\<exists>i \<in> set xs. rs_map r off = Some i \<and> ?p i)" for off
  proof -
    have "i \<in> set xs \<longleftrightarrow> re_state (rs_slab r ! i) = local_uploaded" if "rs_map r off = Some i" for i
      using d(8,9) ranI [of "rs_map r", OF that] by (auto simp: evictable_def)
    then show ?thesis by (auto simp: evict_def Let_def split: option.splits if_splits)
  qed
  have used: "\<exists>off. rs_map r off = Some i \<and> re_offset (rs_slab r ! i) = off" if "i \<in> set xs" for i
    using d(6,8) that by (auto simp: evictable_def ran_def)
  have none: "pick_evict_victim r = None \<longleftrightarrow> (\<forall>off. \<not> fst (evict off r))"
    unfolding pick_find [OF d(1)] find_None_iff ev using used by (metis set_rev)
  have "fst (evict (re_offset (rs_slab r ! i)) r) \<and>
       (\<exists>older newer. xs = newer @ i # older \<and> (\<forall>k \<in> set older. \<not> ?p k))" if pick: "pick_evict_victim r = Some i" for i
  proof -
    obtain n where n: "n < length (rev xs)" "?p (rev xs ! n)" "i = rev xs ! n" "\<forall>j < n. \<not> ?p (rev xs ! j)"
      using pick unfolding pick_find [OF d(1)] find_Some_iff by blast
    then have i: "i \<in> set xs" by (metis nth_mem set_rev)
    have split: "rev xs = take n (rev xs) @ i # drop (Suc n) (rev xs)"
      using n(1,3) by (simp add: id_take_nth_drop)
    then have "xs = rev (drop (Suc n) (rev xs)) @ i # rev (take n (rev xs))"
      by (metis append.assoc append_Cons append_Nil rev.simps(2) rev_append rev_rev_ident)
    moreover have "\<forall>k \<in> set (rev (take n (rev xs))). \<not> ?p k"
      using n(1,4) by (auto simp: in_set_conv_nth)
    ultimately show ?thesis using ev used [OF i] i n(2,3) by metis
  qed
  then show ?thesis using none by blast
qed

section \<open>Histories\<close>

text \<open>
  A life of the table. \<open>snaps\<close> gives, for the generation of each checkpoint that was built, the remote
  facts (offset and remote id) its payload contains; \<open>stored\<close> collects the facts of the checkpoints
  that were committed. The table has fewer than 2^32 - 1 slots and there are fewer than 2^32
  checkpoints; reads are started and ended on entries that exist.
\<close>

definition facts :: "blob_residency \<Rightarrow> (u64 \<times> u64) set" where
  "facts r = {(off, re_remote_id e) | off e. look r off = Some e}"

inductive residency_history :: "blob_residency \<Rightarrow> (u32 \<rightharpoonup> (u64 \<times> u64) set) \<Rightarrow> (u64 \<times> u64) set \<Rightarrow> bool" where
  start: "residency_history new_residency Map.empty {}"
| upload: "residency_history r snaps stored \<Longrightarrow> length (rs_slab r) < k_invalid_index \<Longrightarrow>
    mark_uploaded off sz rid r = (prev, r') \<Longrightarrow> residency_history r' snaps stored"
| spill: "residency_history r snaps stored \<Longrightarrow> length (rs_slab r) < k_invalid_index \<Longrightarrow>
    residency_history (mark_spilled off sz rid r) snaps stored"
| divert: "residency_history r snaps stored \<Longrightarrow> length (rs_slab r) < k_invalid_index \<Longrightarrow>
    residency_history (mark_spilled_remote off sz rid r) snaps stored"
| snapshot: "residency_history r snaps stored \<Longrightarrow> rs_generation r + 1 \<noteq> 0 \<Longrightarrow> serialize_generation r = (g, r') \<Longrightarrow>
    residency_history r' (snaps(g \<mapsto> facts r)) stored"
| commit: "residency_history r snaps stored \<Longrightarrow> snaps g = Some inside \<Longrightarrow>
    residency_history (commit_durable offsets g r) snaps (stored \<union> inside)"
| evict: "residency_history r snaps stored \<Longrightarrow> evict off r = (ok, r') \<Longrightarrow> residency_history r' snaps stored"
| drop_spilled: "residency_history r snaps stored \<Longrightarrow> drop_spilled_local off r = (ok, r') \<Longrightarrow>
    residency_history r' snaps stored"
| forget: "residency_history r snaps stored \<Longrightarrow> forget off r = (out, r') \<Longrightarrow> residency_history r' snaps stored"
| touch: "residency_history r snaps stored \<Longrightarrow> rs_map r off = Some i \<Longrightarrow> residency_history (touch i r) snaps stored"
| begin_read: "residency_history r snaps stored \<Longrightarrow> rs_map r off = Some i \<Longrightarrow>
    residency_history (begin_local_read i r) snaps stored"
| end_read: "residency_history r snaps stored \<Longrightarrow> rs_map r off = Some i \<Longrightarrow>
    residency_history (end_local_read i r) snaps stored"
| account: "residency_history r snaps stored \<Longrightarrow>
    residency_history (account_alloc n (account_freed k (set_cap cap_bytes r))) snaps stored"

text \<open>A fact that is durable is stored; a fact as old as a checkpoint is in its payload.\<close>

definition durable_inv :: "blob_residency \<Rightarrow> (u32 \<rightharpoonup> (u64 \<times> u64) set) \<Rightarrow> (u64 \<times> u64) set \<Rightarrow> bool" where
  "durable_inv r snaps stored \<longleftrightarrow> (\<forall>g \<in> dom snaps. g < rs_generation r) \<and>
     (\<forall>off e. look r off = Some e \<longrightarrow>
        (re_durable e \<longrightarrow> (off, re_remote_id e) \<in> stored) \<and> re_generation e \<le> rs_generation r \<and>
        (\<forall>g inside. snaps g = Some inside \<and> re_generation e \<le> g \<longrightarrow> (off, re_remote_id e) \<in> inside))"

lemma durable_inv_update:
  assumes "durable_inv r snaps stored" and "rs_generation r' = rs_generation r" and "look r' = (look r)(off \<mapsto> e)"
    and "look r off = Some e0" and "re_remote_id e = re_remote_id e0" and "re_generation e = re_generation e0"
    and "re_durable e = re_durable e0"
  shows "durable_inv r' snaps stored"
  using assms by (auto simp: durable_inv_def)

lemma durable_inv_mark:
  assumes "durable_inv r snaps stored" and "rs_generation r' = rs_generation r"
    and "look r' = (look r)(off \<mapsto> remote_fact st rid (rs_generation r) e)"
  shows "durable_inv r' snaps stored"
proof -
  have fresh: "\<not> rs_generation r \<le> g" if "snaps g = Some inside" for g inside
    using assms(1) domI [of snaps, OF that] by (auto simp: durable_inv_def not_le)
  show ?thesis
    using assms(1) fresh unfolding durable_inv_def assms(2,3)
    by (auto simp: remote_fact_def split: if_splits)
qed

lemma durable_inv_start: "durable_inv new_residency Map.empty {}"
  by (simp add: durable_inv_def look_def find_entry_def new_residency_def)

lemma residency_start: "residency_ok new_residency []"
  by (simp add: residency_but_def lru_list_def new_residency_def evictable_def first_of_def)

lemma durable_inv_snapshot:
  assumes "durable_inv r snaps stored" and "rs_generation r + 1 \<noteq> 0"
  shows "durable_inv (r\<lparr>rs_generation := rs_generation r + 1\<rparr>) (snaps(rs_generation r \<mapsto> facts r)) stored"
proof -
  have grow: "rs_generation r < rs_generation r + 1"
    using assms(2) unatSuc [of "rs_generation r"] by (simp add: word_less_nat_alt add.commute)
  show ?thesis
    using assms(1) grow unfolding durable_inv_def facts_def
    by (auto simp: dom_def intro: less_trans order.trans [OF _ less_imp_le [OF grow]] split: if_splits)
qed

lemma durable_inv_commit:
  assumes "durable_inv r snaps stored" and "snaps g = Some inside" and "rs_generation r' = rs_generation r"
    and "look r' = (\<lambda>off. if off \<in> s then map_option (commit_entry g) (look r off) else look r off)"
  shows "durable_inv r' snaps (stored \<union> inside)"
proof -
  have "re_remote_id (commit_entry g e) = re_remote_id e" "re_generation (commit_entry g e) = re_generation e"
    "re_durable (commit_entry g e) \<longleftrightarrow> re_durable e \<or> re_generation e \<le> g" for e
    by (simp_all add: commit_entry_def)
  then show ?thesis
    using assms(1,2) unfolding durable_inv_def assms(3,4) by (auto split: if_splits)
qed

lemma history_invariant:
  "residency_history r snaps stored \<Longrightarrow> (\<exists>xs. residency_ok r xs) \<and> durable_inv r snaps stored"
proof (induction rule: residency_history.induct)
  case start
  show ?case using residency_start durable_inv_start by blast
next
  case (upload r snaps stored off sz rid prev r')
  then obtain xs where "residency_ok r xs" by blast
  from mark_uploaded_ok [OF this upload.hyps(2,3)] show ?case
    using durable_inv_mark upload.IH by blast
next
  case (spill r snaps stored off sz rid)
  then obtain xs where "residency_ok r xs" by blast
  from mark_spilled_ok [OF this spill.hyps(2)] show ?case
    using durable_inv_mark spill.IH by blast
next
  case (divert r snaps stored off sz rid)
  then obtain xs where "residency_ok r xs" by blast
  from mark_spilled_remote_ok [OF this divert.hyps(2)] show ?case
    using durable_inv_mark divert.IH by blast
next
  case (snapshot r snaps stored g r')
  then have "g = rs_generation r" "r' = r\<lparr>rs_generation := rs_generation r + 1\<rparr>"
    by (auto simp: serialize_generation_def)
  moreover have "residency_ok (r\<lparr>rs_generation := rs_generation r + 1\<rparr>) xs" if "residency_ok r xs" for xs
    using that by simp
  ultimately show ?case
    using snapshot.IH durable_inv_snapshot [OF _ snapshot.hyps(2)] by blast
next
  case (commit r snaps stored g inside offsets)
  then obtain xs where "residency_ok r xs" by blast
  from commit_durable_ok [OF this, of offsets g] show ?case
    using durable_inv_commit commit.IH commit.hyps(2) by blast
next
  case (evict r snaps stored off ok r')
  then obtain xs where xs: "residency_ok r xs" by blast
  note e = evict_ok [OF xs evict.hyps(2)]
  show ?case
  proof (cases ok)
    case True
    then obtain e0 where e0: "look r off = Some e0" using e by blast
    then have "look r' = (look r)(off \<mapsto> e0\<lparr>re_state := remote_uploaded\<rparr>)" using e True by simp
    then have "durable_inv r' snaps stored"
      using durable_inv_update [OF conjunct2 [OF evict.IH] _ _ e0] e by simp
    then show ?thesis using e by blast
  next
    case False
    then show ?thesis using e evict.IH by (auto simp: durable_inv_def)
  qed
next
  case (drop_spilled r snaps stored off ok r')
  then obtain xs where xs: "residency_ok r xs" by blast
  note e = drop_spilled_ok [OF xs drop_spilled.hyps(2)]
  show ?case
  proof (cases ok)
    case True
    then obtain e0 where e0: "look r off = Some e0" using e by blast
    then have "look r' = (look r)(off \<mapsto> e0\<lparr>re_state := remote_spilled\<rparr>)" using e True by simp
    then have "durable_inv r' snaps stored"
      using durable_inv_update [OF conjunct2 [OF drop_spilled.IH] _ _ e0] e by simp
    then show ?thesis using e by blast
  next
    case False
    then show ?thesis using e drop_spilled.IH by (auto simp: durable_inv_def)
  qed
next
  case (forget r snaps stored off out r')
  then obtain xs where "residency_ok r xs" by blast
  from forget_ok [OF this forget.hyps(2)] show ?case
    using forget.IH by (auto simp: durable_inv_def)
next
  case (touch r snaps stored off i)
  then obtain xs where "residency_ok r xs" by blast
  from touch_ok [OF this touch.hyps(2)] show ?case
    using touch.IH by (auto simp: durable_inv_def)
next
  case (begin_read r snaps stored off i)
  then obtain xs where "residency_ok r xs" by blast
  from read_ok [OF this begin_read.hyps(2) disjI1 [OF refl]] show ?case
    using durable_inv_update [OF conjunct2 [OF begin_read.IH] _ _ look_some [OF begin_read.hyps(2)]]
    by (auto simp: begin_local_read_def)
next
  case (end_read r snaps stored off i)
  then obtain xs where "residency_ok r xs" by blast
  from read_ok [OF this end_read.hyps(2) disjI2 [OF refl]] show ?case
    using durable_inv_update [OF conjunct2 [OF end_read.IH] _ _ look_some [OF end_read.hyps(2)]]
    by (auto simp: end_local_read_def)
next
  case (account r snaps stored n k cap_bytes)
  then show ?case
    by (simp add: account_alloc_def account_freed_def set_cap_def durable_inv_def)
qed



end
