(* ===== verification/ResidencyFormat.thy ===== *)
theory ResidencyFormat
  imports ResidencyDurable
begin

text \<open>The stored form of the residency table (blob_residency.cpp, serialize and deserialize): writing it, reading it back after a clean and
  after an unclean shutdown, and the concrete runs that show the hypotheses of the residency
  properties can be met.\<close>

section \<open>The stored table\<close>

text \<open>What the next session finds of an entry.\<close>

definition reopened :: "bool \<Rightarrow> residency_entry \<Rightarrow> residency_entry" where
  "reopened clean e = core (e\<lparr>re_durable := True, re_inflight := 0, re_generation := 0,
     re_state := (if clean then re_state e else demoted_state (re_state e))\<rparr>)"

definition written_entry :: "blob_residency \<Rightarrow> u64 \<Rightarrow> bytes list" where
  "written_entry r off = (let e = entry_at r off in
     [word_bytes (re_offset e), word_bytes (re_remote_id e), word_bytes (re_size e),
      word_bytes (state_code (re_state e)), word_bytes ((if re_durable e then 1 else 0) :: u8)])"

definition residency_fields :: "u64 list \<Rightarrow> bool \<Rightarrow> blob_residency \<Rightarrow> bytes list" where
  "residency_fields offsets clean r =
     [word_bytes k_residency_magic, word_bytes ((if clean then 1 else 0) :: u8), word_bytes (rs_cap r),
      word_bytes (rs_resident r), word_bytes (rs_generation r), word_bytes (word_of_nat (length offsets) :: u32)] @
     concat (map (written_entry r) offsets)"

lemma code_state_code [simp]: "code_state (state_code st) = Some st"
  by (cases st) (simp_all add: code_state_def)

lemma serialize_residency_eq:
  assumes "29 + 22 * length offsets < 2 ^ 32"
  shows "serialize_residency offsets clean r = concat (residency_fields offsets clean r)"
proof -
  have entries: "write_all (\<lambda>off. write_residency_entry (entry_at r off)) offsets =
      write_seq (concat (map (written_entry r) offsets))"
    by (rule ext) (rule write_all_seq, simp add: write_residency_entry_def written_entry_def Let_def Option.bind_def split: option.splits)
  have "length (concat (concat (map (written_entry r) offsets))) = 22 * length offsets"
    by (induction offsets) (simp_all add: written_entry_def Let_def)
  then have "length (concat (residency_fields offsets clean r)) = residency_size offsets"
    using assms by (simp add: residency_fields_def residency_size_def wrap32_def)
  then have fits: "map_option buffer_of (write_seq (residency_fields offsets clean r) (fresh (residency_size offsets))) =
      Some (concat (residency_fields offsets clean r))"
    using write_seq_fits [of "residency_fields offsets clean r" "residency_size offsets"] by simp
  have "serialize_residency offsets clean r =
      (case write_seq (residency_fields offsets clean r) (fresh (residency_size offsets)) of None \<Rightarrow> [] | Some c \<Rightarrow> buffer_of c)"
    unfolding serialize_residency_def entries residency_fields_def append_Cons append_Nil bind_write_seq ..
  then show ?thesis using fits by (auto split: option.splits)
qed

lemma add_read_entry_ok:
  assumes "residency_ok r xs" and "rs_free r = []" and "length (rs_slab r) < k_invalid_index"
    and "rs_map r (re_offset e) = None" and "core e = e"
  shows "(\<exists>ys. residency_ok (add_read_entry clean e r) ys) \<and> rs_free (add_read_entry clean e r) = [] \<and>
    length (rs_slab (add_read_entry clean e r)) = Suc (length (rs_slab r)) \<and>
    look (add_read_entry clean e r) = (look r)(re_offset e \<mapsto> (if clean then e else e\<lparr>re_state := demoted_state (re_state e)\<rparr>)) \<and>
    rs_generation (add_read_entry clean e r) = rs_generation r \<and> rs_cap (add_read_entry clean e r) = rs_cap r \<and>
    rs_resident (add_read_entry clean e r) =
      (if \<not> clean \<and> has_local_bytes e then rs_resident (account_freed (ucast (re_size e)) r) else rs_resident r)"
proof -
  note d = residency_butD [OF assms(1)]
  note l = lru_listD [OF d(1)]
  define i where "i = length (rs_slab r)"
  define e1 where "e1 = (if clean then e else e\<lparr>re_state := demoted_state (re_state e)\<rparr>)"
  define r0 where "r0 = (if \<not> clean \<and> has_local_bytes e then account_freed (ucast (re_size e)) r else r)"
  define r1 where "r1 = r0\<lparr>rs_slab := rs_slab r @ [e1], rs_map := (rs_map r)(re_offset e \<mapsto> i)\<rparr>"
  have off: "re_offset e1 = re_offset e" and links: "core e1 = e1"
    using assms(5) by (cases e; auto simp: e1_def core_def)+
  have "re_prev (core e1) = k_invalid_index" "re_next (core e1) = k_invalid_index" by (simp_all add: core_def)
  then have e1: "re_prev e1 = k_invalid_index" "re_next e1 = k_invalid_index" unfolding links .
  have step: "add_read_entry clean e r = (if re_state e1 = local_uploaded then lru_push_front i r1 else r1)"
    using assms(3) off by (simp add: add_read_entry_def Let_def r0_def r1_def e1_def i_def account_freed_def wrap32_def k_invalid_index_def)
  have ran: "ran (rs_map r) = {..<i}" using d(4) assms(2) by (simp add: i_def)
  have out: "i \<notin> ran (rs_map r)" by (simp add: ran)
  then have notin: "i \<notin> set xs" using members_used [OF assms(1)] by blast
  have r0: "rs_free r0 = []" "rs_head r0 = rs_head r" "rs_tail r0 = rs_tail r"
    using assms(2) by (simp_all add: r0_def account_freed_def)
  have list1: "lru_list r1 xs"
    using l assms(3) notin e1 r0 by (auto simp: lru_list_def r1_def i_def nth_append less_Suc_eq)
  have but: "residency_but {i} r1 xs"
    by (rule entered [OF assms(1,4) out _ _ _ _ _ _ _ _ list1])
      (simp_all add: r1_def r0 off ran lessThan_Suc nth_append i_def [symmetric])
  have look1: "look r1 = (look r)(re_offset e \<mapsto> e1)"
  proof
    fix o'
    show "look r1 o' = ((look r)(re_offset e \<mapsto> e1)) o'"
      using d(7) [of o'] links
      by (cases "rs_map r o'") (auto simp: look_def find_entry_def r1_def i_def nth_append)
  qed
  have frame: "rs_generation r1 = rs_generation r" "rs_cap r1 = rs_cap r" "rs_resident r1 = rs_resident r0"
    "rs_free r1 = []" "length (rs_slab r1) = Suc (length (rs_slab r))"
    using r0 by (simp_all add: r1_def r0_def account_freed_def)
  have slot: "rs_slab r1 ! i = e1" "i < length (rs_slab r1)" "rs_map r1 (re_offset e) = Some i"
    by (simp_all add: r1_def i_def)
  have res: "rs_resident r0 =
      (if \<not> clean \<and> has_local_bytes e then rs_resident (account_freed (ucast (re_size e)) r) else rs_resident r)"
    by (simp add: r0_def)
  show ?thesis
  proof (cases "re_state e1 = local_uploaded")
    case True
    note t = same_tableD [OF push_same_table [of r1 i]]
    have "residency_ok (lru_push_front i r1) (i # xs) \<and> look (lru_push_front i r1) = (look r1)(re_offset e \<mapsto> e1)"
      by (rule entry_changed_look [OF but slot(3) _ _ _ _ _ _ lru_push_list [OF list1 slot(2) notin]])
        (use t slot links off True notin in auto)
    then show ?thesis
      using step True t frame look1 res by (auto simp: e1_def)
  next
    case False
    have "evictable r1 \<subseteq> evictable r1 - {i}" using False slot(1) by (auto simp: evictable_def)
    then have "residency_ok r1 xs" using but unfolding residency_but_def by blast
    then show ?thesis
      using step False frame look1 res by (auto simp: e1_def)
  qed
qed


lemma core_self [simp]: "core (core e) = core e"
  by (simp add: core_def)

lemma read_entry_fields:
  assumes "rs_map r off = Some i" and "re_offset (rs_slab r ! i) = off"
  shows "read_residency_entry (concat (written_entry r off) @ q) =
    Some (core ((rs_slab r ! i)\<lparr>re_durable := True, re_inflight := 0, re_generation := 0\<rparr>), q)"
  using assms by (simp add: read_residency_entry_def written_entry_def entry_at_def Let_def u64c.read_one u32c.read_one
      u8c.read_one [unfolded One_nat_def] new_entry_def core_def)

text \<open>The reading loop over the entries written for \<open>offsets\<close>.\<close>

lemma read_entries_ok:
  assumes "residency_ok n xs" and "rs_free n = []" and "length (rs_slab n) + length offsets < k_invalid_index"
    and "distinct offsets" and "\<And>off. off \<in> set offsets \<Longrightarrow> rs_map n off = None"
    and "\<And>off. off \<in> set offsets \<Longrightarrow> \<exists>i. rs_map r off = Some i \<and> re_offset (rs_slab r ! i) = off"
  shows "\<exists>n' ys. read_residency_entries (length offsets) clean n (concat (concat (map (written_entry r) offsets)) @ q) = Some (n', q) \<and>
    residency_ok n' ys \<and> rs_generation n' = rs_generation n \<and> rs_cap n' = rs_cap n \<and>
    (clean \<longrightarrow> rs_resident n' = rs_resident n) \<and>
    look n' = (\<lambda>off. if off \<in> set offsets then map_option (reopened clean) (look r off) else look n off)"
  using assms
proof (induction offsets arbitrary: n xs)
  case Nil
  then show ?case by auto
next
  case (Cons off offsets)
  obtain i where i: "rs_map r off = Some i" "re_offset (rs_slab r ! i) = off" using Cons.prems(6) by auto
  define e where "e = core ((rs_slab r ! i)\<lparr>re_durable := True, re_inflight := 0, re_generation := 0\<rparr>)"
  have e: "re_offset e = off" "core e = e" using i(2) by (simp_all add: e_def)
  have none: "rs_map n (re_offset e) = None" using Cons.prems(5) e by simp
  note a = add_read_entry_ok [OF Cons.prems(1,2) _ none e(2), of clean]
  have "length (rs_slab n) < k_invalid_index" using Cons.prems(3) by simp
  note a = a [OF this]
  obtain ys where ys: "residency_ok (add_read_entry clean e n) ys" using a by blast
  have step: "(if clean then e else e\<lparr>re_state := demoted_state (re_state e)\<rparr>) = reopened clean (core (rs_slab r ! i))"
    by (simp add: e_def reopened_def core_def)
  have l: "look (add_read_entry clean e n) = (look n)(off \<mapsto> reopened clean (core (rs_slab r ! i)))"
    using a e(1) step by simp
  have later: "rs_map (add_read_entry clean e n) o' = None" if "o' \<in> set offsets" for o'
  proof -
    have "o' \<noteq> off" using Cons.prems(4) that by auto
    then have "look (add_read_entry clean e n) o' = None"
      using l Cons.prems(5) [of o'] that by (simp add: look_none)
    then show ?thesis by (simp add: look_none)
  qed
  let ?n = "add_read_entry clean e n"
  have free: "rs_free ?n = []" and len: "length (rs_slab ?n) + length offsets < k_invalid_index"
    and dist: "distinct offsets"
    using a Cons.prems(3,4) by simp_all
  have old: "\<exists>i. rs_map r o' = Some i \<and> re_offset (rs_slab r ! i) = o'" if "o' \<in> set offsets" for o'
    using Cons.prems(6) that by simp
  obtain n' ys' where n': "read_residency_entries (length offsets) clean ?n
      (concat (concat (map (written_entry r) offsets)) @ q) = Some (n', q)"
    "residency_ok n' ys'" "rs_generation n' = rs_generation ?n" "rs_cap n' = rs_cap ?n"
    "clean \<longrightarrow> rs_resident n' = rs_resident ?n"
    "look n' = (\<lambda>o'. if o' \<in> set offsets then map_option (reopened clean) (look r o') else look ?n o')"
    using Cons.IH [OF ys free len dist later old] by blast
  have "look n' = (\<lambda>o'. if o' \<in> set (off # offsets) then map_option (reopened clean) (look r o') else look n o')"
    unfolding n'(6) l using Cons.prems(4) look_some [OF i(1)] by auto
  then show ?case
    using n'(1-5) read_entry_fields [OF i, folded e_def] a by auto
qed

text \<open>C17: A table written at a clean shutdown is read back with every entry's state, size and locator,
  the cap, the resident bytes and the generation; every entry counts as durable and none is being
  read. After an unclean shutdown the blobs that still had local bytes are those of their remote
  copies. The table read is a consistent one whatever the order of iteration.\<close>

theorem residency_roundtrip:
  assumes "residency_history r snaps stored" and "set offsets = dom (rs_map r)" and "distinct offsets"
    and "29 + 22 * length offsets < 2 ^ 32"
  shows "\<exists>r' xs. deserialize_residency (serialize_residency offsets clean r) = Inr r' \<and> lru_list r' xs \<and>
    rs_cap r' = rs_cap r \<and> rs_generation r' = rs_generation r \<and> (clean \<longrightarrow> rs_resident r' = rs_resident r) \<and>
    look r' = (\<lambda>off. map_option (reopened clean) (look r off))"
proof -
  obtain xs where "residency_ok r xs" using history_invariant [OF assms(1)] by blast
  note d = residency_butD [OF this]
  let ?n = "new_residency\<lparr>rs_cap := rs_cap r, rs_resident := rs_resident r, rs_generation := rs_generation r\<rparr>"
  have new: "residency_ok ?n []" using residency_start by simp
  have entries: "\<exists>i. rs_map r off = Some i \<and> re_offset (rs_slab r ! i) = off" if "off \<in> set offsets" for off
    using that assms(2) d(6) by auto
  have blank: "rs_free ?n = []" "rs_map ?n off = None" "look ?n off = None"
    "length (rs_slab ?n) + length offsets < k_invalid_index" for off
    using assms(4) by (simp_all add: new_residency_def look_def find_entry_def k_invalid_index_def)
  obtain n' ys where n': "read_residency_entries (length offsets) clean ?n (concat (concat (map (written_entry r) offsets)) @ []) = Some (n', [])"
    "residency_ok n' ys" "rs_generation n' = rs_generation ?n" "rs_cap n' = rs_cap ?n" "clean \<longrightarrow> rs_resident n' = rs_resident ?n"
    "look n' = (\<lambda>off. if off \<in> set offsets then map_option (reopened clean) (look r off) else look ?n off)"
    using read_entries_ok [OF new blank(1,4) assms(3) blank(2) entries, of clean "[]"] by blast
  have "deserialize_residency (serialize_residency offsets clean r) = Inr n'"
    using n'(1) assms(4) unfolding serialize_residency_eq [OF assms(4)]
    by (cases clean) (simp_all add: deserialize_residency_def residency_fields_def u64c.read_one u32c.read_one
        u8c.read_one [unfolded One_nat_def] unat_of_nat)
  moreover have "look n' = (\<lambda>off. map_option (reopened clean) (look r off))"
  proof
    fix off
    show "look n' off = map_option (reopened clean) (look r off)"
      using look_none [of r off] blank(3) [of off] assms(2) unfolding n'(6) by auto
  qed
  ultimately show ?thesis
    using n'(3-5) residency_butD(1) [OF n'(2)] by auto
qed


section \<open>Examples\<close>

definition example_uploaded :: blob_residency where
  "example_uploaded = snd (mark_uploaded 7 100 9 new_residency)"

definition example_committed :: blob_residency where
  "example_committed = commit_durable [7] 1 (snd (serialize_generation example_uploaded))"

lemma example_uploaded_history: "residency_history example_uploaded Map.empty {}"
proof -
  have "mark_uploaded 7 100 9 new_residency = (fst (mark_uploaded 7 100 9 new_residency), example_uploaded)"
    by (simp add: example_uploaded_def)
  then show ?thesis
    by (rule residency_history.upload [OF residency_history.start, rotated]) (simp add: new_residency_def k_invalid_index_def)
qed

lemmas residency_eval = example_uploaded_def mark_uploaded_def get_or_create_def new_residency_def record_remote_def
  lru_push_front_def lru_unlink_def upd_def Let_def wrap32_def k_invalid_index_def new_entry_def

lemma example_uploaded_value:
  "example_uploaded = new_residency\<lparr>rs_map := [7 \<mapsto> 0], rs_slab := [new_entry\<lparr>re_offset := 7, re_size := 100,
     re_remote_id := 9, re_generation := 1\<rparr>], rs_head := 0, rs_tail := 0\<rparr>"
  by (simp add: residency_eval)

lemma example_committed_history: "\<exists>snaps stored. residency_history example_committed snaps stored"
proof -
  have g: "serialize_generation example_uploaded = (1, snd (serialize_generation example_uploaded))"
    by (simp add: serialize_generation_def example_uploaded_value new_residency_def)
  have "residency_history (snd (serialize_generation example_uploaded)) [1 \<mapsto> facts example_uploaded] {}"
    by (rule residency_history.snapshot [OF example_uploaded_history _ g])
      (simp add: example_uploaded_value new_residency_def)
  then have "residency_history example_committed [1 \<mapsto> facts example_uploaded] ({} \<union> facts example_uploaded)"
    unfolding example_committed_def by (rule residency_history.commit) simp
  then show ?thesis by blast
qed

lemma example_evictable: "fst (evict 7 example_committed)"
  by (simp add: evict_def example_committed_def commit_durable_def serialize_generation_def example_uploaded_value
      upd_def commit_entry_def new_residency_def new_entry_def Let_def)



theorem residency_roundtrip_witness:
  "\<exists>r'. deserialize_residency (serialize_residency [7] False example_uploaded) = Inr r' \<and>
     look r' 7 = map_option (reopened False) (look example_uploaded 7)"
proof -
  have "set [7] = dom (rs_map example_uploaded)" "distinct [7 :: u64]" "29 + 22 * length [7 :: u64] < 2 ^ 32"
    by (simp_all add: example_uploaded_value)
  from residency_roundtrip [OF example_uploaded_history this, of False] show ?thesis by auto
qed

end
