(* ===== verification/OctantSplit.thy ===== *)
theory OctantSplit
  imports TreeFormat MortonWidth
begin

text \<open>
  \<open>src/src/converter/point_buffer_splitter.hpp\<close>: the carving of a sorted run of points into the
  octants of a node, which the tree builder uses to hand a node's points to its children. A buffer of
  codes is its bytes; the codes are read from it with the width of their type. The code type
  \<open>morton_t<T, C>\<close> of a template is given by a value of it, \<open>dummy\<close>: \<open>T\<close> is its word type and \<open>C\<close> its
  length. \<open>std::lower_bound\<close> on \<open>[cur, end)\<close> is the first position whose element is not below the key.
  The locale \<open>code_width\<close> is what the split relies on of a code type; it is interpreted for all four.
  The checks of a debug build are not part of the model.
\<close>

section \<open>The octants of a run\<close>

definition add_subset_to_child :: "input_data_id \<Rightarrow> u32 \<Rightarrow> u32 \<Rightarrow> m192 \<Rightarrow> m192 \<Rightarrow> points_collection \<Rightarrow> points_collection" where
  "add_subset_to_child i offset point_count first final child =
     (let child =
        (if pc_count child = 0
         then child\<lparr>pc_min := first, pc_max := final, pc_min_lod := m192_lod first final\<rparr>
         else (let lower = m192_lt first (pc_min child); upper = m192_lt (pc_max child) final;
                   child = (if lower then child\<lparr>pc_min := first\<rparr> else child);
                   child = (if upper then child\<lparr>pc_max := final\<rparr> else child)
               in if lower \<or> upper then child\<lparr>pc_min_lod := m192_lod (pc_min child) (pc_max child)\<rparr> else child))
      in child\<lparr>pc_data := pc_data child @ [\<lparr>ps_input = i, ps_offset = offset, ps_count = point_count\<rparr>],
               pc_count := pc_count child + ucast point_count\<rparr>)"

record octant_range =
  or_octant :: nat
  or_begin :: nat
  or_count :: nat
  or_first :: m192
  or_last :: m192

text \<open>The first code behind octant \<open>i\<close> of the node.\<close>

definition octant_end :: "nat \<Rightarrow> 'a::len morton \<Rightarrow> nat \<Rightarrow> 'a morton" where
  "octant_end lod local_min i =
     (if i = 7 then morton_add_one (morton_or local_min (morton_mask_create (length local_min) (int lod)))
      else morton_set_child_mask lod (word_of_nat (i + 1)) local_min)"

definition lower_bound :: "'a::len morton list \<Rightarrow> nat \<Rightarrow> 'a morton \<Rightarrow> nat" where
  "lower_bound xs cur key = cur + length (takeWhile (\<lambda>x. morton_lt x key) (drop cur xs))"

definition to_world :: "m192 \<Rightarrow> 'a::len morton \<Rightarrow> m192" where
  "to_world mn x = m192_of (morton_upcast 3 x (m192_words mn))"

fun octant_loop :: "'a::len morton list \<Rightarrow> nat \<Rightarrow> m192 \<Rightarrow> 'a morton \<Rightarrow> nat list \<Rightarrow> nat \<Rightarrow> octant_range list" where
  "octant_loop xs lod node_min local_min [] cur = []"
| "octant_loop xs lod node_min local_min (i # is) cur =
     (if cur = length xs then []
      else (let node_mask = octant_end lod local_min i in
        if morton_ge (xs ! cur) node_mask then octant_loop xs lod node_min local_min is cur
        else (let hi = lower_bound xs cur node_mask in
          if hi = cur then octant_loop xs lod node_min local_min is cur
          else \<lparr>or_octant = i, or_begin = cur, or_count = hi - cur, or_first = to_world node_min (xs ! cur),
                 or_last = to_world node_min (xs ! (hi - 1))\<rparr> # octant_loop xs lod node_min local_min is hi)))"

definition for_each_octant_range :: "'a::len morton \<Rightarrow> 'a morton list \<Rightarrow> nat \<Rightarrow> m192 \<Rightarrow> octant_range list" where
  "for_each_octant_range dummy xs lod node_min =
     octant_loop xs lod node_min (morton_downcast (length dummy) (m192_words node_min)) [0..<8] 0"

section \<open>Subdividing a buffer\<close>

definition codes_at :: "'a::len morton \<Rightarrow> nat \<Rightarrow> bytes \<Rightarrow> 'a morton list" where
  "codes_at dummy n data =
     map (\<lambda>e. map bytes_word (elements (LENGTH('a) div 8) (length dummy) e))
       (elements (LENGTH('a) div 8 * length dummy) n data)"

definition code_bytes :: "'a::len morton \<Rightarrow> nat" where
  "code_bytes dummy = LENGTH('a) div 8 * length dummy"

type_synonym split_state = "input_storage_map \<times> points_collection list"

definition take_range :: "points_subset \<Rightarrow> octant_range \<Rightarrow> split_state \<Rightarrow> split_state" where
  "take_range s r st =
     (let (m, children) = st
      in (add_ref (ps_input s) m,
          children[or_octant r := add_subset_to_child (ps_input s) (ps_offset s + word_of_nat (or_begin r))
            (word_of_nat (or_count r)) (or_first r) (or_last r) (children ! or_octant r)]))"

definition subset_codes :: "'a::len morton \<Rightarrow> bytes \<Rightarrow> points_subset \<Rightarrow> 'a morton list" where
  "subset_codes dummy data s =
     codes_at dummy (unat (ps_count s)) (drop (unat (ps_offset s) * code_bytes dummy) data)"

definition point_buffer_subdivide_type :: "'a::len morton \<Rightarrow> storage_header \<Rightarrow> bytes \<Rightarrow> points_subset \<Rightarrow> nat \<Rightarrow> m192 \<Rightarrow>
    split_state \<Rightarrow> split_state" where
  "point_buffer_subdivide_type dummy h data s lod node_min st =
     (if LENGTH('a) * length dummy < lod * 3 + 3
      then (let (m, children) = st; child = unat (morton_get_child_mask lod (m192_words (sh_min h)))
            in (add_ref (ps_input s) m,
                children[child := add_subset_to_child (ps_input s) 0 (sh_count h) (sh_min h) (sh_max h) (children ! child)]))
      else fold (take_range s) (for_each_octant_range dummy (subset_codes dummy data s) lod node_min) st)"

definition dew_type_code :: "dew_type \<Rightarrow> u32" where
  "dew_type_code t = (case t of dew_type_u8 \<Rightarrow> 0 | dew_type_i8 \<Rightarrow> 1 | dew_type_u16 \<Rightarrow> 2 | dew_type_i16 \<Rightarrow> 3
     | dew_type_u32 \<Rightarrow> 4 | dew_type_i32 \<Rightarrow> 5 | dew_type_m32 \<Rightarrow> 6 | dew_type_r32 \<Rightarrow> 7 | dew_type_u64 \<Rightarrow> 8
     | dew_type_i64 \<Rightarrow> 9 | dew_type_m64 \<Rightarrow> 10 | dew_type_r64 \<Rightarrow> 11 | dew_type_m128 \<Rightarrow> 12 | dew_type_m192 \<Rightarrow> 13)"

definition point_buffer_subdivide :: "storage_header \<Rightarrow> bytes \<Rightarrow> points_subset \<Rightarrow> nat \<Rightarrow> m192 \<Rightarrow> split_state \<Rightarrow> split_state" where
  "point_buffer_subdivide h data s lod node_min st =
     (if sh_type h = dew_type_code dew_type_m32 then point_buffer_subdivide_type [0 :: u32] h data s lod node_min st
      else if sh_type h = dew_type_code dew_type_m64 then point_buffer_subdivide_type [0 :: u64] h data s lod node_min st
      else if sh_type h = dew_type_code dew_type_m128 then point_buffer_subdivide_type [0, 0 :: u64] h data s lod node_min st
      else if sh_type h = dew_type_code dew_type_m192 then point_buffer_subdivide_type [0, 0, 0 :: u64] h data s lod node_min st
      else st)"

end
