(* ===== verification/CodeWidth.thy ===== *)
theory CodeWidth
  imports OctantSplit
begin

text \<open>
  What the octant split relies on of a code type: which bits a narrowed code keeps, what setting a child
  index and creating a mask do below them, and that widening restores the bits above them. The locale
  \<open>code_width\<close> states it, and is interpreted for the four code types of the program.
\<close>

locale code_width =
  fixes dummy :: "'a::len morton"
  assumes width: "length dummy \<in> {1, 2, 3}"
    and margin: "kept_bits LENGTH('a) (length dummy) < LENGTH('a) * length dummy \<or>
      kept_bits LENGTH('a) (length dummy) = 192 \<and> LENGTH('a) * length dummy = 192"
    and whole_bytes: "8 dvd LENGTH('a)"
    and set_octant: "length m = length dummy \<Longrightarrow> 3 * lod + 3 \<le> kept_bits LENGTH('a) (length dummy) \<Longrightarrow> unat c < 8 \<Longrightarrow>
      morton_bit (morton_set_child_mask lod c m :: 'a morton) k \<longleftrightarrow>
        (if 3 * lod \<le> k \<and> k < 3 * lod + 3 then bit c (k - 3 * lod) else morton_bit m k)"
    and low_mask: "3 * lod + 3 \<le> kept_bits LENGTH('a) (length dummy) \<Longrightarrow> lod < 63 \<Longrightarrow>
      morton_val (morton_mask_create (length dummy) (int lod) :: 'a morton) = mask (3 * lod + 3)"
    and narrowed: "length wide = 3 \<Longrightarrow> length (morton_downcast (length dummy) (wide :: morton192) :: 'a morton) = length dummy \<and>
      (morton_bit (morton_downcast (length dummy) wide :: 'a morton) k \<longleftrightarrow> k < kept_bits LENGTH('a) (length dummy) \<and> morton_bit wide k)"
    and widened: "length x = length dummy \<Longrightarrow> length mn = 3 \<Longrightarrow>
      (\<And>j. kept_bits LENGTH('a) (length dummy) \<le> j \<Longrightarrow> \<not> morton_bit x j) \<Longrightarrow>
      length (morton_upcast 3 (x :: 'a morton) mn) = 3 \<and>
      (morton_bit (morton_upcast 3 (x :: 'a morton) mn) k \<longleftrightarrow>
        (if k < kept_bits LENGTH('a) (length dummy) then morton_bit x k else morton_bit mn k))"

lemma kept_values: "kept_bits 64 (Suc 0) = 63" "kept_bits 32 1 = 30" "kept_bits 64 1 = 63" "kept_bits 64 2 = 126" "kept_bits 64 3 = 192"
  by (simp_all add: kept_bits_def)

lemma mask_create_64:
  assumes "C \<in> {1, 2, 3}" and "3 * lod + 3 \<le> kept_bits 64 C" and "lod < 63"
  shows "morton_val (morton_mask_create C (int lod) :: 64 morton) = mask (3 * lod + 3)"
proof -
  have "nat (3 * int lod + 3) = 3 * lod + 3" by (simp add: nat_add_distrib nat_mult_distrib)
  moreover have "3 * int lod + 3 < 64 * int C" using assms by (auto simp: kept_bits_def)
  ultimately show ?thesis
    using morton_mask_create_val [OF assms(1), of "int lod"] by (simp add: mask_eq_exp_minus_1)
qed

lemma downcast_bit_64:
  assumes "C \<in> {1, 2, 3}" and "length m = 3"
  shows "length (morton_downcast C m :: 64 morton) = C \<and>
    (morton_bit (morton_downcast C (m :: morton192) :: 64 morton) k \<longleftrightarrow> k < kept_bits 64 C \<and> morton_bit m k)"
proof -
  obtain x y z where m: "m = [x, y, z]" using assms(2) by (auto simp: length_3_conv)
  from assms(1) consider "C = 1" | "C = 2" | "C = 3" by auto
  then show ?thesis
  proof cases
    case 1
    show ?thesis
      unfolding 1 m morton_downcast_shape morton_bit_words kept_values word_bits bit_push_ones
      using far64 [of k x] by auto
  next
    case 2
    show ?thesis
      unfolding 2 m morton_downcast_shape morton_bit_words kept_values word_bits bit_push_ones
      using far64 [of k x] by auto
  next
    case 3
    show ?thesis
      unfolding 3 m morton_downcast_shape morton_bit_words kept_values
      using far64 [of "k - 128" z] by (cases "k < 192") auto
  qed
qed

lemma upcast_bit_64:
  assumes "C \<in> {1, 2, 3}" and "length x = C" and "length mn = 3" and "\<And>j. kept_bits 64 C \<le> j \<Longrightarrow> \<not> morton_bit x j"
  shows "length (morton_upcast 3 (x :: 64 morton) mn) = 3 \<and>
    (morton_bit (morton_upcast 3 x mn) k \<longleftrightarrow>
      (if k < kept_bits 64 C then morton_bit x k else morton_bit mn k))"
proof -
  obtain u v w where m: "mn = [u, v, w]" using assms(3) by (auto simp: length_3_conv)
  have "length x \<in> {1, 2, 3}" using assms(1,2) by simp
  then show ?thesis
  proof (cases x rule: list_upto3)
    case (1 a)
    have len: "C = 1" using assms(2) by (simp add: 1)
    show ?thesis
      using assms(4) [of k] far64 [of k a]
      unfolding len kept_values unfolding 1 m morton_upcast_shape morton_bit_words word_bits bit_push_ones by auto
  next
    case (2 a b)
    have len: "C = 2" using assms(2) by (simp add: 2)
    show ?thesis
      using assms(4) [of k] far64 [of "k - 64" b]
      unfolding len kept_values unfolding 2 m morton_upcast_shape morton_bit_words word_bits bit_push_ones by auto
  next
    case (3 a b c)
    have len: "C = 3" using assms(2) by (simp add: 3)
    show ?thesis
      using far64 [of "k - 128" w] far64 [of "k - 128" c]
      unfolding len kept_values unfolding 3 m morton_upcast_shape morton_bit_words by auto
  qed
qed

lemma set_octant_1:
  assumes "length (m :: 64 morton) = 1" and "3 * lod + 3 \<le> 63" and "unat c < 8"
  shows "morton_bit (morton_set_child_mask lod c m) k \<longleftrightarrow>
    (if 3 * lod \<le> k \<and> k < 3 * lod + 3 then bit c (k - 3 * lod) else morton_bit m k)"
proof -
  obtain x where m: "m = [x]" using assms(1) by (auto simp: length_Suc_conv)
  have "lod * 3 < 64" using assms(2) by simp
  then show ?thesis
    using assms(2) far64 [of k x] small_byte [OF assms(3)]
    by (auto simp: m morton_bit_words morton_set_child_mask_def word_bits Let_def mult.commute [of lod 3])
qed

lemma set_octant_2:
  assumes "length (m :: 64 morton) = 2" and "3 * lod + 3 \<le> 126" and "unat c < 8"
  shows "morton_bit (morton_set_child_mask lod c m) k \<longleftrightarrow>
    (if 3 * lod \<le> k \<and> k < 3 * lod + 3 then bit c (k - 3 * lod) else morton_bit m k)"
proof -
  obtain x y where m: "m = [x, y]" using assms(1) by (auto simp: length_2_conv)
  note c = small_byte [OF assms(3)]
  have "lod < 64" using assms(2) by simp
  then show ?thesis
  proof (cases rule: lod_cases)
    case low
    then show ?thesis
      by (auto simp: m morton_bit_words morton_set_child_mask_def word_bits Let_def far64 c mult.commute [of lod 3])
  next
    case straddle1
    have e: "morton_set_child_mask 21 c m = [(x AND NOT (push_bit 63 7)) OR push_bit 63 (ucast c),
        (y AND NOT 3) OR drop_bit 1 (ucast c)]"
      by (simp add: m morton_set_child_mask_def)
    have k: "k - 63 = 1 + (k - 64)" if "64 \<le> k" using that by simp
    show ?thesis
      unfolding straddle1 e unfolding m morton_bit_words word_bits
      using far64 [of k x] far64 [of "k - 64" y] k c by (cases "k < 128") auto
  next
    case mid
    then show ?thesis
      by (auto simp: m morton_bit_words morton_set_child_mask_def word_bits Let_def far64 c mult.commute [of lod 3])
  qed (use assms(2) in auto)
qed

lemma word_64: "LENGTH(64) = 64" "LENGTH(32) = 32"
  by simp_all

lemma code_width_64:
  assumes "length (d :: 64 morton) \<in> {1, 2, 3}"
    and "\<And>m lod c k. length (m :: 64 morton) = length d \<Longrightarrow> 3 * lod + 3 \<le> kept_bits 64 (length d) \<Longrightarrow> unat c < 8 \<Longrightarrow>
      morton_bit (morton_set_child_mask lod c m) k \<longleftrightarrow>
        (if 3 * lod \<le> k \<and> k < 3 * lod + 3 then bit c (k - 3 * lod) else morton_bit m k)"
  shows "code_width d"
  unfolding code_width_def word_64
  using assms(1) assms(2) kept_values mask_create_64 [OF assms(1)] downcast_bit_64 [OF assms(1)] upcast_bit_64 [OF assms(1)]
  by auto

interpretation m64: code_width "[0 :: u64]"
  by (rule code_width_64) (simp, rule set_octant_1, simp_all add: kept_bits_def)

interpretation m128: code_width "[0, 0 :: u64]"
  by (rule code_width_64) (simp, rule set_octant_2, simp_all add: kept_bits_def)

interpretation m192: code_width "[0, 0, 0 :: u64]"
  by (rule code_width_64) (simp, rule morton_set_child_mask_bit, simp_all add: kept_bits_def)

lemma far32: "32 \<le> j \<Longrightarrow> \<not> bit (w :: u32) j"
  using bit_imp_le_length [of w j] by auto

lemma morton_bit_32: "morton_bit [x :: u32] k \<longleftrightarrow> bit x k"
  using far32 [of k x] by (cases "k < 32") (auto simp: morton_bit_def)

interpretation m32: code_width "[0 :: u32]"
proof
  fix m :: "32 morton" and lod k :: nat and c :: u8
  assume "length m = length [0 :: u32]" and b: "3 * lod + 3 \<le> kept_bits LENGTH(32) (length [0 :: u32])" and c: "unat c < 8"
  then obtain x where m: "m = [x]" by (auto simp: length_Suc_conv)
  have "lod * 3 < 32" "3 * lod + 3 \<le> 30" using b by (simp_all add: kept_bits_def)
  then show "morton_bit (morton_set_child_mask lod c m) k \<longleftrightarrow>
      (if 3 * lod \<le> k \<and> k < 3 * lod + 3 then bit c (k - 3 * lod) else morton_bit m k)"
    using far32 [of k x] small_byte [OF c]
    by (auto simp: m morton_bit_32 morton_set_child_mask_def word_bits Let_def mult.commute [of lod 3])
next
  fix lod :: nat
  assume "3 * lod + 3 \<le> kept_bits LENGTH(32) (length [0 :: u32])"
  then have l: "3 * lod + 3 < 32" by (simp add: kept_bits_def)
  have "morton_mask_create 1 (int lod) = ([mask (3 * lod + 3)] :: 32 morton)"
    by (simp add: morton_mask_create_def Let_def mask_eq_exp_minus_1 push_bit_eq_mult nat_add_distrib nat_mult_distrib mult.commute [of lod 3])
  moreover have "unat (mask (3 * lod + 3) :: u32) = mask (3 * lod + 3)"
    by (rule bit_eqI) (use l in \<open>auto simp: bit_unsigned_iff bit_mask_iff\<close>)
  ultimately show "morton_val (morton_mask_create (length [0 :: u32]) (int lod) :: 32 morton) = mask (3 * lod + 3)"
    by simp
next
  fix m :: morton192 and k :: nat
  assume "length m = 3"
  then obtain x y z where m: "m = [x, y, z]" by (auto simp: length_3_conv)
  have e: "(morton_downcast (length [0 :: u32]) m :: 32 morton) = [ucast x AND NOT (push_bit 30 (- 1))]"
    unfolding m using morton_downcast_shape(4) by simp
  have "kept_bits LENGTH(32) (length [0 :: u32]) = 30" by (simp add: kept_bits_def)
  then show "length (morton_downcast (length [0 :: u32]) m :: 32 morton) = length [0 :: u32] \<and>
      (morton_bit (morton_downcast (length [0 :: u32]) m :: 32 morton) k \<longleftrightarrow>
       k < kept_bits LENGTH(32) (length [0 :: u32]) \<and> morton_bit m k)"
    unfolding e unfolding morton_bit_32 m morton_bit_words word_bits bit_push_ones by auto
next
  fix x :: "32 morton" and mn :: morton192 and k :: nat
  assume "length x = length [0 :: u32]" and "length mn = 3"
    and f: "\<And>j. kept_bits LENGTH(32) (length [0 :: u32]) \<le> j \<Longrightarrow> \<not> morton_bit x j"
  then obtain a u v w where x: "x = [a]" and m: "mn = [u, v, w]" by (auto simp: length_3_conv length_Suc_conv)
  have kb: "kept_bits LENGTH(32) (length [0 :: u32]) = 30" by (simp add: kept_bits_def)
  have p: "bit (push_bit 32 (- 1) :: u64) n \<longleftrightarrow> 32 \<le> n \<and> n < 64"
    and q: "bit (push_bit 30 (- 1) :: u32) n \<longleftrightarrow> 30 \<le> n \<and> n < 32" for n
    unfolding bit_push_ones by simp_all
  show "length (morton_upcast 3 x mn) = 3 \<and>
      (morton_bit (morton_upcast 3 x mn) k \<longleftrightarrow>
       (if k < kept_bits LENGTH(32) (length [0 :: u32]) then morton_bit x k else morton_bit mn k))"
    using f [of k] far64 [of k u]
    unfolding kb x m morton_upcast_shape morton_bit_32 morton_bit_words word_bits p q by auto
qed (simp_all add: kept_bits_def)

end
