(* ===== verification/OctantExact.thy ===== *)
theory OctantExact
  imports CodeWidth
begin

text \<open>
  The octant split of \<open>point_buffer_splitter.hpp\<close> is exact: for a sorted run inside the cell of a node
  the loop with its octant ends and lower bounds yields the blocks of equal child index, and
  subdividing a buffer hands each child exactly its block and loses no point.
\<close>

section \<open>Points and octants\<close>

definition octant_of :: "nat \<Rightarrow> m192 \<Rightarrow> nat" where
  "octant_of lod m = unat (morton_get_child_mask lod (m192_words m))"

text \<open>A code of a buffer that lies in the node: nothing above the bits its type keeps, and inside the cell.\<close>

definition in_node :: "'a::len morton \<Rightarrow> nat \<Rightarrow> m192 \<Rightarrow> 'a morton \<Rightarrow> bool" where
  "in_node dummy lod node_min x \<longleftrightarrow> length x = length dummy \<and>
     morton_val x < 2 ^ kept_bits LENGTH('a) (length dummy) \<and>
     node_min \<le> to_world node_min x \<and> to_world node_min x \<le> m192_of (create_max (int lod) (m192_words node_min))"

text \<open>The cell of a node: aligned to its level, inside the code type, and not the last of the code space.\<close>

definition cell_ok :: "'a::len morton \<Rightarrow> nat \<Rightarrow> m192 \<Rightarrow> bool" where
  "cell_ok dummy lod node_min \<longleftrightarrow> lod * 3 + 3 \<le> LENGTH('a) * length dummy \<and> lod < 63 \<and>
     morton_val (m192_words node_min) mod 2 ^ (3 * lod + 3) = 0 \<and>
     morton_val (m192_words node_min) + 2 ^ (3 * lod + 3) < 2 ^ 192"

lemma disjoint_add:
  assumes "v mod 2 ^ n = 0" and "c < 2 ^ n"
  shows "v OR c = v + (c :: nat)"
proof (rule disjunctive_add [symmetric])
  fix k
  have "take_bit n v = 0" using assms(1) by (simp only: take_bit_eq_mod)
  then have "k < n \<Longrightarrow> \<not> bit v k" by (metis bit_take_bit_iff bit_0_eq bot_apply bot_bool_def)
  moreover have "n \<le> k \<Longrightarrow> \<not> bit c k" by (rule nat_bit_less [OF assms(2)])
  ultimately show "\<not> bit v k \<or> \<not> bit c k" by (cases "k < n") auto
qed

lemma kept_multiple: "lod * 3 + 3 \<le> w * C \<Longrightarrow> 3 * lod + 3 \<le> kept_bits w C"
proof -
  assume "lod * 3 + 3 \<le> w * C"
  then have "(lod * 3 + 3) div 3 \<le> w * C div 3" by (rule div_le_mono)
  then show ?thesis by (simp add: kept_bits_def)
qed

lemma val_bits_ge: "morton_val x < 2 ^ n \<Longrightarrow> n \<le> k \<Longrightarrow> \<not> morton_bit x k"
  using nat_bit_less [of "morton_val x" n k] by (simp add: bit_morton_val)

lemma low_bits_zero:
  assumes "morton_val v mod 2 ^ n = 0" and "k < n"
  shows "\<not> morton_bit v k"
proof -
  have "take_bit n (morton_val v) = 0" using assms(1) by (simp only: take_bit_eq_mod)
  then show ?thesis using assms(2) by (metis bit_take_bit_iff bit_0_eq bot_apply bot_bool_def bit_morton_val)
qed

context code_width begin

lemma local_min_val:
  "morton_val (morton_downcast (length dummy) (m192_words mn) :: 'a morton) =
     morton_val (m192_words mn) mod 2 ^ kept_bits LENGTH('a) (length dummy)"
proof -
  have "morton_val (morton_downcast (length dummy) (m192_words mn) :: 'a morton) =
      take_bit (kept_bits LENGTH('a) (length dummy)) (morton_val (m192_words mn))"
    by (rule bit_eqI) (simp add: bit_morton_val bit_take_bit_iff narrowed)
  then show ?thesis by (simp only: take_bit_eq_mod)
qed

lemma local_min_room:
  assumes "cell_ok dummy lod mn" and "v = morton_val (morton_downcast (length dummy) (m192_words mn) :: 'a morton)"
  shows "v mod 2 ^ (3 * lod + 3) = 0" and "v + 2 ^ (3 * lod + 3) < 2 ^ (LENGTH('a) * length dummy)"
    and "3 * lod + 3 \<le> kept_bits LENGTH('a) (length dummy)"
proof -
  let ?k = "kept_bits LENGTH('a) (length dummy)" and ?n = "3 * lod + 3"
  show le: "?n \<le> ?k" using assms(1) kept_multiple unfolding cell_ok_def by blast
  have v: "v = morton_val (m192_words mn) mod 2 ^ ?k" by (simp add: assms(2) local_min_val)
  have "(2 :: nat) ^ ?n dvd 2 ^ ?k" using le by (rule le_imp_power_dvd)
  then show z: "v mod 2 ^ ?n = 0"
    using assms(1) v by (simp add: cell_ok_def mod_mod_cancel)
  have "v < 2 ^ ?k" unfolding v by simp
  moreover have "v + 2 ^ ?n \<le> 2 ^ ?k"
  proof -
    obtain q where q: "v = 2 ^ ?n * q" using z by (auto simp: mod_eq_0_iff_dvd elim: dvdE)
    obtain p :: nat where p: "2 ^ ?k = 2 ^ ?n * p" using \<open>2 ^ ?n dvd 2 ^ ?k\<close> by (auto elim: dvdE)
    have "q < p" using \<open>v < 2 ^ ?k\<close> unfolding q p by simp
    then have "2 ^ ?n * (q + 1) \<le> 2 ^ ?n * p" by (intro mult_le_mono) auto
    then show ?thesis unfolding p q by simp
  qed
  moreover have "?k < LENGTH('a) * length dummy \<or> ?k = 192 \<and> LENGTH('a) * length dummy = 192" by (rule margin)
  moreover have "v \<le> morton_val (m192_words mn)" unfolding v by simp
  ultimately show "v + 2 ^ ?n < 2 ^ (LENGTH('a) * length dummy)"
  proof -
    assume bound: "v + 2 ^ ?n \<le> 2 ^ ?k" and below: "v \<le> morton_val (m192_words mn)"
    assume "?k < LENGTH('a) * length dummy \<or> ?k = 192 \<and> LENGTH('a) * length dummy = 192"
    then show ?thesis
  proof (elim disjE conjE)
    assume "?k < LENGTH('a) * length dummy"
    then have "(2 :: nat) ^ ?k < 2 ^ (LENGTH('a) * length dummy)" by (rule power_strict_increasing) simp
    then show ?thesis using bound by (rule le_less_trans [rotated])
  next
    assume w: "LENGTH('a) * length dummy = 192"
    have "v + 2 ^ ?n \<le> morton_val (m192_words mn) + 2 ^ ?n" using below by (rule add_right_mono)
    also have "\<dots> < 2 ^ 192" using assms(1) unfolding cell_ok_def by (elim conjE)
    finally show ?thesis unfolding w .
  qed
  qed
qed

lemma octant_end_val:
  assumes "cell_ok dummy lod mn" and "lm = morton_downcast (length dummy) (m192_words mn)" and "i < 8"
  shows "morton_val (octant_end lod lm i :: 'a morton) = morton_val lm + (i + 1) * 2 ^ (3 * lod) \<and>
    length (octant_end lod lm i) = length dummy"
proof -
  note r = local_min_room [OF assms(1) arg_cong [OF assms(2), of morton_val]]
  have len: "length lm = length dummy" by (simp add: assms(2) narrowed)
  let ?n = "3 * lod + 3"
  show ?thesis
  proof (cases "i = 7")
    case True
    let ?m = "morton_or lm (morton_mask_create (length lm) (int lod))"
    have lm: "length ?m = length dummy" by (simp add: morton_or_def len)
    have "lod < 63" using assms(1) by (simp add: cell_ok_def)
    then have "morton_val (morton_mask_create (length lm) (int lod) :: 'a morton) = mask ?n"
      unfolding len by (rule low_mask [OF r(3)])
    then have "morton_val ?m = morton_val lm OR mask ?n"
      by (intro bit_eqI) (simp add: bit_morton_val morton_or_bit bit_or_iff flip: bit_morton_val [of "morton_mask_create (length lm) (int lod)"])
    also have "\<dots> = morton_val lm + mask ?n" by (rule disjoint_add [OF r(1)]) (simp add: mask_eq_exp_minus_1)
    finally have "morton_val ?m + 1 = morton_val lm + 2 ^ ?n" by (simp add: mask_eq_exp_minus_1)
    moreover have "length ?m \<in> {1, 2, 3}" using width lm by simp
    ultimately have "morton_val (morton_add_one ?m) = morton_val lm + 2 ^ ?n"
      using r(2) morton_add_one_val [of ?m] by (simp add: lm)
    moreover have "length (morton_add_one ?m) = length dummy" unfolding lm [symmetric] by (simp add: morton_add_one_def Let_def)
    ultimately show ?thesis by (simp add: octant_end_def True power_add)
  next
    case False
    let ?c = "word_of_nat (i + 1) :: u8"
    have c: "unat ?c = i + 1" using assms(3) unat_of_nat [of "i + 1", where 'a = 8] by simp
    have "morton_val (morton_set_child_mask lod ?c lm) = morton_val lm OR push_bit (3 * lod) (i + 1)"
    proof (rule bit_eqI)
      fix k
      have "bit (unat ?c) j \<longleftrightarrow> bit ?c j" for j by (auto simp: bit_unsigned_iff dest: bit_imp_le_length)
      then have "bit ?c j \<longleftrightarrow> bit (i + 1) j" for j by (simp only: c)
      moreover have "\<not> bit (i + 1) j" if "3 \<le> j" for j
        by (rule nat_bit_less [of _ 3]) (use False assms(3) that in simp_all)
      moreover have "k < ?n \<Longrightarrow> \<not> morton_bit lm k" by (rule low_bits_zero [OF r(1)])
      ultimately show "bit (morton_val (morton_set_child_mask lod ?c lm)) k =
          bit (morton_val lm OR push_bit (3 * lod) (i + 1)) k"
        using set_octant [OF len r(3), of ?c k] c False assms(3)
        by (auto simp: bit_morton_val bit_or_iff bit_push_bit_iff)
    qed
    also have "\<dots> = morton_val lm + push_bit (3 * lod) (i + 1)"
    proof (rule disjoint_add [OF r(1)])
      show "push_bit (3 * lod) (i + 1) < 2 ^ ?n"
        using False assms(3) by (simp add: push_bit_eq_mult power_add)
    qed
    finally show ?thesis
      using False by (simp add: octant_end_def push_bit_eq_mult len)
  qed
qed

end

lemma nat_octant:
  fixes v x N :: nat
  assumes "v mod (8 * N) = 0" and "x div (8 * N) = v div (8 * N)" and "0 < N"
  shows "v \<le> x" and "x div N mod 8 = (x - v) div N" and "(x - v) div N < 8"
proof -
  obtain q where q: "v = 8 * N * q" using assms(1) by (auto simp: mod_eq_0_iff_dvd elim: dvdE)
  have "8 * N * (x div (8 * N)) + x mod (8 * N) = x" "x mod (8 * N) < 8 * N"
    using assms(3) by simp_all
  then have "8 * N * (x div (8 * N)) \<le> x" "x < 8 * N * (x div (8 * N)) + 8 * N" by linarith+
  moreover have "x div (8 * N) = q" using assms(2,3) q by simp
  ultimately have x: "v \<le> x" "x < v + 8 * N" by (simp_all add: q)
  then obtain d where d: "x = v + d" "d < 8 * N" by (metis add_less_cancel_left le_add_diff_inverse)
  have "x div N = 8 * q + d div N" using assms(3) by (simp add: d q mult.assoc div_mult_self4 mult.left_commute)
  moreover have "d div N < 8" using d(2) assms(3) by (simp add: less_mult_imp_div_less)
  ultimately show "v \<le> x" "x div N mod 8 = (x - v) div N" "(x - v) div N < 8"
    using x d by simp_all
qed

lemma unat_child_mask:
  assumes "length (m :: morton192) = 3" and "lod < 64"
  shows "unat (morton_get_child_mask lod m) = morton_val m div 2 ^ (3 * lod) mod 8"
proof -
  have "unat (morton_get_child_mask lod m) = take_bit 3 (drop_bit (3 * lod) (morton_val m))"
  proof (rule bit_eqI)
    fix j
    have "bit (unat (morton_get_child_mask lod m)) j \<longleftrightarrow> bit (morton_get_child_mask lod m) j"
      by (auto simp: bit_unsigned_iff dest: bit_imp_le_length)
    then show "bit (unat (morton_get_child_mask lod m)) j = bit (take_bit 3 (drop_bit (3 * lod) (morton_val m))) j"
      by (simp add: morton_get_child_mask_bit [OF assms] bit_take_bit_iff bit_drop_bit_eq bit_morton_val)
  qed
  then show ?thesis by (simp add: take_bit_eq_mod drop_bit_eq_div)
qed

lemma octant_of_less: "lod < 64 \<Longrightarrow> octant_of lod m < 8"
  by (simp add: octant_of_def unat_child_mask)

lemma drop_bit_morton:
  "drop_bit n (morton_val a) = drop_bit n (morton_val b) \<longleftrightarrow> (\<forall>k \<ge> n. morton_bit a k = morton_bit b k)"
proof
  assume h: "drop_bit n (morton_val a) = drop_bit n (morton_val b)"
  show "\<forall>k \<ge> n. morton_bit a k = morton_bit b k"
  proof (intro allI impI)
    fix k
    assume "n \<le> k"
    then have "bit (drop_bit n (morton_val c)) (k - n) = morton_bit c k" for c :: "'c::len morton"
      by (simp add: bit_drop_bit_eq bit_morton_val)
    moreover have "bit (drop_bit n (morton_val b)) (k - n) = morton_bit b k"
      using \<open>n \<le> k\<close> by (simp add: bit_drop_bit_eq bit_morton_val)
    moreover have "bit (drop_bit n (morton_val a)) (k - n) = morton_bit a k"
      using \<open>n \<le> k\<close> by (simp add: bit_drop_bit_eq bit_morton_val)
    ultimately show "morton_bit a k = morton_bit b k" using h by simp
  qed
next
  assume "\<forall>k \<ge> n. morton_bit a k = morton_bit b k"
  then show "drop_bit n (morton_val a) = drop_bit n (morton_val b)"
    by (intro bit_eqI) (simp add: bit_drop_bit_eq bit_morton_val)
qed

context code_width begin

abbreviation local_min :: "m192 \<Rightarrow> 'a morton" where
  "local_min mn \<equiv> morton_downcast (length dummy) (m192_words mn)"

lemma in_node_octant:
  assumes "cell_ok dummy lod mn" and "in_node dummy lod mn x"
  shows "morton_val (local_min mn) \<le> morton_val x"
    and "octant_of lod (to_world mn x) = (morton_val x - morton_val (local_min mn)) div 2 ^ (3 * lod)"
    and "octant_of lod (to_world mn x) < 8"
proof -
  let ?k = "kept_bits LENGTH('a) (length dummy)" and ?n = "3 * lod + 3" and ?w = "morton_upcast 3 x (m192_words mn)"
  note r = local_min_room [OF assms(1) refl]
  have x: "length x = length dummy" "morton_val x < 2 ^ ?k"
    and inside: "mn \<le> to_world mn x" "to_world mn x \<le> m192_of (create_max (int lod) (m192_words mn))"
    using assms(2) by (simp_all add: in_node_def)
  have "\<not> morton_bit x j" if "?k \<le> j" for j by (rule val_bits_ge [OF x(2) that])
  from widened [OF x(1) length_m192_words this]
  have w: "length ?w = 3" "morton_bit ?w j \<longleftrightarrow> (if j < ?k then morton_bit x j else morton_bit (m192_words mn) j)" for j
    by simp_all
  have words: "m192_words (to_world mn x) = ?w" using w(1) by (auto simp: to_world_def m192_of_def length_3_conv)
  have l: "length (create_max (int lod) (m192_words mn)) = 3" by (simp add: create_max_def morton_or_def)
  then have cm: "m192_words (m192_of (create_max (int lod) (m192_words mn))) = create_max (int lod) (m192_words mn)"
    by (auto simp: m192_of_def length_3_conv)
  have a: "lod < 63" "morton_val (m192_words mn) mod 2 ^ ?n = 0" using assms(1) unfolding cell_ok_def by simp_all
  have "\<forall>j \<ge> ?n. morton_bit ?w j = morton_bit (m192_words mn) j"
    using node_range [OF length_m192_words w(1) a] inside by (simp add: less_eq_m192_def words cm)
  then have "\<forall>j \<ge> ?n. morton_bit x j = morton_bit (local_min mn) j"
    using w(2) narrowed [OF length_m192_words, of mn] val_bits_ge [OF x(2)] by (metis not_le)
  then have "drop_bit ?n (morton_val x) = drop_bit ?n (morton_val (local_min mn))" by (simp only: drop_bit_morton)
  then have d: "morton_val x div (8 * 2 ^ (3 * lod)) = morton_val (local_min mn) div (8 * 2 ^ (3 * lod))"
    by (simp add: drop_bit_eq_div power_add mult.commute)
  have "morton_val (local_min mn) mod (8 * 2 ^ (3 * lod)) = 0" using r(1) by (simp add: power_add mult.commute)
  note n = nat_octant [OF this d]
  show "morton_val (local_min mn) \<le> morton_val x" by (rule n(1)) simp
  have "morton_get_child_mask lod ?w = morton_get_child_mask lod ?w" ..
  have "octant_of lod (to_world mn x) = take_bit 3 (drop_bit (3 * lod) (morton_val ?w))"
    using a(1) unat_child_mask [OF w(1), of lod] by (simp add: octant_of_def words take_bit_eq_mod drop_bit_eq_div)
  also have "\<dots> = take_bit 3 (drop_bit (3 * lod) (morton_val x))"
    using r(3) by (intro bit_eqI) (simp add: bit_take_bit_iff bit_drop_bit_eq bit_morton_val w(2))
  finally have o: "octant_of lod (to_world mn x) = morton_val x div 2 ^ (3 * lod) mod 8"
    by (simp add: take_bit_eq_mod drop_bit_eq_div)
  show "octant_of lod (to_world mn x) = (morton_val x - morton_val (local_min mn)) div 2 ^ (3 * lod)"
    unfolding o by (rule n(2)) simp
  show "octant_of lod (to_world mn x) < 8" unfolding o by simp
qed

lemma below_octant_end:
  assumes "cell_ok dummy lod mn" and "in_node dummy lod mn x" and "i < 8"
  shows "morton_lt x (octant_end lod (local_min mn) i) \<longleftrightarrow> octant_of lod (to_world mn x) \<le> i"
    and "morton_ge x (octant_end lod (local_min mn) i) \<longleftrightarrow> i < octant_of lod (to_world mn x)"
proof -
  let ?N = "2 ^ (3 * lod) :: nat" and ?v = "morton_val (local_min mn)"
  note e = octant_end_val [OF assms(1) refl assms(3)] and o = in_node_octant [OF assms(1,2)]
  have len: "length x = length dummy" using assms(2) by (simp add: in_node_def)
  then have l: "length x = length (octant_end lod (local_min mn) i)" "length x \<in> {1, 2, 3}"
    using e width by simp_all
  have "morton_val x < ?v + (i + 1) * ?N \<longleftrightarrow> morton_val x - ?v < (i + 1) * ?N"
    using o(1) by linarith
  also have "\<dots> \<longleftrightarrow> (morton_val x - ?v) div ?N < i + 1" by (simp add: div_less_iff_less_mult)
  finally have lt: "morton_val x < ?v + (i + 1) * ?N \<longleftrightarrow> octant_of lod (to_world mn x) \<le> i"
    by (simp add: o(2) less_Suc_eq_le)
  show "morton_lt x (octant_end lod (local_min mn) i) \<longleftrightarrow> octant_of lod (to_world mn x) \<le> i"
    using morton_lt_val [OF l] e lt by simp
  show "morton_ge x (octant_end lod (local_min mn) i) \<longleftrightarrow> i < octant_of lod (to_world mn x)"
    using morton_ge_val [OF l] e lt by (simp add: not_less [symmetric])
qed

lemma octant_mono:
  assumes "cell_ok dummy lod mn" and "in_node dummy lod mn x" and "in_node dummy lod mn y" and "morton_le x y"
  shows "octant_of lod (to_world mn x) \<le> octant_of lod (to_world mn y)"
proof -
  note o = in_node_octant [OF assms(1,2)] in_node_octant [OF assms(1,3)]
  have "length x = length y" "length x \<in> {1, 2, 3}" using assms(2,3) width by (simp_all add: in_node_def)
  then have "morton_val x \<le> morton_val y" using assms(4) by (simp add: morton_le_val)
  then show ?thesis unfolding o by (intro div_le_mono) simp
qed

end

section \<open>The split against its reference\<close>

text \<open>
  The reference: the positions of a run of codes \<open>ws\<close> that have child index \<open>i\<close>, in the order of the
  run, and the ranges they make.
\<close>

definition octant_points :: "nat \<Rightarrow> m192 list \<Rightarrow> nat \<Rightarrow> nat list" where
  "octant_points lod ws i = filter (\<lambda>k. octant_of lod (ws ! k) = i) [0..<length ws]"

definition range_of :: "m192 list \<Rightarrow> nat \<Rightarrow> nat list \<Rightarrow> octant_range" where
  "range_of ws i ks =
     \<lparr>or_octant = i, or_begin = hd ks, or_count = length ks, or_first = ws ! hd ks, or_last = ws ! last ks\<rparr>"

definition octant_ranges :: "nat \<Rightarrow> m192 list \<Rightarrow> nat list \<Rightarrow> octant_range list" where
  "octant_ranges lod ws is =
     map (\<lambda>i. range_of ws i (octant_points lod ws i)) (filter (\<lambda>i. octant_points lod ws i \<noteq> []) is)"

lemma takeWhile_upto:
  assumes "\<And>k. cur \<le> k \<Longrightarrow> k < length xs \<Longrightarrow> P (xs ! k) \<longleftrightarrow> k < hi" and "cur \<le> hi" and "hi \<le> length xs"
  shows "length (takeWhile P (drop cur xs)) = hi - cur"
proof -
  have "takeWhile P (drop cur xs) = take (hi - cur) (drop cur xs)"
  proof (rule takeWhile_eq_take_P_nth)
    fix k assume "k < hi - cur" "k < length (drop cur xs)"
    then show "P (drop cur xs ! k)" using assms(1) [of "cur + k"] by simp
  next
    assume "hi - cur < length (drop cur xs)"
    then show "\<not> P (drop cur xs ! (hi - cur))" using assms(1) [of hi] assms(2) by simp
  qed
  then show ?thesis using assms(2,3) by simp
qed

lemma upt_join: "i \<le> j \<Longrightarrow> j \<le> k \<Longrightarrow> [i..<k] = [i..<j] @ [j..<k]"
  using upt_add_eq_append [of i j "k - j"] by simp

text \<open>The positions of a block of a run are an interval.\<close>

lemma filter_interval:
  assumes "lo \<le> hi" and "hi \<le> n" and "\<And>k. k < n \<Longrightarrow> P k \<longleftrightarrow> lo \<le> k \<and> k < hi"
  shows "filter P [0..<n] = [lo..<hi]"
proof -
  have "[0..<n] = [0..<lo] @ [lo..<hi] @ [hi..<n]"
    using assms(1,2) by (simp add: upt_join [of 0 lo n] upt_join [of lo hi n])
  moreover have "filter P [0..<lo] = []" "filter P [lo..<hi] = [lo..<hi]" "filter P [hi..<n] = []"
    using assms by (auto simp: filter_empty_conv filter_id_conv)
  ultimately show ?thesis by simp
qed

text \<open>Along a run whose octants ascend, the positions below an octant end at a single place.\<close>

lemma ascending_cut:
  fixes f :: "nat \<Rightarrow> nat"
  assumes "\<And>j k. j \<le> k \<Longrightarrow> k < n \<Longrightarrow> f j \<le> f k"
  obtains c where "c \<le> n" and "\<And>k. k < n \<Longrightarrow> k < c \<longleftrightarrow> f k \<le> i"
proof -
  define c where "c = length (takeWhile (\<lambda>k. f k \<le> i) [0..<n])"
  have "c \<le> n" unfolding c_def using length_takeWhile_le [of "\<lambda>k. f k \<le> i" "[0..<n]"] by simp
  moreover have "k < c \<longleftrightarrow> f k \<le> i" if "k < n" for k
  proof
    assume "k < c"
    then have "[0..<n] ! k \<in> set (takeWhile (\<lambda>k. f k \<le> i) [0..<n])"
      unfolding c_def by (metis nth_mem takeWhile_nth)
    then show "f k \<le> i" using that by (auto dest: set_takeWhileD)
  next
    assume "f k \<le> i"
    show "k < c"
    proof (rule ccontr)
      assume "\<not> k < c"
      then have "c < n" "c \<le> k" using that by simp_all
      then have "\<not> f c \<le> i" using nth_length_takeWhile [of "\<lambda>k. f k \<le> i" "[0..<n]"] unfolding c_def by simp
      then show False using assms [OF \<open>c \<le> k\<close> that] \<open>f k \<le> i\<close> by simp
    qed
  qed
  ultimately show ?thesis by (rule that)
qed

context code_width begin

text \<open>A sorted run inside the cell of a node.\<close>

abbreviation run_ok :: "nat \<Rightarrow> m192 \<Rightarrow> 'a morton list \<Rightarrow> bool" where
  "run_ok lod mn xs \<equiv> cell_ok dummy lod mn \<and> (\<forall>x \<in> set xs. in_node dummy lod mn x) \<and> sorted_wrt morton_le xs"

lemma run_mono:
  assumes "run_ok lod mn xs" and "j \<le> k" and "k < length xs"
  shows "octant_of lod (to_world mn (xs ! j)) \<le> octant_of lod (to_world mn (xs ! k))"
proof (cases "j = k")
  case False
  then have "morton_le (xs ! j) (xs ! k)" using sorted_wrt_nth_less [of morton_le xs j k] assms by simp
  then show ?thesis using octant_mono [of lod mn "xs ! j" "xs ! k"] assms by simp
qed simp

lemma octant_loop_spec:
  assumes "run_ok lod mn xs" and "ws = map (to_world mn) xs" and "i \<le> 8" and "cur \<le> length xs"
    and "\<And>k. k < length xs \<Longrightarrow> k < cur \<longleftrightarrow> octant_of lod (ws ! k) < i"
  shows "octant_loop xs lod mn (local_min mn) [i..<8] cur = octant_ranges lod ws [i..<8]"
  using assms(3-5)
proof (induction "8 - i" arbitrary: i cur)
  case 0
  then show ?case by (simp add: octant_ranges_def)
next
  case (Suc n)
  let ?o = "\<lambda>k. octant_of lod (ws ! k)" and ?s = "\<lambda>i. octant_points lod ws i"
  have i: "i < 8" "[i..<8] = i # [Suc i..<8]" using Suc.hyps(2) by (simp_all add: upt_conv_Cons)
  have len: "length ws = length xs" by (simp add: assms(2))
  obtain hi where hi: "hi \<le> length xs" "\<And>k. k < length xs \<Longrightarrow> k < hi \<longleftrightarrow> ?o k \<le> i"
    using ascending_cut [of "length xs" ?o i] run_mono [OF assms(1)] assms(2) by (metis le_less_trans nth_map)
  have le: "cur \<le> hi"
  proof (rule ccontr)
    assume "\<not> cur \<le> hi"
    then have "hi < cur" "hi < length xs" using Suc.prems(2) by simp_all
    then show False using Suc.prems(3) [of hi] hi(2) [of hi] by simp
  qed
  have IH: "octant_loop xs lod mn (local_min mn) [Suc i..<8] hi = octant_ranges lod ws [Suc i..<8]"
    using Suc.hyps(2) i(1) hi by (intro Suc.hyps(1)) (simp_all add: less_Suc_eq_le)
  have here: "?s i = [cur..<hi]"
    unfolding octant_points_def len
  proof (rule filter_interval [OF le hi(1)])
    fix k assume "k < length xs"
    from hi(2) [OF this] Suc.prems(3) [OF this] show "?o k = i \<longleftrightarrow> cur \<le> k \<and> k < hi" by auto
  qed
  show ?case
  proof (cases "cur = length xs")
    case True
    have "octant_points lod ws j = []" if "i \<le> j" for j
      unfolding octant_points_def filter_empty_conv len using True Suc.prems(3) that by fastforce
    then have "filter (\<lambda>i. ?s i \<noteq> []) [i..<8] = []" by (auto simp: filter_empty_conv)
    then show ?thesis unfolding i(2) by (simp add: True octant_ranges_def)
  next
    case False
    then have cur: "cur < length xs" using Suc.prems(2) by simp
    have ends: "morton_lt (xs ! k) (octant_end lod (local_min mn) i) \<longleftrightarrow> ?o k \<le> i"
      "morton_ge (xs ! k) (octant_end lod (local_min mn) i) \<longleftrightarrow> i < ?o k" if "k < length xs" for k
      using below_octant_end [of lod mn "xs ! k" i] assms(1,2) that i(1) by simp_all
    have lb: "lower_bound xs cur (octant_end lod (local_min mn) i) = hi"
      unfolding lower_bound_def using ends(1) hi le by (subst takeWhile_upto [of cur xs _ hi]) auto
    show ?thesis
    proof (cases "i < ?o cur")
      case True
      then have "hi = cur" using hi(2) [OF cur] le by simp
      then show ?thesis using IH here by (simp add: i(2) ends(2) [OF cur] True False Let_def octant_ranges_def)
    next
      case False
      then have "cur < hi" using hi(2) [OF cur] by simp
      then have "range_of ws i (?s i) = \<lparr>or_octant = i, or_begin = cur, or_count = hi - cur,
          or_first = to_world mn (xs ! cur), or_last = to_world mn (xs ! (hi - 1))\<rparr>"
        unfolding range_of_def here using cur hi(1) by (simp add: last_upt assms(2))
      then show ?thesis
        using IH here \<open>cur < hi\<close> by (simp add: i(2) ends(2) [OF cur] False \<open>cur \<noteq> length xs\<close> lb Let_def octant_ranges_def)
    qed
  qed
qed

lemma octant_ranges_exact:
  assumes "run_ok lod mn xs"
  shows "for_each_octant_range dummy xs lod mn = octant_ranges lod (map (to_world mn) xs) [0..<8]"
  unfolding for_each_octant_range_def
  by (rule octant_loop_spec [OF assms refl]) simp_all

lemma octant_block:
  assumes "run_ok lod mn xs" and "ws = map (to_world mn) xs" and "octant_points lod ws i = k # ks"
  shows "octant_points lod ws i = [k..<k + Suc (length ks)]"
proof -
  let ?o = "\<lambda>k. octant_of lod (ws ! k)"
  have mono: "?o j \<le> ?o k" if "j \<le> k" "k < length xs" for j k
    using run_mono [OF assms(1) that] assms(2) that by simp
  obtain hi where hi: "hi \<le> length xs" "\<And>k. k < length xs \<Longrightarrow> k < hi \<longleftrightarrow> ?o k \<le> i"
    using ascending_cut [of "length xs" ?o i] mono by metis
  obtain lo where lo: "lo \<le> length xs" "\<And>k. k < length xs \<Longrightarrow> k < lo \<longleftrightarrow> ?o k < i"
  proof (cases i)
    case 0
    then show ?thesis using that [of 0] by simp
  next
    case (Suc j)
    then show ?thesis using ascending_cut [of "length xs" ?o j] mono that by (metis less_Suc_eq_le)
  qed
  have sel: "\<And>k. k < length xs \<Longrightarrow> ?o k = i \<longleftrightarrow> lo \<le> k \<and> k < hi"
    using hi(2) lo(2) by (metis le_less linorder_not_less not_less_iff_gr_or_eq)
  have "octant_points lod ws i = [lo..<hi]"
  proof (cases "lo \<le> hi")
    case True
    have "length ws = length xs" by (simp add: assms(2))
    then show ?thesis unfolding octant_points_def by (simp add: filter_interval [OF True hi(1) sel])
  next
    case False
    then show ?thesis using sel assms(2) by (simp add: octant_points_def filter_empty_conv)
  qed
  then show ?thesis using assms(3) by (cases "lo < hi") (auto simp: upt_conv_Cons)
qed

end

section \<open>The children of a split\<close>

text \<open>What a child receives of a run: nothing, or one subset with the bounds of its codes.\<close>

definition child_after :: "points_subset \<Rightarrow> nat \<Rightarrow> m192 list \<Rightarrow> nat \<Rightarrow> points_collection \<Rightarrow> points_collection" where
  "child_after s lod ws i c =
     (let ks = octant_points lod ws i in
      if ks = [] then c
      else add_subset_to_child (ps_input s) (ps_offset s + word_of_nat (hd ks)) (word_of_nat (length ks))
             (ws ! hd ks) (ws ! last ks) c)"

lemma child_after_none: "octant_points lod ws i = [] \<Longrightarrow> child_after s lod ws i c = c"
  by (simp add: child_after_def)

lemma fold_take_range:
  assumes "distinct is" and "set is \<subseteq> {..<length cs}"
  shows "fold (take_range s) (octant_ranges lod ws is) (m, cs) =
    ((add_ref (ps_input s) ^^ length (filter (\<lambda>i. octant_points lod ws i \<noteq> []) is)) m,
     map (\<lambda>i. if i \<in> set is then child_after s lod ws i (cs ! i) else cs ! i) [0..<length cs])"
  using assms
proof (induction "is" arbitrary: m cs)
  case Nil
  then show ?case by (simp add: octant_ranges_def map_nth)
next
  case (Cons i "is")
  define c where "c = (if octant_points lod ws i = [] then cs else cs[i := child_after s lod ws i (cs ! i)])"
  define m' where "m' = (if octant_points lod ws i = [] then m else add_ref (ps_input s) m)"
  have len: "length c = length cs" by (simp add: c_def)
  have "fold (take_range s) (octant_ranges lod ws (i # is)) (m, cs) =
      fold (take_range s) (octant_ranges lod ws is) (m', c)"
    by (simp add: octant_ranges_def c_def m'_def take_range_def range_of_def child_after_def Let_def)
  also have "\<dots> = ((add_ref (ps_input s) ^^ length (filter (\<lambda>i. octant_points lod ws i \<noteq> []) is)) m',
      map (\<lambda>j. if j \<in> set is then child_after s lod ws j (c ! j) else c ! j) [0..<length c])"
    using Cons.prems by (intro Cons.IH) (simp_all add: len)
  also have "map (\<lambda>j. if j \<in> set is then child_after s lod ws j (c ! j) else c ! j) [0..<length c] =
      map (\<lambda>j. if j \<in> set (i # is) then child_after s lod ws j (cs ! j) else cs ! j) [0..<length cs]"
    unfolding len using Cons.prems
    by (intro map_cong refl) (auto simp: c_def child_after_none nth_list_update)
  also have "(add_ref (ps_input s) ^^ length (filter (\<lambda>i. octant_points lod ws i \<noteq> []) is)) m' =
      (add_ref (ps_input s) ^^ length (filter (\<lambda>i. octant_points lod ws i \<noteq> []) (i # is))) m"
    by (simp add: m'_def funpow_swap1)
  finally show ?case .
qed

text \<open>The subset of a buffer as the code reads it, by the type of the codes.\<close>

definition world_codes :: "storage_header \<Rightarrow> bytes \<Rightarrow> points_subset \<Rightarrow> m192 \<Rightarrow> m192 list" where
  "world_codes h data s mn =
     (if sh_type h = dew_type_code dew_type_m32 then map (to_world mn) (subset_codes [0 :: u32] data s)
      else if sh_type h = dew_type_code dew_type_m64 then map (to_world mn) (subset_codes [0 :: u64] data s)
      else if sh_type h = dew_type_code dew_type_m128 then map (to_world mn) (subset_codes [0, 0 :: u64] data s)
      else map (to_world mn) (subset_codes [0, 0, 0 :: u64] data s))"

definition split_run :: "'a::len morton \<Rightarrow> bytes \<Rightarrow> points_subset \<Rightarrow> nat \<Rightarrow> m192 \<Rightarrow> bool" where
  "split_run dummy data s lod mn \<longleftrightarrow> cell_ok dummy lod mn \<and>
     list_all (in_node dummy lod mn) (subset_codes dummy data s) \<and> sorted_wrt morton_le (subset_codes dummy data s)"

definition split_ok :: "storage_header \<Rightarrow> bytes \<Rightarrow> points_subset \<Rightarrow> nat \<Rightarrow> m192 \<Rightarrow> bool" where
  "split_ok h data s lod mn \<longleftrightarrow>
     sh_type h = dew_type_code dew_type_m32 \<and> split_run [0 :: u32] data s lod mn \<or>
     sh_type h = dew_type_code dew_type_m64 \<and> split_run [0 :: u64] data s lod mn \<or>
     sh_type h = dew_type_code dew_type_m128 \<and> split_run [0, 0 :: u64] data s lod mn \<or>
     sh_type h = dew_type_code dew_type_m192 \<and> split_run [0, 0, 0 :: u64] data s lod mn"

lemma codes_length [simp]: "length (codes_at dummy n data) = n"
  by (simp add: codes_at_def)

context code_width begin

lemma subdivide_run:
  assumes "split_run dummy data s lod mn" and "length cs = 8"
  shows "point_buffer_subdivide_type dummy h data s lod mn (m, cs) =
    ((add_ref (ps_input s) ^^ length (filter (\<lambda>i. octant_points lod (map (to_world mn) (subset_codes dummy data s)) i \<noteq> []) [0..<8])) m,
     map (\<lambda>i. child_after s lod (map (to_world mn) (subset_codes dummy data s)) i (cs ! i)) [0..<8])"
proof -
  have run: "run_ok lod mn (subset_codes dummy data s)"
    using assms(1) by (simp add: split_run_def list_all_iff)
  then have "\<not> LENGTH('a) * length dummy < lod * 3 + 3" by (simp add: cell_ok_def)
  then show ?thesis
    using fold_take_range [of "[0..<8]" cs s lod "map (to_world mn) (subset_codes dummy data s)" m] assms(2)
    unfolding point_buffer_subdivide_type_def octant_ranges_exact [OF run]
    by (simp add: atLeast_upt cong: map_cong)
qed

lemma run_block:
  assumes "split_run dummy data s lod mn" and "octant_points lod (map (to_world mn) (subset_codes dummy data s)) i = ks"
    and "ks \<noteq> []"
  shows "ks = [hd ks..<hd ks + length ks]"
proof -
  have "run_ok lod mn (subset_codes dummy data s)" using assms(1) by (simp add: split_run_def list_all_iff)
  moreover obtain j js where js: "ks = j # js" using assms(3) by (cases ks) auto
  ultimately have "ks = [j..<j + Suc (length js)]"
    using octant_block [of lod mn "subset_codes dummy data s" _ i j js, OF _ refl] unfolding assms(2) by blast
  then show ?thesis unfolding js list.sel length_Cons .
qed

lemma run_octants:
  assumes "split_run dummy data s lod mn" and "w \<in> set (map (to_world mn) (subset_codes dummy data s))"
  shows "octant_of lod w < 8"
  using assms octant_of_less [of lod w] by (simp add: split_run_def cell_ok_def)

end

lemma type_codes: "dew_type_code dew_type_m32 = 6" "dew_type_code dew_type_m64 = 10"
  "dew_type_code dew_type_m128 = 12" "dew_type_code dew_type_m192 = 13"
  by (simp_all add: dew_type_code_def)

lemma subdivide_children:
  assumes "split_ok h data s lod mn" and "length cs = 8" and "ws = world_codes h data s mn"
  shows "point_buffer_subdivide h data s lod mn (m, cs) =
    ((add_ref (ps_input s) ^^ length (filter (\<lambda>i. octant_points lod ws i \<noteq> []) [0..<8])) m,
     map (\<lambda>i. child_after s lod ws i (cs ! i)) [0..<8])"
  using assms(1) unfolding split_ok_def point_buffer_subdivide_def assms(3) world_codes_def
  by (elim disjE conjE) (simp_all add: type_codes m32.subdivide_run m64.subdivide_run m128.subdivide_run m192.subdivide_run assms(2))

lemma world_block:
  assumes "split_ok h data s lod mn" and "ws = world_codes h data s mn" and "octant_points lod ws i \<noteq> []"
  shows "octant_points lod ws i = [hd (octant_points lod ws i)..<hd (octant_points lod ws i) + length (octant_points lod ws i)]"
  using assms(1) unfolding split_ok_def
proof (elim disjE conjE)
  assume "sh_type h = dew_type_code dew_type_m32" and r: "split_run [0 :: u32] data s lod mn"
  then have "ws = map (to_world mn) (subset_codes [0 :: u32] data s)" by (simp add: assms(2) world_codes_def type_codes)
  then show ?thesis using m32.run_block [OF r refl] assms(3) by metis
next
  assume "sh_type h = dew_type_code dew_type_m64" and r: "split_run [0 :: u64] data s lod mn"
  then have "ws = map (to_world mn) (subset_codes [0 :: u64] data s)" by (simp add: assms(2) world_codes_def type_codes)
  then show ?thesis using m64.run_block [OF r refl] assms(3) by metis
next
  assume "sh_type h = dew_type_code dew_type_m128" and r: "split_run [0, 0 :: u64] data s lod mn"
  then have "ws = map (to_world mn) (subset_codes [0, 0 :: u64] data s)" by (simp add: assms(2) world_codes_def type_codes)
  then show ?thesis using m128.run_block [OF r refl] assms(3) by metis
next
  assume "sh_type h = dew_type_code dew_type_m192" and r: "split_run [0, 0, 0 :: u64] data s lod mn"
  then have "ws = map (to_world mn) (subset_codes [0, 0, 0 :: u64] data s)" by (simp add: assms(2) world_codes_def type_codes)
  then show ?thesis using m192.run_block [OF r refl] assms(3) by metis
qed

text \<open>C18: Subdividing the points of a subset that lie, sorted, in the cell of a node gives every child
  exactly the points whose code has that child's index at the node's level: they are one block of the
  run, recorded as one subset with the codes of its first and last point as bounds, and the unit
  gains one reference for every child that received points. This holds for all four code types; the
  last cell of the 192-bit code space is excluded, there the end of octant 7 wraps to zero.\<close>

theorem subdivide_octants:
  assumes "split_ok h data s lod mn" and "length cs = 8" and "ws = world_codes h data s mn"
    and "point_buffer_subdivide h data s lod mn (m, cs) = (m', cs')"
  shows "m' = (add_ref (ps_input s) ^^ length (filter (\<lambda>i. \<exists>w \<in> set ws. octant_of lod w = i) [0..<8])) m \<and>
    length cs' = 8 \<and>
    (\<forall>i < 8. let ks = filter (\<lambda>k. octant_of lod (ws ! k) = i) [0..<length ws] in
       if ks = [] then cs' ! i = cs ! i
       else ks = [hd ks..<hd ks + length ks] \<and>
         cs' ! i = add_subset_to_child (ps_input s) (ps_offset s + word_of_nat (hd ks)) (word_of_nat (length ks))
           (ws ! hd ks) (ws ! last ks) (cs ! i))"
proof -
  have e: "m' = (add_ref (ps_input s) ^^ length (filter (\<lambda>i. octant_points lod ws i \<noteq> []) [0..<8])) m"
    "cs' = map (\<lambda>i. child_after s lod ws i (cs ! i)) [0..<8]"
    using assms(4) unfolding subdivide_children [OF assms(1-3)] by simp_all
  have "octant_points lod ws i \<noteq> [] \<longleftrightarrow> (\<exists>w \<in> set ws. octant_of lod w = i)" for i
    unfolding octant_points_def filter_empty_conv by (force simp: in_set_conv_nth)
  then have "m' = (add_ref (ps_input s) ^^ length (filter (\<lambda>i. \<exists>w \<in> set ws. octant_of lod w = i) [0..<8])) m"
    using e(1) by simp
  moreover have "let ks = octant_points lod ws i in
       if ks = [] then cs' ! i = cs ! i
       else ks = [hd ks..<hd ks + length ks] \<and>
         cs' ! i = add_subset_to_child (ps_input s) (ps_offset s + word_of_nat (hd ks)) (word_of_nat (length ks))
           (ws ! hd ks) (ws ! last ks) (cs ! i)" if "i < 8" for i
  proof -
    have c: "cs' ! i = child_after s lod ws i (cs ! i)" using that by (simp add: e(2))
    show ?thesis
      using world_block [OF assms(1,3), of i] c unfolding Let_def child_after_def by presburger
  qed
  ultimately show ?thesis using e(2) unfolding octant_points_def by simp
qed

lemma points_total_one: "points_total [x] = ucast (ps_count x)"
  by (simp add: points_total_def)

lemma add_subset_ok:
  assumes "collection_ok c"
  shows "collection_ok (add_subset_to_child i off n lo hi c)"
  using assms
  by (cases "pc_count c = 0")
    (auto simp: add_subset_to_child_def collection_ok_def points_total_one Let_def)

lemma add_subset_count [simp]: "pc_count (add_subset_to_child i off n lo hi c) = pc_count c + ucast n"
  by (simp add: add_subset_to_child_def Let_def)

lemma child_after_count:
  "pc_count (child_after s lod ws i c) = pc_count c + ucast (word_of_nat (length (octant_points lod ws i)) :: u32)"
  by (simp add: child_after_def Let_def)

lemma length_octant_points: "length (octant_points lod ws i) = length (filter (\<lambda>w. octant_of lod w = i) ws)"
proof -
  have "filter (\<lambda>w. octant_of lod w = i) (map ((!) ws) [0..<length ws]) = map ((!) ws) (octant_points lod ws i)"
    unfolding octant_points_def by (simp add: filter_map comp_def)
  then show ?thesis by (metis length_map map_nth)
qed

lemma octants_total:
  assumes "\<And>w. w \<in> set ws \<Longrightarrow> octant_of lod w < 8"
  shows "(\<Sum>i<8. length (octant_points lod ws i)) = length ws"
  unfolding length_octant_points using assms
proof (induction ws)
  case Nil
  then show ?case by simp
next
  case (Cons w ws)
  have "(\<Sum>i<8. length (filter (\<lambda>w. octant_of lod w = i) (w # ws))) =
      (\<Sum>i<8. (if octant_of lod w = i then 1 else 0) + length (filter (\<lambda>w. octant_of lod w = i) ws))"
    by (intro sum.cong) auto
  also have "\<dots> = 1 + length ws" using Cons by (simp add: sum.distrib)
  finally show ?case by simp
qed

text \<open>Subdividing loses and duplicates no point: the children's counts grow together by the number
  of points of the subset, and every child stays a consistent collection.\<close>

theorem subdivide_conserves:
  assumes "split_ok h data s lod mn" and "length cs = 8" and "\<forall>c \<in> set cs. collection_ok c"
    and "point_buffer_subdivide h data s lod mn (m, cs) = (m', cs')"
  shows "(\<forall>c \<in> set cs'. collection_ok c) \<and> (\<Sum>c\<leftarrow>cs'. pc_count c) = (\<Sum>c\<leftarrow>cs. pc_count c) + ucast (ps_count s)"
proof -
  let ?ws = "world_codes h data s mn"
  have e: "cs' = map (\<lambda>i. child_after s lod ?ws i (cs ! i)) [0..<8]"
    using assms(4) unfolding subdivide_children [OF assms(1,2) refl] by simp
  have n: "length ?ws = unat (ps_count s)" by (simp add: world_codes_def subset_codes_def)
  have l: "lod < 63" using assms(1) by (auto simp: split_ok_def split_run_def cell_ok_def)
  let ?n = "\<lambda>i. length (octant_points lod ?ws i)"
  have small: "ucast (word_of_nat (?n i) :: u32) = (word_of_nat (?n i) :: u64)" for i
  proof -
    have "?n i \<le> unat (ps_count s)" unfolding n [symmetric] length_octant_points by simp
    also have "\<dots> < 2 ^ 32" using unsigned_less [of "ps_count s", where 'a = nat] by simp
    finally have "?n i < 2 ^ 32" .
    then show ?thesis by (simp add: word_unat_eq_iff unat_of_nat unsigned_ucast_eq take_bit_nat_eq_self_iff)
  qed
  have "(\<Sum>c\<leftarrow>cs'. pc_count c) = (\<Sum>i<8. pc_count (cs ! i) + word_of_nat (?n i))"
    unfolding e by (simp add: interv_sum_list_conv_sum_set_nat child_after_count small comp_def atLeast0LessThan)
  also have "\<dots> = (\<Sum>i<8. pc_count (cs ! i)) + word_of_nat (\<Sum>i<8. ?n i)"
    by (simp add: sum.distrib)
  also have "(\<Sum>i<8. ?n i) = unat (ps_count s)"
    unfolding n [symmetric] by (rule octants_total) (use l octant_of_less in simp)
  also have "(\<Sum>i<8. pc_count (cs ! i)) = (\<Sum>c\<leftarrow>cs. pc_count c)"
    by (simp add: sum_list_sum_nth assms(2) atLeast0LessThan)
  finally have "(\<Sum>c\<leftarrow>cs'. pc_count c) = (\<Sum>c\<leftarrow>cs. pc_count c) + ucast (ps_count s)" by simp
  moreover have "collection_ok (child_after s lod ?ws i (cs ! i))" if "i < 8" for i
    using assms(2,3) that by (simp add: child_after_def Let_def add_subset_ok)
  ultimately show ?thesis unfolding e by simp
qed

definition example_run :: bytes where
  "example_run = concat (map word_bytes [1, 6, 9, 10 :: u64])"

definition example_run_header :: storage_header where
  "example_run_header = \<lparr>sh_input = example_unit, sh_count = 4, sh_type = 10, sh_components = 1, sh_pad = 0,
     sh_min = M192 1 0 0, sh_max = M192 10 0 0, sh_lod_span = 1, sh_pad_end = 0\<rparr>"

definition example_subset :: points_subset where
  "example_subset = \<lparr>ps_input = example_unit, ps_offset = 1, ps_count = 3\<rparr>"

lemma codes_at_64:
  assumes "n = length xs"
  shows "codes_at [0 :: u64] n (concat (map word_bytes xs)) = map (\<lambda>x. [x]) xs"
proof -
  have "elements 8 (length (map (word_bytes :: u64 \<Rightarrow> bytes) xs)) (concat (map word_bytes xs)) = map word_bytes xs"
    by (rule elements_concat) auto
  then show ?thesis by (simp add: codes_at_def assms)
qed

lemma example_codes: "subset_codes [0 :: u64] example_run example_subset = [[6], [9], [10]]"
  using codes_at_64 [of 3 "[6, 9, 10]"] by (simp add: subset_codes_def example_run_def example_subset_def code_bytes_def)

lemma example_split: "split_ok example_run_header example_run example_subset 1 (M192 0 0 0)"
proof -
  have w: "to_world (M192 0 0 0) [x :: u64] = M192 x 0 0" for x
    unfolding to_world_def m192_words.simps morton_upcast_shape by (simp add: m192_of_def)
  have c: "create_max 1 [0, 0, 0 :: u64] = [63, 0, 0]"
    by (simp add: create_max_def morton_mask_create_def morton_or_def)
  have "split_run [0 :: u64] example_run example_subset 1 (M192 0 0 0)"
    unfolding split_run_def example_codes
    by (simp add: cell_ok_def in_node_def w c kept_values m192_of_def less_eq_m192_def morton_le_def)
  then show ?thesis by (simp add: split_ok_def type_codes example_run_header_def)
qed

definition no_points :: points_collection where
  "no_points = \<lparr>pc_count = 0, pc_min = M192 0 0 0, pc_max = M192 0 0 0, pc_min_lod = 0, pc_data = []\<rparr>"

theorem subdivide_octants_witness:
  "\<exists>m' cs'. point_buffer_subdivide example_run_header example_run example_subset 1 (M192 0 0 0)
     (new_storage_map, replicate 8 no_points) = (m', cs') \<and> length cs' = 8"
proof -
  obtain m' cs' where e: "point_buffer_subdivide example_run_header example_run example_subset 1 (M192 0 0 0)
      (new_storage_map, replicate 8 no_points) = (m', cs')" by (cases "point_buffer_subdivide example_run_header
      example_run example_subset 1 (M192 0 0 0) (new_storage_map, replicate 8 no_points)") auto
  from subdivide_octants [OF example_split _ refl e] e show ?thesis by simp
qed

theorem subdivide_conserves_witness:
  "(\<Sum>c\<leftarrow>snd (point_buffer_subdivide example_run_header example_run example_subset 1 (M192 0 0 0)
     (new_storage_map, replicate 8 no_points)). pc_count c) = 3"
proof -
  have "(\<Sum>c\<leftarrow>snd (point_buffer_subdivide example_run_header example_run example_subset 1 (M192 0 0 0)
      (new_storage_map, replicate 8 no_points)). pc_count c) =
      (\<Sum>c\<leftarrow>replicate 8 no_points. pc_count c) + ucast (ps_count example_subset)"
    by (rule subdivide_conserves [OF example_split _ _ prod.collapse [symmetric], THEN conjunct2])
      (simp_all add: no_points_def collection_ok_def points_total_def)
  then show ?thesis by (simp add: no_points_def example_subset_def sum_list_replicate)
qed

end
