(* ===== verification/TreeBuild.thy ===== *)
theory TreeBuild
  imports OctantSplit TreeRegistry
begin

text \<open>
  \<open>src/src/converter/tree_build.cpp\<close>: the construction of the octree. A chunk of points enters at the
  root and is routed down; a node that would hold more than \<open>node_limit\<close> points is split into its
  octants, below the fifth level of a tree the points continue in a sub-tree, and a chunk outside the
  root's cell makes a new root. The state is the registry together with its loaded trees, indexed by
  tree id; all trees are loaded. What the storage holds at a location is the argument \<open>rd\<close>. The
  functions are those of a build without assertions. A node of the finest level that is split asks for a
  sub-tree of magnitude -1: the code wraps it to 255 and shifts a 64-bit word by 3712 bits for the name of its
  root (\<open>morton_get_child_mask\<close> in \<open>tree_initialize_sub\<close>), which C++ leaves undefined; there the model
  stops with \<open>finest_split\<close>. An unknown unit (\<open>_map.at\<close> throws) is the stop \<open>unknown_unit\<close>, and a tree beyond the 2^32 ids there
  are is the stop \<open>registry_full\<close> (the counter of the code would wrap). The recursion takes fuel, and
  \<open>out_of_fuel\<close> is shown never to happen with fuel for the levels below the starting node.
\<close>

section \<open>The state\<close>

datatype build_stop = out_of_fuel | finest_split | unknown_unit | registry_full

record tree_cache =
  tch_reg :: tree_registry
  tch_trees :: "tree_t list"

type_synonym stored_blobs = "storage_location \<Rightarrow> bytes result"

definition tree_at :: "tree_cache \<Rightarrow> u32 \<Rightarrow> tree_t" where
  "tree_at c i = tch_trees c ! unat i"

definition upd_tree :: "u32 \<Rightarrow> (tree_t \<Rightarrow> tree_t) \<Rightarrow> tree_cache \<Rightarrow> tree_cache" where
  "upd_tree i f c = c\<lparr>tch_trees := (tch_trees c)[unat i := f (tree_at c i)]\<rparr>"

definition upd_level :: "nat \<Rightarrow> (tree_level \<Rightarrow> tree_level) \<Rightarrow> tree_t \<Rightarrow> tree_t" where
  "upd_level l f t = t\<lparr>t_levels := (t_levels t)[l := f (t_levels t ! l)]\<rparr>"

definition insert_at :: "nat \<Rightarrow> 'a \<Rightarrow> 'a list \<Rightarrow> 'a list" where
  "insert_at k x xs = take k xs @ x # drop k xs"

definition blank_collection :: points_collection where
  "blank_collection = \<lparr>pc_count = 0, pc_min = M192 0 0 0, pc_max = M192 0 0 0, pc_min_lod = 0, pc_data = []\<rparr>"

definition new_tree :: "u32 \<Rightarrow> tree_t" where
  "new_tree i = \<lparr>t_min = M192 0 0 0, t_max = M192 0 0 0, t_levels = replicate 5 empty_level, t_sub_trees = [],
     t_id = i, t_magnitude = 0, t_is_dirty = False, t_leaves_collapsed = False, t_storage_map = new_storage_map\<rparr>"

text \<open>\<open>tree_cache_create_root_tree\<close> and \<open>tree_cache_add_tree\<close> differ in the pointer they return only.\<close>

definition tree_cache_add_tree :: "tree_cache \<Rightarrow> u32 \<times> tree_cache" where
  "tree_cache_add_tree c =
     (let r = tch_reg c; i = tr_current_id r
      in (i, c\<lparr>tch_reg := r\<lparr>tr_slots := tr_slots r + 1, tr_locations := tr_locations r @ [no_location],
                 tr_id_initialized := tr_id_initialized r @ [1], tr_state := tr_state r @ [tree_state_building],
                 tr_band := tr_band r @ [tree_band_none], tr_current_id := i + 1\<rparr>,
               tch_trees := tch_trees c @ [new_tree i]\<rparr>))"

section \<open>Cells\<close>

definition cell_mask :: "u8 \<Rightarrow> morton192" where
  "cell_mask magnitude = morton_mask_create 3 (int (unat (morton_magnitude_to_lod (unat magnitude))))"

definition root_node_name :: "u8 \<Rightarrow> m192 \<Rightarrow> u16" where
  "root_node_name magnitude m =
     morton_get_name 0 0 (unat (morton_get_child_mask (unat (morton_magnitude_to_lod (unat magnitude)) + 1) (m192_words m)))"

definition push_root_node :: "u16 \<Rightarrow> tree_t \<Rightarrow> tree_t" where
  "push_root_node name t = upd_level 0 (\<lambda>l. l\<lparr>lv_nodes := lv_nodes l @ [0], lv_skips := lv_skips l @ [0],
     lv_data := lv_data l @ [blank_collection], lv_node_ids := lv_node_ids l @ [name]\<rparr>) t"

definition set_cell :: "u8 \<Rightarrow> m192 \<Rightarrow> tree_t \<Rightarrow> tree_t" where
  "set_cell magnitude m t =
     t\<lparr>t_magnitude := magnitude,
       t_min := m192_of (morton_and (m192_words m) (morton_negate (cell_mask magnitude))),
       t_max := m192_of (morton_or (m192_words m) (cell_mask magnitude))\<rparr>"

definition tree_initialize_sub :: "tree_t \<Rightarrow> m192 \<Rightarrow> tree_t \<Rightarrow> tree_t" where
  "tree_initialize_sub parent m sub_tree =
     (let magnitude = t_magnitude parent - 1
      in push_root_node (root_node_name magnitude m) (set_cell magnitude m sub_tree))"

definition tree_initialize_new_parent :: "tree_t \<Rightarrow> m192 \<Rightarrow> m192 \<Rightarrow> tree_t \<Rightarrow> tree_t" where
  "tree_initialize_new_parent some_child possible_min possible_max new_parent =
     (let new_min = (if m192_lt (t_min some_child) possible_min then t_min some_child else possible_min);
          new_max = (if m192_lt (t_max some_child) possible_max then possible_max else t_max some_child);
          magnitude = word_of_nat (morton_magnitude_from_bit_index
            (morton_msb (morton_xor (m192_words new_min) (m192_words new_max))));
          lo = m192_of (morton_and (morton_negate (cell_mask magnitude)) (m192_words new_min))
      in push_root_node (root_node_name magnitude (t_min some_child))
           (new_parent\<lparr>t_magnitude := magnitude, t_min := lo,
              t_max := m192_of (morton_or (m192_words lo) (cell_mask magnitude))\<rparr>))"

section \<open>The arrays of a tree\<close>

definition node_at :: "tree_t \<Rightarrow> nat \<Rightarrow> nat \<Rightarrow> u8" where
  "node_at t level skip = lv_nodes (t_levels t ! level) ! skip"

text \<open>The skips are signed; they are used as positions.\<close>

definition skip_at :: "tree_t \<Rightarrow> nat \<Rightarrow> nat \<Rightarrow> nat" where
  "skip_at t level skip = nat (sint (lv_skips (t_levels t ! level) ! skip))"

definition data_at :: "tree_t \<Rightarrow> nat \<Rightarrow> nat \<Rightarrow> points_collection" where
  "data_at t level skip = lv_data (t_levels t ! level) ! skip"

definition set_data :: "nat \<Rightarrow> nat \<Rightarrow> points_collection \<Rightarrow> tree_t \<Rightarrow> tree_t" where
  "set_data level skip p t = upd_level level (\<lambda>l. l\<lparr>lv_data := (lv_data l)[skip := p]\<rparr>) t"

definition child_bit :: "nat \<Rightarrow> u8" where
  "child_bit i = push_bit i 1"

definition set_child_bit :: "nat \<Rightarrow> nat \<Rightarrow> nat \<Rightarrow> tree_t \<Rightarrow> tree_t" where
  "set_child_bit level skip i t =
     upd_level level (\<lambda>l. l\<lparr>lv_nodes := (lv_nodes l)[skip := lv_nodes l ! skip OR child_bit i]\<rparr>) t"

definition set_node_id :: "nat \<Rightarrow> nat \<Rightarrow> u16 \<Rightarrow> tree_t \<Rightarrow> tree_t" where
  "set_node_id level skip name t = upd_level level (\<lambda>l. l\<lparr>lv_node_ids := (lv_node_ids l)[skip := name]\<rparr>) t"

definition sub_tree_count_skips :: "u8 \<Rightarrow> nat \<Rightarrow> nat" where
  "sub_tree_count_skips node index = length (filter (bit node) [0..<index])"

definition sub_tree_alloc_children :: "nat \<Rightarrow> nat \<Rightarrow> tree_t \<Rightarrow> tree_t" where
  "sub_tree_alloc_children level skip t =
     (let l = t_levels t ! level;
          old_skip = (if skip < length (lv_skips l) then lv_skips l ! skip
            else if 0 < skip \<and> skip = length (lv_skips l)
            then last (lv_skips l) + word_of_nat (sub_tree_count_skips (last (lv_nodes l)) 8)
            else 0)
      in upd_level level (\<lambda>l. \<lparr>lv_nodes = insert_at skip 0 (lv_nodes l), lv_skips = insert_at skip old_skip (lv_skips l),
           lv_node_ids = insert_at skip 0 (lv_node_ids l), lv_data = insert_at skip blank_collection (lv_data l)\<rparr>) t)"

definition sub_tree_increase_skips :: "nat \<Rightarrow> nat \<Rightarrow> tree_t \<Rightarrow> tree_t" where
  "sub_tree_increase_skips level skip t =
     upd_level level (\<lambda>l. l\<lparr>lv_skips := map (\<lambda>i. if skip < i then lv_skips l ! i + 1 else lv_skips l ! i)
       [0..<length (lv_skips l)]\<rparr>) t"

text \<open>A new child node below level 4, and the slot of a new sub-tree at it.\<close>

definition grow_child :: "nat \<Rightarrow> nat \<Rightarrow> nat \<Rightarrow> nat \<Rightarrow> u16 \<Rightarrow> tree_t \<Rightarrow> tree_t" where
  "grow_child level skip i sub_skip name t =
     set_node_id (level + 1) sub_skip name
       (sub_tree_increase_skips level skip
         (sub_tree_alloc_children (level + 1) sub_skip (set_child_bit level skip i t)))"

definition grow_slot :: "nat \<Rightarrow> nat \<Rightarrow> nat \<Rightarrow> u32 \<Rightarrow> tree_t \<Rightarrow> tree_t" where
  "grow_slot skip i sub_skip sub_id t =
     (let t = set_child_bit 4 skip i t
      in sub_tree_increase_skips 4 skip (t\<lparr>t_sub_trees := insert_at sub_skip sub_id (t_sub_trees t)\<rparr>))"

section \<open>Splitting the points of a node\<close>

definition read_points :: "stored_blobs \<Rightarrow> storage_location \<Rightarrow> (storage_header \<times> bytes) result" where
  "read_points rd l = (case rd l of Inl e \<Rightarrow> Inl e | Inr b \<Rightarrow> deserialize_points b)"

fun subdivide_all :: "stored_blobs \<Rightarrow> nat \<Rightarrow> m192 \<Rightarrow> points_subset list \<Rightarrow> split_state \<Rightarrow> build_stop + split_state" where
  "subdivide_all rd lod mn [] st = Inr st"
| "subdivide_all rd lod mn (p # ps) st =
     (case location (ps_input p) 0 (fst st) of
        None \<Rightarrow> Inl unknown_unit
      | Some l \<Rightarrow>
          (case read_points rd l of
             Inl _ \<Rightarrow> subdivide_all rd lod mn ps st
           | Inr (h, d) \<Rightarrow> subdivide_all rd lod mn ps (point_buffer_subdivide h d p lod mn st)))"

definition sub_tree_split_points_to_children :: "stored_blobs \<Rightarrow> points_collection \<Rightarrow> nat \<Rightarrow> m192 \<Rightarrow> split_state \<Rightarrow>
    build_stop + split_state" where
  "sub_tree_split_points_to_children rd points lod mn st =
     (case subdivide_all rd lod mn (pc_data points) st of
        Inl e \<Rightarrow> Inl e
      | Inr (m, children) \<Rightarrow> Inr (deref_on_destruct (map ps_input (pc_data points)) m, children))"

section \<open>Handing units to a sub-tree\<close>

definition adjust_chunk_ref :: "bool \<Rightarrow> bool \<Rightarrow> input_data_id \<Rightarrow> (input_data_id \<rightharpoonup> chunk_ref) \<Rightarrow> (input_data_id \<rightharpoonup> chunk_ref)" where
  "adjust_chunk_ref child_created parent_erased i refs =
     (if input_data_id_is_leaf i \<and> \<not> input_data_id_is_collapsed_leaf i
      then (case refs i of
              None \<Rightarrow> refs
            | Some r \<Rightarrow>
                (let n = (if child_created then cr_tree_count r + 1 else cr_tree_count r);
                     n = (if parent_erased then n - 1 else n)
                 in refs(i \<mapsto> r\<lparr>cr_tree_count := n\<rparr>)))
      else refs)"

definition move_unit :: "points_subset \<Rightarrow> input_storage_map \<times> input_storage_map \<times> (input_data_id \<rightharpoonup> chunk_ref) \<Rightarrow>
    input_storage_map \<times> input_storage_map \<times> (input_data_id \<rightharpoonup> chunk_ref)" where
  "move_unit p st =
     (let (parent, sub_tree, refs) = st; i = ps_input p;
          parent_had = contains i parent;
          ((attributes, locations), parent) = dereference i parent;
          parent_erased = (parent_had \<and> \<not> contains i parent);
          child_created = (\<not> contains i sub_tree);
          sub_tree = (if child_created then add_storage i attributes locations sub_tree else add_ref i sub_tree)
      in (parent, sub_tree, adjust_chunk_ref child_created parent_erased i refs))"

definition move_storage_locations_to_subtree :: "points_collection \<Rightarrow> u32 \<Rightarrow> u32 \<Rightarrow> tree_cache \<Rightarrow> tree_cache" where
  "move_storage_locations_to_subtree points parent_id sub_id c =
     (let (parent, sub_tree, refs) = fold move_unit (pc_data points)
            (t_storage_map (tree_at c parent_id), t_storage_map (tree_at c sub_id), tr_chunk_refs (tch_reg c));
          c = upd_tree parent_id (\<lambda>t. t\<lparr>t_storage_map := parent\<rparr>) c;
          c = upd_tree sub_id (\<lambda>t. t\<lparr>t_storage_map := sub_tree\<rparr>) c
      in c\<lparr>tch_reg := (tch_reg c)\<lparr>tr_chunk_refs := refs\<rparr>\<rparr>)"

text \<open>At level 4: a new sub-tree for child \<open>i\<close> of a node, and the sub-tree there is.\<close>

definition spawn_sub_tree :: "u32 \<Rightarrow> nat \<Rightarrow> nat \<Rightarrow> nat \<Rightarrow> m192 \<Rightarrow> tree_cache \<Rightarrow> u32 \<times> tree_cache" where
  "spawn_sub_tree tree_id skip i sub_skip m c =
     (let (sub_id, c) = tree_cache_add_tree c;
          c = upd_tree tree_id (grow_slot skip i sub_skip sub_id) c
      in (sub_id, upd_tree sub_id (tree_initialize_sub (tree_at c tree_id) m) c))"

section \<open>Inserting points\<close>

definition node_lod :: "tree_t \<Rightarrow> nat \<Rightarrow> nat" where
  "node_lod t level = unat (morton_tree_level_to_lod (unat (t_magnitude t)) level)"

definition child_min :: "nat \<Rightarrow> nat \<Rightarrow> m192 \<Rightarrow> m192" where
  "child_min lod i mn = m192_of (morton_set_child_mask lod (word_of_nat i) (m192_words mn))"

definition touch_tree :: "u32 \<Rightarrow> tree_cache \<Rightarrow> tree_cache" where
  "touch_tree i c = upd_tree i (\<lambda>t. t\<lparr>t_is_dirty := True, t_leaves_collapsed := False\<rparr>) c"

definition fits_node :: "tree_cache \<Rightarrow> u32 \<Rightarrow> nat \<Rightarrow> nat \<Rightarrow> points_collection \<Rightarrow> bool" where
  "fits_node c i level skip points \<longleftrightarrow> node_at (tree_at c i) level skip = 0 \<and>
     pc_count (data_at (tree_at c i) level skip) + pc_count points \<le> ucast (tr_node_limit (tch_reg c))"

text \<open>The octants of a node that is split: those of the points it held and those of the new points.\<close>

definition gather_children :: "stored_blobs \<Rightarrow> u32 \<Rightarrow> m192 \<Rightarrow> nat \<Rightarrow> nat \<Rightarrow> points_collection \<Rightarrow> tree_cache \<Rightarrow>
    build_stop + points_collection list \<times> tree_cache" where
  "gather_children rd i mn level skip points c =
     (let t = tree_at c i; lod = node_lod t level; held = data_at t level skip;
          start = (t_storage_map t, replicate 8 blank_collection);
          from_held = (node_at t level skip = 0 \<and> pc_count held \<noteq> 0);
          first = (if from_held then sub_tree_split_points_to_children rd held lod mn start else Inr start)
      in case first of
           Inl e \<Rightarrow> Inl e
         | Inr st \<Rightarrow>
             (case (if pc_count points \<noteq> 0 then sub_tree_split_points_to_children rd points lod mn st else Inr st) of
                Inl e \<Rightarrow> Inl e
              | Inr (m, children) \<Rightarrow>
                  Inr (children, upd_tree i (\<lambda>t. (if from_held then set_data level skip blank_collection t else t)
                                                    \<lparr>t_storage_map := m\<rparr>) c)))"

function (sequential) sub_tree_insert_points :: "stored_blobs \<Rightarrow> nat \<Rightarrow> u32 \<Rightarrow> m192 \<Rightarrow> nat \<Rightarrow> nat \<Rightarrow> u16 \<Rightarrow>
    points_collection \<Rightarrow> tree_cache \<Rightarrow> build_stop + tree_cache"
  and insert_children :: "stored_blobs \<Rightarrow> nat \<Rightarrow> u32 \<Rightarrow> m192 \<Rightarrow> nat \<Rightarrow> nat \<Rightarrow> u16 \<Rightarrow> points_collection list \<Rightarrow>
    nat list \<Rightarrow> nat \<Rightarrow> tree_cache \<Rightarrow> build_stop + tree_cache"
  and insert_child :: "stored_blobs \<Rightarrow> nat \<Rightarrow> u32 \<Rightarrow> m192 \<Rightarrow> nat \<Rightarrow> nat \<Rightarrow> u16 \<Rightarrow> nat \<Rightarrow> nat \<Rightarrow>
    points_collection \<Rightarrow> tree_cache \<Rightarrow> build_stop + tree_cache" where
  "sub_tree_insert_points rd fuel i mn level skip name points c =
     (if fuel = 0 then Inl out_of_fuel
      else (let c = touch_tree i c; t = tree_at c i; node = node_at t level skip; lod = node_lod t level;
                child = unat (morton_get_child_mask lod (m192_words (pc_min points)))
            in if sint (pc_min_lod points) < int lod \<and> node \<noteq> 0
               then insert_child rd (fuel - 1) i (child_min lod child mn) level skip name child
                      (skip_at t level skip + sub_tree_count_skips node child) points c
               else if fits_node c i level skip points
               then Inr (upd_tree i (set_data level skip (points_data_add (data_at t level skip) points)) c)
               else (case gather_children rd i mn level skip points c of
                       Inl e \<Rightarrow> Inl e
                     | Inr (children, c) \<Rightarrow> insert_children rd (fuel - 1) i mn level skip name children [0..<8] 0 c)))"
| "insert_children rd fuel i mn level skip name children [] child_count c = Inr c"
| "insert_children rd fuel i mn level skip name children (k # ks) child_count c =
     (let t = tree_at c i; node = node_at t level skip; points = children ! k
      in if pc_data points = []
         then insert_children rd fuel i mn level skip name children ks
                (if bit node k then child_count + 1 else child_count) c
         else (case insert_child rd fuel i (child_min (node_lod t level) k mn) level skip name k
                      (skip_at t level skip + child_count) points c of
                 Inl e \<Rightarrow> Inl e
               | Inr c \<Rightarrow> insert_children rd fuel i mn level skip name children ks (child_count + 1) c))"
| "insert_child rd fuel i new_min level skip name k sub_skip points c =
     (let t = tree_at c i; has_this_child = bit (node_at t level skip) k
      in if level = 4
         then (let sub_name = morton_get_name 0 0 k in
           if has_this_child
           then (let sub_id = t_sub_trees t ! sub_skip
                 in sub_tree_insert_points rd fuel sub_id new_min 0 0 sub_name points
                      (move_storage_locations_to_subtree points i sub_id c))
           else if tr_current_id (tch_reg c) = - 1 then Inl registry_full
           else if t_magnitude t = 0 then Inl finest_split
           else (let (sub_id, c) = spawn_sub_tree i skip k sub_skip (pc_min points) c
                 in sub_tree_insert_points rd fuel sub_id new_min 0 0 sub_name points
                      (move_storage_locations_to_subtree points i sub_id c)))
         else (let child_name = morton_get_name name (level + 1) k;
                   c = (if has_this_child then c else upd_tree i (grow_child level skip k sub_skip child_name) c)
               in sub_tree_insert_points rd fuel i new_min (level + 1) sub_skip child_name points c))"
  by pat_completeness auto
termination
  by (relation "measures [\<lambda>x. case x of Inl (_, fuel, _) \<Rightarrow> fuel | Inr (Inl (_, fuel, _)) \<Rightarrow> fuel | Inr (Inr (_, fuel, _)) \<Rightarrow> fuel,
      \<lambda>x. case x of Inl _ \<Rightarrow> 0 | Inr (Inl (_, _, _, _, _, _, _, _, ks, _)) \<Rightarrow> Suc (length ks) + 1 | Inr (Inr _) \<Rightarrow> 1]") auto

declare sub_tree_insert_points.simps [simp del]

section \<open>New roots\<close>

text \<open>The first four levels of the walk that links a tree below a parent.\<close>

fun make_path :: "m192 \<Rightarrow> nat list \<Rightarrow> nat \<Rightarrow> u16 \<Rightarrow> tree_t \<Rightarrow> nat \<times> tree_t" where
  "make_path m [] skip name t = (skip, t)"
| "make_path m (level # levels) skip name t =
     (let lod = unat (morton_magnitude_to_lod (unat (t_magnitude t))) - level; node = node_at t level skip;
          k = unat (morton_get_child_mask lod (m192_words m));
          child_skip = skip_at t level skip + sub_tree_count_skips node k
      in if bit node k then make_path m levels child_skip name t
         else (let name = morton_get_name name (level + 1) k
               in make_path m levels child_skip name (grow_child level skip k child_skip name t)))"

fun insert_tree_in_tree :: "nat \<Rightarrow> u32 \<Rightarrow> u32 \<Rightarrow> tree_cache \<Rightarrow> build_stop + tree_cache" where
  "insert_tree_in_tree 0 parent_id child_id c = Inl out_of_fuel"
| "insert_tree_in_tree (Suc fuel) parent_id child_id c =
     (let m = t_min (tree_at c child_id); parent = tree_at c parent_id;
          (skip, parent) = make_path m [0..<4] 0 (lv_node_ids (t_levels parent ! 0) ! 0) parent;
          c = upd_tree parent_id (\<lambda>_. parent) c;
          lod = unat (morton_magnitude_to_lod (unat (t_magnitude parent))) - 4; node = node_at parent 4 skip;
          k = unat (morton_get_child_mask lod (m192_words m));
          slot = skip + sub_tree_count_skips node k
      in if bit node k then insert_tree_in_tree fuel (t_sub_trees parent ! slot) child_id c
         else if int (unat (t_magnitude parent)) - 1 = int (unat (t_magnitude (tree_at c child_id)))
         then Inr (upd_tree parent_id (grow_slot skip k slot child_id) c)
         else if tr_current_id (tch_reg c) = - 1 then Inl registry_full
         else if t_magnitude parent = 0 then Inl finest_split
         else (let (sub_id, c) = spawn_sub_tree parent_id skip k slot m c
               in insert_tree_in_tree fuel sub_id child_id c))"

definition reparent_tree :: "nat \<Rightarrow> u32 \<Rightarrow> m192 \<Rightarrow> m192 \<Rightarrow> tree_cache \<Rightarrow> build_stop + u32 \<times> tree_cache" where
  "reparent_tree fuel i possible_min possible_max c =
     (if tr_current_id (tch_reg c) = - 1 then Inl registry_full
      else (let (parent_id, c) = tree_cache_add_tree c;
                c = upd_tree parent_id (tree_initialize_new_parent (tree_at c i) possible_min possible_max) c
            in case insert_tree_in_tree fuel parent_id i c of Inl e \<Rightarrow> Inl e | Inr c \<Rightarrow> Inr (parent_id, c)))"

section \<open>Adding a chunk\<close>

definition enter_chunk :: "u32 \<Rightarrow> storage_header \<Rightarrow> attributes_id \<Rightarrow> storage_location list \<Rightarrow> tree_cache \<Rightarrow> tree_cache" where
  "enter_chunk i h attributes locations c =
     (let c = upd_tree i (\<lambda>t. t\<lparr>t_storage_map := add_storage (sh_input h) attributes locations (t_storage_map t),
                t_leaves_collapsed := False\<rparr>) c; r = tch_reg c
      in if input_data_id_is_leaf (sh_input h) \<and> \<not> input_data_id_is_collapsed_leaf (sh_input h)
         then c\<lparr>tch_reg := r\<lparr>tr_chunk_refs := (tr_chunk_refs r)(sh_input h \<mapsto>
                \<lparr>cr_tree_count = 1, cr_point_count = sh_count h\<rparr>)\<rparr>\<rparr>
         else c)"

definition tree_add_points :: "stored_blobs \<Rightarrow> nat \<Rightarrow> u32 \<Rightarrow> storage_header \<Rightarrow> attributes_id \<Rightarrow> storage_location list \<Rightarrow>
    tree_cache \<Rightarrow> build_stop + u32 \<times> tree_cache" where
  "tree_add_points rd fuel i h attributes locations c =
     (case (if m192_lt (sh_min h) (t_min (tree_at c i)) \<or> m192_lt (t_max (tree_at c i)) (sh_max h)
            then reparent_tree fuel i (sh_min h) (sh_max h) c else Inr (i, c)) of
        Inl e \<Rightarrow> Inl e
      | Inr (root, c) \<Rightarrow>
          (let points = points_data_initialize blank_collection h;
               name = root_node_name (t_magnitude (tree_at c root)) (pc_min points)
           in case sub_tree_insert_points rd fuel root (t_min (tree_at c root)) 0 0 name points
                (enter_chunk root h attributes locations c) of
                Inl e \<Rightarrow> Inl e
              | Inr c \<Rightarrow> Inr (root, c)))"

definition tree_initialize :: "stored_blobs \<Rightarrow> nat \<Rightarrow> storage_header \<Rightarrow> attributes_id \<Rightarrow> storage_location list \<Rightarrow>
    tree_cache \<Rightarrow> build_stop + u32 \<times> tree_cache" where
  "tree_initialize rd fuel h attributes locations c =
     (if tr_current_id (tch_reg c) = - 1 then Inl registry_full
      else (let (i, c) = tree_cache_add_tree c;
                magnitude = word_of_nat (morton_magnitude_from_bit_index
                  (morton_msb (morton_xor (m192_words (sh_min h)) (m192_words (sh_max h)))));
                c = upd_tree i (\<lambda>t. push_root_node (root_node_name magnitude (sh_min h))
                      ((set_cell magnitude (sh_min h) t)\<lparr>t_is_dirty := True\<rparr>)) c
            in tree_add_points rd fuel i h attributes locations c))"

end
