(* ===== verification/TreeShape.thy ===== *)
theory TreeShape
  imports TreeBuild
begin

text \<open>
  The shape of a tree's arrays, and what the operations of \<open>tree_build.cpp\<close> do to it: the vectors of
  a level are parallel, a level has one node for every child bit of the level above, the sub-trees
  belong to the child bits of the last level, and the skip of a node is the number of child bits
  before it in its level.
\<close>

section \<open>Child bits\<close>

definition kids :: "u8 list \<Rightarrow> nat" where
  "kids ns = (\<Sum>n\<leftarrow>ns. sub_tree_count_skips n 8)"

lemma kids_simps [simp]: "kids [] = 0" "kids (n # ns) = sub_tree_count_skips n 8 + kids ns" "kids (xs @ ys) = kids xs + kids ys"
  by (simp_all add: kids_def)

lemma count_skips_Suc [simp]:
  "sub_tree_count_skips n (Suc k) = sub_tree_count_skips n k + (if bit n k then 1 else 0)"
  by (simp add: sub_tree_count_skips_def)

lemma count_skips_0 [simp]: "sub_tree_count_skips n 0 = 0" "sub_tree_count_skips 0 k = 0"
  by (simp_all add: sub_tree_count_skips_def)

lemma count_skips_le: "sub_tree_count_skips n k \<le> k"
  unfolding sub_tree_count_skips_def by (metis diff_zero length_filter_le length_upt)

lemma count_skips_mono: "j \<le> k \<Longrightarrow> sub_tree_count_skips n j \<le> sub_tree_count_skips n k"
  by (induction rule: inc_induct) auto

lemma count_skips_less: "bit n k \<Longrightarrow> k < 8 \<Longrightarrow> sub_tree_count_skips n k < sub_tree_count_skips n 8"
  using count_skips_mono [of "Suc k" 8 n] by simp

lemma bit_child_bit: "bit (child_bit k) j \<longleftrightarrow> j = k \<and> k < 8"
  by (auto simp: child_bit_def bit_push_bit_iff bit_1_iff simp del: push_bit_of_1)

lemma count_skips_set:
  assumes "\<not> bit n k" and "k < 8"
  shows "sub_tree_count_skips (n OR child_bit k) j = sub_tree_count_skips n j + (if k < j then 1 else 0)"
proof (induction j)
  case (Suc j)
  then show ?case using assms by (auto simp: bit_or_iff bit_child_bit less_Suc_eq)
qed simp

lemma kids_take_mono: "i \<le> j \<Longrightarrow> kids (take i ns) \<le> kids (take j ns)"
  by (metis kids_simps(3) le_Suc_ex le_add1 take_add)

lemma kids_take_le: "kids (take i ns) \<le> kids ns"
  by (metis append_take_drop_id kids_simps(3) le_add1)

lemma kids_take_Suc: "i < length ns \<Longrightarrow> kids (take (Suc i) ns) = kids (take i ns) + sub_tree_count_skips (ns ! i) 8"
  by (simp add: take_Suc_conv_app_nth)

lemma kids_bound: "kids ns \<le> 8 * length ns"
  by (induction ns) (auto intro: add_mono count_skips_le)

lemma kids_update:
  assumes "s < length ns" and "\<not> bit (ns ! s) k" and "k < 8"
  shows "kids (take i (ns[s := ns ! s OR child_bit k])) = kids (take i ns) + (if s < i then 1 else 0)"
  using assms
proof (induction ns arbitrary: i s)
  case Nil
  then show ?case by simp
next
  case (Cons n ns)
  show ?case
  proof (cases s)
    case 0
    then show ?thesis using Cons.prems by (cases i) (simp_all add: count_skips_set)
  next
    case (Suc r)
    then show ?thesis using Cons by (cases i) simp_all
  qed
qed

lemma kids_update_all:
  "s < length ns \<Longrightarrow> \<not> bit (ns ! s) k \<Longrightarrow> k < 8 \<Longrightarrow> kids (ns[s := ns ! s OR child_bit k]) = kids ns + 1"
  using kids_update [of s ns k "length ns"] by simp

section \<open>Insertion into a vector\<close>

lemma length_insert_at [simp]: "length (insert_at k x xs) = Suc (length xs)"
  by (simp add: insert_at_def)

lemma nth_insert_at:
  "k \<le> length xs \<Longrightarrow> insert_at k x xs ! i = (if i < k then xs ! i else if i = k then x else xs ! (i - 1))"
proof -
  assume k: "k \<le> length xs"
  consider "i < k" | "i = k" | j where "i = Suc (k + j)" by (metis less_imp_Suc_add linorder_neqE_nat)
  then show ?thesis using k by cases (simp_all add: insert_at_def nth_append)
qed

lemma set_insert_at [simp]: "set (insert_at k x xs) = insert x (set xs)"
  by (metis Un_insert_right append_take_drop_id insert_at_def list.simps(15) set_append)

lemma kids_insert_zero [simp]: "kids (insert_at k 0 ns) = kids ns"
  by (metis (no_types) add_0 append_take_drop_id count_skips_0(2) insert_at_def kids_simps(2,3))

lemma kids_take_insert_zero:
  "k \<le> length ns \<Longrightarrow> kids (take i (insert_at k 0 ns)) = (if i \<le> k then kids (take i ns) else kids (take (i - 1) ns))"
proof -
  assume k: "k \<le> length ns"
  show ?thesis
  proof (cases "i \<le> k")
    case True
    then show ?thesis using k by (simp add: insert_at_def min_absorb1)
  next
    case False
    then obtain d where d: "i = Suc k + d" by (metis add_Suc less_imp_Suc_add not_le)
    have "take (i - 1) ns = take k ns @ take d (drop k ns)" by (simp add: d take_add)
    then show ?thesis using k False by (simp add: insert_at_def d min_absorb2)
  qed
qed

section \<open>The shape\<close>

definition level_shape :: "tree_level \<Rightarrow> bool" where
  "level_shape l \<longleftrightarrow> length (lv_skips l) = length (lv_nodes l) \<and> length (lv_node_ids l) = length (lv_nodes l) \<and>
     length (lv_data l) = length (lv_nodes l) \<and>
     (\<forall>i < length (lv_nodes l). lv_skips l ! i = word_of_nat (kids (take i (lv_nodes l))))"

definition tree_shape :: "tree_t \<Rightarrow> bool" where
  "tree_shape t \<longleftrightarrow> length (t_levels t) = 5 \<and> (\<forall>l \<in> set (t_levels t). level_shape l) \<and>
     length (lv_nodes (t_levels t ! 0)) = 1 \<and>
     (\<forall>i < 4. length (lv_nodes (t_levels t ! Suc i)) = kids (lv_nodes (t_levels t ! i))) \<and>
     length (t_sub_trees t) = kids (lv_nodes (t_levels t ! 4))"

lemma tree_shapeD:
  assumes "tree_shape t"
  shows "length (t_levels t) = 5" and "l < 5 \<Longrightarrow> level_shape (t_levels t ! l)"
    and "length (lv_nodes (t_levels t ! 0)) = 1"
    and "l < 4 \<Longrightarrow> length (lv_nodes (t_levels t ! Suc l)) = kids (lv_nodes (t_levels t ! l))"
    and "length (t_sub_trees t) = kids (lv_nodes (t_levels t ! 4))"
  using assms by (auto simp: tree_shape_def)

lemma tree_shapeI:
  assumes "length (t_levels t) = 5" and "\<And>l. l < 5 \<Longrightarrow> level_shape (t_levels t ! l)"
    and "length (lv_nodes (t_levels t ! 0)) = 1"
    and "\<And>l. l < 4 \<Longrightarrow> length (lv_nodes (t_levels t ! Suc l)) = kids (lv_nodes (t_levels t ! l))"
    and "length (t_sub_trees t) = kids (lv_nodes (t_levels t ! 4))"
  shows "tree_shape t"
  unfolding tree_shape_def
proof (intro conjI ballI)
  fix l assume "l \<in> set (t_levels t)"
  then obtain k where "k < 5" "l = t_levels t ! k" using assms(1) by (auto simp: in_set_conv_nth)
  then show "level_shape l" using assms(2) by simp
qed (use assms in auto)

lemma level_count: "tree_shape t \<Longrightarrow> l < 5 \<Longrightarrow> length (lv_nodes (t_levels t ! l)) \<le> 8 ^ l"
proof (induction l)
  case 0
  then show ?case by (simp add: tree_shapeD)
next
  case (Suc l)
  then show ?case using kids_bound [of "lv_nodes (t_levels t ! l)"] by (simp add: tree_shapeD)
qed

text \<open>So the signed 16 bits of a skip never run over.\<close>

lemma skip_at_kids:
  assumes "tree_shape t" and "l < 5" and "i < length (lv_nodes (t_levels t ! l))"
  shows "skip_at t l i = kids (take i (lv_nodes (t_levels t ! l)))"
proof -
  let ?ns = "lv_nodes (t_levels t ! l)"
  have "length ?ns \<le> 8 ^ 4" using level_count [OF assms(1,2)] power_increasing [of l 4 "8 :: nat"] assms(2) by simp
  moreover have "kids (take i ?ns) \<le> 8 * i" using kids_bound [of "take i ?ns"] assms(3) by simp
  ultimately have "kids (take i ?ns) < 2 ^ 15" using assms(3) by simp
  then have "sint (word_of_nat (kids (take i ?ns)) :: u16) = int (kids (take i ?ns))"
    by (simp add: signed_of_nat signed_take_bit_int_eq_self)
  then show ?thesis
    using tree_shapeD(2) [OF assms(1,2)] assms(3) by (simp add: skip_at_def level_shape_def)
qed

section \<open>A new child\<close>

text \<open>The position of child \<open>k\<close> of a node in the level below.\<close>

definition child_place :: "u8 list \<Rightarrow> nat \<Rightarrow> nat \<Rightarrow> nat" where
  "child_place ns s k = kids (take s ns) + sub_tree_count_skips (ns ! s) k"

lemma child_place_le: "s < length ns \<Longrightarrow> k \<le> 8 \<Longrightarrow> child_place ns s k \<le> kids ns"
  using kids_take_le [of "Suc s" ns] count_skips_mono [of k 8 "ns ! s"]
  by (simp add: child_place_def kids_take_Suc)

lemma child_place_less: "s < length ns \<Longrightarrow> k < 8 \<Longrightarrow> bit (ns ! s) k \<Longrightarrow> child_place ns s k < kids ns"
  using kids_take_le [of "Suc s" ns] count_skips_less [of "ns ! s" k]
  by (simp add: child_place_def kids_take_Suc)

lemma upd_level_nth [simp]:
  "k < length (t_levels t) \<Longrightarrow> t_levels (upd_level l f t) ! k = (if l = k then f (t_levels t ! k) else t_levels t ! k)"
  by (simp add: upd_level_def nth_list_update)

lemma upd_level_rest [simp]:
  "length (t_levels (upd_level l f t)) = length (t_levels t)" "t_sub_trees (upd_level l f t) = t_sub_trees t"
  "t_magnitude (upd_level l f t) = t_magnitude t" "t_id (upd_level l f t) = t_id t"
  "t_min (upd_level l f t) = t_min t" "t_max (upd_level l f t) = t_max t"
  by (simp_all add: upd_level_def)

text \<open>The level of the node: the bit is set, the later skips grow by one.\<close>

definition bit_level :: "nat \<Rightarrow> nat \<Rightarrow> tree_level \<Rightarrow> tree_level" where
  "bit_level s k l = l\<lparr>lv_nodes := (lv_nodes l)[s := lv_nodes l ! s OR child_bit k],
     lv_skips := map (\<lambda>i. if s < i then lv_skips l ! i + 1 else lv_skips l ! i) [0..<length (lv_skips l)]\<rparr>"

lemma bit_level_shape:
  assumes "level_shape l" and "s < length (lv_nodes l)" and "\<not> bit (lv_nodes l ! s) k" and "k < 8"
  shows "level_shape (bit_level s k l)"
  using assms by (auto simp: level_shape_def bit_level_def kids_update)

lemma bit_level_nodes [simp]: "lv_nodes (bit_level s k l) = (lv_nodes l)[s := lv_nodes l ! s OR child_bit k]"
  by (simp add: bit_level_def)

text \<open>The level below: a node without children at its place.\<close>

definition zero_level :: "nat \<Rightarrow> u16 \<Rightarrow> tree_level \<Rightarrow> tree_level" where
  "zero_level p name l =
     \<lparr>lv_nodes = insert_at p 0 (lv_nodes l),
      lv_skips = insert_at p (if p < length (lv_skips l) then lv_skips l ! p
            else if 0 < p \<and> p = length (lv_skips l)
            then last (lv_skips l) + word_of_nat (sub_tree_count_skips (last (lv_nodes l)) 8)
            else 0) (lv_skips l),
      lv_node_ids = (insert_at p 0 (lv_node_ids l))[p := name], lv_data = insert_at p blank_collection (lv_data l)\<rparr>"

lemma zero_level_shape:
  assumes "level_shape l" and "p \<le> length (lv_nodes l)"
  shows "level_shape (zero_level p name l)"
proof -
  let ?ns = "lv_nodes l" and ?ss = "lv_skips l"
  have l: "length ?ss = length ?ns" "\<And>i. i < length ?ns \<Longrightarrow> ?ss ! i = word_of_nat (kids (take i ?ns))"
    using assms(1) by (simp_all add: level_shape_def)
  have "(if p < length ?ss then ?ss ! p else if 0 < p \<and> p = length ?ss
      then last ?ss + word_of_nat (sub_tree_count_skips (last ?ns) 8) else 0) = word_of_nat (kids (take p ?ns))"
  proof (cases "p < length ?ss \<or> p = 0")
    case True
    then show ?thesis using l assms(2) by auto
  next
    case False
    then have p: "p = length ?ns" "?ns \<noteq> []" using assms(2) l(1) by auto
    then have "?ns = butlast ?ns @ [last ?ns]" by simp
    then have "kids ?ns = kids (butlast ?ns) + sub_tree_count_skips (last ?ns) 8"
      by (metis add_0_right kids_simps)
    moreover have "last ?ss = word_of_nat (kids (butlast ?ns))"
      using l p by (metis butlast_conv_take diff_less last_conv_nth length_0_conv length_greater_0_conv zero_less_one)
    ultimately show ?thesis using False p l(1) by simp
  qed
  then show ?thesis
    using assms l by (auto simp: level_shape_def zero_level_def nth_insert_at kids_take_insert_zero less_Suc_eq_le)
qed

lemma zero_level_nodes [simp]: "lv_nodes (zero_level p name l) = insert_at p 0 (lv_nodes l)"
  by (simp add: zero_level_def)

lemma grow_child_levels:
  assumes "length (t_levels t) = 5" and "l < 4" and "j < 5"
  shows "t_levels (grow_child l s k p name t) ! j =
    (if j = l then bit_level s k (t_levels t ! l) else if j = l + 1 then zero_level p name (t_levels t ! j) else t_levels t ! j)"
  using assms
  by (auto simp: grow_child_def set_node_id_def sub_tree_increase_skips_def sub_tree_alloc_children_def
      set_child_bit_def bit_level_def zero_level_def Let_def)

lemma grow_child_rest [simp]:
  "length (t_levels (grow_child l s k p name t)) = length (t_levels t)" "t_sub_trees (grow_child l s k p name t) = t_sub_trees t"
  "t_magnitude (grow_child l s k p name t) = t_magnitude t" "t_id (grow_child l s k p name t) = t_id t"
  "t_min (grow_child l s k p name t) = t_min t" "t_max (grow_child l s k p name t) = t_max t"
  by (simp_all add: grow_child_def set_node_id_def sub_tree_increase_skips_def sub_tree_alloc_children_def
      set_child_bit_def Let_def)

lemma grow_child_shape:
  assumes "tree_shape t" and "l < 4" and "s < length (lv_nodes (t_levels t ! l))"
    and "\<not> bit (node_at t l s) k" and "k < 8" and "p = child_place (lv_nodes (t_levels t ! l)) s k"
  shows "tree_shape (grow_child l s k p name t)"
proof (rule tree_shapeI)
  note d = tree_shapeD [OF assms(1)]
  note lv = grow_child_levels [OF d(1) assms(2)]
  let ?ns = "lv_nodes (t_levels t ! l)"
  have n: "\<not> bit (?ns ! s) k" using assms(4) by (simp add: node_at_def)
  have p: "p \<le> length (lv_nodes (t_levels t ! Suc l))"
    using child_place_le [OF assms(3), of k] assms(2,5,6) d(4) by simp
  show "length (t_levels (grow_child l s k p name t)) = 5" using d(1) by simp
  show "level_shape (t_levels (grow_child l s k p name t) ! j)" if "j < 5" for j
    using that d(2) assms(2) bit_level_shape [OF _ assms(3) n assms(5)] zero_level_shape [OF _ p] by (simp add: lv)
  show "length (lv_nodes (t_levels (grow_child l s k p name t) ! 0)) = 1"
    using d(3) by (simp add: lv)
  show "length (lv_nodes (t_levels (grow_child l s k p name t) ! Suc j)) =
      kids (lv_nodes (t_levels (grow_child l s k p name t) ! j))" if "j < 4" for j
    using that d(4) [of j] assms(2) kids_update_all [OF assms(3) n assms(5)] by (auto simp: lv)
  show "length (t_sub_trees (grow_child l s k p name t)) = kids (lv_nodes (t_levels (grow_child l s k p name t) ! 4))"
    using d(5) assms(2) by (auto simp: lv)
qed

lemma grow_slot_levels:
  assumes "length (t_levels t) = 5" and "j < 5"
  shows "t_levels (grow_slot s k p i t) ! j = (if j = 4 then bit_level s k (t_levels t ! 4) else t_levels t ! j)"
  using assms by (auto simp: grow_slot_def sub_tree_increase_skips_def set_child_bit_def bit_level_def Let_def)

lemma grow_slot_rest [simp]:
  "length (t_levels (grow_slot s k p i t)) = length (t_levels t)" "t_sub_trees (grow_slot s k p i t) = insert_at p i (t_sub_trees t)"
  "t_magnitude (grow_slot s k p i t) = t_magnitude t" "t_id (grow_slot s k p i t) = t_id t"
  "t_min (grow_slot s k p i t) = t_min t" "t_max (grow_slot s k p i t) = t_max t"
  by (simp_all add: grow_slot_def sub_tree_increase_skips_def set_child_bit_def Let_def)

lemma grow_slot_shape:
  assumes "tree_shape t" and "s < length (lv_nodes (t_levels t ! 4))" and "\<not> bit (node_at t 4 s) k" and "k < 8"
  shows "tree_shape (grow_slot s k p i t)"
proof (rule tree_shapeI)
  note d = tree_shapeD [OF assms(1)]
  note lv = grow_slot_levels [OF d(1)]
  have n: "\<not> bit (lv_nodes (t_levels t ! 4) ! s) k" using assms(3) by (simp add: node_at_def)
  show "length (t_levels (grow_slot s k p i t)) = 5" using d(1) by simp
  show "level_shape (t_levels (grow_slot s k p i t) ! j)" if "j < 5" for j
    using that d(2) bit_level_shape [OF _ assms(2) n assms(4)] by (simp add: lv)
  show "length (lv_nodes (t_levels (grow_slot s k p i t) ! 0)) = 1" using d(3) by (simp add: lv)
  show "length (lv_nodes (t_levels (grow_slot s k p i t) ! Suc j)) = kids (lv_nodes (t_levels (grow_slot s k p i t) ! j))"
    if "j < 4" for j using that d(4) [of j] d(4) [of 3] by (auto simp: lv)
  show "length (t_sub_trees (grow_slot s k p i t)) = kids (lv_nodes (t_levels (grow_slot s k p i t) ! 4))"
    using d(5) kids_update_all [OF assms(2) n assms(4)] by (simp add: lv)
qed

end
