(* ===== verification/TreeSegment.thy ===== *)
theory TreeSegment
  imports TreeShape
begin

text \<open>
  The part of a tree below one node. The nodes of a level are stored in order, so the descendants of
  a node fill one segment of every level below it and one segment of the slots of the sub-trees:
  segment \<open>(a, m)\<close> of a level has the segment \<open>(kids (take a ns), kids (take m (drop a ns)))\<close> in the next.
  \<open>same_outside\<close> says that two trees differ in these segments only.
\<close>

definition outside :: "nat \<Rightarrow> nat \<Rightarrow> nat \<Rightarrow> 'a list \<Rightarrow> 'a list \<Rightarrow> bool" where
  "outside a m m' xs xs' \<longleftrightarrow> take a xs' = take a xs \<and> drop (a + m') xs' = drop (a + m) xs"

definition level_outside :: "nat \<Rightarrow> nat \<Rightarrow> nat \<Rightarrow> tree_level \<Rightarrow> tree_level \<Rightarrow> bool" where
  "level_outside a m m' L L' \<longleftrightarrow> outside a m m' (lv_nodes L) (lv_nodes L') \<and>
     outside a m m' (lv_node_ids L) (lv_node_ids L') \<and> outside a m m' (lv_data L) (lv_data L')"

definition seg_begin :: "nat \<Rightarrow> tree_level \<Rightarrow> nat" where
  "seg_begin a L = kids (take a (lv_nodes L))"

definition seg_length :: "nat \<Rightarrow> nat \<Rightarrow> tree_level \<Rightarrow> nat" where
  "seg_length a m L = kids (take m (drop a (lv_nodes L)))"

fun same_outside :: "nat \<Rightarrow> nat \<Rightarrow> nat \<Rightarrow> tree_level list \<Rightarrow> tree_level list \<Rightarrow> u32 list \<Rightarrow> u32 list \<Rightarrow> bool" where
  "same_outside a m m' (L # Ls) (L' # Ls') S S' \<longleftrightarrow> level_outside a m m' L L' \<and>
     same_outside (seg_begin a L) (seg_length a m L) (seg_length a m' L') Ls Ls' S S'"
| "same_outside a m m' [] [] S S' \<longleftrightarrow> outside a m m' S S'"
| "same_outside a m m' _ _ S S' \<longleftrightarrow> False"

text \<open>The slots of the sub-trees in the segment.\<close>

fun segment_slots :: "nat \<Rightarrow> nat \<Rightarrow> tree_level list \<Rightarrow> u32 list \<Rightarrow> u32 list" where
  "segment_slots a m (L # Ls) S = segment_slots (seg_begin a L) (seg_length a m L) Ls S"
| "segment_slots a m [] S = take m (drop a S)"

section \<open>Lists that agree outside a segment\<close>

lemma outside_refl [simp]: "outside a m m xs xs"
  by (simp add: outside_def)

lemma outside_trans: "outside a m1 m2 xs ys \<Longrightarrow> outside a m2 m3 ys zs \<Longrightarrow> outside a m1 m3 xs zs"
  by (simp add: outside_def)

lemma outside_prefix:
  assumes "outside (a + d) m m' xs xs'"
  shows "take a xs' = take a xs" and "take d (drop a xs') = take d (drop a xs)"
proof -
  have t: "take (a + d) xs' = take (a + d) xs" using assms by (simp add: outside_def)
  have "take a (take (a + d) xs') = take a (take (a + d) xs)" by (simp only: t)
  then show "take a xs' = take a xs" by (simp add: min_absorb1)
  have "drop a (take (a + d) xs') = drop a (take (a + d) xs)" by (simp only: t)
  then show "take d (drop a xs') = take d (drop a xs)" by (simp add: drop_take)
qed

lemma outside_widen:
  assumes "outside (a + d) m m' xs xs'"
  shows "outside a (d + m + e) (d + m' + e) xs xs'"
proof -
  have "drop (a + d + m') xs' = drop (a + d + m) xs" using assms by (simp add: outside_def)
  then have "drop e (drop (a + d + m') xs') = drop e (drop (a + d + m) xs)" by simp
  then show ?thesis using outside_prefix(1) [OF assms] by (simp add: outside_def add_ac)
qed

lemma outside_update: "a \<le> p \<Longrightarrow> p < a + m \<Longrightarrow> outside a m m xs (xs[p := x])"
  by (simp add: outside_def take_update_cancel drop_update_cancel)

lemma outside_insert:
  assumes "a \<le> p" and "p \<le> a + m" and "p \<le> length xs"
  shows "outside a m (Suc m) xs (insert_at p x xs)"
proof -
  have "drop (a + Suc m) (insert_at p x xs) = drop (a + m) xs"
  proof (rule nth_equalityI)
    fix i assume "i < length (drop (a + Suc m) (insert_at p x xs))"
    then show "drop (a + Suc m) (insert_at p x xs) ! i = drop (a + m) xs ! i"
      using assms by (simp add: nth_insert_at)
  qed (simp add: assms)
  moreover have "take a (insert_at p x xs) = take a xs"
    using assms by (simp add: insert_at_def min_absorb1)
  ultimately show ?thesis by (simp add: outside_def)
qed

lemma insert_at_update [simp]: "p \<le> length xs \<Longrightarrow> (insert_at p x xs)[p := y] = insert_at p y xs"
  by (simp add: insert_at_def list_update_append)

section \<open>Levels\<close>

lemma level_outside_refl [simp]: "level_outside a m m L L"
  by (simp add: level_outside_def)

lemma level_outside_trans: "level_outside a m1 m2 L L1 \<Longrightarrow> level_outside a m2 m3 L1 L2 \<Longrightarrow> level_outside a m1 m3 L L2"
  by (auto simp: level_outside_def intro: outside_trans)

lemma level_outside_widen: "level_outside (a + d) m m' L L' \<Longrightarrow> level_outside a (d + m + e) (d + m' + e) L L'"
  by (simp add: level_outside_def outside_widen)

lemma level_outside_begin: "level_outside a m m' L L' \<Longrightarrow> seg_begin a L' = seg_begin a L"
  by (simp add: level_outside_def outside_def seg_begin_def)

lemma seg_begin_add: "seg_begin (a + d) L = seg_begin a L + seg_length a d L"
  by (simp add: seg_begin_def seg_length_def take_add)

lemma seg_length_add: "seg_length a (d + m) L = seg_length a d L + seg_length (a + d) m L"
  by (simp add: seg_length_def take_add add.commute)

lemma seg_length_one: "s < length (lv_nodes L) \<Longrightarrow> seg_length s (Suc 0) L = sub_tree_count_skips (lv_nodes L ! s) 8"
  by (simp add: seg_length_def take_Suc_conv_app_nth hd_drop_conv_nth take_Suc)

lemma level_outside_lengths:
  assumes "level_outside (a + d) m m' L L'"
  shows "seg_length a (d + m' + e) L' = seg_length a d L + seg_length (a + d) m' L' + seg_length (a + d + m) e L"
proof -
  have o: "outside (a + d) m m' (lv_nodes L) (lv_nodes L')" using assms by (simp add: level_outside_def)
  have "seg_length a d L' = seg_length a d L" by (simp add: seg_length_def outside_prefix(2) [OF o])
  moreover have "seg_length (a + d + m') e L' = seg_length (a + d + m) e L"
    using o by (simp add: seg_length_def outside_def)
  ultimately show ?thesis by (simp add: seg_length_add add.assoc)
qed

section \<open>Trees\<close>

lemma same_outside_refl [simp]: "same_outside a m m Ls Ls S S"
  by (induction Ls arbitrary: a m) simp_all

lemma same_outside_trans:
  "same_outside a m1 m2 Ls Ls1 S S1 \<Longrightarrow> same_outside a m2 m3 Ls1 Ls2 S1 S2 \<Longrightarrow> same_outside a m1 m3 Ls Ls2 S S2"
proof (induction Ls arbitrary: a m1 m2 m3 Ls1 Ls2)
  case Nil
  then show ?case by (cases Ls1; cases Ls2) (auto intro: outside_trans)
next
  case (Cons L Ls)
  then obtain L1 R1 L2 R2 where l: "Ls1 = L1 # R1" "Ls2 = L2 # R2"
    by (cases Ls1; cases Ls2) auto
  have b: "seg_begin a L1 = seg_begin a L" using Cons.prems(1) by (auto simp: l intro: level_outside_begin)
  show ?case
    using Cons.prems Cons.IH [of "seg_begin a L" "seg_length a m1 L" "seg_length a m2 L1" R1 "seg_length a m3 L2" R2]
    by (auto simp: l b intro: level_outside_trans)
qed

lemma same_outside_widen:
  "same_outside (a + d) m m' Ls Ls' S S' \<Longrightarrow> same_outside a (d + m + e) (d + m' + e) Ls Ls' S S'"
proof (induction Ls arbitrary: a d m m' e Ls')
  case Nil
  then show ?case by (cases Ls') (simp_all add: outside_widen)
next
  case (Cons L Ls)
  then obtain L' R' where l: "Ls' = L' # R'" by (cases Ls') auto
  have o: "level_outside (a + d) m m' L L'" using Cons.prems by (simp add: l)
  have "same_outside (seg_begin a L + seg_length a d L) (seg_length (a + d) m L) (seg_length (a + d) m' L') Ls R' S S'"
    using Cons.prems by (simp add: l seg_begin_add)
  note ih = Cons.IH [OF this, of "seg_length (a + d + m) e L"]
  have "seg_length a (d + m + e) L = seg_length a d L + seg_length (a + d) m L + seg_length (a + d + m) e L"
    by (simp only: seg_length_add add.assoc)
  then show ?case
    using ih level_outside_widen [OF o, of e]
    by (simp only: l same_outside.simps level_outside_lengths [OF o] simp_thms)
qed

lemma segment_parts:
  "set (take (d + m + e) (drop a S)) = set (take d (drop a S)) \<union> set (take m (drop (a + d) S)) \<union> set (take e (drop (a + d + m) S))"
proof -
  have "take (d + m + e) (drop a S) = take d (drop a S) @ take m (drop (a + d) S) @ take e (drop (a + d + m) S)"
    by (simp only: take_add drop_drop append_assoc add.commute [of _ a] add.assoc add.commute [of m d]) (simp add: ac_simps)
  then show ?thesis by (simp add: Un_assoc)
qed

lemma segment_slots_widen: "set (segment_slots (a + d) m Ls S) \<subseteq> set (segment_slots a (d + m + e) Ls S)"
proof (induction Ls arbitrary: a d m e)
  case Nil
  show ?case unfolding segment_slots.simps segment_parts by auto
next
  case (Cons L Ls)
  show ?case
    using Cons.IH [of "seg_begin a L" "seg_length a d L" "seg_length (a + d) m L" "seg_length (a + d + m) e L"]
    by (simp add: seg_begin_add seg_length_add add.assoc)
qed

text \<open>What is new in a segment is new in the part that changed.\<close>

lemma segment_slots_new:
  "same_outside (a + d) m m' Ls Ls' S S' \<Longrightarrow>
   set (segment_slots a (d + m' + e) Ls' S') \<subseteq> set (segment_slots (a + d) m' Ls' S') \<union> set (segment_slots a (d + m + e) Ls S)"
proof (induction Ls arbitrary: a d m m' e Ls')
  case Nil
  then have l: "Ls' = []" and o: "outside (a + d) m m' S S'" by (cases Ls'; simp)+
  have "drop (a + d + m') S' = drop (a + d + m) S" using o by (simp add: outside_def)
  then show ?case
    unfolding l segment_slots.simps segment_parts outside_prefix(2) [OF o] by auto
next
  case (Cons L Ls)
  then obtain L' R' where l: "Ls' = L' # R'" by (cases Ls') auto
  have o: "level_outside (a + d) m m' L L'" using Cons.prems by (simp add: l)
  have b: "seg_begin (a + d) L' = seg_begin a L + seg_length a d L"
    using level_outside_begin [OF o] by (simp add: seg_begin_add)
  have b': "seg_begin a L' = seg_begin a L"
    using o outside_prefix(1) [of a d m m' "lv_nodes L" "lv_nodes L'"] by (simp add: level_outside_def seg_begin_def)
  have "same_outside (seg_begin a L + seg_length a d L) (seg_length (a + d) m L) (seg_length (a + d) m' L') Ls R' S S'"
    using Cons.prems by (simp add: l seg_begin_add)
  note ih = Cons.IH [OF this, of "seg_length (a + d + m) e L"]
  have "seg_length a (d + m + e) L = seg_length a d L + seg_length (a + d) m L + seg_length (a + d + m) e L"
    by (simp only: seg_length_add add.assoc)
  then show ?case
    using ih by (simp only: l segment_slots.simps level_outside_lengths [OF o] b b')
qed

lemma segment_slots_cong:
  "map lv_nodes Ls' = map lv_nodes Ls \<Longrightarrow> segment_slots a m Ls' S = segment_slots a m Ls S"
proof (induction Ls arbitrary: a m Ls')
  case (Cons L Ls)
  then obtain L' R' where l: "Ls' = L' # R'" "lv_nodes L' = lv_nodes L" "map lv_nodes R' = map lv_nodes Ls"
    by (cases Ls') auto
  show ?case using Cons.IH [OF l(3)] by (simp add: l(1,2) seg_begin_def seg_length_def)
qed simp

lemma segment_slots_subset: "set (segment_slots a m Ls S) \<subseteq> set S"
  by (induction Ls arbitrary: a m) (auto dest: in_set_takeD in_set_dropD)

section \<open>New nodes\<close>

lemma kids_insert_segment:
  assumes "a \<le> p" and "p \<le> a + m" and "p \<le> length ns"
  shows "kids (take (Suc m) (drop a (insert_at p 0 ns))) = kids (take m (drop a ns))"
proof -
  have "kids (take (a + Suc m) (insert_at p 0 ns)) = kids (take (a + m) ns)"
    using assms by (simp add: kids_take_insert_zero)
  moreover have "kids (take a (insert_at p 0 ns)) = kids (take a ns)"
    using assms by (simp add: kids_take_insert_zero)
  moreover have "kids (take (a + k) xs) = kids (take a xs) + kids (take k (drop a xs))" for k xs
    by (simp add: take_add)
  ultimately show ?thesis by (metis add_left_cancel)
qed

lemma insert_at_segment:
  assumes "a \<le> p" and "p \<le> a + m" and "p \<le> length S"
  shows "take (Suc m) (drop a (insert_at p x S)) = insert_at (p - a) x (take m (drop a S))"
proof -
  define r where "r = p - a"
  have p: "p = a + r" "r \<le> m" "r \<le> length (drop a S)" using assms by (simp_all add: r_def)
  have "drop a (insert_at p x S) = insert_at r x (drop a S)"
    using p(3) assms(1,3) by (simp add: insert_at_def p(1) take_add add.commute)
  moreover have "take (Suc m) (insert_at r x T) = insert_at r x (take m T)" if "r \<le> length T" for T
  proof -
    obtain q where q: "m = r + q" using p(2) le_Suc_ex by blast
    have "take (Suc (r + q)) (take r T) = take r T" by simp
    moreover have "length (take r T) = r" using that by simp
    moreover have "take r (take (r + q) T) = take r T" by simp
    moreover have "drop r (take (r + q) T) = take q (drop r T)" by (simp add: drop_take)
    moreover have "Suc (r + q) - r = Suc q" by simp
    ultimately show ?thesis by (simp only: q insert_at_def take_append take_Suc_Cons)
  qed
  ultimately show ?thesis using p(3) by (simp add: r_def)
qed

lemma bit_level_outside:
  "s < length (lv_nodes L) \<Longrightarrow> level_outside s 1 1 L (bit_level s k L)"
  by (simp add: level_outside_def bit_level_def outside_update)

lemma bit_level_seg:
  assumes "s < length (lv_nodes L)" and "\<not> bit (lv_nodes L ! s) k" and "k < 8"
  shows "seg_begin s (bit_level s k L) = seg_begin s L" and "seg_length s 1 (bit_level s k L) = Suc (seg_length s 1 L)"
  using assms by (simp_all add: seg_begin_def seg_length_one count_skips_set)

lemma zero_level_outside:
  assumes "a \<le> p" and "p \<le> a + m" and "level_shape L" and "p \<le> length (lv_nodes L)"
  shows "level_outside a m (Suc m) L (zero_level p name L)"
  using assms by (simp add: level_outside_def level_shape_def zero_level_def outside_insert)

lemma zero_level_seg:
  assumes "a \<le> p" and "p \<le> a + m" and "p \<le> length (lv_nodes L)"
  shows "seg_begin a (zero_level p name L) = seg_begin a L"
    and "seg_length a (Suc m) (zero_level p name L) = seg_length a m L"
  using assms by (simp_all add: seg_begin_def seg_length_def kids_take_insert_zero kids_insert_segment)

lemma child_place_segment:
  assumes "p = child_place (lv_nodes L) s k" and "s < length (lv_nodes L)" and "k \<le> 8"
  shows "seg_begin s L \<le> p" and "p \<le> seg_begin s L + seg_length s 1 L"
    and "bit (lv_nodes L ! s) k \<Longrightarrow> k < 8 \<Longrightarrow> p < seg_begin s L + seg_length s 1 L"
  using assms count_skips_mono [of k 8 "lv_nodes L ! s"] count_skips_less [of "lv_nodes L ! s" k]
  by (simp_all add: child_place_def seg_begin_def seg_length_one)

end
