(* ===== verification/TreeInvariant.thy ===== *)
theory TreeInvariant
  imports TreeSegment
begin

text \<open>
  The invariant of a registry of trees under construction, and what the single steps of an insertion
  do to it: every tree is in shape and numbered by its place, and a sub-tree is a tree of the registry
  one magnitude below its parent. \<open>frame\<close> says which trees and nodes an insertion leaves alone.
\<close>

section \<open>The invariant of the cache\<close>

text \<open>
  Every tree is in shape and numbered by its place; the vectors of the registry have one entry per
  tree; a sub-tree is a tree of the cache, one magnitude below.
\<close>

definition tree_in :: "tree_t list \<Rightarrow> nat \<Rightarrow> tree_t \<Rightarrow> bool" where
  "tree_in ts j t \<longleftrightarrow> tree_shape t \<and> unat (t_id t) = j \<and>
     (\<forall>s \<in> set (t_sub_trees t). unat s < length ts \<and> unat (t_magnitude (ts ! unat s)) + 1 = unat (t_magnitude t))"

definition registry_in :: "nat \<Rightarrow> tree_registry \<Rightarrow> bool" where
  "registry_in n r \<longleftrightarrow> unat (tr_current_id r) = n \<and> tr_slots r = n \<and> length (tr_locations r) = n \<and>
     length (tr_state r) = n \<and> length (tr_band r) = n"

definition cache_ok :: "tree_cache \<Rightarrow> bool" where
  "cache_ok c \<longleftrightarrow> registry_in (length (tch_trees c)) (tch_reg c) \<and>
     (\<forall>j < length (tch_trees c). tree_in (tch_trees c) j (tch_trees c ! j))"

lemma cache_okD:
  assumes "cache_ok c"
  shows "registry_in (length (tch_trees c)) (tch_reg c)"
    and "j < length (tch_trees c) \<Longrightarrow> tree_in (tch_trees c) j (tch_trees c ! j)"
    and "unat i < length (tch_trees c) \<Longrightarrow> tree_shape (tree_at c i)"
  using assms by (auto simp: cache_ok_def tree_in_def tree_at_def)

lemma link_okD:
  assumes "cache_ok c" and "unat i < length (tch_trees c)" and "s \<in> set (t_sub_trees (tree_at c i))"
  shows "unat s < length (tch_trees c)" and "unat (t_magnitude (tree_at c s)) + 1 = unat (t_magnitude (tree_at c i))"
  using cache_okD(2) [OF assms(1,2)] assms(3) by (simp_all add: tree_in_def tree_at_def)

text \<open>A tree list that grows and keeps its magnitudes keeps what holds of the other trees.\<close>

lemma tree_in_mono:
  assumes "tree_in ts j t" and "length ts \<le> length ts'" and "\<And>k. k < length ts \<Longrightarrow> t_magnitude (ts' ! k) = t_magnitude (ts ! k)"
  shows "tree_in ts' j t"
  using assms by (fastforce simp: tree_in_def)

text \<open>A change of one tree that leaves what the invariant speaks of.\<close>

lemma upd_tree_length [simp]: "length (tch_trees (upd_tree i f c)) = length (tch_trees c)" "tch_reg (upd_tree i f c) = tch_reg c"
  by (simp_all add: upd_tree_def)

lemma tree_at_upd: "unat i < length (tch_trees c) \<Longrightarrow> tree_at (upd_tree i f c) j = (if j = i then f (tree_at c i) else tree_at c j)"
  by (simp add: tree_at_def upd_tree_def nth_list_update word_unat_eq_iff)

lemma cache_ok_upd:
  assumes "cache_ok c" and "unat i < length (tch_trees c)" and "t_magnitude (f (tree_at c i)) = t_magnitude (tree_at c i)"
    and "tree_in (tch_trees c) (unat i) (f (tree_at c i))"
  shows "cache_ok (upd_tree i f c)"
proof -
  let ?ts = "(tch_trees c)[unat i := f (tree_at c i)]"
  have "tree_in ?ts j (?ts ! j)" if "j < length (tch_trees c)" for j
  proof (rule tree_in_mono [of "tch_trees c"])
    show "tree_in (tch_trees c) j (?ts ! j)"
      using that assms(4) cache_okD(2) [OF assms(1) that] assms(2) by (cases "j = unat i") simp_all
    show "t_magnitude (?ts ! k) = t_magnitude (tch_trees c ! k)" if "k < length (tch_trees c)" for k
      using that assms(3) by (cases "k = unat i") (simp_all add: tree_at_def)
  qed simp
  then show ?thesis using cache_okD(1) [OF assms(1)] by (simp add: cache_ok_def upd_tree_def)
qed

text \<open>In particular a change that keeps the arrays in shape and the links.\<close>

lemma cache_ok_upd_shape:
  assumes "cache_ok c" and "unat i < length (tch_trees c)" and "tree_shape (f (tree_at c i))"
    and "t_id (f (tree_at c i)) = t_id (tree_at c i)" and "t_magnitude (f (tree_at c i)) = t_magnitude (tree_at c i)"
    and "t_sub_trees (f (tree_at c i)) = t_sub_trees (tree_at c i)"
  shows "cache_ok (upd_tree i f c)"
proof (rule cache_ok_upd [of c i f, OF assms(1,2,5)])
  have "tree_in (tch_trees c) (unat i) (tree_at c i)" using cache_okD(2) [OF assms(1,2)] by (simp add: tree_at_def)
  then show "tree_in (tch_trees c) (unat i) (f (tree_at c i))" using assms(3-6) by (simp add: tree_in_def)
qed

lemma cache_ok_reg: "cache_ok c \<Longrightarrow> registry_in (length (tch_trees c)) r \<Longrightarrow> cache_ok (c\<lparr>tch_reg := r\<rparr>)"
  by (simp add: cache_ok_def)

lemma tree_shape_cong:
  "t_levels t' = t_levels t \<Longrightarrow> t_sub_trees t' = t_sub_trees t \<Longrightarrow> tree_shape t \<Longrightarrow> tree_shape t'"
  by (simp add: tree_shape_def)

text \<open>The cell of a tree: its magnitude and its bounds.\<close>

definition cell :: "tree_t \<Rightarrow> u8 \<times> m192 \<times> m192" where
  "cell t = (t_magnitude t, t_min t, t_max t)"

lemma cell_magnitude: "cell t' = cell t \<Longrightarrow> t_magnitude t' = t_magnitude t"
  by (simp add: cell_def)

text \<open>Tree \<open>j\<close> is a sub-tree of tree \<open>i\<close>. Links are never cut, and a new tree hangs below \<open>i\<close>.\<close>

definition linked :: "tree_cache \<Rightarrow> (nat \<times> nat) set" where
  "linked c = {(i, j). i < length (tch_trees c) \<and> (\<exists>s \<in> set (t_sub_trees (tch_trees c ! i)). j = unat s)}"

definition links_grow :: "nat \<Rightarrow> tree_cache \<Rightarrow> tree_cache \<Rightarrow> bool" where
  "links_grow i c c' \<longleftrightarrow> linked c \<subseteq> linked c' \<and>
     (\<forall>j. length (tch_trees c) \<le> j \<longrightarrow> j < length (tch_trees c') \<longrightarrow> (i, j) \<in> (linked c')\<^sup>+)"

lemma links_grow_more:
  assumes "length (tch_trees c') = length (tch_trees c)"
    and "\<And>j. j < length (tch_trees c) \<Longrightarrow> set (t_sub_trees (tch_trees c ! j)) \<subseteq> set (t_sub_trees (tch_trees c' ! j))"
  shows "links_grow i c c'"
  using assms by (fastforce simp: links_grow_def linked_def)

lemma links_grow_same:
  assumes "length (tch_trees c') = length (tch_trees c)"
    and "\<And>j. j < length (tch_trees c) \<Longrightarrow> t_sub_trees (tch_trees c' ! j) = t_sub_trees (tch_trees c ! j)"
  shows "links_grow i c c'"
  using assms by (intro links_grow_more) simp_all

lemma links_grow_trans:
  assumes "links_grow i a b" and "links_grow i b c"
  shows "links_grow i a c"
proof -
  have "(i, j) \<in> (linked c)\<^sup>+" if "length (tch_trees a) \<le> j" "j < length (tch_trees c)" for j
  proof (cases "j < length (tch_trees b)")
    case True
    then have "(i, j) \<in> (linked b)\<^sup>+" using assms(1) that(1) by (simp add: links_grow_def)
    then show ?thesis using assms(2) trancl_mono unfolding links_grow_def by blast
  next
    case False
    then show ?thesis using assms(2) that(2) by (simp add: links_grow_def)
  qed
  then show ?thesis using assms by (auto simp: links_grow_def)
qed

lemma links_grow_below:
  assumes "links_grow s c c'" and "(i, s) \<in> linked c"
  shows "links_grow i c c'"
  using assms unfolding links_grow_def by (meson subsetD trancl_into_trancl2)

lemma linkedI: "unat i < length (tch_trees c) \<Longrightarrow> s \<in> set (t_sub_trees (tree_at c i)) \<Longrightarrow> (unat i, unat s) \<in> linked c"
  by (auto simp: linked_def tree_at_def)

text \<open>
  The sub-trees below node \<open>skip\<close> of level \<open>level\<close> of tree \<open>i\<close>: those of the slots in the segment of the
  node, and what is linked below them.
\<close>

definition node_slots :: "tree_t \<Rightarrow> nat \<Rightarrow> nat \<Rightarrow> u32 list" where
  "node_slots t level skip = segment_slots skip 1 (drop level (t_levels t)) (t_sub_trees t)"

definition hangs_below :: "tree_cache \<Rightarrow> u32 \<Rightarrow> nat \<Rightarrow> nat \<Rightarrow> nat \<Rightarrow> bool" where
  "hangs_below c i level skip j \<longleftrightarrow> (\<exists>s \<in> set (node_slots (tree_at c i) level skip). (unat s, j) \<in> (linked c)\<^sup>*)"

text \<open>No tree there was gets a new parent.\<close>

definition old_links :: "tree_cache \<Rightarrow> tree_cache \<Rightarrow> bool" where
  "old_links c c' \<longleftrightarrow> (\<forall>x y. (x, y) \<in> linked c' \<longrightarrow> y < length (tch_trees c) \<longrightarrow> (x, y) \<in> linked c)"

lemma linked_old: "(x, y) \<in> linked c \<Longrightarrow> x < length (tch_trees c)"
  by (simp add: linked_def)

lemma old_links_refl: "old_links c c"
  by (simp add: old_links_def)

lemma old_links_trans:
  assumes "old_links a b" and "old_links b c" and "length (tch_trees a) \<le> length (tch_trees b)"
  shows "old_links a c"
  using assms unfolding old_links_def by (meson less_le_trans)

lemma old_links_reach:
  assumes "old_links c c'" and "(x, y) \<in> (linked c')\<^sup>*" and "y < length (tch_trees c)"
  shows "(x, y) \<in> (linked c)\<^sup>* \<and> x < length (tch_trees c)"
  using assms(2,3)
proof (induction rule: converse_rtrancl_induct)
  case base
  then show ?case by simp
next
  case (step x z)
  have z: "(z, y) \<in> (linked c)\<^sup>*" "z < length (tch_trees c)" using step.IH [OF step.prems] by simp_all
  have "(x, z) \<in> linked c" using step.hyps(1) z(2) assms(1) by (simp add: old_links_def)
  then show ?case using z(1) linked_old by (meson converse_rtrancl_into_rtrancl)
qed

text \<open>
  What an insertion at node \<open>skip\<close> of level \<open>level\<close> of tree \<open>i\<close> leaves alone, exactly: every other tree that
  does not hang below the node, the levels above, and in the level of the node and the levels below it
  everything outside the segment of the node.
\<close>

definition confined_tree :: "nat \<Rightarrow> nat \<Rightarrow> tree_t \<Rightarrow> tree_t \<Rightarrow> bool" where
  "confined_tree level skip t t' \<longleftrightarrow>
     (\<forall>l < level. t_levels t' ! l = t_levels t ! l) \<and>
     same_outside skip 1 1 (drop level (t_levels t)) (drop level (t_levels t')) (t_sub_trees t) (t_sub_trees t')"

definition confined :: "u32 \<Rightarrow> nat \<Rightarrow> nat \<Rightarrow> tree_cache \<Rightarrow> tree_cache \<Rightarrow> bool" where
  "confined i level skip c c' \<longleftrightarrow> old_links c c' \<and> confined_tree level skip (tree_at c i) (tree_at c' i) \<and>
     (\<forall>s \<in> set (node_slots (tree_at c' i) level skip). unat s < length (tch_trees c) \<longrightarrow> s \<in> set (node_slots (tree_at c i) level skip)) \<and>
     (\<forall>j < length (tch_trees c). j \<noteq> unat i \<longrightarrow> \<not> hangs_below c i level skip j \<longrightarrow> tch_trees c' ! j = tch_trees c ! j)"

lemma confinedD:
  assumes "confined i level skip c c'"
  shows "old_links c c'" and "confined_tree level skip (tree_at c i) (tree_at c' i)"
    and "s \<in> set (node_slots (tree_at c' i) level skip) \<Longrightarrow> unat s < length (tch_trees c) \<Longrightarrow> s \<in> set (node_slots (tree_at c i) level skip)"
    and "j < length (tch_trees c) \<Longrightarrow> j \<noteq> unat i \<Longrightarrow> \<not> hangs_below c i level skip j \<Longrightarrow> tch_trees c' ! j = tch_trees c ! j"
  using assms unfolding confined_def by blast+

lemma confined_tree_refl [simp]: "confined_tree level skip t t"
  by (simp add: confined_tree_def)

lemma confined_refl: "confined i level skip c c"
  by (simp add: confined_def old_links_refl)

lemma confined_tree_trans: "confined_tree level skip t t1 \<Longrightarrow> confined_tree level skip t1 t2 \<Longrightarrow> confined_tree level skip t t2"
  by (auto simp: confined_tree_def intro: same_outside_trans)

lemma hangs_below_old:
  assumes "confined i level skip c c1" and "j < length (tch_trees c)" and "hangs_below c1 i level skip j"
  shows "hangs_below c i level skip j"
proof -
  note d = confinedD [OF assms(1)]
  obtain s where s: "s \<in> set (node_slots (tree_at c1 i) level skip)" "(unat s, j) \<in> (linked c1)\<^sup>*"
    using assms(3) unfolding hangs_below_def by blast
  note o = old_links_reach [OF d(1) s(2) assms(2)]
  from d(3) [OF s(1)] o show ?thesis unfolding hangs_below_def by blast
qed

lemma confined_trans:
  assumes "confined i level skip c c1" and "confined i level skip c1 c2" and "length (tch_trees c) \<le> length (tch_trees c1)"
  shows "confined i level skip c c2"
  unfolding confined_def
proof (intro conjI ballI allI impI)
  note a = confinedD [OF assms(1)] and b = confinedD [OF assms(2)]
  show "old_links c c2" by (rule old_links_trans [OF a(1) b(1) assms(3)])
  show "confined_tree level skip (tree_at c i) (tree_at c2 i)" by (rule confined_tree_trans [OF a(2) b(2)])
  show "s \<in> set (node_slots (tree_at c i) level skip)"
    if "s \<in> set (node_slots (tree_at c2 i) level skip)" "unat s < length (tch_trees c)" for s
    using a(3) [OF b(3) [OF that(1)]] that(2) assms(3) by linarith
  fix j assume j: "j < length (tch_trees c)" "j \<noteq> unat i" "\<not> hangs_below c i level skip j"
  have "\<not> hangs_below c1 i level skip j" using hangs_below_old [OF assms(1) j(1)] j(3) by blast
  then have "tch_trees c2 ! j = tch_trees c1 ! j" using b(4) [of j] j(1,2) assms(3) by linarith
  then show "tch_trees c2 ! j = tch_trees c ! j" using a(4) [OF j] by simp
qed

text \<open>A change of the tree itself that adds no link.\<close>

lemma confined_upd:
  assumes "unat i < length (tch_trees c)" and "confined_tree level skip (tree_at c i) (f (tree_at c i))"
    and "t_sub_trees (f (tree_at c i)) = t_sub_trees (tree_at c i)"
    and "node_slots (f (tree_at c i)) level skip = node_slots (tree_at c i) level skip"
  shows "confined i level skip c (upd_tree i f c)"
proof -
  have "t_sub_trees (tch_trees (upd_tree i f c) ! j) = t_sub_trees (tch_trees c ! j)" if "j < length (tch_trees c)" for j
    using that assms(1,3) by (cases "j = unat i") (simp_all add: upd_tree_def tree_at_def)
  moreover have "length (tch_trees (upd_tree i f c)) = length (tch_trees c)" by (simp add: upd_tree_def)
  ultimately have "linked (upd_tree i f c) = linked c" unfolding linked_def by (metis (no_types, lifting))
  then have "old_links c (upd_tree i f c)" by (simp add: old_links_def)
  moreover have "tree_at (upd_tree i f c) i = f (tree_at c i)" using assms(1) by (simp add: upd_tree_def tree_at_def)
  ultimately show ?thesis using assms(2,4) by (simp add: confined_def upd_tree_def)
qed

text \<open>What the proofs use besides, of an insertion: sub-trees are smaller, so no tree of the magnitude of
  tree \<open>i\<close> or a larger one is touched, and no link is cut.\<close>

definition frame :: "u32 \<Rightarrow> nat \<Rightarrow> nat \<Rightarrow> tree_cache \<Rightarrow> tree_cache \<Rightarrow> bool" where
  "frame i level skip c c' \<longleftrightarrow> length (tch_trees c) \<le> length (tch_trees c') \<and> links_grow (unat i) c c' \<and>
     (\<forall>j < length (tch_trees c). cell (tch_trees c' ! j) = cell (tch_trees c ! j)) \<and>
     (\<forall>j < length (tch_trees c). j \<noteq> unat i \<longrightarrow> t_magnitude (tree_at c i) \<le> t_magnitude (tch_trees c ! j) \<longrightarrow>
        tch_trees c' ! j = tch_trees c ! j) \<and>
     (\<forall>l < level. lv_nodes (t_levels (tree_at c' i) ! l) = lv_nodes (t_levels (tree_at c i) ! l)) \<and>
     length (lv_nodes (t_levels (tree_at c' i) ! level)) = length (lv_nodes (t_levels (tree_at c i) ! level)) \<and>
     (\<forall>s. s \<noteq> skip \<longrightarrow> node_at (tree_at c' i) level s = node_at (tree_at c i) level s) \<and>
     confined i level skip c c'"

lemma frame_refl: "frame i level skip c c"
  by (simp add: frame_def links_grow_same confined_refl)

lemma frame_trans:
  assumes "unat i < length (tch_trees c)" and "frame i level skip c c1" and "frame i level skip c1 c2"
  shows "frame i level skip c c2"
proof -
  have m: "t_magnitude (tree_at c1 i) = t_magnitude (tree_at c i)"
    using assms(1,2) by (intro cell_magnitude) (simp add: frame_def tree_at_def)
  have "tch_trees c2 ! j = tch_trees c ! j"
    if "j < length (tch_trees c)" "j \<noteq> unat i" "t_magnitude (tree_at c i) \<le> t_magnitude (tch_trees c ! j)" for j
  proof -
    have "tch_trees c1 ! j = tch_trees c ! j" using that assms(2) by (simp add: frame_def)
    moreover have "tch_trees c2 ! j = tch_trees c1 ! j"
      using that assms(2,3) calculation m unfolding frame_def by fastforce
    ultimately show ?thesis by simp
  qed
  moreover have "links_grow (unat i) c c2" using assms(2,3) links_grow_trans unfolding frame_def by blast
  moreover have "confined i level skip c c2" using assms(2,3) confined_trans unfolding frame_def by blast
  ultimately show ?thesis using assms(2,3) by (simp add: frame_def)
qed

section \<open>The steps of an insertion\<close>

text \<open>Changes to one tree that do not concern its nodes.\<close>

definition keeps_nodes :: "(tree_t \<Rightarrow> tree_t) \<Rightarrow> bool" where
  "keeps_nodes f \<longleftrightarrow> (\<forall>t. tree_shape t \<longrightarrow> tree_shape (f t) \<and> t_id (f t) = t_id t \<and> cell (f t) = cell t \<and>
     t_sub_trees (f t) = t_sub_trees t \<and> (\<forall>l < 5. lv_nodes (t_levels (f t) ! l) = lv_nodes (t_levels t ! l)))"

lemma keeps_nodes_fields [intro]:
  assumes "\<And>t. t_levels (f t) = t_levels t" "\<And>t. t_sub_trees (f t) = t_sub_trees t" "\<And>t. t_id (f t) = t_id t"
    "\<And>t. cell (f t) = cell t"
  shows "keeps_nodes f"
  using assms by (simp add: keeps_nodes_def tree_shape_def)

lemma set_data_shape: "tree_shape t \<Longrightarrow> level < 5 \<Longrightarrow> tree_shape (set_data level skip p t)"
proof (rule tree_shapeI)
  assume "tree_shape t" and "level < 5"
  note d = tree_shapeD [OF this(1)]
  show "length (t_levels (set_data level skip p t)) = 5" using d(1) by (simp add: set_data_def)
  show "level_shape (t_levels (set_data level skip p t) ! l)" if "l < 5" for l
    using d(1) d(2) [OF that] that by (simp add: set_data_def level_shape_def)
  show "length (lv_nodes (t_levels (set_data level skip p t) ! 0)) = 1" using d(1,3) by (simp add: set_data_def)
  show "length (lv_nodes (t_levels (set_data level skip p t) ! Suc l)) = kids (lv_nodes (t_levels (set_data level skip p t) ! l))"
    if "l < 4" for l using d(1) d(4) [OF that] that by (simp add: set_data_def)
  show "length (t_sub_trees (set_data level skip p t)) = kids (lv_nodes (t_levels (set_data level skip p t) ! 4))"
    using d(1,5) by (simp add: set_data_def)
qed

lemma keeps_set_data [intro]: "level < 5 \<Longrightarrow> keeps_nodes (set_data level skip p)"
  by (simp add: keeps_nodes_def set_data_shape) (simp add: set_data_def cell_def tree_shapeD(1))

lemma keeps_comp: "keeps_nodes f \<Longrightarrow> keeps_nodes g \<Longrightarrow> keeps_nodes (\<lambda>t. g (f t))"
  by (simp add: keeps_nodes_def)

definition same_nodes :: "tree_cache \<Rightarrow> tree_cache \<Rightarrow> bool" where
  "same_nodes c c' \<longleftrightarrow> length (tch_trees c') = length (tch_trees c) \<and> tr_current_id (tch_reg c') = tr_current_id (tch_reg c) \<and>
     (\<forall>j < length (tch_trees c). cell (tch_trees c' ! j) = cell (tch_trees c ! j) \<and>
        t_sub_trees (tch_trees c' ! j) = t_sub_trees (tch_trees c ! j) \<and>
        (\<forall>l < 5. lv_nodes (t_levels (tch_trees c' ! j) ! l) = lv_nodes (t_levels (tch_trees c ! j) ! l)))"

lemma same_nodes_at:
  assumes "same_nodes c c'" and "unat i < length (tch_trees c)"
  shows "t_magnitude (tree_at c' i) = t_magnitude (tree_at c i)" and "t_sub_trees (tree_at c' i) = t_sub_trees (tree_at c i)"
    and "l < 5 \<Longrightarrow> lv_nodes (t_levels (tree_at c' i) ! l) = lv_nodes (t_levels (tree_at c i) ! l)"
    and "l < 5 \<Longrightarrow> node_at (tree_at c' i) l s = node_at (tree_at c i) l s"
  using assms by (simp_all add: same_nodes_def tree_at_def node_at_def cell_def)

lemma same_nodes_trans: "same_nodes a b \<Longrightarrow> same_nodes b c \<Longrightarrow> same_nodes a c"
  by (simp add: same_nodes_def)

lemma same_nodes_links: "same_nodes c c' \<Longrightarrow> links_grow i c c'"
  by (rule links_grow_same) (simp_all add: same_nodes_def)

lemma keeps_nodes_upd:
  assumes "cache_ok c" and "unat i < length (tch_trees c)" and "keeps_nodes f"
  shows "cache_ok (upd_tree i f c)" and "same_nodes c (upd_tree i f c)"
    and "level < 5 \<Longrightarrow> confined_tree level skip (tree_at c i) (f (tree_at c i)) \<Longrightarrow> frame i level skip c (upd_tree i f c)"
proof -
  note f = assms(3) [unfolded keeps_nodes_def, rule_format, OF cache_okD(3) [OF assms(1,2)]]
  show "cache_ok (upd_tree i f c)" using f by (intro cache_ok_upd_shape assms) (simp_all add: cell_def)
  show s: "same_nodes c (upd_tree i f c)"
    using f assms(2) by (auto simp: same_nodes_def upd_tree_def nth_list_update tree_at_def)
  show "frame i level skip c (upd_tree i f c)" if "level < 5" "confined_tree level skip (tree_at c i) (f (tree_at c i))"
  proof -
    have "map lv_nodes (t_levels (f (tree_at c i))) = map lv_nodes (t_levels (tree_at c i))"
      using f tree_shapeD(1) [OF cache_okD(3) [OF assms(1,2)]] by (intro nth_equalityI) (simp_all add: tree_shapeD(1))
    then have "map lv_nodes (drop level (t_levels (f (tree_at c i)))) = map lv_nodes (drop level (t_levels (tree_at c i)))"
      by (simp add: drop_map [symmetric])
    note lv = segment_slots_cong [OF this]
    have sub: "t_sub_trees (f (tree_at c i)) = t_sub_trees (tree_at c i)" using f by blast
    have "confined i level skip c (upd_tree i f c)"
      by (rule confined_upd [where f = f and c = c and i = i, OF assms(2) that(2) sub]) (simp only: node_slots_def sub lv)
    then show ?thesis
      using f assms(2) that s same_nodes_links [OF s]
      by (auto simp: frame_def tree_at_upd node_at_def) (auto simp: same_nodes_def upd_tree_def)
  qed
qed

text \<open>A change of the points of the node is confined to it.\<close>

lemma confined_tree_fields: "t_levels t' = t_levels t \<Longrightarrow> t_sub_trees t' = t_sub_trees t \<Longrightarrow> confined_tree level skip t t'"
  by (simp add: confined_tree_def)

lemma confined_set_data:
  assumes "tree_shape t" and "level < 5"
  shows "confined_tree level skip t (set_data level skip p t)"
proof -
  let ?L = "t_levels t ! level" and ?R = "drop (Suc level) (t_levels t)"
  let ?L' = "?L\<lparr>lv_data := (lv_data ?L)[skip := p]\<rparr>"
  have len: "level < length (t_levels t)" using assms tree_shapeD(1) by simp
  have d: "drop level (t_levels t) = ?L # ?R" using len by (simp add: Cons_nth_drop_Suc)
  have d': "drop level (t_levels (set_data level skip p t)) = ?L' # ?R"
    using len by (simp add: set_data_def upd_level_def Cons_nth_drop_Suc [symmetric])
  have "level_outside skip 1 1 ?L ?L'" by (simp add: level_outside_def outside_update)
  moreover have "seg_length skip 1 ?L' = seg_length skip 1 ?L" by (simp add: seg_length_def)
  ultimately have "same_outside skip 1 1 (drop level (t_levels t)) (drop level (t_levels (set_data level skip p t)))
      (t_sub_trees t) (t_sub_trees (set_data level skip p t))"
    unfolding d d' by (simp add: set_data_def)
  then show ?thesis by (simp add: confined_tree_def set_data_def upd_level_def)
qed

lemma skip_at_same:
  assumes "tree_shape t" and "tree_shape t'" and "l < 5" and "s < length (lv_nodes (t_levels t ! l))"
    and "length (lv_nodes (t_levels t' ! l)) = length (lv_nodes (t_levels t ! l))"
    and "\<And>j. j < s \<Longrightarrow> node_at t' l j = node_at t l j"
  shows "skip_at t' l s = skip_at t l s"
proof -
  have "take s (lv_nodes (t_levels t' ! l)) = take s (lv_nodes (t_levels t ! l))"
    using assms(4-6) by (intro nth_equalityI) (simp_all add: node_at_def)
  then show ?thesis using assms by (simp add: skip_at_kids)
qed

lemma new_tree_shape: "tree_shape (tree_initialize_sub p m (new_tree i))"
  by (simp add: tree_shape_def tree_initialize_sub_def push_root_node_def upd_level_def set_cell_def new_tree_def
      empty_level_def level_shape_def Let_def eval_nat_numeral less_Suc_eq)

lemma initialize_sub_rest [simp]:
  "t_sub_trees (tree_initialize_sub p m t) = t_sub_trees t" "t_id (tree_initialize_sub p m t) = t_id t"
  "t_magnitude (tree_initialize_sub p m t) = t_magnitude p - 1"
  by (simp_all add: tree_initialize_sub_def push_root_node_def set_cell_def Let_def)

lemma pred_magnitude: "0 < unat (m :: u8) \<Longrightarrow> unat (m - 1) + 1 = unat m"
  by (metis Suc_eq_plus1 Suc_pred' less_numeral_extra(3) unat_0 unat_minus_one)

lemma spawn_ok:
  assumes "cache_ok c" and "unat i < length (tch_trees c)" and "0 < unat (t_magnitude (tree_at c i))"
    and "skip < length (lv_nodes (t_levels (tree_at c i) ! 4))" and "\<not> bit (node_at (tree_at c i) 4 skip) k" and "k < 8"
    and "tr_current_id (tch_reg c) \<noteq> - 1" and "spawn_sub_tree i skip k p m c = (s, c')"
  shows "cache_ok c'" and "unat s = length (tch_trees c)" and "length (tch_trees c') = Suc (length (tch_trees c))"
    and "unat (t_magnitude (tree_at c' s)) + 1 = unat (t_magnitude (tree_at c i))"
    and "tree_at c' i = grow_slot skip k p s (tree_at c i)"
    and "j < length (tch_trees c) \<Longrightarrow> j \<noteq> unat i \<Longrightarrow> tch_trees c' ! j = tch_trees c ! j"
    and "tree_at c' s = tree_initialize_sub (grow_slot skip k p s (tree_at c i)) m (new_tree s)"
proof -
  let ?n = "length (tch_trees c)" and ?g = "grow_slot skip k p s (tree_at c i)"
  have s: "s = tr_current_id (tch_reg c)" and r: "registry_in ?n (tch_reg c)"
    using assms(8) cache_okD(1) [OF assms(1)] by (auto simp: spawn_sub_tree_def tree_cache_add_tree_def Let_def)
  show n: "unat s = ?n" using r by (simp add: s registry_in_def)
  define ts where "ts = (tch_trees c)[unat i := ?g] @ [tree_initialize_sub ?g m (new_tree s)]"
  have c': "tch_trees c' = ts" "registry_in (Suc ?n) (tch_reg c')"
    using assms(2,7,8) n r unat_plus_one [of "tr_current_id (tch_reg c)"]
    by (auto simp: spawn_sub_tree_def tree_cache_add_tree_def Let_def upd_tree_def tree_at_def ts_def s [symmetric]
        nth_append nth_list_update list_update_append registry_in_def)
  have len: "length ts = Suc ?n" by (simp add: ts_def)
  have at: "ts ! j = (if j = unat i then ?g else tch_trees c ! j)" if "j < ?n" for j
    using that by (simp add: ts_def nth_append)
  have last: "ts ! ?n = tree_initialize_sub ?g m (new_tree s)" by (simp add: ts_def nth_append)
  have mag: "t_magnitude (ts ! j) = t_magnitude (tch_trees c ! j)" if "j < ?n" for j
    using that at [OF that] by (simp add: tree_at_def)
  have sub: "unat (t_magnitude (ts ! ?n)) + 1 = unat (t_magnitude (tree_at c i))"
    using pred_magnitude [OF assms(3)] by (simp add: last)
  have "tree_in ts j (ts ! j)" if "j < Suc ?n" for j
  proof (cases "j = ?n")
    case True
    then show ?thesis using n by (simp add: last tree_in_def new_tree_shape) (simp add: new_tree_def)
  next
    case False
    then have j: "j < ?n" using that by simp
    have old: "tree_in ts j (tch_trees c ! j)"
      by (rule tree_in_mono [OF cache_okD(2) [OF assms(1) j]]) (simp_all add: len mag)
    show ?thesis
    proof (cases "j = unat i")
      case True
      have "tree_shape ?g" by (rule grow_slot_shape [OF cache_okD(3) [OF assms(1,2)] assms(4-6)])
      then show ?thesis
        using old sub n j by (simp add: at [OF assms(2)] True tree_in_def len tree_at_def)
    next
      case False
      then show ?thesis using old at [OF j] by simp
    qed
  qed
  then show "cache_ok c'" using c' by (simp add: cache_ok_def len)
  show "length (tch_trees c') = Suc ?n" by (simp add: c' len)
  show "unat (t_magnitude (tree_at c' s)) + 1 = unat (t_magnitude (tree_at c i))"
    using sub n by (simp add: tree_at_def c')
  show "tree_at c' s = tree_initialize_sub ?g m (new_tree s)" using last n by (simp add: tree_at_def c')
  show "tree_at c' i = ?g" using at [OF assms(2)] by (simp add: c' tree_at_def)
  show "j < ?n \<Longrightarrow> j \<noteq> unat i \<Longrightarrow> tch_trees c' ! j = tch_trees c ! j" using at by (simp add: c')
qed

lemma move_ok:
  assumes "cache_ok c" and "unat p < length (tch_trees c)" and "unat s < length (tch_trees c)"
    and "c' = move_storage_locations_to_subtree points p s c"
  shows "cache_ok c'" and "same_nodes c c'"
    and "j < length (tch_trees c) \<Longrightarrow> j \<noteq> unat p \<Longrightarrow> j \<noteq> unat s \<Longrightarrow> tch_trees c' ! j = tch_trees c ! j"
    and "j < length (tch_trees c) \<Longrightarrow> t_levels (tch_trees c' ! j) = t_levels (tch_trees c ! j)"
proof -
  obtain a b r where m: "fold move_unit (pc_data points)
      (t_storage_map (tree_at c p), t_storage_map (tree_at c s), tr_chunk_refs (tch_reg c)) = (a, b, r)"
    by (rule prod_cases3)
  define d where "d = upd_tree s (\<lambda>t. t\<lparr>t_storage_map := b\<rparr>) (upd_tree p (\<lambda>t. t\<lparr>t_storage_map := a\<rparr>) c)"
  have c': "c' = d\<lparr>tch_reg := (tch_reg d)\<lparr>tr_chunk_refs := r\<rparr>\<rparr>"
    by (simp add: assms(4) move_storage_locations_to_subtree_def m d_def)
  have k: "keeps_nodes (\<lambda>t. t\<lparr>t_storage_map := x\<rparr>)" for x by (rule keeps_nodes_fields) (simp_all add: cell_def)
  note u = keeps_nodes_upd [OF assms(1,2) k [of a]]
  have "unat s < length (tch_trees (upd_tree p (\<lambda>t. t\<lparr>t_storage_map := a\<rparr>) c))" using assms(3) by simp
  note v = keeps_nodes_upd [OF u(1) this k [of b]]
  have d: "cache_ok d" "same_nodes c d" using v same_nodes_trans [OF u(2) v(2)] by (simp_all add: d_def)
  show "cache_ok c'"
    unfolding c' using d(1) cache_okD(1) [OF d(1)] by (intro cache_ok_reg) (simp_all add: registry_in_def)
  show "same_nodes c c'" using d(2) by (simp add: c' same_nodes_def)
  show "j < length (tch_trees c) \<Longrightarrow> j \<noteq> unat p \<Longrightarrow> j \<noteq> unat s \<Longrightarrow> tch_trees c' ! j = tch_trees c ! j"
    by (simp add: c' d_def upd_tree_def)
  show "j < length (tch_trees c) \<Longrightarrow> t_levels (tch_trees c' ! j) = t_levels (tch_trees c ! j)"
    using assms(2,3) by (simp add: c' d_def upd_tree_def nth_list_update tree_at_def)
qed

lemma m192_lod_small: "sint (m192_lod a b) \<ge> 0"
proof -
  have b: "bit_scan_reverse w < 64" for w :: u64 by (simp add: bit_scan_reverse_def)
  let ?x = "morton_xor (m192_words a) (m192_words b)"
  have "morton_msb ?x < 2 ^ 31"
    using b [of "?x ! 0"] b [of "?x ! 1"] b [of "?x ! 2"] by (simp add: morton_msb_def)
  then have "morton_lod (m192_words a) (m192_words b) < 2 ^ 31"
    unfolding morton_lod_def morton_lod_from_bit_index_def by (meson div_le_dividend le_less_trans)
  then show ?thesis
    by (simp add: m192_lod_def signed_of_nat signed_take_bit_int_eq_self)
qed

definition lods_ok :: "points_collection list \<Rightarrow> bool" where
  "lods_ok cs \<longleftrightarrow> length cs = 8 \<and> (\<forall>p \<in> set cs. 0 \<le> sint (pc_min_lod p))"

lemma add_subset_lod: "0 \<le> sint (pc_min_lod p) \<Longrightarrow> 0 \<le> sint (pc_min_lod (add_subset_to_child i off n lo hi p))"
  by (simp add: add_subset_to_child_def Let_def m192_lod_small)

lemma lods_ok_update: "lods_ok cs \<Longrightarrow> 0 \<le> sint (pc_min_lod p) \<Longrightarrow> lods_ok (cs[k := p])"
  by (auto simp: lods_ok_def dest: set_update_subset_insert [THEN subsetD])

lemma lods_ok_nth: "lods_ok cs \<Longrightarrow> k < 8 \<Longrightarrow> 0 \<le> sint (pc_min_lod (cs ! k))"
  by (simp add: lods_ok_def)

lemma lods_ok_child:
  assumes "lods_ok cs"
  shows "lods_ok (cs[k := add_subset_to_child i off n lo hi (cs ! k)])"
proof (cases "k < 8")
  case True
  show ?thesis by (rule lods_ok_update [OF assms add_subset_lod [OF lods_ok_nth [OF assms True]]])
next
  case False
  then have "cs[k := add_subset_to_child i off n lo hi (cs ! k)] = cs"
    using assms by (intro list_update_beyond) (simp add: lods_ok_def)
  then show ?thesis using assms by simp
qed

lemma subdivide_lods: "lods_ok (snd st) \<Longrightarrow> lods_ok (snd (point_buffer_subdivide h d p lod mn st))"
proof -
  have take: "lods_ok (snd (fold (take_range p) rs st))" if "lods_ok (snd st)" for rs st
    using that by (induction rs arbitrary: st) (auto simp: take_range_def Let_def lods_ok_child split: prod.split)
  assume "lods_ok (snd st)"
  then have "lods_ok (snd (point_buffer_subdivide_type w h d p lod mn st))" for w :: "'a::len morton"
    unfolding point_buffer_subdivide_type_def
    by (cases st) (simp add: Let_def lods_ok_child take)
  moreover have "lods_ok (snd (point_buffer_subdivide_type w h d p lod mn st))" for w :: "32 morton"
    using \<open>lods_ok (snd st)\<close> unfolding point_buffer_subdivide_type_def
    by (cases st) (simp add: Let_def lods_ok_child take)
  moreover have "lods_ok (snd (point_buffer_subdivide_type w h d p lod mn st))" for w :: "64 morton"
    using \<open>lods_ok (snd st)\<close> unfolding point_buffer_subdivide_type_def
    by (cases st) (simp add: Let_def lods_ok_child take)
  ultimately show ?thesis
    using \<open>lods_ok (snd st)\<close> by (simp add: point_buffer_subdivide_def)
qed

lemma subdivide_all_lods:
  "subdivide_all rd lod mn ps st = Inr st' \<Longrightarrow> lods_ok (snd st) \<Longrightarrow> lods_ok (snd st')"
proof (induction ps arbitrary: st)
  case Nil
  then show ?case by simp
next
  case (Cons p ps)
  then show ?case by (auto simp: subdivide_lods split: option.splits sum.splits prod.splits)
qed

lemma split_lods:
  "sub_tree_split_points_to_children rd p lod mn st = Inr st' \<Longrightarrow> lods_ok (snd st) \<Longrightarrow> lods_ok (snd st')"
  using subdivide_all_lods [of rd lod mn "pc_data p" st]
  by (auto simp: sub_tree_split_points_to_children_def split: sum.splits)

lemma split_stops: "sub_tree_split_points_to_children rd p lod mn st = Inl e \<Longrightarrow> e = unknown_unit"
proof -
  have "subdivide_all rd lod mn ps st = Inl e \<Longrightarrow> e = unknown_unit" for ps st
  proof (induction ps arbitrary: st)
    case (Cons p ps)
    obtain m cs where st: "st = (m, cs)" by (rule prod.exhaust)
    show ?case
      using Cons.prems Cons.IH [of st] Cons.IH [of "point_buffer_subdivide _ _ p lod mn st"]
      by (simp add: st split: option.splits sum.splits prod.splits)
  qed simp
  then show "sub_tree_split_points_to_children rd p lod mn st = Inl e \<Longrightarrow> e = unknown_unit"
    by (auto simp: sub_tree_split_points_to_children_def split: sum.splits)
qed

lemma gather_ok:
  assumes "cache_ok c" and "unat i < length (tch_trees c)" and "level < 5"
  shows "gather_children rd i mn level skip points c = Inl e \<Longrightarrow> e = unknown_unit"
    and "gather_children rd i mn level skip points c = Inr (children, c') \<Longrightarrow>
      lods_ok children \<and> cache_ok c' \<and> same_nodes c c' \<and> frame i level skip c c'"
proof -
  let ?t = "tree_at c i"
  let ?held = "node_at ?t level skip = 0 \<and> pc_count (data_at ?t level skip) \<noteq> 0"
  show "gather_children rd i mn level skip points c = Inl e \<Longrightarrow> e = unknown_unit"
    by (auto simp: gather_children_def Let_def dest: split_stops split: if_splits sum.splits)
  assume g: "gather_children rd i mn level skip points c = Inr (children, c')"
  have start: "lods_ok (replicate 8 blank_collection)" by (simp add: lods_ok_def blank_collection_def)
  obtain m where c': "c' = upd_tree i (\<lambda>t. (if ?held then set_data level skip blank_collection t else t)\<lparr>t_storage_map := m\<rparr>) c"
    and ch: "lods_ok children"
    using g start
    by (auto simp: gather_children_def Let_def dest!: split_lods split: if_splits sum.splits)
  have "keeps_nodes (\<lambda>t. (if ?held then set_data level skip blank_collection t else t)\<lparr>t_storage_map := m\<rparr>)"
    by (rule keeps_comp [where g = "\<lambda>t. t\<lparr>t_storage_map := m\<rparr>"], cases ?held)
      (auto intro: keeps_set_data [OF assms(3)] keeps_nodes_fields simp: cell_def)
  note u = keeps_nodes_upd [OF assms(1,2) this]
  have "confined_tree level skip ?t ((if ?held then set_data level skip blank_collection ?t else ?t)\<lparr>t_storage_map := m\<rparr>)"
    by (rule confined_tree_trans [of _ _ _ "if ?held then set_data level skip blank_collection ?t else ?t"])
      (simp_all add: confined_set_data [OF cache_okD(3) [OF assms(1,2)] assms(3)] confined_tree_fields)
  then show "lods_ok children \<and> cache_ok c' \<and> same_nodes c c' \<and> frame i level skip c c'"
    using ch u(1,2) u(3) [OF assms(3)] by (simp add: c')
qed

end
