(* ===== verification/TreeDescent.thy ===== *)
theory TreeDescent
  imports TreeInvariant
begin

text \<open>
  One step down during an insertion: a child that exists, a child that is made, a sub-tree that exists
  and a sub-tree that is made, each under the assumption that the insertion one level down keeps the
  invariant (\<open>inserts_land\<close>).
\<close>

section \<open>Insertion keeps the invariant and returns\<close>

definition place_ok :: "tree_cache \<Rightarrow> u32 \<Rightarrow> nat \<Rightarrow> nat \<Rightarrow> bool" where
  "place_ok c i level skip \<longleftrightarrow> cache_ok c \<and> unat i < length (tch_trees c) \<and> level < 5 \<and>
     skip < length (lv_nodes (t_levels (tree_at c i) ! level))"

lemma place_okD:
  assumes "place_ok c i level skip"
  shows "cache_ok c" and "unat i < length (tch_trees c)" and "level < 5"
    and "skip < length (lv_nodes (t_levels (tree_at c i) ! level))" and "tree_shape (tree_at c i)"
  using assms cache_okD(3) by (auto simp: place_ok_def)

lemma place_ok_frame:
  "place_ok c i level skip \<Longrightarrow> cache_ok c' \<Longrightarrow> frame i level s c c' \<Longrightarrow> place_ok c' i level skip"
  by (auto simp: place_ok_def frame_def)

lemma place_ok_root: "cache_ok c \<Longrightarrow> unat i < length (tch_trees c) \<Longrightarrow> place_ok c i 0 0"
  using cache_okD(3) [of c i] tree_shapeD(3) [of "tree_at c i"] by (simp add: place_ok_def)

text \<open>The fuel an insertion needs: one step per level below the node, counting the sub-trees.\<close>

definition levels_below :: "tree_cache \<Rightarrow> u32 \<Rightarrow> nat \<Rightarrow> nat" where
  "levels_below c i level = 5 * unat (t_magnitude (tree_at c i)) + 5 - level"

text \<open>The outcome of an insertion: it stops for another reason than fuel, or keeps the invariant.\<close>

definition lands :: "tree_cache \<Rightarrow> u32 \<Rightarrow> nat \<Rightarrow> nat \<Rightarrow> bool \<Rightarrow> build_stop + tree_cache \<Rightarrow> bool" where
  "lands c i level skip fuelled res \<longleftrightarrow> (fuelled \<longrightarrow> res \<noteq> Inl out_of_fuel) \<and>
     (\<forall>c'. res = Inr c' \<longrightarrow> cache_ok c' \<and> frame i level skip c c')"

lemma landsI:
  "(fuelled \<Longrightarrow> res \<noteq> Inl out_of_fuel) \<Longrightarrow> (\<And>c'. res = Inr c' \<Longrightarrow> cache_ok c' \<and> frame i level skip c c') \<Longrightarrow>
   lands c i level skip fuelled res"
  by (simp add: lands_def)

lemma lands_before:
  assumes "lands c1 i level skip fuelled res" and "frame i level skip c c1" and "unat i < length (tch_trees c)"
  shows "lands c i level skip fuelled res"
  using assms frame_trans [OF assms(3,2)] by (auto simp: lands_def)

text \<open>What the caller at a node sees of an insertion one level down, in the same tree or in a sub-tree.\<close>

lemma drop_level:
  "tree_shape t \<Longrightarrow> level < 5 \<Longrightarrow> drop level (t_levels t) = t_levels t ! level # drop (Suc level) (t_levels t)"
  using tree_shapeD(1) [of t] by (simp add: Cons_nth_drop_Suc)

text \<open>The segment of a child lies in that of its node.\<close>

lemma child_segment:
  assumes "tree_shape t" and "level < 5" and "s < length (lv_nodes (t_levels t ! level))" and "bit (node_at t level s) k" and "k < 8"
    and "p = child_place (lv_nodes (t_levels t ! level)) s k"
  obtains d e where "p = seg_begin s (t_levels t ! level) + d" and "seg_length s 1 (t_levels t ! level) = d + 1 + e"
proof -
  note c = child_place_segment [OF assms(6,3)]
  have "seg_begin s (t_levels t ! level) \<le> p" "p < seg_begin s (t_levels t ! level) + seg_length s 1 (t_levels t ! level)"
    using c(1) [of] c(3) assms(4,5) by (simp_all add: node_at_def)
  then show ?thesis
    by (intro that [of "p - seg_begin s (t_levels t ! level)"
        "seg_length s 1 (t_levels t ! level) - (p - seg_begin s (t_levels t ! level)) - 1"]) simp_all
qed

lemma child_slots:
  assumes "tree_shape t" and "level < 5" and "s < length (lv_nodes (t_levels t ! level))" and "bit (node_at t level s) k" and "k < 8"
    and "p = child_place (lv_nodes (t_levels t ! level)) s k"
  shows "level < 4 \<Longrightarrow> set (node_slots t (Suc level) p) \<subseteq> set (node_slots t level s)"
    and "level = 4 \<Longrightarrow> t_sub_trees t ! p \<in> set (node_slots t 4 s)"
proof -
  obtain d e where p: "p = seg_begin s (t_levels t ! level) + d" "seg_length s 1 (t_levels t ! level) = d + 1 + e"
    by (rule child_segment [OF assms])
  show "set (node_slots t (Suc level) p) \<subseteq> set (node_slots t level s)"
    unfolding node_slots_def drop_level [OF assms(1,2)] segment_slots.simps p by (rule segment_slots_widen)
  assume l: "level = 4"
  have "drop (Suc level) (t_levels t) = []" using tree_shapeD(1) [OF assms(1)] l by simp
  then have n: "node_slots t level s = take (d + 1 + e) (drop (seg_begin s (t_levels t ! level)) (t_sub_trees t))"
    unfolding node_slots_def drop_level [OF assms(1,2)] segment_slots.simps p(2) by simp
  have "p < length (t_sub_trees t)"
    using child_place_less [OF assms(3,5)] assms(4,6) tree_shapeD(5) [OF assms(1)] l by (simp add: node_at_def)
  then have "d < length (node_slots t level s)" "node_slots t level s ! d = t_sub_trees t ! p"
    using p by (simp_all add: n)
  then show "t_sub_trees t ! p \<in> set (node_slots t 4 s)" using l by (metis nth_mem)
qed

lemma confined_below:
  assumes "confined i (Suc level) p c c'" and "cache_ok c" and "unat i < length (tch_trees c)"
    and "cache_ok c'" and "unat i < length (tch_trees c')"
    and "level < 4" and "s < length (lv_nodes (t_levels (tree_at c i) ! level))" and "bit (node_at (tree_at c i) level s) k" and "k < 8"
    and p: "p = child_place (lv_nodes (t_levels (tree_at c i) ! level)) s k"
  shows "confined i level s c c'"
  unfolding confined_def
proof (intro conjI ballI allI impI)
  note d = confinedD [OF assms(1)]
  let ?t = "tree_at c i" and ?t' = "tree_at c' i"
  have sh: "tree_shape ?t" "tree_shape ?t'" using cache_okD(3) assms(2-5) by blast+
  have l5: "level < 5" using assms(6) by simp
  have same: "t_levels ?t' ! level = t_levels ?t ! level" using d(2) by (simp add: confined_tree_def)
  note cs = child_slots(1) [OF sh(1) l5 assms(7-10) assms(6)]
  obtain a e where ae: "p = seg_begin s (t_levels ?t ! level) + a" "seg_length s 1 (t_levels ?t ! level) = a + 1 + e"
    by (rule child_segment [OF sh(1) l5 assms(7-10)])
  show "old_links c c'" by (rule d(1))
  have "same_outside (seg_begin s (t_levels ?t ! level)) (a + 1 + e) (a + 1 + e) (drop (Suc level) (t_levels ?t))
      (drop (Suc level) (t_levels ?t')) (t_sub_trees ?t) (t_sub_trees ?t')"
    using d(2) by (intro same_outside_widen) (simp only: confined_tree_def ae(1))
  then show "confined_tree level s ?t ?t'"
    using d(2) unfolding confined_tree_def drop_level [OF sh(1) l5] drop_level [OF sh(2) l5] same ae(2) same_outside.simps
    by (simp add: same ae(2))
  have "bit (node_at ?t' level s) k" "s < length (lv_nodes (t_levels ?t' ! level))"
    "p = child_place (lv_nodes (t_levels ?t' ! level)) s k" using assms(7,8) p by (simp_all add: same node_at_def)
  have eq: "set (node_slots ?t' level s) \<subseteq> set (node_slots ?t' (Suc level) p) \<union> set (node_slots ?t level s)"
    using segment_slots_new [of "seg_begin s (t_levels ?t ! level)" a 1 1 "drop (Suc level) (t_levels ?t)"
        "drop (Suc level) (t_levels ?t')" "t_sub_trees ?t" "t_sub_trees ?t'" e] d(2)
    unfolding node_slots_def drop_level [OF sh(1) l5] drop_level [OF sh(2) l5] same segment_slots.simps ae
    by (simp add: confined_tree_def ae(1))
  show "x \<in> set (node_slots ?t level s)" if "x \<in> set (node_slots ?t' level s)" "unat x < length (tch_trees c)" for x
    using eq that d(3) [OF _ that(2)] cs by blast
  fix j assume j: "j < length (tch_trees c)" "j \<noteq> unat i" "\<not> hangs_below c i level s j"
  have "\<not> hangs_below c i (Suc level) p j" using j(3) cs unfolding hangs_below_def by blast
  then show "tch_trees c' ! j = tch_trees c ! j" by (rule d(4) [OF j(1,2)])
qed

lemma frame_below:
  assumes "frame i (Suc level) p c c'" and "cache_ok c" and "unat i < length (tch_trees c)" and "cache_ok c'"
    and "level < 4" and "skip < length (lv_nodes (t_levels (tree_at c i) ! level))" and "bit (node_at (tree_at c i) level skip) k" and "k < 8"
    and "p = child_place (lv_nodes (t_levels (tree_at c i) ! level)) skip k"
  shows "frame i level skip c c'"
proof -
  have "unat i < length (tch_trees c')" using assms(1,3) by (simp add: frame_def)
  then have "confined i level skip c c'"
    using assms(1) by (intro confined_below [OF _ assms(2,3,4) _ assms(5-9)]) (simp_all only: frame_def)
  then show ?thesis using assms(1,3) by (auto simp: frame_def node_at_def)
qed

lemma confined_sub_tree:
  assumes "confined s 0 0 c c'" and "unat s < length (tch_trees c)" and "tree_at c' i = tree_at c i"
    and "s \<in> set (node_slots (tree_at c i) level skip)"
  shows "confined i level skip c c'"
  unfolding confined_def assms(3)
proof (intro conjI ballI allI impI)
  note d = confinedD [OF assms(1)]
  show "old_links c c'" by (rule d(1))
  show "confined_tree level skip (tree_at c i) (tree_at c i)" by simp
  show "x \<in> set (node_slots (tree_at c i) level skip)" if "x \<in> set (node_slots (tree_at c i) level skip)" for x
    by (rule that)
  fix j assume j: "j < length (tch_trees c)" "j \<noteq> unat i" "\<not> hangs_below c i level skip j"
  have "j \<noteq> unat s" using j(3) assms(4) unfolding hangs_below_def by blast
  moreover have "\<not> hangs_below c s 0 0 j"
  proof
    assume "hangs_below c s 0 0 j"
    then obtain x where x: "x \<in> set (node_slots (tree_at c s) 0 0)" "(unat x, j) \<in> (linked c)\<^sup>*"
      unfolding hangs_below_def by blast
    have "x \<in> set (t_sub_trees (tree_at c s))" using x(1) segment_slots_subset unfolding node_slots_def by fast
    then have "(unat s, unat x) \<in> linked c" by (intro linkedI assms(2))
    then have "(unat s, j) \<in> (linked c)\<^sup>*" using x(2) by (rule converse_rtrancl_into_rtrancl)
    then show False using j(3) assms(4) unfolding hangs_below_def by blast
  qed
  ultimately show "tch_trees c' ! j = tch_trees c ! j" by (rule d(4) [OF j(1)])
qed

lemma frame_sub_tree:
  assumes "frame s 0 0 c c'" and "unat i < length (tch_trees c)" and "unat s < length (tch_trees c)"
    and "unat (t_magnitude (tree_at c s)) + 1 = unat (t_magnitude (tree_at c i))" and "(unat i, unat s) \<in> linked c"
    and "s \<in> set (node_slots (tree_at c i) level skip)"
  shows "frame i level skip c c'"
proof -
  have lt: "t_magnitude (tree_at c s) < t_magnitude (tree_at c i)" using assms(4) by (simp add: word_less_nat_alt)
  then have "s \<noteq> i" by auto
  then have i: "tree_at c' i = tree_at c i"
    using assms(1,2) lt by (auto simp: frame_def tree_at_def word_unat_eq_iff)
  have "tch_trees c' ! j = tch_trees c ! j"
    if "j < length (tch_trees c)" "t_magnitude (tree_at c i) \<le> t_magnitude (tch_trees c ! j)" for j
  proof -
    have "j \<noteq> unat s" using that(2) lt by (auto simp: tree_at_def)
    then show ?thesis using assms(1) that lt by (auto simp: frame_def)
  qed
  moreover have "links_grow (unat i) c c'" using assms(1,5) links_grow_below unfolding frame_def by blast
  moreover have "confined i level skip c c'"
    using assms(1) by (intro confined_sub_tree [OF _ assms(3) i assms(6)]) (simp only: frame_def)
  ultimately show ?thesis using assms(1) by (simp add: frame_def i)
qed

lemma frame_move:
  assumes "same_nodes c c'" and "unat i < length (tch_trees c)" and "level < 5"
    and "unat (t_magnitude (tree_at c s)) + 1 = unat (t_magnitude (tree_at c i))"
    and "\<And>j. j < length (tch_trees c) \<Longrightarrow> j \<noteq> unat i \<Longrightarrow> j \<noteq> unat s \<Longrightarrow> tch_trees c' ! j = tch_trees c ! j"
    and lv: "t_levels (tree_at c' i) = t_levels (tree_at c i)" and "s \<in> set (node_slots (tree_at c i) level skip)"
  shows "frame i level skip c c'"
proof -
  have lt: "t_magnitude (tree_at c s) < t_magnitude (tree_at c i)" using assms(4) by (simp add: word_less_nat_alt)
  have "tch_trees c' ! j = tch_trees c ! j"
    if "j < length (tch_trees c)" "j \<noteq> unat i" "t_magnitude (tree_at c i) \<le> t_magnitude (tch_trees c ! j)" for j
  proof (rule assms(5) [OF that(1,2)])
    show "j \<noteq> unat s" using that(3) lt by (auto simp: tree_at_def)
  qed
  moreover have "confined i level skip c c'"
    unfolding confined_def
  proof (intro conjI ballI allI impI)
    have sub: "t_sub_trees (tree_at c' i) = t_sub_trees (tree_at c i)" by (rule same_nodes_at(2) [OF assms(1,2)])
    show "old_links c c'" using assms(1) by (auto simp: old_links_def linked_def same_nodes_def)
    show "confined_tree level skip (tree_at c i) (tree_at c' i)" by (rule confined_tree_fields [OF lv sub])
    show "x \<in> set (node_slots (tree_at c i) level skip)" if "x \<in> set (node_slots (tree_at c' i) level skip)" for x
      using that by (simp add: node_slots_def lv sub)
    fix j assume j: "j < length (tch_trees c)" "j \<noteq> unat i" "\<not> hangs_below c i level skip j"
    have "j \<noteq> unat s" using j(3) assms(7) unfolding hangs_below_def by blast
    then show "tch_trees c' ! j = tch_trees c ! j" by (rule assms(5) [OF j(1,2)])
  qed
  ultimately show ?thesis
    using assms(1,3) same_nodes_links [OF assms(1)] same_nodes_at(3,4) [OF assms(1,2)] by (simp add: frame_def same_nodes_def)
qed

lemma confined_grow_child:
  assumes "tree_shape t" and "level < 4" and "s < length (lv_nodes (t_levels t ! level))" and "\<not> bit (node_at t level s) k" and "k < 8"
    and p: "p = child_place (lv_nodes (t_levels t ! level)) s k"
  shows "confined_tree level s t (grow_child level s k p name t)"
    and "node_slots (grow_child level s k p name t) level s = node_slots t level s"
proof -
  let ?g = "grow_child level s k p name t" and ?L = "t_levels t ! level" and ?M = "t_levels t ! Suc level"
  note sh = tree_shapeD [OF assms(1)]
  note lv = grow_child_levels [OF sh(1) assms(2)]
  have n: "\<not> bit (lv_nodes ?L ! s) k" using assms(4) by (simp add: node_at_def)
  have k8: "k \<le> 8" using assms(5) by simp
  note c = child_place_segment(1,2) [OF p assms(3) k8]
  have pl: "p \<le> length (lv_nodes ?M)" using child_place_le [OF assms(3) k8] sh(4) [OF assms(2)] by (simp add: p)
  have R: "drop (Suc (Suc level)) (t_levels ?g) = drop (Suc (Suc level)) (t_levels t)"
    using sh(1) by (intro nth_equalityI) (simp_all add: lv)
  have d: "drop level (t_levels t) = ?L # ?M # drop (Suc (Suc level)) (t_levels t)"
    using sh(1) assms(2) by (simp add: Cons_nth_drop_Suc)
  have "drop level (t_levels ?g) = t_levels ?g ! level # t_levels ?g ! Suc level # drop (Suc (Suc level)) (t_levels ?g)"
    using sh(1) assms(2) by (simp add: Cons_nth_drop_Suc)
  then have d': "drop level (t_levels ?g) = bit_level s k ?L # zero_level p name ?M # drop (Suc (Suc level)) (t_levels t)"
    using assms(2) by (simp add: R lv)
  note b = bit_level_seg [OF assms(3) n assms(5)] bit_level_outside [OF assms(3)]
  note z = zero_level_seg [OF c pl] zero_level_outside [OF c sh(2) pl]
  have "level_shape ?M" using sh(2) assms(2) by simp
  then have "same_outside s 1 1 (drop level (t_levels t)) (drop level (t_levels ?g)) (t_sub_trees t) (t_sub_trees ?g)"
    unfolding d d' same_outside.simps b(1,2) z(1,2) grow_child_rest
    using b(3) zero_level_outside [OF c _ pl] same_outside_refl by blast
  then show "confined_tree level s t ?g" using assms(2) by (simp add: confined_tree_def lv)
  show "node_slots ?g level s = node_slots t level s"
    unfolding node_slots_def d d' segment_slots.simps b(1,2) z(1,2) grow_child_rest ..
qed

lemma grow_child_ok:
  assumes "place_ok c i level skip" and "level < 4" and "\<not> bit (node_at (tree_at c i) level skip) k" and "k < 8"
    and "p = skip_at (tree_at c i) level skip + sub_tree_count_skips (node_at (tree_at c i) level skip) k"
    and "c' = upd_tree i (grow_child level skip k p name) c"
  shows "cache_ok c'" and "frame i level skip c c'" and "tr_current_id (tch_reg c') = tr_current_id (tch_reg c)"
    and "node_at (tree_at c' i) level skip = node_at (tree_at c i) level skip OR child_bit k"
    and "t_magnitude (tree_at c' i) = t_magnitude (tree_at c i)"
proof -
  note d = place_okD [OF assms(1)]
  let ?t = "tree_at c i" and ?g = "grow_child level skip k p name"
  have "p = child_place (lv_nodes (t_levels ?t ! level)) skip k"
    by (simp add: assms(5) child_place_def node_at_def skip_at_kids [OF d(5,3,4)])
  then have "tree_shape (?g ?t)" by (intro grow_child_shape d(5) assms(2-4) d(4)) auto
  then show "cache_ok c'"
    unfolding assms(6) by (intro cache_ok_upd_shape d(1,2)) simp_all
  have at: "tree_at c' i = ?g ?t" using d(2) by (simp add: assms(6) tree_at_upd)
  note lv = grow_child_levels [OF tree_shapeD(1) [OF d(5)] assms(2)]
  have "links_grow (unat i) c c'"
    using d(2) by (intro links_grow_same) (simp_all add: assms(6) upd_tree_def nth_list_update tree_at_def)
  have pl: "p = child_place (lv_nodes (t_levels ?t ! level)) skip k"
    by (simp add: assms(5) child_place_def node_at_def skip_at_kids [OF d(5,3,4)])
  note cg = confined_grow_child [OF d(5) assms(2) d(4) assms(3,4) pl]
  have "confined i level skip c c'"
    unfolding assms(6) by (rule confined_upd [where f = ?g and c = c and i = i, OF d(2) cg(1) _ cg(2)]) simp
  then show "frame i level skip c c'"
    using d(2,3) assms(2) lv \<open>links_grow (unat i) c c'\<close>
    by (auto simp: frame_def at node_at_def) (auto simp: assms(6) upd_tree_def nth_list_update tree_at_def cell_def)
  show "tr_current_id (tch_reg c') = tr_current_id (tch_reg c)" by (simp add: assms(6))
  show "node_at (tree_at c' i) level skip = node_at ?t level skip OR child_bit k"
    using d(3,4) lv by (simp add: at node_at_def)
  show "t_magnitude (tree_at c' i) = t_magnitude ?t" by (simp add: at)
qed

lemma or_child_bit: "bit n k \<Longrightarrow> n OR child_bit k = n"
  by (rule bit_eqI) (auto simp: bit_or_iff bit_child_bit)

lemma child_there:
  assumes "place_ok c i level skip" and "bit (node_at (tree_at c i) level skip) k" and "k < 8"
    and "p = skip_at (tree_at c i) level skip + sub_tree_count_skips (node_at (tree_at c i) level skip) k"
  shows "level < 4 \<Longrightarrow> place_ok c i (Suc level) p" and "level = 4 \<Longrightarrow> p < length (t_sub_trees (tree_at c i))"
proof -
  note d = place_okD [OF assms(1)] and s = tree_shapeD [OF place_okD(5) [OF assms(1)]]
  have "p = child_place (lv_nodes (t_levels (tree_at c i) ! level)) skip k"
    by (simp add: assms(4) child_place_def node_at_def skip_at_kids [OF d(5,3,4)])
  then have "p < kids (lv_nodes (t_levels (tree_at c i) ! level))"
    using child_place_less [OF d(4) assms(3)] assms(2) by (simp add: node_at_def)
  then show "level < 4 \<Longrightarrow> place_ok c i (Suc level) p" and "level = 4 \<Longrightarrow> p < length (t_sub_trees (tree_at c i))"
    using s(4) [of level] s(5) d(1,2) by (simp_all add: place_ok_def)
qed

lemma grown_place:
  assumes "place_ok c i level skip" and "level < 4" and "\<not> bit (node_at (tree_at c i) level skip) k" and "k < 8"
    and "p = skip_at (tree_at c i) level skip + sub_tree_count_skips (node_at (tree_at c i) level skip) k"
    and "c' = upd_tree i (grow_child level skip k p name) c"
  shows "place_ok c' i (Suc level) p"
proof -
  note d = place_okD [OF assms(1)] and s = tree_shapeD [OF place_okD(5) [OF assms(1)]] and g = grow_child_ok [OF assms]
  have "p = child_place (lv_nodes (t_levels (tree_at c i) ! level)) skip k"
    by (simp add: assms(5) child_place_def node_at_def skip_at_kids [OF d(5,3,4)])
  then have "p \<le> length (lv_nodes (t_levels (tree_at c i) ! Suc level))"
    using child_place_le [OF d(4), of k] assms(2,4) s(4) by simp
  moreover have "tree_at c' i = grow_child level skip k p name (tree_at c i)" using d(2) by (simp add: assms(6) tree_at_upd)
  ultimately show ?thesis
    using g(1) d(2) assms(2) grow_child_levels [OF s(1) assms(2), of "Suc level"]
    by (simp add: place_ok_def assms(6))
qed

text \<open>A new slot.\<close>

lemma confined_grow_slot:
  assumes "tree_shape t" and "s < length (lv_nodes (t_levels t ! 4))" and "k < 8"
    and p: "p = child_place (lv_nodes (t_levels t ! 4)) s k" and "\<not> bit (node_at t 4 s) k"
  shows "confined_tree 4 s t (grow_slot s k p x t)"
    and "set (node_slots (grow_slot s k p x t) 4 s) = insert x (set (node_slots t 4 s))"
proof -
  let ?g = "grow_slot s k p x t" and ?L = "t_levels t ! 4"
  note sh = tree_shapeD [OF assms(1)]
  note lv = grow_slot_levels [OF sh(1)]
  have n: "\<not> bit (lv_nodes ?L ! s) k" using assms(5) by (simp add: node_at_def)
  have k8: "k \<le> 8" using assms(3) by simp
  note c = child_place_segment(1,2) [OF p assms(2) k8]
  have pl: "p \<le> length (t_sub_trees t)" using child_place_le [OF assms(2) k8] sh(5) by (simp add: p)
  have d: "drop 4 (t_levels t) = [?L]" using sh(1) drop_level [OF assms(1), of 4] by simp
  have "drop 4 (t_levels ?g) = t_levels ?g ! 4 # drop 5 (t_levels ?g)"
    using sh(1) by (simp add: Cons_nth_drop_Suc [symmetric])
  then have d': "drop 4 (t_levels ?g) = [bit_level s k ?L]" using sh(1) by (simp add: lv)
  note b = bit_level_seg [OF assms(2) n assms(3)] bit_level_outside [OF assms(2)]
  show "confined_tree 4 s t ?g"
    unfolding confined_tree_def d d' same_outside.simps b(1,2) grow_slot_rest
    using b(3) outside_insert [OF c pl] lv by simp
  show "set (node_slots ?g 4 s) = insert x (set (node_slots t 4 s))"
    unfolding node_slots_def d d' segment_slots.simps b(1,2) grow_slot_rest insert_at_segment [OF c pl] by simp
qed

lemma spawn_frame:
  assumes "place_ok c i 4 skip" and "0 < unat (t_magnitude (tree_at c i))" and "\<not> bit (node_at (tree_at c i) 4 skip) k"
    and "k < 8" and "tr_current_id (tch_reg c) \<noteq> - 1" and "spawn_sub_tree i skip k p m c = (s, c')"
    and "p = skip_at (tree_at c i) 4 skip + sub_tree_count_skips (node_at (tree_at c i) 4 skip) k"
  shows "frame i 4 skip c c'" and "node_at (tree_at c' i) 4 skip = node_at (tree_at c i) 4 skip OR child_bit k"
    and "s \<in> set (node_slots (tree_at c' i) 4 skip)"
proof -
  note d = place_okD [OF assms(1)]
  note s = spawn_ok [OF d(1,2) assms(2) d(4) assms(3-6)]
  note lv = grow_slot_levels [OF tree_shapeD(1) [OF d(5)]]
  have "p = child_place (lv_nodes (t_levels (tree_at c i) ! 4)) skip k"
    by (simp add: assms(7) child_place_def node_at_def skip_at_kids [OF d(5,3,4)])
  note cg = confined_grow_slot [OF d(5,4) assms(4) this assms(3), of s, folded s(5)]
  have mag: "cell (tch_trees c' ! j) = cell (tch_trees c ! j)" if "j < length (tch_trees c)" for j
    using s(5) s(6) [OF that] by (cases "j = unat i") (simp_all add: tree_at_def cell_def)
  have new: "(unat i, unat s) \<in> linked c'"
    using s(3,5) d(2) by (intro linkedI) simp_all
  have "linked c \<subseteq> linked c'"
  proof
    fix x assume "x \<in> linked c"
    then obtain a b where x: "x = (a, unat b)" "a < length (tch_trees c)" "b \<in> set (t_sub_trees (tch_trees c ! a))"
      by (auto simp: linked_def)
    then show "x \<in> linked c'"
      using s(3,5) s(6) [OF x(2)] by (cases "a = unat i") (auto simp: linked_def tree_at_def)
  qed
  moreover have "j = unat s" if "length (tch_trees c) \<le> j" "j < length (tch_trees c')" for j using that s(2,3) by simp
  ultimately have grow: "links_grow (unat i) c c'" using new by (auto simp: links_grow_def)
  have "(x, y) \<in> linked c" if "(x, y) \<in> linked c'" "y < length (tch_trees c)" for x y
  proof -
    obtain z where z: "x < length (tch_trees c')" "z \<in> set (t_sub_trees (tch_trees c' ! x))" "y = unat z"
      using \<open>(x, y) \<in> linked c'\<close> by (auto simp: linked_def)
    have "z \<noteq> s" using that(2) z(3) s(2) by auto
    have "x \<noteq> unat s" using z(2) s(7) by (auto simp: tree_at_def new_tree_def)
    then have x: "x < length (tch_trees c)" using z(1) s(2,3) by simp
    have "z \<in> set (t_sub_trees (tch_trees c ! x))"
      using z(2) \<open>z \<noteq> s\<close> s(5) s(6) [OF x] by (cases "x = unat i") (auto simp: tree_at_def)
    then show ?thesis using x z(3) by (auto simp: linked_def)
  qed
  then have old: "old_links c c'" by (simp add: old_links_def)
  have "confined i 4 skip c c'"
    unfolding confined_def
  proof (intro conjI ballI allI impI)
    show "x \<in> set (node_slots (tree_at c i) 4 skip)"
      if "x \<in> set (node_slots (tree_at c' i) 4 skip)" "unat x < length (tch_trees c)" for x
      using that s(2) unfolding cg(2) by auto
    show "tch_trees c' ! j = tch_trees c ! j" if "j < length (tch_trees c)" "j \<noteq> unat i" for j by (rule s(6) [OF that])
  qed (rule old cg(1))+
  then show "frame i 4 skip c c'"
    using s(3,6) lv d(4) grow by (auto simp: frame_def mag s(5) node_at_def)
  show "node_at (tree_at c' i) 4 skip = node_at (tree_at c i) 4 skip OR child_bit k"
    using d(4) lv by (simp add: s(5) node_at_def)
  show "s \<in> set (node_slots (tree_at c' i) 4 skip)" unfolding cg(2) by simp
qed

lemma sub_tree_same:
  assumes "frame s 0 0 c c'" and "unat i < length (tch_trees c)"
    and "unat (t_magnitude (tree_at c s)) + 1 = unat (t_magnitude (tree_at c i))"
  shows "tree_at c' i = tree_at c i"
proof -
  have "t_magnitude (tree_at c s) < t_magnitude (tree_at c i)" using assms(3) by (simp add: word_less_nat_alt)
  then show ?thesis using assms(1,2) by (auto simp: frame_def tree_at_def word_unat_eq_iff)
qed

text \<open>The induction hypothesis of the recursion: insertions with this fuel land.\<close>

definition inserts_land :: "stored_blobs \<Rightarrow> nat \<Rightarrow> bool" where
  "inserts_land rd fuel \<longleftrightarrow> (\<forall>c i mn level skip name points. place_ok c i level skip \<longrightarrow> 0 \<le> sint (pc_min_lod points) \<longrightarrow>
     lands c i level skip (levels_below c i level \<le> fuel) (sub_tree_insert_points rd fuel i mn level skip name points c))"

text \<open>An insertion into a sub-tree, after the units were handed to it, as its parent sees it.\<close>

lemma enter_sub_tree:
  assumes ih: "inserts_land rd fuel" "0 \<le> sint (pc_min_lod points)"
    and "cache_ok c" and "unat i < length (tch_trees c)" and "unat s < length (tch_trees c)"
    and m: "unat (t_magnitude (tree_at c s)) + 1 = unat (t_magnitude (tree_at c i))"
    and slot: "s \<in> set (node_slots (tree_at c i) 4 skip)"
    and res: "res = sub_tree_insert_points rd fuel s mn 0 0 name points (move_storage_locations_to_subtree points i s c)"
  shows "lands c i 4 skip (levels_below c i 4 \<le> Suc fuel) res"
    and "res = Inr c' \<Longrightarrow> node_at (tree_at c' i) 4 skip = node_at (tree_at c i) 4 skip"
proof -
  define c1 where "c1 = move_storage_locations_to_subtree points i s c"
  note mv = move_ok [OF assms(3-5) c1_def]
  have len: "length (tch_trees c1) = length (tch_trees c)" using mv(2) by (simp add: same_nodes_def)
  have lv: "t_levels (tree_at c1 i) = t_levels (tree_at c i)" unfolding tree_at_def by (rule mv(4) [OF assms(4)])
  have fr: "frame i 4 skip c c1" by (rule frame_move [OF mv(2) assms(4) _ m mv(3) lv slot]) simp_all
  have slot1: "s \<in> set (node_slots (tree_at c1 i) 4 skip)"
    using slot same_nodes_at(2) [OF mv(2) assms(4)] by (simp add: node_slots_def lv)
  have m1: "unat (t_magnitude (tree_at c1 s)) + 1 = unat (t_magnitude (tree_at c1 i))"
    using m same_nodes_at(1) [OF mv(2)] assms(4,5) by simp
  have l: "lands c1 s 0 0 (levels_below c1 s 0 \<le> fuel) res"
    unfolding res c1_def [symmetric] using ih(1) place_ok_root [OF mv(1), of s] ih(2)
    by (simp add: inserts_land_def len assms(5))
  have i1: "unat i < length (tch_trees c1)" "unat s < length (tch_trees c1)" by (simp_all add: len assms(4,5))
  have fuel: "levels_below c i 4 \<le> Suc fuel \<Longrightarrow> levels_below c1 s 0 \<le> fuel"
    using m1 same_nodes_at(1) [OF mv(2) assms(4)] by (simp add: levels_below_def)
  have "s \<in> set (t_sub_trees (tree_at c1 i))" using slot1 segment_slots_subset unfolding node_slots_def by fast
  then have "(unat i, unat s) \<in> linked c1" by (rule linkedI [OF i1(1)])
  note fs = frame_sub_tree [OF _ i1 m1 this slot1]
  then have "lands c1 i 4 skip (levels_below c i 4 \<le> Suc fuel) res"
    using l fuel unfolding lands_def by blast
  then show "lands c i 4 skip (levels_below c i 4 \<le> Suc fuel) res" by (rule lands_before [OF _ fr assms(4)])
  assume "res = Inr c'"
  then have "tree_at c' i = tree_at c1 i" using l sub_tree_same [OF _ i1(1) m1] unfolding lands_def by blast
  then show "node_at (tree_at c' i) 4 skip = node_at (tree_at c i) 4 skip"
    using same_nodes_at(4) [OF mv(2) assms(4), of 4] by simp
qed

lemma insert_child_lands:
  assumes ih: "inserts_land rd fuel" "0 \<le> sint (pc_min_lod points)"
    and pl: "place_ok c i level skip" and "k < 8"
    and p: "p = skip_at (tree_at c i) level skip + sub_tree_count_skips (node_at (tree_at c i) level skip) k"
    and res: "res = insert_child rd fuel i mn level skip name k p points c"
  shows "lands c i level skip (levels_below c i level \<le> Suc fuel) res"
    and "res = Inr c' \<Longrightarrow> node_at (tree_at c' i) level skip = node_at (tree_at c i) level skip OR child_bit k"
proof -
  note d = place_okD [OF pl]
  let ?n = "node_at (tree_at c i) level skip"
  have "lands c i level skip (levels_below c i level \<le> Suc fuel) res \<and>
      (\<forall>c'. res = Inr c' \<longrightarrow> node_at (tree_at c' i) level skip = ?n OR child_bit k)"
  proof (cases "level = 4")
    case False
    then have l4: "level < 4" using d(3) by simp
    define c1 where "c1 = (if bit ?n k then c else upd_tree i (grow_child level skip k p (morton_get_name name (level + 1) k)) c)"
    have r: "res = sub_tree_insert_points rd fuel i mn (Suc level) p (morton_get_name name (level + 1) k) points c1"
      using False by (simp add: res c1_def Let_def)
    have c1: "place_ok c1 i (Suc level) p" "frame i level skip c c1" "t_magnitude (tree_at c1 i) = t_magnitude (tree_at c i)"
      "node_at (tree_at c1 i) level skip = ?n OR child_bit k"
      using child_there(1) [OF pl _ assms(4) p l4] grown_place [OF pl l4 _ assms(4) p refl] grow_child_ok [OF pl l4 _ assms(4) p refl]
      by (cases "bit ?n k"; simp add: c1_def frame_refl or_child_bit)+
    have l: "lands c1 i (Suc level) p (levels_below c1 i (Suc level) \<le> fuel) res" unfolding r using ih c1(1) by (simp add: inserts_land_def)
    have fuel: "levels_below c i level \<le> Suc fuel \<Longrightarrow> levels_below c1 i (Suc level) \<le> fuel"
      using c1(3) by (simp add: levels_below_def)
    have "lv_nodes (t_levels (tree_at c1 i) ! level) ! j = lv_nodes (t_levels (tree_at c i) ! level) ! j" if "j < skip" for j
      using c1(2) that by (simp add: frame_def node_at_def)
    moreover have len: "length (lv_nodes (t_levels (tree_at c1 i) ! level)) = length (lv_nodes (t_levels (tree_at c i) ! level))"
      using c1(2) by (simp add: frame_def)
    ultimately have "take skip (lv_nodes (t_levels (tree_at c1 i) ! level)) = take skip (lv_nodes (t_levels (tree_at c i) ! level))"
      using d(4) by (intro nth_equalityI) simp_all
    moreover have "sub_tree_count_skips (?n OR child_bit k) k = sub_tree_count_skips ?n k"
      using assms(4) by (cases "bit ?n k") (simp_all add: or_child_bit count_skips_set)
    ultimately have p1: "p = child_place (lv_nodes (t_levels (tree_at c1 i) ! level)) skip k"
      using c1(4) by (simp add: p child_place_def skip_at_kids [OF d(5,3,4)] node_at_def)
    have s1: "skip < length (lv_nodes (t_levels (tree_at c1 i) ! level))" "bit (node_at (tree_at c1 i) level skip) k"
      using len d(4) assms(4) by (simp_all add: c1(4) bit_or_iff bit_child_bit)
    have "frame i level skip c1 c'" if "cache_ok c'" "frame i (Suc level) p c1 c'" for c'
      by (rule frame_below [OF that(2) place_okD(1,2) [OF c1(1)] that(1) l4 s1 assms(4) p1])
    then have "lands c1 i level skip (levels_below c i level \<le> Suc fuel) res"
      using l fuel unfolding lands_def by blast
    then have "lands c i level skip (levels_below c i level \<le> Suc fuel) res" by (rule lands_before [OF _ c1(2) d(2)])
    moreover have "node_at (tree_at c' i) level skip = ?n OR child_bit k" if "res = Inr c'" for c'
      using l that c1(4) by (simp add: lands_def frame_def node_at_def)
    ultimately show ?thesis by blast
  next
    case True
    note pl4 = pl [unfolded True]
    show ?thesis
    proof (cases "bit ?n k")
      case b: True
      define s where "s = t_sub_trees (tree_at c i) ! p"
      have mem: "s \<in> set (t_sub_trees (tree_at c i))"
        unfolding s_def using child_there(2) [OF pl b assms(4) p True] by simp
      note lk = link_okD [OF d(1,2) mem]
      have r: "res = sub_tree_insert_points rd fuel s mn 0 0 (morton_get_name 0 0 k) points
          (move_storage_locations_to_subtree points i s c)"
        using b True by (simp add: res s_def Let_def)
      have "p = child_place (lv_nodes (t_levels (tree_at c i) ! 4)) skip k"
        using p True by (simp add: child_place_def node_at_def skip_at_kids [OF place_okD(5,3,4) [OF pl4]])
      from child_slots(2) [OF place_okD(5,3,4) [OF pl4] b [unfolded True] assms(4) this]
      have slot: "s \<in> set (node_slots (tree_at c i) 4 skip)" by (simp add: s_def)
      show ?thesis
        using enter_sub_tree [OF ih d(1,2) lk slot r] or_child_bit [OF b] unfolding True by metis
    next
      case nb: False
      show ?thesis
      proof (cases "tr_current_id (tch_reg c) = - 1 \<or> t_magnitude (tree_at c i) = 0")
        case True
        then show ?thesis using nb \<open>level = 4\<close> by (auto simp: res lands_def Let_def)
      next
        case nz: False
        then have False: "tr_current_id (tch_reg c) \<noteq> - 1" by simp
        obtain s c1 where sp: "spawn_sub_tree i skip k p (pc_min points) c = (s, c1)" by (cases "spawn_sub_tree i skip k p (pc_min points) c")
        have r: "res = sub_tree_insert_points rd fuel s mn 0 0 (morton_get_name 0 0 k) points
            (move_storage_locations_to_subtree points i s c1)"
          using nb True nz sp by (simp add: res Let_def)
        note n4 = nb [unfolded True]
        have g0: "0 < unat (t_magnitude (tree_at c i))" using nz by (simp add: unat_gt_0)
        note so = spawn_ok [OF d(1,2) g0 place_okD(4) [OF pl4] n4 assms(4) False sp]
        note sf = spawn_frame [OF pl4 g0 n4 assms(4) False sp p [unfolded True]]
        have i1: "unat i < length (tch_trees c1)" "unat s < length (tch_trees c1)" using so(2,3) d(2) by simp_all
        have m1: "t_magnitude (tree_at c1 i) = t_magnitude (tree_at c i)" by (simp add: so(5))
        note en = enter_sub_tree [OF ih so(1) i1 so(4) [folded m1] sf(3) r]
        have "levels_below c1 i 4 = levels_below c i 4" by (simp add: levels_below_def m1)
        then show ?thesis
          using lands_before [OF en(1) sf(1) d(2)] en(2) sf(2) unfolding True by simp
      qed
    qed
  qed
  then show "lands c i level skip (levels_below c i level \<le> Suc fuel) res"
    and "res = Inr c' \<Longrightarrow> node_at (tree_at c' i) level skip = ?n OR child_bit k" by blast+
qed

end
