(* ===== verification/TreeInsert.thy ===== *)
theory TreeInsert
  imports TreeDescent
begin

text \<open>
  \<open>sub_tree_insert_points\<close> keeps the invariant, and with fuel for the levels below its node it never
  runs out of fuel.
\<close>

lemma child_mask_less: "unat (morton_get_child_mask lod (m :: morton192)) < 8"
proof -
  have "\<not> bit (morton_get_child_mask lod m) j" if "3 \<le> j" for j
    using that by (auto simp: morton_get_child_mask_def Let_def word_bits)
  then have "\<not> bit (unat (morton_get_child_mask lod m)) j" if "3 \<le> j" for j
    using that by (simp add: bit_unsigned_iff)
  then show ?thesis using nat_bits_less [of 3 "unat (morton_get_child_mask lod m)"] by simp
qed

lemma insert_children_lands:
  assumes ih: "inserts_land rd fuel"
    and "place_ok c i level skip" and "lods_ok children"
    and "k \<le> 8" and "n = sub_tree_count_skips (node_at (tree_at c i) level skip) k"
  shows "lands c i level skip (levels_below c i level \<le> Suc fuel)
    (insert_children rd fuel i mn level skip name children [k..<8] n c)"
  using assms(2,4,5)
proof (induction "8 - k" arbitrary: k n c)
  case 0
  then show ?case by (simp add: lands_def place_ok_def frame_refl)
next
  case (Suc m)
  let ?node = "node_at (tree_at c i) level skip" and ?points = "children ! k"
  have k: "k < 8" "[k..<8] = k # [Suc k..<8]" "m = 8 - Suc k" "Suc k \<le> 8"
    using Suc.hyps(2) by (simp_all add: upt_conv_Cons)
  note d = place_okD [OF Suc.prems(1)]
  show ?case
  proof (cases "pc_data ?points = []")
    case True
    then show ?thesis
      using Suc.hyps(1) [OF k(3) Suc.prems(1) k(4) refl] by (cases "bit ?node k") (simp_all add: k(2) Suc.prems(3) Let_def)
  next
    case False
    define res where "res = insert_child rd fuel i (child_min (node_lod (tree_at c i) level) k mn) level skip name k
        (skip_at (tree_at c i) level skip + n) ?points c"
    have one: "insert_children rd fuel i mn level skip name children [k..<8] n c =
        (case res of Inl e \<Rightarrow> Inl e | Inr c' \<Rightarrow> insert_children rd fuel i mn level skip name children [Suc k..<8] (n + 1) c')"
      using False by (simp add: k(2) res_def Let_def)
    have lod: "0 \<le> sint (pc_min_lod ?points)" by (rule lods_ok_nth [OF assms(3) k(1)])
    note child = insert_child_lands [OF ih lod Suc.prems(1) k(1) _ res_def, unfolded Suc.prems(3), OF refl]
    show ?thesis
    proof (cases res)
      case (Inl e)
      then show ?thesis using child(1) unfolding one by (simp add: lands_def)
    next
      case (Inr c1)
      have c1: "cache_ok c1" "frame i level skip c c1" using child(1) Inr by (simp_all add: lands_def)
      have pl: "place_ok c1 i level skip" by (rule place_ok_frame [OF Suc.prems(1) c1])
      have mag: "t_magnitude (tree_at c1 i) = t_magnitude (tree_at c i)"
        using c1(2) d(2) by (intro cell_magnitude) (simp add: frame_def tree_at_def)
      have "sub_tree_count_skips (node_at (tree_at c1 i) level skip) (Suc k) = n + 1"
        using child(2) [OF Inr] k(1) Suc.prems(3)
        by (cases "bit ?node k") (simp_all add: or_child_bit count_skips_set bit_or_iff bit_child_bit)
      then have "lands c1 i level skip (levels_below c1 i level \<le> Suc fuel)
          (insert_children rd fuel i mn level skip name children [Suc k..<8] (n + 1) c1)"
        by (intro Suc.hyps(1) [OF k(3) pl k(4)]) simp_all
      then show ?thesis
        unfolding one Inr using lands_before [OF _ c1(2) d(2)] by (simp add: levels_below_def mag)
    qed
  qed
qed

lemma touch_keeps: "keeps_nodes (\<lambda>t. t\<lparr>t_is_dirty := True, t_leaves_collapsed := False\<rparr>)"
  by (rule keeps_nodes_fields) (simp_all add: cell_def)

lemma insert_points_step:
  assumes "c0 = touch_tree i c" and "t = tree_at c0 i" and "k = unat (morton_get_child_mask (node_lod t level) (m192_words (pc_min points)))"
  shows "sub_tree_insert_points rd (Suc fuel) i mn level skip name points c =
    (if sint (pc_min_lod points) < int (node_lod t level) \<and> node_at t level skip \<noteq> 0
     then insert_child rd fuel i (child_min (node_lod t level) k mn) level skip name k
            (skip_at t level skip + sub_tree_count_skips (node_at t level skip) k) points c0
     else if fits_node c0 i level skip points
     then Inr (upd_tree i (set_data level skip (points_data_add (data_at t level skip) points)) c0)
     else (case gather_children rd i mn level skip points c0 of
             Inl e \<Rightarrow> Inl e
           | Inr (children, c) \<Rightarrow> insert_children rd fuel i mn level skip name children [0..<8] 0 c))"
  unfolding assms Let_def sub_tree_insert_points.simps [of rd "Suc fuel"] diff_Suc_1
  by (simp only: nat.distinct if_False)

lemma insert_lands: "inserts_land rd fuel"
proof (induction fuel)
  case 0
  then show ?case
    by (simp add: inserts_land_def lands_def levels_below_def place_ok_def sub_tree_insert_points.simps [of rd 0])
next
  case (Suc fuel)
  show ?case
    unfolding inserts_land_def
  proof (intro allI impI)
  fix c i mn level skip name and points :: points_collection
  assume prems: "place_ok c i level skip" "0 \<le> sint (pc_min_lod points)"
  note d = place_okD [OF prems(1)]
  define c0 where "c0 = touch_tree i c"
  note u = keeps_nodes_upd [OF d(1,2) touch_keeps, folded touch_tree_def, folded c0_def]
  have fr: "frame i level skip c c0" by (rule u(3) [OF d(3)]) (simp add: confined_tree_fields)
  have pl: "place_ok c0 i level skip" by (rule place_ok_frame [OF prems(1) u(1) fr])
  have below: "levels_below c0 i level = levels_below c i level"
    using same_nodes_at(1) [OF u(2) d(2)] by (simp add: levels_below_def)
  note d0 = place_okD [OF pl]
  let ?t = "tree_at c0 i" and ?res = "sub_tree_insert_points rd (Suc fuel) i mn level skip name points c"
  let ?node = "node_at ?t level skip" and ?lod = "node_lod ?t level"
  let ?k = "unat (morton_get_child_mask ?lod (m192_words (pc_min points)))"
  have "lands c0 i level skip (levels_below c0 i level \<le> Suc fuel) ?res"
  proof (cases "sint (pc_min_lod points) < int ?lod \<and> ?node \<noteq> 0")
    case True
    then have r: "?res = insert_child rd fuel i (child_min ?lod ?k mn) level skip name ?k
        (skip_at ?t level skip + sub_tree_count_skips ?node ?k) points c0"
      by (simp only: insert_points_step [OF c0_def refl refl] simp_thms if_True)
    have k: "?k < 8" by (rule child_mask_less)
    from insert_child_lands(1) [OF Suc.IH prems(2) pl k refl r] show ?thesis .
  next
    case no: False
    show ?thesis
    proof (cases "fits_node c0 i level skip points")
      case True
      with no have r: "?res = Inr (upd_tree i (set_data level skip (points_data_add (data_at ?t level skip) points)) c0)"
        by (simp only: insert_points_step [OF c0_def refl refl] simp_thms if_True if_False)
      note s = keeps_nodes_upd [OF d0(1,2) keeps_set_data [OF d0(3)]]
      show ?thesis unfolding r lands_def using s(1) s(3) [OF d0(3) confined_set_data [OF d0(5,3)]] by simp
    next
      case nf: False
      have r: "?res = (case gather_children rd i mn level skip points c0 of Inl e \<Rightarrow> Inl e
          | Inr (children, c) \<Rightarrow> insert_children rd fuel i mn level skip name children [0..<8] 0 c)"
        using no nf by (simp only: insert_points_step [OF c0_def refl refl] simp_thms if_False)
      note g = gather_ok [OF d0(1-3)]
      show ?thesis
      proof (cases "gather_children rd i mn level skip points c0")
        case (Inl e)
        then show ?thesis using g(1) [OF Inl] by (simp add: r lands_def)
      next
        case (Inr b)
        then obtain children c1 where b: "gather_children rd i mn level skip points c0 = Inr (children, c1)" by (cases b) simp
        note g2 = g(2) [OF b]
        have pl1: "place_ok c1 i level skip" using place_ok_frame [OF pl] g2 by blast
        have mag: "t_magnitude (tree_at c1 i) = t_magnitude ?t" using same_nodes_at(1) d0(2) g2 by blast
        note loop = insert_children_lands [OF Suc.IH pl1, of children 0 0]
        have "lands c1 i level skip (levels_below c1 i level \<le> Suc fuel)
            (insert_children rd fuel i mn level skip name children [0..<8] 0 c1)"
          using g2 loop by simp
        then show ?thesis
          using g2 lands_before [OF _ _ d0(2)] by (simp add: r b levels_below_def mag)
      qed
    qed
  qed
  then show "lands c i level skip (levels_below c i level \<le> Suc fuel) ?res"
    using lands_before [OF _ fr d(2)] by (simp add: below)
  qed
qed

end
