(* ===== verification/TreeCells.thy ===== *)
theory TreeCells
  imports TreeInsert
begin

text \<open>
  The cells of roots: the masks, minima and maxima \<open>tree_initialize\<close> and \<open>tree_initialize_new_parent\<close>
  compute with, read as numbers. A cell of magnitude \<open>m\<close> is a block of 2^(15 (m + 1)) codes; the
  statements are for magnitudes up to 11, where the mask of \<open>morton_mask_create\<close> fits three words.
\<close>

abbreviation code :: "m192 \<Rightarrow> nat" where
  "code v \<equiv> morton_val (m192_words v)"

abbreviation cell_bits :: "u8 \<Rightarrow> nat" where
  "cell_bits magnitude \<equiv> 15 * (unat magnitude + 1)"

lemma code_order: "a \<le> b \<longleftrightarrow> code a \<le> code b" "a < b \<longleftrightarrow> code a < code b" for a b :: m192
  by (simp_all add: less_eq_m192_def morton_order_val less_m192_def m192_lt_def morton_lt_val)

lemma words_of_m192: "length m = 3 \<Longrightarrow> m192_words (m192_of m) = m"
  by (auto simp: m192_of_def length_3_conv)

lemma magnitude_lod: "unat (morton_magnitude_to_lod (unat (m :: u8))) = 5 * unat m + 4"
proof -
  have "unat m < 256" using unat_less_pow [of m] by simp
  moreover have "unat (ucast m :: u16) = unat m" using calculation by (simp add: unsigned_ucast_eq take_bit_nat_eq_self)
  ultimately show ?thesis by (simp add: morton_magnitude_to_lod_def unat_word_ariths)
qed

lemma cell_mask_val:
  assumes "unat m \<le> 11"
  shows "morton_val (cell_mask m) = mask (cell_bits m)" and "length (cell_mask m) = 3"
proof -
  have "nat (3 * int (5 * k + 4) + 3) = 15 * (k + 1)" for k by simp
  note n = this [of "unat m"]
  have "k \<le> 11 \<Longrightarrow> 3 * int (5 * k + 4) + 3 < 64 * int 3" for k by simp
  from this [OF assms] have "3 * int (5 * unat m + 4) + 3 < 64 * int 3" .
  then show "morton_val (cell_mask m) = mask (cell_bits m)"
    unfolding cell_mask_def magnitude_lod mask_eq_exp_minus_1 n [symmetric] by (intro morton_mask_create_val) simp_all
  show "length (cell_mask m) = 3" by (simp add: cell_mask_def)
qed

lemma morton_and_not_bit:
  "length a = length b \<Longrightarrow> morton_bit (morton_and a (morton_negate b)) k \<longleftrightarrow> morton_bit a k \<and> \<not> morton_bit (b :: 'a::len morton) k"
proof -
  assume len: "length a = length b"
  show ?thesis
  proof (cases "k < LENGTH('a) * length a")
    case True
    then have "k div LENGTH('a) < length a" by (simp add: less_mult_imp_div_less mult.commute)
    then show ?thesis using len True by (auto simp: morton_bit_def morton_and_def morton_negate_def bit_and_iff bit_not_iff)
  next
    case False
    then show ?thesis using len by (auto simp: morton_bit_def morton_and_def morton_negate_def)
  qed
qed

lemma clear_low:
  assumes "length a = 3" and "length b = 3" and "morton_val b = mask n"
  shows "morton_val (morton_and (a :: morton192) (morton_negate b)) = morton_val a - morton_val a mod 2 ^ n"
    and "morton_val (morton_and (morton_negate b) a) = morton_val a - morton_val a mod 2 ^ n"
proof -
  have b: "morton_bit b k \<longleftrightarrow> k < n" for k using assms(3) by (simp add: bit_mask_iff flip: bit_morton_val)
  have "morton_val (morton_and a (morton_negate b)) = push_bit n (drop_bit n (morton_val a))"
    by (rule bit_eqI) (auto simp: bit_morton_val morton_and_not_bit assms(1,2) b bit_push_bit_iff bit_drop_bit_eq)
  also have "\<dots> = morton_val a - morton_val a mod 2 ^ n"
    by (simp add: push_bit_eq_mult drop_bit_eq_div minus_mod_eq_div_mult)
  finally show c: "morton_val (morton_and a (morton_negate b)) = morton_val a - morton_val a mod 2 ^ n" .
  have "morton_and (morton_negate b) a = morton_and a (morton_negate b)"
    using assms(1,2) by (auto simp: length_3_conv morton_and_def morton_negate_def and.commute)
  then show "morton_val (morton_and (morton_negate b) a) = morton_val a - morton_val a mod 2 ^ n" using c by simp
qed

lemma fill_low:
  assumes "length a = 3" and "length b = 3" and "morton_val b = mask n"
  shows "morton_val (morton_or (a :: morton192) b) = morton_val a - morton_val a mod 2 ^ n + (2 ^ n - 1)"
proof -
  have b: "morton_bit b k \<longleftrightarrow> k < n" for k using assms(3) by (simp add: bit_mask_iff flip: bit_morton_val)
  have "morton_val (morton_or a b) = push_bit n (drop_bit n (morton_val a)) OR mask n"
    by (rule bit_eqI) (auto simp: bit_morton_val morton_or_bit assms(1,2) b bit_push_bit_iff bit_drop_bit_eq bit_or_iff bit_mask_iff)
  also have "\<dots> = push_bit n (drop_bit n (morton_val a)) + mask n"
    by (rule disjunctive_add [symmetric]) (auto simp: bit_push_bit_iff bit_mask_iff)
  finally show ?thesis
    by (simp add: push_bit_eq_mult drop_bit_eq_div minus_mod_eq_div_mult mask_eq_exp_minus_1)
qed

text \<open>The cell of a root: aligned to its magnitude and as large as it says.\<close>

definition root_cell :: "tree_t \<Rightarrow> bool" where
  "root_cell t \<longleftrightarrow> unat (t_magnitude t) \<le> 11 \<and> code (t_min t) mod 2 ^ cell_bits (t_magnitude t) = 0 \<and>
     code (t_max t) = code (t_min t) + (2 ^ cell_bits (t_magnitude t) - 1) \<and> code (t_max t) < 2 ^ 180"

lemma root_cell_cong: "cell t' = cell t \<Longrightarrow> root_cell t' = root_cell t"
  by (simp add: root_cell_def cell_def)

lemma in_root_cell:
  assumes "root_cell t"
  shows "t_min t \<le> v \<and> v \<le> t_max t \<longleftrightarrow>
    code v div 2 ^ cell_bits (t_magnitude t) = code (t_min t) div 2 ^ cell_bits (t_magnitude t)"
  using assms aligned_range [of "code (t_min t)" "2 ^ cell_bits (t_magnitude t)" "code v"]
  by (simp add: root_cell_def code_order)

text \<open>The magnitude that holds two codes: the smallest cell with both.\<close>

definition span_magnitude :: "m192 \<Rightarrow> m192 \<Rightarrow> u8" where
  "span_magnitude a b = word_of_nat (morton_magnitude_from_bit_index (morton_msb (morton_xor (m192_words a) (m192_words b))))"

lemma span_holds:
  assumes "code a < 2 ^ 180" and "code b < 2 ^ 180"
  shows "unat (span_magnitude a b) \<le> 11"
    and "code a div 2 ^ cell_bits (span_magnitude a b) = code b div 2 ^ cell_bits (span_magnitude a b)"
    and "n \<le> 15 * unat (span_magnitude a b) \<Longrightarrow> 0 < n \<Longrightarrow> code a div 2 ^ n \<noteq> code b div 2 ^ n"
proof -
  let ?x = "morton_xor (m192_words a) (m192_words b)" and ?m = "span_magnitude a b"
  have len: "length ?x = 3" by (simp add: morton_xor_def)
  have bits: "morton_bit ?x k \<longleftrightarrow> bit (code a) k \<noteq> bit (code b) k" for k by (simp add: morton_xor_bit bit_morton_val)
  have small: "morton_msb ?x < 180 \<and> (\<forall>k > morton_msb ?x. \<not> morton_bit ?x k) \<and> (morton_msb ?x = 0 \<or> morton_bit ?x (morton_msb ?x))"
  proof (cases "morton_val ?x = 0")
    case True
    then have x: "\<not> morton_bit ?x k" for k by (metis bit_morton_val bit_0_eq bot_apply bot_bool_def)
    have "?x = [0, 0, 0]"
      by (rule morton_val_bits_eqI) (use x len in \<open>simp_all add: morton_bit_words\<close>)
    then have "morton_msb ?x = 0" by (simp add: morton_msb_def)
    then show ?thesis using x by simp
  next
    case False
    have "length ?x \<in> {1, 2, 3}" using len by simp
    note m = morton_msb_bits [OF this False]
    have "bit (code a) (morton_msb ?x) \<or> bit (code b) (morton_msb ?x)" using m(1) bits by blast
    then have "(2 :: nat) ^ morton_msb ?x < 2 ^ 180" using nat_bit_ge assms by (meson le_less_trans)
    then have "morton_msb ?x < 180" using power_less_imp_less_exp by (metis one_less_numeral_iff semiring_norm(76))
    then show ?thesis using m by auto
  qed
  have "morton_msb ?x div 15 < 256" using small div_le_dividend [of "morton_msb ?x" 15] by linarith
  then have m: "unat ?m = morton_msb ?x div 15"
    by (simp add: span_magnitude_def morton_magnitude_from_bit_index_def morton_lod_from_bit_index_def unat_of_nat flip: div_mult2_eq)
  have "morton_msb ?x div 15 < 12" using small by (simp add: div_less_iff_less_mult)
  then show "unat ?m \<le> 11" by (simp add: m)
  have above: "morton_msb ?x < cell_bits ?m" by (simp add: m dividend_less_div_times)
  have "drop_bit (cell_bits ?m) (code a) = drop_bit (cell_bits ?m) (code b)"
  proof (rule bit_eqI)
    fix k
    have "\<not> morton_bit ?x (cell_bits ?m + k)" using small above by simp
    then show "bit (drop_bit (cell_bits ?m) (code a)) k = bit (drop_bit (cell_bits ?m) (code b)) k"
      by (simp add: bits bit_drop_bit_eq)
  qed
  then show "code a div 2 ^ cell_bits ?m = code b div 2 ^ cell_bits ?m" by (simp only: drop_bit_eq_div)
  show "code a div 2 ^ n \<noteq> code b div 2 ^ n" if n: "n \<le> 15 * unat ?m" "0 < n"
  proof
    assume "code a div 2 ^ n = code b div 2 ^ n"
    then have eq: "drop_bit n (code a) = drop_bit n (code b)" by (simp only: drop_bit_eq_div)
    have le: "n \<le> morton_msb ?x" using n(1) times_div_less_eq_dividend [of 15 "morton_msb ?x"] by (simp add: m)
    then have "morton_bit ?x (morton_msb ?x)" using small n(2) by auto
    then have "bit (drop_bit n (code a)) (morton_msb ?x - n) \<noteq> bit (drop_bit n (code b)) (morton_msb ?x - n)"
      using le by (simp add: bits bit_drop_bit_eq)
    then show False using eq by simp
  qed
qed

end
