(* ===== verification/TreeLinks.thy ===== *)
theory TreeLinks
  imports TreeCells
begin

text \<open>
  \<open>insert_tree_in_tree\<close>: the walk that hangs a tree below a fresh root, through as many trees in between
  as the magnitudes ask for. It ends, keeps the invariant and links the tree to the root.
\<close>

section \<open>A fresh tree\<close>

text \<open>A tree whose only node on a level is an empty one; deeper levels are empty.\<close>

definition alone :: "nat \<Rightarrow> tree_t \<Rightarrow> bool" where
  "alone l t \<longleftrightarrow> tree_shape t \<and> l < 5 \<and> lv_nodes (t_levels t ! l) = [0]"

lemma alone_zero: "alone l t \<Longrightarrow> node_at t l 0 = 0" "alone l t \<Longrightarrow> skip_at t l 0 = 0"
  by (simp_all add: alone_def node_at_def skip_at_kids)

lemma alone_slots: "alone 4 t \<Longrightarrow> t_sub_trees t = []"
  using tree_shapeD(5) [of t] by (simp add: alone_def)

lemma alone_grow:
  assumes "alone l t" and "l < 4" and "k < 8"
  shows "alone (Suc l) (grow_child l 0 k 0 name t)"
proof -
  note t = assms(1) [unfolded alone_def]
  have "tree_shape (grow_child l 0 k 0 name t)"
    using t assms(2,3) by (intro grow_child_shape) (simp_all add: node_at_def child_place_def)
  moreover have "lv_nodes (t_levels t ! Suc l) = []" using tree_shapeD(4) [of t l] t assms(2) by simp
  then have "lv_nodes (t_levels (grow_child l 0 k 0 name t) ! Suc l) = [0]"
    using t assms(2) tree_shapeD(1) [of t] by (simp add: grow_child_levels insert_at_def)
  ultimately show ?thesis using assms(2) by (simp add: alone_def)
qed

lemma make_path_alone:
  assumes "alone l t" and "make_path m [l..<4] 0 name t = (s, t')" and "l \<le> 4"
  shows "s = 0 \<and> alone 4 t' \<and> cell t' = cell t \<and> t_id t' = t_id t \<and> t_sub_trees t' = t_sub_trees t"
  using assms
proof (induction "4 - l" arbitrary: l name t)
  case 0
  then show ?case by simp
next
  case (Suc n)
  have l: "[l..<4] = l # [Suc l..<4]" "l < 4" using Suc.hyps(2) by (simp_all add: upt_conv_Cons)
  obtain k name' where k: "k < 8" and p: "make_path m [Suc l..<4] 0 name' (grow_child l 0 k 0 name' t) = (s, t')"
    using Suc.prems(2) alone_zero [OF Suc.prems(1)] child_mask_less by (auto simp: l(1) Let_def)
  have "n = 4 - Suc l" "Suc l \<le> 4" using Suc.hyps(2) by simp_all
  then show ?case
    using Suc.hyps(1) [OF _ alone_grow [OF Suc.prems(1) l(2) k] p] by (simp add: cell_def)
qed

lemma push_root_alone: "alone 0 (push_root_node name (new_tree i\<lparr>t_magnitude := g, t_min := lo, t_max := hi\<rparr>))"
  by (simp add: alone_def tree_shape_def push_root_node_def upd_level_def new_tree_def empty_level_def level_shape_def
      eval_nat_numeral less_Suc_eq)

lemma initialize_sub_alone: "alone 0 (tree_initialize_sub p m (new_tree i))"
  using new_tree_shape [of p m i]
  by (simp add: alone_def tree_initialize_sub_def push_root_node_def upd_level_def set_cell_def new_tree_def empty_level_def Let_def)

section \<open>Linking a tree below a fresh one\<close>

text \<open>The cells of the trees there were are unchanged, and so are all of them but one.\<close>

definition grown :: "nat \<Rightarrow> tree_cache \<Rightarrow> tree_cache \<Rightarrow> bool" where
  "grown i c c' \<longleftrightarrow> length (tch_trees c) \<le> length (tch_trees c') \<and> links_grow i c c' \<and>
     (\<forall>j < length (tch_trees c). cell (tch_trees c' ! j) = cell (tch_trees c ! j) \<and>
        (j \<noteq> i \<longrightarrow> tch_trees c' ! j = tch_trees c ! j))"

definition joins :: "nat \<Rightarrow> nat \<Rightarrow> tree_cache \<Rightarrow> build_stop + tree_cache \<Rightarrow> bool" where
  "joins i j c res \<longleftrightarrow> res \<noteq> Inl out_of_fuel \<and>
     (\<forall>c'. res = Inr c' \<longrightarrow> cache_ok c' \<and> grown i c c' \<and> (i, j) \<in> (linked c')\<^sup>+)"

lemma grown_trans: "grown i a b \<Longrightarrow> grown i b c \<Longrightarrow> grown i a c"
  unfolding grown_def using links_grow_trans [of i a b c] by auto

lemma joins_before: "joins i j b res \<Longrightarrow> grown i a b \<Longrightarrow> joins i j a res"
  by (auto simp: joins_def intro: grown_trans)

text \<open>The walk through a fresh tree ends in its first node of the last level.\<close>

lemma insert_tree_step:
  assumes "cache_ok c" and "unat p < length (tch_trees c)" and "alone 0 (tree_at c p)" and "p \<noteq> j"
  obtains k c1 where "cache_ok c1" and "grown (unat p) c c1" and "alone 4 (tree_at c1 p)" and "k < 8"
    and "length (tch_trees c1) = length (tch_trees c)" and "tree_at c1 j = tree_at c j"
    and "insert_tree_in_tree (Suc fuel) p j c =
      (if int (unat (t_magnitude (tree_at c1 p))) - 1 = int (unat (t_magnitude (tree_at c1 j)))
       then Inr (upd_tree p (grow_slot 0 k 0 j) c1)
       else if tr_current_id (tch_reg c1) = - 1 then Inl registry_full
       else if t_magnitude (tree_at c1 p) = 0 then Inl finest_split
       else (let (sub_id, c) = spawn_sub_tree p 0 k 0 (t_min (tree_at c j)) c1 in insert_tree_in_tree fuel sub_id j c))"
proof -
  let ?m = "t_min (tree_at c j)"
  obtain s t where "make_path ?m [0..<4] 0 (lv_node_ids (t_levels (tree_at c p) ! 0) ! 0) (tree_at c p) = (s, t)"
    by (rule prod.exhaust)
  moreover from make_path_alone [OF assms(3) this]
  have t: "alone 4 t" "cell t = cell (tree_at c p)" "t_id t = t_id (tree_at c p)"
    "t_sub_trees t = t_sub_trees (tree_at c p)" and "s = 0" by simp_all
  ultimately have path: "make_path ?m [0..<4] 0 (lv_node_ids (t_levels (tree_at c p) ! 0) ! 0) (tree_at c p) = (0, t)" by simp
  define k where "k = unat (morton_get_child_mask (unat (morton_magnitude_to_lod (unat (t_magnitude t))) - 4) (m192_words ?m))"
  define c1 where "c1 = upd_tree p (\<lambda>_. t) c"
  have at: "tree_at c1 p = t" "tree_at c1 j = tree_at c j" "tch_reg c1 = tch_reg c"
    using assms(2,4) by (simp_all add: c1_def tree_at_upd)
  have r: "insert_tree_in_tree (Suc fuel) p j c =
      (if int (unat (t_magnitude (tree_at c1 p))) - 1 = int (unat (t_magnitude (tree_at c1 j)))
       then Inr (upd_tree p (grow_slot 0 k 0 j) c1)
       else if tr_current_id (tch_reg c1) = - 1 then Inl registry_full
       else if t_magnitude (tree_at c1 p) = 0 then Inl finest_split
       else (let (sub_id, c) = spawn_sub_tree p 0 k 0 ?m c1 in insert_tree_in_tree fuel sub_id j c))"
    unfolding insert_tree_in_tree.simps Let_def path prod.case c1_def [symmetric] alone_zero(1) [OF t(1)] k_def [symmetric] at
    by simp
  show thesis
  proof (rule that [OF _ _ _ _ _ at(2) r])
    show "cache_ok c1"
      unfolding c1_def using assms(1,2) t cache_okD(2) [OF assms(1,2)]
      by (intro cache_ok_upd) (simp_all add: tree_in_def alone_def tree_at_def cell_def)
    show "grown (unat p) c c1"
      using assms(2) t links_grow_same [of c1 c] by (simp add: grown_def c1_def upd_tree_def nth_list_update tree_at_def)
    show "k < 8" by (simp only: k_def child_mask_less)
    show "alone 4 (tree_at c1 p)" by (simp only: at(1) t(1))
    show "length (tch_trees c1) = length (tch_trees c)" by (simp add: c1_def)
  qed
qed

text \<open>There the child is linked, when it is one magnitude smaller.\<close>

lemma link_joins:
  assumes "cache_ok c" and "unat p < length (tch_trees c)" and "unat j < length (tch_trees c)" and "alone 4 (tree_at c p)" and "k < 8"
    and "int (unat (t_magnitude (tree_at c p))) - 1 = int (unat (t_magnitude (tree_at c j)))"
  shows "joins (unat p) (unat j) c (Inr (upd_tree p (grow_slot 0 k 0 j) c))"
proof -
  let ?t = "tree_at c p"
  define c' where "c' = upd_tree p (grow_slot 0 k 0 j) c"
  note zero = alone_zero(1) [OF assms(4)] alone_slots [OF assms(4)]
  have "unat (t_magnitude (tree_at c j)) + 1 = unat (t_magnitude ?t)" using assms(6) by linarith
  moreover have "tree_shape (grow_slot 0 k 0 j ?t)"
    using assms(4,5) zero(1) by (intro grow_slot_shape) (simp_all add: alone_def)
  ultimately have "cache_ok c'"
    unfolding c'_def using assms(3) zero(2) cache_okD(2) [OF assms(1,2)]
    by (intro cache_ok_upd assms(1,2)) (simp_all add: tree_in_def tree_at_def insert_at_def)
  moreover have "links_grow (unat p) c c'"
    using assms(2) by (intro links_grow_more) (auto simp: c'_def upd_tree_def nth_list_update tree_at_def)
  then have "grown (unat p) c c'"
    using assms(2) by (auto simp: grown_def c'_def upd_tree_def nth_list_update tree_at_def cell_def)
  moreover have "(unat p, unat j) \<in> linked c'"
    using assms(2) by (simp add: linked_def c'_def upd_tree_def insert_at_def tree_at_def)
  ultimately show ?thesis by (simp add: joins_def c'_def r_into_trancl)
qed

text \<open>Otherwise a tree is put in between, and what joins the child to it joins it to the parent.\<close>

lemma spawn_joins:
  assumes "cache_ok c" and "unat p < length (tch_trees c)" and "alone 4 (tree_at c p)" and "k < 8"
    and "0 < unat (t_magnitude (tree_at c p))" and "tr_current_id (tch_reg c) \<noteq> - 1" and "spawn_sub_tree p 0 k 0 m c = (q, c2)"
    and "joins (unat q) j c2 res"
  shows "joins (unat p) j c res"
  unfolding joins_def
proof (intro conjI allI impI)
  have pl: "place_ok c p 4 0" using assms(1-3) by (simp add: place_ok_def alone_def)
  have n: "\<not> bit (node_at (tree_at c p) 4 0) k" using alone_zero(1) [OF assms(3)] by simp
  have place: "0 = skip_at (tree_at c p) 4 0 + sub_tree_count_skips (node_at (tree_at c p) 4 0) k"
    using alone_zero [OF assms(3)] by simp
  note sp = spawn_ok [OF assms(1,2,5) place_okD(4) [OF pl] n assms(4,6,7)]
  show "res \<noteq> Inl out_of_fuel" using assms(8) by (simp add: joins_def)
  fix c' assume "res = Inr c'"
  then have c': "cache_ok c'" "grown (unat q) c2 c'" "(unat q, j) \<in> (linked c')\<^sup>+" using assms(8) by (simp_all add: joins_def)
  show "cache_ok c'" by (rule c'(1))
  have pq: "(unat p, unat q) \<in> linked c2" using assms(2) sp(3) by (intro linkedI) (simp_all add: sp(5))
  have l2: "links_grow (unat p) c2 c'" using c'(2) links_grow_below [OF _ pq] by (simp add: grown_def)
  have "(unat p, unat q) \<in> linked c'" using pq l2 by (auto simp: links_grow_def)
  then show "(unat p, j) \<in> (linked c')\<^sup>+" using c'(3) by (rule trancl_into_trancl2)
  have "grown (unat p) c c2"
    using sp(3,5,6) spawn_frame(1) [OF pl assms(5) n assms(4,6,7) place] by (auto simp: grown_def frame_def tree_at_def cell_def)
  moreover have "links_grow (unat p) c c'"
    using calculation l2 links_grow_trans by (auto simp: grown_def)
  ultimately show "grown (unat p) c c'" using c'(2) sp(2,3) by (simp add: grown_def)
qed

lemma insert_tree_joins:
  assumes "cache_ok c" and "unat p < length (tch_trees c)" and "unat j < length (tch_trees c)" and "alone 0 (tree_at c p)"
    and "unat (t_magnitude (tree_at c j)) < unat (t_magnitude (tree_at c p))" and "unat (t_magnitude (tree_at c p)) \<le> fuel"
  shows "joins (unat p) (unat j) c (insert_tree_in_tree fuel p j c)"
  using assms
proof (induction fuel arbitrary: p c)
  case 0
  then show ?case by simp
next
  case (Suc fuel)
  have pj: "p \<noteq> j" using Suc.prems(5) by auto
  obtain k c1 where c1: "cache_ok c1" "grown (unat p) c c1" "alone 4 (tree_at c1 p)" "k < 8"
    and same: "length (tch_trees c1) = length (tch_trees c)" "tree_at c1 j = tree_at c j"
    and r: "insert_tree_in_tree (Suc fuel) p j c =
      (if int (unat (t_magnitude (tree_at c1 p))) - 1 = int (unat (t_magnitude (tree_at c1 j)))
       then Inr (upd_tree p (grow_slot 0 k 0 j) c1)
       else if tr_current_id (tch_reg c1) = - 1 then Inl registry_full
       else if t_magnitude (tree_at c1 p) = 0 then Inl finest_split
       else (let (sub_id, c) = spawn_sub_tree p 0 k 0 (t_min (tree_at c j)) c1 in insert_tree_in_tree fuel sub_id j c))"
    by (rule insert_tree_step [OF Suc.prems(1,2,4) pj])
  have lens: "unat p < length (tch_trees c1)" "unat j < length (tch_trees c1)" using Suc.prems(2,3) same(1) by simp_all
  have mag: "t_magnitude (tree_at c1 p) = t_magnitude (tree_at c p)"
    using c1(2) Suc.prems(2) by (intro cell_magnitude) (simp add: grown_def tree_at_def)
  have "joins (unat p) (unat j) c1 (insert_tree_in_tree (Suc fuel) p j c)"
  proof (cases "int (unat (t_magnitude (tree_at c1 p))) - 1 = int (unat (t_magnitude (tree_at c1 j)))")
    case True
    show ?thesis unfolding r if_P [OF True] by (rule link_joins [OF c1(1) lens c1(3,4) True])
  next
    case False
    show ?thesis
    proof (cases "tr_current_id (tch_reg c1) = - 1")
      case True
      then show ?thesis unfolding r if_not_P [OF False] by (simp add: joins_def)
    next
      case nf: False
      obtain q c2 where spawn: "spawn_sub_tree p 0 k 0 (t_min (tree_at c j)) c1 = (q, c2)" by (rule prod.exhaust)
      have m0: "0 < unat (t_magnitude (tree_at c1 p))" using Suc.prems(5) by (simp add: mag)
      have nz: "\<not> t_magnitude (tree_at c1 p) = 0" using m0 by auto
      have n4: "0 < length (lv_nodes (t_levels (tree_at c1 p) ! 4))" "\<not> bit (node_at (tree_at c1 p) 4 0) k"
        using c1(3) alone_zero(1) [OF c1(3)] by (simp_all add: alone_def)
      note sp = spawn_ok [OF c1(1) lens(1) m0 n4 c1(4) nf spawn]
      have j2: "tree_at c2 j = tree_at c j" using sp(6) [OF lens(2)] pj same(2) by (simp add: tree_at_def word_unat_eq_iff)
      have "joins (unat q) (unat j) c2 (insert_tree_in_tree fuel q j c2)"
      proof (rule Suc.IH [OF sp(1)])
        show "unat q < length (tch_trees c2)" "unat j < length (tch_trees c2)" using sp(2,3) lens by simp_all
        show "alone 0 (tree_at c2 q)" unfolding sp(7) by (rule initialize_sub_alone)
        show "unat (t_magnitude (tree_at c2 j)) < unat (t_magnitude (tree_at c2 q))"
          using False Suc.prems(5) sp(4) unfolding j2 same(2) mag by linarith
        show "unat (t_magnitude (tree_at c2 q)) \<le> fuel" using Suc.prems(6) sp(4) unfolding mag by linarith
      qed
      note j = spawn_joins [OF c1(1) lens(1) c1(3,4) m0 nf spawn this]
      show ?thesis unfolding r if_not_P [OF False] if_not_P [OF nf] if_not_P [OF nz] spawn Let_def prod.case by (rule j)
    qed
  qed
  then show ?case using c1(2) by (rule joins_before)
qed

end
