(* ===== verification/TreeGrowth.thy ===== *)
theory TreeGrowth
  imports TreeLinks
begin

text \<open>
  New roots and whole builds: a root that does not hold a chunk is put below one that does, and every
  state a build reaches is in shape, connected, and its root holds all chunks that were added.
\<close>

section \<open>A new root\<close>

definition chunk_ok :: "storage_header \<Rightarrow> bool" where
  "chunk_ok h \<longleftrightarrow> sh_min h \<le> sh_max h \<and> code (sh_max h) < 2 ^ 180 \<and> 0 \<le> sint (sh_lod_span h)"

definition holds_chunk :: "tree_t \<Rightarrow> storage_header \<Rightarrow> bool" where
  "holds_chunk t h \<longleftrightarrow> t_min t \<le> sh_min h \<and> sh_max h \<le> t_max t"

definition root_ok :: "tree_cache \<Rightarrow> u32 \<Rightarrow> bool" where
  "root_ok c i \<longleftrightarrow> cache_ok c \<and> unat i < length (tch_trees c) \<and> root_cell (tree_at c i)"

lemma root_cell_bounds:
  assumes "root_cell t"
  shows "t_min t \<le> t_max t" and "code (t_max t) < 2 ^ 180"
proof -
  have "code (t_max t) = code (t_min t) + (2 ^ cell_bits (t_magnitude t) - 1)" using assms by (simp only: root_cell_def)
  then show "t_min t \<le> t_max t" unfolding code_order by (metis le_add1)
  show "code (t_max t) < 2 ^ 180" using assms by (simp add: root_cell_def)
qed

lemma block_end_less:
  assumes "a < (2 :: nat) ^ k" and "n \<le> k"
  shows "a - a mod 2 ^ n + (2 ^ n - 1) < 2 ^ k"
proof -
  have k: "(2 :: nat) ^ k = 2 ^ (k - n) * 2 ^ n" using assms(2) by (simp flip: power_add)
  have "a div 2 ^ n < 2 ^ (k - n)" using assms(1) by (simp add: div_less_iff_less_mult k)
  then have "(a div 2 ^ n + 1) * 2 ^ n \<le> 2 ^ k" unfolding k by (intro mult_le_mono1) simp
  moreover have "a - a mod 2 ^ n = a div 2 ^ n * 2 ^ n" by (rule minus_mod_eq_div_mult)
  moreover have "(0 :: nat) < 2 ^ n" by simp
  ultimately show ?thesis unfolding add_mult_distrib by linarith
qed

lemma clear_bits: "(a - a mod 2 ^ n) mod 2 ^ n = (0 :: nat)" "(a - a mod 2 ^ n) div 2 ^ n = a div (2 ^ n :: nat)"
  by (simp_all add: minus_mod_eq_div_mult)

lemma set_cell_root:
  assumes "unat m \<le> 11" and "t_magnitude t = m" and "code v < 2 ^ 180"
    and "t_min t = m192_of (morton_and (m192_words v) (morton_negate (cell_mask m)))"
    and "t_max t = m192_of (morton_or (m192_words v) (cell_mask m))"
  shows "root_cell t" and "code (t_min t) div 2 ^ cell_bits m = code v div 2 ^ cell_bits m"
proof -
  note k = cell_mask_val [OF assms(1)]
  have "length (morton_and (m192_words v) (morton_negate (cell_mask m))) = 3" "length (morton_or (m192_words v) (cell_mask m)) = 3"
    by (simp_all add: morton_and_def morton_negate_def morton_or_def k(2))
  then have c: "code (t_min t) = code v - code v mod 2 ^ cell_bits m"
    "code (t_max t) = code v - code v mod 2 ^ cell_bits m + (2 ^ cell_bits m - 1)"
    using clear_low(1) [OF _ k(2,1), of "m192_words v"] fill_low [OF _ k(2,1), of "m192_words v"]
    by (simp_all add: assms(4,5) words_of_m192)
  then show "root_cell t" using assms(1,2) block_end_less [OF assms(3), of "cell_bits m"] by (simp add: root_cell_def clear_bits(1))
  show "code (t_min t) div 2 ^ cell_bits m = code v div 2 ^ cell_bits m" by (simp only: c clear_bits(2))
qed

lemma new_parent_cell:
  assumes "root_cell t" and "chunk_ok h" and "\<not> holds_chunk t h"
    and "p = tree_initialize_new_parent t (sh_min h) (sh_max h) (new_tree i)"
  shows "root_cell p" and "holds_chunk p h" and "t_min p \<le> t_min t" and "t_max t \<le> t_max p"
    and "unat (t_magnitude t) < unat (t_magnitude p)" and "alone 0 p"
proof -
  define a b where "a = min (t_min t) (sh_min h)" and "b = max (t_max t) (sh_max h)"
  note b180 = root_cell_bounds [OF assms(1)]
  have order: "a \<le> t_min t" "a \<le> sh_min h" "t_max t \<le> b" "sh_max h \<le> b" "a \<le> b"
    using b180(1) assms(2) by (auto simp: a_def b_def chunk_ok_def le_max_iff_disj min_le_iff_disj)
  have b: "code b < 2 ^ 180" using b180(2) assms(2) by (simp add: b_def chunk_ok_def max_def)
  have a: "code a < 2 ^ 180" using b order(5) by (simp add: code_order)
  let ?m = "span_magnitude a b"
  note s = span_holds [OF a b]
  note k = cell_mask_val [OF s(1)]
  have mm: "(if m192_lt (t_min t) (sh_min h) then t_min t else sh_min h) = a"
    "(if m192_lt (t_max t) (sh_max h) then sh_max h else t_max t) = b"
    by (auto simp: a_def b_def min_def max_def simp flip: less_m192_def)
  define lo where "lo = m192_of (morton_and (morton_negate (cell_mask ?m)) (m192_words a))"
  have p: "p = push_root_node (root_node_name ?m (t_min t)) (new_tree i
      \<lparr>t_magnitude := ?m, t_min := lo, t_max := m192_of (morton_or (m192_words lo) (cell_mask ?m))\<rparr>)"
    unfolding assms(4) tree_initialize_new_parent_def mm Let_def span_magnitude_def [symmetric] lo_def by simp
  have f: "t_magnitude p = ?m" "t_min p = lo" "t_max p = m192_of (morton_or (m192_words lo) (cell_mask ?m))"
    by (simp_all add: p push_root_node_def)
  show "alone 0 p" unfolding p by (rule push_root_alone)
  have len: "length (morton_and (morton_negate (cell_mask ?m)) (m192_words a)) = 3" "length (morton_or (m192_words lo) (cell_mask ?m)) = 3"
    by (simp_all add: morton_and_def morton_negate_def morton_or_def k(2))
  have lo: "code lo = code a - code a mod 2 ^ cell_bits ?m"
    using clear_low(2) [OF _ k(2,1), of "m192_words a"] by (simp add: lo_def words_of_m192 [OF len(1)])
  have hi: "code (t_max p) = code lo + (2 ^ cell_bits ?m - 1)"
    using fill_low [OF _ k(2,1), of "m192_words lo"] by (simp add: f words_of_m192 [OF len(2)] lo clear_bits(1))
  show r: "root_cell p" using s(1) hi block_end_less [OF a, of "cell_bits ?m"] by (simp add: root_cell_def f lo clear_bits(1))
  have "code lo div 2 ^ cell_bits ?m = code a div 2 ^ cell_bits ?m" by (simp only: lo clear_bits(2))
  then have "t_min p \<le> a" "b \<le> t_max p"
    using in_root_cell [OF r, of a] in_root_cell [OF r, of b] s(2) by (simp_all add: f)
  then show "holds_chunk p h" "t_min p \<le> t_min t" "t_max t \<le> t_max p"
    using order by (auto simp: holds_chunk_def intro: order_trans)
  show "unat (t_magnitude t) < unat (t_magnitude p)"
  proof (rule ccontr)
    assume "\<not> ?thesis"
    then have le: "cell_bits ?m \<le> cell_bits (t_magnitude t)" by (simp add: f)
    have "code a div 2 ^ cell_bits (t_magnitude t) = code b div 2 ^ cell_bits (t_magnitude t)"
      using s(2) le by (metis div_exp_eq le_add_diff_inverse)
    moreover have "\<not> (t_min t \<le> a \<and> a \<le> t_max t) \<or> \<not> (t_min t \<le> b \<and> b \<le> t_max t)"
      using assms(2,3) by (auto simp: holds_chunk_def a_def b_def min_def max_def split: if_splits)
    moreover have "code (t_min t) \<le> code b" "code a \<le> code (t_min t)" using order b180(1) by (auto simp: code_order)
    then have "code a div 2 ^ cell_bits (t_magnitude t) \<le> code (t_min t) div 2 ^ cell_bits (t_magnitude t)"
      "code (t_min t) div 2 ^ cell_bits (t_magnitude t) \<le> code b div 2 ^ cell_bits (t_magnitude t)"
      by (simp_all add: div_le_mono)
    ultimately show False using in_root_cell [OF assms(1)] by (metis le_antisym)
  qed
qed

section \<open>Reparenting\<close>

lemma add_tree_ok:
  assumes "cache_ok c" and "tr_current_id (tch_reg c) \<noteq> - 1" and "tree_cache_add_tree c = (i, c1)"
    and "c2 = upd_tree i f c1" and "tree_shape (f (new_tree i))" and "t_id (f (new_tree i)) = i" and "t_sub_trees (f (new_tree i)) = []"
  shows "cache_ok c2" and "unat i = length (tch_trees c)" and "tch_trees c2 = tch_trees c @ [f (new_tree i)]"
proof -
  let ?n = "length (tch_trees c)"
  have r: "registry_in ?n (tch_reg c)" by (rule cache_okD(1) [OF assms(1)])
  have i: "i = tr_current_id (tch_reg c)" using assms(3) by (simp add: tree_cache_add_tree_def Let_def)
  then show n: "unat i = ?n" using r by (simp add: registry_in_def)
  have c1: "tch_trees c1 = tch_trees c @ [new_tree i]" "registry_in (Suc ?n) (tch_reg c1)"
    using assms(2,3) r unat_plus_one [of "tr_current_id (tch_reg c)"]
    by (auto simp: tree_cache_add_tree_def Let_def registry_in_def)
  then show t: "tch_trees c2 = tch_trees c @ [f (new_tree i)]"
    using n by (simp add: assms(4) upd_tree_def tree_at_def list_update_append nth_append)
  have "tree_in (tch_trees c2) j (tch_trees c2 ! j)" if "j < Suc ?n" for j
  proof (cases "j = ?n")
    case True
    then show ?thesis using n assms(5-7) by (simp add: t nth_append tree_in_def)
  next
    case False
    then have "j < ?n" using that by simp
    then show ?thesis using tree_in_mono [OF cache_okD(2) [OF assms(1)], of j "tch_trees c2"] by (simp add: t nth_append)
  qed
  then show "cache_ok c2" using c1(2) by (simp add: cache_ok_def t) (simp add: assms(4))
qed

text \<open>What a new root is to the old one: it holds the chunk and the old cell, and the old tree hangs below it.\<close>

definition reroots :: "nat \<Rightarrow> u32 \<Rightarrow> storage_header \<Rightarrow> tree_cache \<Rightarrow> build_stop + u32 \<times> tree_cache \<Rightarrow> bool" where
  "reroots fuel i h c res \<longleftrightarrow> (11 \<le> fuel \<longrightarrow> res \<noteq> Inl out_of_fuel) \<and>
     (\<forall>r c'. res = Inr (r, c') \<longrightarrow> root_ok c' r \<and> holds_chunk (tree_at c' r) h \<and>
        t_min (tree_at c' r) \<le> t_min (tree_at c i) \<and> t_max (tree_at c i) \<le> t_max (tree_at c' r) \<and>
        (unat r, unat i) \<in> (linked c')\<^sup>* \<and> linked c \<subseteq> linked c' \<and>
        (\<forall>j. length (tch_trees c) \<le> j \<longrightarrow> j < length (tch_trees c') \<longrightarrow> (unat r, j) \<in> (linked c')\<^sup>*) \<and>
        (\<forall>j < length (tch_trees c). tch_trees c' ! j = tch_trees c ! j))"

lemma new_root_ok:
  assumes "root_ok c i" and "chunk_ok h" and "\<not> holds_chunk (tree_at c i) h" and "tr_current_id (tch_reg c) \<noteq> - 1"
    and "tree_cache_add_tree c = (r, c1)"
    and "f = tree_initialize_new_parent (tree_at c i) (sh_min h) (sh_max h)" and "c2 = upd_tree r f c1"
  shows "cache_ok c2" and "unat r = length (tch_trees c)" and "tch_trees c2 = tch_trees c @ [f (new_tree r)]"
    and "tree_at c2 r = f (new_tree r)" and "tree_at c2 i = tree_at c i"
    and "reparent_tree fuel i (sh_min h) (sh_max h) c =
      (case insert_tree_in_tree fuel r i c2 of Inl e \<Rightarrow> Inl e | Inr c \<Rightarrow> Inr (r, c))"
proof -
  have c: "cache_ok c" "unat i < length (tch_trees c)" "root_cell (tree_at c i)" using assms(1) by (simp_all add: root_ok_def)
  note p = new_parent_cell [OF c(3) assms(2,3) refl, of r, folded assms(6)]
  have "tree_shape (f (new_tree r))" "t_id (f (new_tree r)) = r" "t_sub_trees (f (new_tree r)) = []"
    using p(6) by (simp_all add: alone_def) (simp_all add: assms(6) tree_initialize_new_parent_def Let_def push_root_node_def new_tree_def)
  note a = add_tree_ok [OF c(1) assms(4,5,7) this]
  show "cache_ok c2" "unat r = length (tch_trees c)" "tch_trees c2 = tch_trees c @ [f (new_tree r)]" by (rule a)+
  then show "tree_at c2 r = f (new_tree r)" "tree_at c2 i = tree_at c i"
    using c(2) by (simp_all add: tree_at_def nth_append)
  have "tree_at c1 i = tree_at c i" using c(2) assms(5) by (auto simp: tree_cache_add_tree_def Let_def tree_at_def nth_append)
  then show "reparent_tree fuel i (sh_min h) (sh_max h) c =
      (case insert_tree_in_tree fuel r i c2 of Inl e \<Rightarrow> Inl e | Inr c \<Rightarrow> Inr (r, c))"
    using assms(4) by (simp add: reparent_tree_def assms(5-7))
qed

lemma reparent_reroots:
  assumes "root_ok c i" and "chunk_ok h" and "\<not> holds_chunk (tree_at c i) h" and "11 \<le> fuel"
  shows "reroots fuel i h c (reparent_tree fuel i (sh_min h) (sh_max h) c)"
proof (cases "tr_current_id (tch_reg c) = - 1")
  case True
  then show ?thesis by (simp add: reroots_def reparent_tree_def)
next
  case False
  have c: "cache_ok c" "unat i < length (tch_trees c)" "root_cell (tree_at c i)" using assms(1) by (simp_all add: root_ok_def)
  obtain r c1 where add: "tree_cache_add_tree c = (r, c1)" by (rule prod.exhaust)
  let ?f = "tree_initialize_new_parent (tree_at c i) (sh_min h) (sh_max h)"
  define c2 where "c2 = upd_tree r ?f c1"
  note p = new_parent_cell [OF c(3) assms(2,3) refl, of r]
  note a = new_root_ok [OF assms(1-3) False add refl c2_def]
  note at = a(4,5) and res = a(6)
  have "joins (unat r) (unat i) c2 (insert_tree_in_tree fuel r i c2)"
  proof (rule insert_tree_joins [OF a(1)])
    show "unat r < length (tch_trees c2)" "unat i < length (tch_trees c2)" using a(2,3) c(2) by simp_all
    show "alone 0 (tree_at c2 r)" unfolding at by (rule p(6))
    show "unat (t_magnitude (tree_at c2 i)) < unat (t_magnitude (tree_at c2 r))" unfolding at by (rule p(5))
    show "unat (t_magnitude (tree_at c2 r)) \<le> fuel" using p(1) assms(4) unfolding at by (simp add: root_cell_def)
  qed
  note j = this [unfolded joins_def]
  show ?thesis
  proof (cases "insert_tree_in_tree fuel r i c2")
    case (Inl e)
    then show ?thesis using j by (simp add: reroots_def res)
  next
    case (Inr c3)
    have g: "cache_ok c3" "grown (unat r) c2 c3" "(unat r, unat i) \<in> (linked c3)\<^sup>+" using j Inr by simp_all
    have cell: "cell (tree_at c3 r) = cell (?f (new_tree r))"
      using g(2) a(2,3) at(1) by (simp add: grown_def tree_at_def)
    have "root_ok c3 r" using g(1,2) a(2,3) p(1) root_cell_cong [OF cell] by (simp add: root_ok_def grown_def)
    moreover have "t_min (tree_at c3 r) = t_min (?f (new_tree r))" "t_max (tree_at c3 r) = t_max (?f (new_tree r))"
      using cell by (simp_all add: cell_def)
    moreover have "tch_trees c3 ! j = tch_trees c ! j" if "j < length (tch_trees c)" for j
      using g(2) that a(2,3) by (simp add: grown_def nth_append)
    moreover have "linked c \<subseteq> linked c2" using a(3) by (auto simp: linked_def nth_append)
    then have "linked c \<subseteq> linked c3" using g(2) by (auto simp: grown_def links_grow_def)
    moreover have "(unat r, j) \<in> (linked c3)\<^sup>*" if "length (tch_trees c) \<le> j" "j < length (tch_trees c3)" for j
    proof (cases "j = unat r")
      case False
      then have "length (tch_trees c2) \<le> j" using that(1) a(2,3) by simp
      then show ?thesis using g(2) that(2) by (auto simp: grown_def links_grow_def dest: trancl_into_rtrancl)
    qed simp
    ultimately show ?thesis using p(2-4) trancl_into_rtrancl [OF g(3)] by (simp add: reroots_def res Inr holds_chunk_def)
  qed
qed

section \<open>Adding a chunk\<close>

text \<open>No tree of the registry is out of reach of the root.\<close>

definition connected :: "tree_cache \<Rightarrow> u32 \<Rightarrow> bool" where
  "connected c r \<longleftrightarrow> (\<forall>j < length (tch_trees c). (unat r, j) \<in> (linked c)\<^sup>*)"

definition takes_chunk :: "u32 \<Rightarrow> storage_header \<Rightarrow> tree_cache \<Rightarrow> build_stop + u32 \<times> tree_cache \<Rightarrow> bool" where
  "takes_chunk i h c res \<longleftrightarrow> res \<noteq> Inl out_of_fuel \<and>
     (\<forall>r c'. res = Inr (r, c') \<longrightarrow> root_ok c' r \<and> connected c' r \<and> holds_chunk (tree_at c' r) h \<and>
        t_min (tree_at c' r) \<le> t_min (tree_at c i) \<and> t_max (tree_at c i) \<le> t_max (tree_at c' r))"

lemma enter_chunk_same:
  assumes "cache_ok c" and "unat i < length (tch_trees c)"
  shows "cache_ok (enter_chunk i h a ls c)" and "same_nodes c (enter_chunk i h a ls c)"
proof -
  let ?f = "\<lambda>t. t\<lparr>t_storage_map := add_storage (sh_input h) a ls (t_storage_map t), t_leaves_collapsed := False\<rparr>"
  have k: "keeps_nodes ?f" by (rule keeps_nodes_fields) (simp_all add: cell_def)
  note u = keeps_nodes_upd [OF assms k]
  show "cache_ok (enter_chunk i h a ls c)"
    using u(1) cache_ok_reg [OF u(1)] cache_okD(1) [OF u(1)] by (simp add: enter_chunk_def Let_def registry_in_def)
  show "same_nodes c (enter_chunk i h a ls c)" using u(2) by (simp add: enter_chunk_def Let_def same_nodes_def)
qed

lemma insert_chunk:
  assumes "root_ok c r" and "connected c r" and "holds_chunk (tree_at c r) h" and "chunk_ok h" and "60 \<le> fuel"
    and res: "res = sub_tree_insert_points rd fuel r mn 0 0 name (points_data_initialize blank_collection h) (enter_chunk r h a ls c)"
  shows "res \<noteq> Inl out_of_fuel" and "res = Inr c' \<Longrightarrow> root_ok c' r \<and> connected c' r \<and> cell (tree_at c' r) = cell (tree_at c r)"
proof -
  let ?c = "enter_chunk r h a ls c"
  have c: "cache_ok c" "unat r < length (tch_trees c)" "root_cell (tree_at c r)" using assms(1) by (simp_all add: root_ok_def)
  note e = enter_chunk_same [OF c(1,2), of h a ls]
  have len: "length (tch_trees ?c) = length (tch_trees c)" "cell (tree_at ?c r) = cell (tree_at c r)"
    using e(2) c(2) by (simp_all add: same_nodes_def tree_at_def)
  have "levels_below ?c r 0 \<le> fuel"
    using c(3) assms(5) same_nodes_at(1) [OF e(2) c(2)] by (simp add: levels_below_def root_cell_def)
  moreover have "place_ok ?c r 0 0" using place_ok_root [OF e(1), of r] c(2) len(1) by simp
  moreover have "0 \<le> sint (pc_min_lod (points_data_initialize blank_collection h))"
    using assms(4) by (simp add: chunk_ok_def points_data_initialize_def)
  ultimately have l: "lands ?c r 0 0 True res"
    using insert_lands [of rd fuel] unfolding inserts_land_def res by metis
  then show "res \<noteq> Inl out_of_fuel" by (simp add: lands_def)
  assume "res = Inr c'"
  then have f: "cache_ok c'" "frame r 0 0 ?c c'" using l by (simp_all add: lands_def)
  have cell: "cell (tree_at c' r) = cell (tree_at c r)" using f(2) len c(2) by (simp add: frame_def tree_at_def)
  have "root_ok c' r" using f(1,2) c(2,3) len root_cell_cong [OF cell] by (simp add: root_ok_def frame_def)
  moreover have g: "linked c \<subseteq> linked c'" "\<And>j. length (tch_trees c) \<le> j \<Longrightarrow> j < length (tch_trees c') \<Longrightarrow> (unat r, j) \<in> (linked c')\<^sup>+"
    using f(2) same_nodes_links [OF e(2), of 0] by (auto simp: frame_def links_grow_def len)
  have "connected c' r"
    unfolding connected_def
  proof (intro allI impI)
    fix j assume j: "j < length (tch_trees c')"
    show "(unat r, j) \<in> (linked c')\<^sup>*"
    proof (cases "j < length (tch_trees c)")
      case True
      then have "(unat r, j) \<in> (linked c)\<^sup>*" using assms(2) by (simp add: connected_def)
      then show ?thesis using rtrancl_mono [OF g(1)] by blast
    next
      case False
      then show ?thesis using g(2) j by (simp add: trancl_into_rtrancl)
    qed
  qed
  ultimately show "root_ok c' r \<and> connected c' r \<and> cell (tree_at c' r) = cell (tree_at c r)" using cell by simp
qed

lemma reroots_connected:
  assumes "reroots fuel i h c (Inr (r, c'))" and "connected c i"
  shows "connected c' r"
  unfolding connected_def
proof (intro allI impI)
  fix j assume j: "j < length (tch_trees c')"
  have g: "(unat r, unat i) \<in> (linked c')\<^sup>*" "linked c \<subseteq> linked c'"
    using assms(1) by (simp_all add: reroots_def)
  show "(unat r, j) \<in> (linked c')\<^sup>*"
  proof (cases "j < length (tch_trees c)")
    case True
    then have "(unat i, j) \<in> (linked c)\<^sup>*" using assms(2) by (simp add: connected_def)
    then show ?thesis using rtrancl_mono [OF g(2)] g(1) by (meson rtrancl_trans subsetD)
  next
    case False
    then show ?thesis using assms(1) j by (simp add: reroots_def)
  qed
qed

lemma add_points_takes:
  assumes "root_ok c i" and "connected c i" and "chunk_ok h" and "60 \<le> fuel"
  shows "takes_chunk i h c (tree_add_points rd fuel i h a ls c)"
proof -
  define first where "first = (if m192_lt (sh_min h) (t_min (tree_at c i)) \<or> m192_lt (t_max (tree_at c i)) (sh_max h)
      then reparent_tree fuel i (sh_min h) (sh_max h) c else Inr (i, c))"
  have out: "m192_lt (sh_min h) (t_min (tree_at c i)) \<or> m192_lt (t_max (tree_at c i)) (sh_max h) \<longleftrightarrow> \<not> holds_chunk (tree_at c i) h"
    by (auto simp: holds_chunk_def simp flip: less_m192_def)
  have first: "reroots fuel i h c first"
  proof (cases "holds_chunk (tree_at c i) h")
    case True
    then have "first = Inr (i, c)" using out by (simp add: first_def)
    then show ?thesis using True assms(1) by (simp add: reroots_def)
  next
    case False
    then have "first = reparent_tree fuel i (sh_min h) (sh_max h) c" using out by (simp only: first_def if_True not_False_eq_True)
    then show ?thesis using reparent_reroots [OF assms(1,3) False] assms(4) by simp
  qed
  show ?thesis
  proof (cases first)
    case (Inl e)
    then show ?thesis
      using first assms(4) by (simp add: takes_chunk_def tree_add_points_def first_def [symmetric] reroots_def)
  next
    case (Inr rc)
    then obtain r c1 where rc: "first = Inr (r, c1)" by (cases rc) simp
    have f: "root_ok c1 r" "holds_chunk (tree_at c1 r) h" "t_min (tree_at c1 r) \<le> t_min (tree_at c i)"
      "t_max (tree_at c i) \<le> t_max (tree_at c1 r)"
      using first rc by (simp_all add: reroots_def)
    let ?points = "points_data_initialize blank_collection h"
    let ?ins = "sub_tree_insert_points rd fuel r (t_min (tree_at c1 r)) 0 0 (root_node_name (t_magnitude (tree_at c1 r)) (pc_min ?points))
        ?points (enter_chunk r h a ls c1)"
    note ins = insert_chunk [OF f(1) reroots_connected [OF first [unfolded rc] assms(2)] f(2) assms(3,4) refl]
    have r: "tree_add_points rd fuel i h a ls c = (case ?ins of Inl e \<Rightarrow> Inl e | Inr c \<Rightarrow> Inr (r, c))"
      by (simp add: tree_add_points_def first_def [symmetric] rc Let_def)
    show ?thesis
    proof (cases ?ins)
      case (Inl e)
      then show ?thesis using ins(1) unfolding takes_chunk_def r by auto
    next
      case (Inr c2)
      note i = ins(2) [OF Inr]
      then show ?thesis using f unfolding takes_chunk_def r Inr by (simp add: holds_chunk_def cell_def)
    qed
  qed
qed

section \<open>The first chunk\<close>

lemma initialize_takes:
  assumes "tch_trees c = []" and "cache_ok c" and "chunk_ok h" and "60 \<le> fuel"
  shows "tree_initialize rd fuel h a ls c \<noteq> Inl out_of_fuel"
    and "tree_initialize rd fuel h a ls c = Inr (r, c') \<Longrightarrow> root_ok c' r \<and> connected c' r \<and> holds_chunk (tree_at c' r) h"
proof -
  have c0: "tr_current_id (tch_reg c) \<noteq> - 1" using cache_okD(1) [OF assms(2)] assms(1) by (auto simp: registry_in_def unat_eq_0)
  obtain i c1 where add: "tree_cache_add_tree c = (i, c1)" by (rule prod.exhaust)
  let ?m = "span_magnitude (sh_min h) (sh_max h)"
  let ?f = "\<lambda>t. push_root_node (root_node_name ?m (sh_min h)) ((set_cell ?m (sh_min h) t)\<lparr>t_is_dirty := True\<rparr>)"
  define c2 where "c2 = upd_tree i ?f c1"
  have r: "tree_initialize rd fuel h a ls c = tree_add_points rd fuel i h a ls c2"
    using c0 by (simp add: tree_initialize_def add c2_def span_magnitude_def Let_def)
  have "tree_shape (?f (new_tree i))"
    by (simp add: tree_shape_def push_root_node_def upd_level_def set_cell_def new_tree_def empty_level_def level_shape_def
        eval_nat_numeral less_Suc_eq)
  moreover have "t_id (?f (new_tree i)) = i" "t_sub_trees (?f (new_tree i)) = []"
    by (simp_all add: push_root_node_def set_cell_def new_tree_def)
  ultimately have n: "cache_ok c2" "unat i = 0" "tch_trees c2 = [?f (new_tree i)]"
    using add_tree_ok [OF assms(2) c0 add c2_def] assms(1) by simp_all
  have "code (sh_min h) < 2 ^ 180" "code (sh_max h) < 2 ^ 180" using assms(3) by (auto simp: chunk_ok_def code_order)
  note sp = span_holds [OF this]
  have "root_cell (?f (new_tree i))"
    by (rule set_cell_root [OF sp(1) _ \<open>code (sh_min h) < 2 ^ 180\<close>]) (simp_all add: push_root_node_def set_cell_def)
  then have "root_ok c2 i" using n by (simp add: root_ok_def tree_at_def)
  moreover have "connected c2 i" using n(2,3) by (simp add: connected_def)
  ultimately have t: "takes_chunk i h c2 (tree_initialize rd fuel h a ls c)"
    unfolding r using assms(3,4) by (intro add_points_takes)
  then show "tree_initialize rd fuel h a ls c \<noteq> Inl out_of_fuel"
    and "tree_initialize rd fuel h a ls c = Inr (r, c') \<Longrightarrow> root_ok c' r \<and> connected c' r \<and> holds_chunk (tree_at c' r) h"
    by (simp_all add: takes_chunk_def)
qed

section \<open>A build\<close>

text \<open>The registry at the start, and what a sequence of chunks makes of it.\<close>

definition empty_cache :: "tree_cache \<Rightarrow> bool" where
  "empty_cache c \<longleftrightarrow> tch_trees c = [] \<and> registry_in 0 (tch_reg c)"

inductive built :: "stored_blobs \<Rightarrow> nat \<Rightarrow> storage_header list \<Rightarrow> u32 \<Rightarrow> tree_cache \<Rightarrow> bool" for rd fuel where
  built_first: "empty_cache c \<Longrightarrow> tree_initialize rd fuel h a ls c = Inr (r, c') \<Longrightarrow> built rd fuel [h] r c'"
| built_next: "built rd fuel hs r c \<Longrightarrow> tree_add_points rd fuel r h a ls c = Inr (r', c') \<Longrightarrow> built rd fuel (h # hs) r' c'"

lemma empty_cacheD: "empty_cache c \<Longrightarrow> tch_trees c = [] \<and> cache_ok c"
  by (simp add: empty_cache_def cache_ok_def)

lemma built_ok:
  assumes "built rd fuel hs r c" and "60 \<le> fuel" and "\<And>h. h \<in> set hs \<Longrightarrow> chunk_ok h"
  shows "root_ok c r \<and> connected c r \<and> (\<forall>h \<in> set hs. holds_chunk (tree_at c r) h)"
  using assms
proof (induction rule: built.induct)
  case (built_first c h a ls r c')
  then show ?case using initialize_takes(2) [of c h fuel] empty_cacheD [of c] by simp
next
  case (built_next hs r c h a ls r' c')
  then have ih: "root_ok c r" "connected c r" "\<forall>h \<in> set hs. holds_chunk (tree_at c r) h" "chunk_ok h" by simp_all
  have t: "root_ok c' r'" "connected c' r'" "holds_chunk (tree_at c' r') h"
    "t_min (tree_at c' r') \<le> t_min (tree_at c r)" "t_max (tree_at c r) \<le> t_max (tree_at c' r')"
    using add_points_takes [OF ih(1,2,4) built_next.prems(1), of rd a ls] built_next.hyps by (simp_all add: takes_chunk_def)
  then show ?case using ih(3) by (auto simp: holds_chunk_def intro: order_trans)
qed

end
