(* ===== verification/TreeProperties.thy ===== *)
theory TreeProperties
  imports TreeGrowth
begin

text \<open>
  What the construction of the tree promises, at the level of the calls the converter makes: the
  invariant of every state a build reaches, the return of every call, new roots, and the locality of
  an insertion. The example is a registry with a node limit of ten points and chunks of five.
\<close>

section \<open>Properties\<close>

text \<open>C19: Whatever chunks are added, in whatever order, every tree of the registry keeps its arrays in shape and numbered by its place, sub-trees are one magnitude below their parents, every tree is reachable from the root, and the cell of the root holds every chunk that was added.\<close>

theorem build_invariant:
  assumes "built rd fuel hs r c" and "60 \<le> fuel" and "\<forall>h \<in> set hs. chunk_ok h"
  shows "cache_ok c \<and> connected c r \<and> (\<forall>h \<in> set hs. holds_chunk (tree_at c r) h)"
  using built_ok [OF assms(1,2)] assms(3) by (simp add: root_ok_def)

text \<open>C20: Adding a chunk to a registry that was built from chunks never runs out of fuel 60, whatever the storage delivers: the call ends with the new registry or at one of the three named stops, an unknown unit (the code throws), no tree id left, or \<open>finest_split\<close>, a node of the finest level that would need a sub-tree of magnitude -1, where the behaviour of a build without assertions is undefined. The example \<open>finest_split_reached\<close> below shows that chunks can lead there.\<close>

theorem build_returns:
  assumes "built rd fuel hs r c" and "60 \<le> fuel" and "\<forall>h \<in> set hs. chunk_ok h" and "chunk_ok h"
  shows "tree_add_points rd fuel r h attributes locations c \<noteq> Inl out_of_fuel"
proof -
  have "root_ok c r \<and> connected c r" using built_ok [OF assms(1,2)] assms(3) by simp
  then show ?thesis
    using add_points_takes [of c r h fuel rd attributes locations] assms(2,4) by (simp add: takes_chunk_def)
qed

text \<open>C21: A new root holds the old root's cell and the chunk it was made for, the old root hangs below it, and no tree of the registry is changed.\<close>

theorem reparent_keeps_trees:
  assumes "root_ok c i" and "chunk_ok h" and "\<not> holds_chunk (tree_at c i) h" and "11 \<le> fuel"
    and "reparent_tree fuel i (sh_min h) (sh_max h) c = Inr (r, c')"
  shows "root_ok c' r \<and> holds_chunk (tree_at c' r) h \<and> t_min (tree_at c' r) \<le> t_min (tree_at c i) \<and>
    t_max (tree_at c i) \<le> t_max (tree_at c' r) \<and> (unat r, unat i) \<in> (linked c')\<^sup>* \<and>
    (\<forall>j < length (tch_trees c). tch_trees c' ! j = tch_trees c ! j)"
  using reparent_reroots [OF assms(1-4)] assms(5) by (simp add: reroots_def)

text \<open>C22: An insertion at a node is confined to what hangs below it. Every tree that is neither the tree of the node nor linked below one of the sub-tree slots of the node is unchanged; in the tree of the node the levels above are unchanged, and in the level of the node and every level below it the nodes, names and points of all places outside the segment of the node's descendants are unchanged and keep their order, as do the sub-tree slots outside the segment; the cells of all trees stay, no link is cut, and no tree there was gets a new parent. The invariant of the registry is kept.\<close>

theorem insertion_is_local:
  assumes "place_ok c i level skip" and "0 \<le> sint (pc_min_lod points)"
    and "sub_tree_insert_points rd fuel i mn level skip name points c = Inr c'"
  shows "cache_ok c' \<and> linked c \<subseteq> linked c' \<and> old_links c c' \<and>
    (\<forall>j < length (tch_trees c). j \<noteq> unat i \<longrightarrow> \<not> hangs_below c i level skip j \<longrightarrow> tch_trees c' ! j = tch_trees c ! j) \<and>
    (\<forall>j < length (tch_trees c). cell (tch_trees c' ! j) = cell (tch_trees c ! j)) \<and>
    (\<forall>l < level. t_levels (tree_at c' i) ! l = t_levels (tree_at c i) ! l) \<and>
    same_outside skip 1 1 (drop level (t_levels (tree_at c i))) (drop level (t_levels (tree_at c' i)))
      (t_sub_trees (tree_at c i)) (t_sub_trees (tree_at c' i))"
proof -
  have f: "cache_ok c' \<and> frame i level skip c c'"
    using insert_lands [of rd fuel, unfolded inserts_land_def, rule_format, OF assms(1,2), of mn name]
    by (simp add: assms(3) lands_def)
  then have "confined i level skip c c'" by (simp add: frame_def)
  note d = confinedD [OF this]
  have "linked c \<subseteq> linked c'" using f by (simp add: frame_def links_grow_def)
  then show ?thesis using f d(1,2,4) unfolding confined_tree_def frame_def by blast
qed

section \<open>An example\<close>

definition example_cache :: tree_cache where
  "example_cache = \<lparr>tch_reg = new_tree_registry\<lparr>tr_node_limit := 10\<rparr>, tch_trees = []\<rparr>"

definition example_chunk :: "u32 \<Rightarrow> m192 \<Rightarrow> storage_header" where
  "example_chunk n v = \<lparr>sh_input = \<lparr>id_data = n, id_sub = 0\<rparr>, sh_count = 5, sh_type = 0, sh_components = 0,
     sh_pad = 0, sh_min = v, sh_max = v, sh_lod_span = 0, sh_pad_end = 0\<rparr>"

definition no_blobs :: stored_blobs where
  "no_blobs l = Inr []"

definition one_chunk :: tree_cache where
  "one_chunk = (case tree_initialize no_blobs 60 (example_chunk 1 (M192 0 0 0)) 0 [] example_cache of
     Inr (r, c) \<Rightarrow> c | Inl e \<Rightarrow> example_cache)"

lemma first_chunk: "tree_initialize no_blobs 60 (example_chunk 1 (M192 0 0 0)) 0 [] example_cache = Inr (0, one_chunk)"
proof -
  have "case tree_initialize no_blobs 60 (example_chunk 1 (M192 0 0 0)) 0 [] example_cache of Inr (r, c) \<Rightarrow> r = 0 | Inl e \<Rightarrow> False"
    by code_simp
  then show ?thesis by (simp add: one_chunk_def split: sum.splits prod.splits)
qed

lemma example_chunk_ok: "chunk_ok (example_chunk n (M192 w 0 0))"
proof -
  have "unat w < 2 ^ 64" using unat_less_pow [of w] by simp
  then show ?thesis by (simp add: chunk_ok_def example_chunk_def)
qed

lemma example_built: "built no_blobs 60 [example_chunk 1 (M192 0 0 0)] 0 one_chunk"
proof (rule built_first [OF _ first_chunk])
  show "empty_cache example_cache" by (simp add: empty_cache_def example_cache_def registry_in_def new_tree_registry_def)
qed

lemma second_chunk:
  "case tree_add_points no_blobs 60 0 (example_chunk 2 (M192 7 0 0)) 0 [] one_chunk of Inr (r, c) \<Rightarrow> r = 0 | Inl e \<Rightarrow> False"
  by code_simp

lemma third_chunk:
  "case sub_tree_insert_points no_blobs 60 0 (M192 0 0 0) 0 0 0
     (points_data_initialize blank_collection (example_chunk 3 (M192 9 0 0))) one_chunk of Inr c \<Rightarrow> True | Inl e \<Rightarrow> False"
  by code_simp

text \<open>Two chunks of one point each at the same place, with room for one point per node: the second one is
  pushed down through all levels of the smallest tree and asks for a sub-tree below the finest level.\<close>

definition twin_chunk :: "u32 \<Rightarrow> storage_header" where
  "twin_chunk n = (example_chunk n (M192 0 0 0))\<lparr>sh_type := dew_type_code dew_type_m32, sh_count := 1\<rparr>"

definition twin_blobs :: stored_blobs where
  "twin_blobs l = Inr ([1, 0, 0, 0, 0, 0, 0, 0, 1, 0, 0, 0, 6] @ replicate 71 0)"

definition twin_cache :: tree_cache where
  "twin_cache = \<lparr>tch_reg = new_tree_registry\<lparr>tr_node_limit := 1\<rparr>, tch_trees = []\<rparr>"

definition first_twin :: tree_cache where
  "first_twin = (case tree_initialize twin_blobs 60 (twin_chunk 1) 0 [no_location] twin_cache of
     Inr (r, c) \<Rightarrow> c | Inl e \<Rightarrow> twin_cache)"

lemma twin_built: "built twin_blobs 60 [twin_chunk 1] 0 first_twin"
proof (rule built_first)
  show "empty_cache twin_cache" by (simp add: empty_cache_def twin_cache_def registry_in_def new_tree_registry_def)
  have "case tree_initialize twin_blobs 60 (twin_chunk 1) 0 [no_location] twin_cache of Inr (r, c) \<Rightarrow> r = 0 | Inl e \<Rightarrow> False"
    by code_simp
  then show "tree_initialize twin_blobs 60 (twin_chunk 1) 0 [no_location] twin_cache = Inr (0, first_twin)"
    by (simp add: first_twin_def split: sum.splits prod.splits)
qed

lemma finest_split_reached:
  "built twin_blobs 60 [twin_chunk 1] 0 first_twin \<and> chunk_ok (twin_chunk 2) \<and>
   tree_add_points twin_blobs 60 0 (twin_chunk 2) 0 [no_location] first_twin = Inl finest_split"
proof -
  have "chunk_ok (twin_chunk 2)" using example_chunk_ok [of 2 0] by (simp add: chunk_ok_def twin_chunk_def)
  moreover have "case tree_add_points twin_blobs 60 0 (twin_chunk 2) 0 [no_location] first_twin of
      Inl finest_split \<Rightarrow> True | _ \<Rightarrow> False" by code_simp
  ultimately show ?thesis using twin_built by (simp split: sum.splits build_stop.splits)
qed

section \<open>The properties at the example\<close>

theorem build_invariant_witness:
  "\<exists>c r. cache_ok c \<and> connected c r \<and>
    (\<forall>h \<in> set [example_chunk 2 (M192 7 0 0), example_chunk 1 (M192 0 0 0)]. holds_chunk (tree_at c r) h)"
proof -
  obtain r c where "tree_add_points no_blobs 60 0 (example_chunk 2 (M192 7 0 0)) 0 [] one_chunk = Inr (r, c)"
    using second_chunk by (auto split: sum.splits)
  from built_next [OF example_built this]
  have "built no_blobs 60 [example_chunk 2 (M192 7 0 0), example_chunk 1 (M192 0 0 0)] r c" .
  from build_invariant [OF this] show ?thesis by (auto simp: example_chunk_ok)
qed

theorem build_returns_witness:
  "tree_add_points no_blobs 60 0 (example_chunk 2 (M192 1099511627776 0 0)) 0 [] one_chunk \<noteq> Inl out_of_fuel"
  by (rule build_returns [OF example_built]) (simp_all add: example_chunk_ok)

lemma example_root: "root_ok one_chunk 0"
  using built_ok [OF example_built] by (simp add: example_chunk_ok)

theorem reparent_keeps_trees_witness:
  "\<exists>r c'. reparent_tree 60 0 (M192 32768 0 0) (M192 32768 0 0) one_chunk = Inr (r, c') \<and>
    t_max (tree_at one_chunk 0) \<le> t_max (tree_at c' r) \<and> (unat r, 0) \<in> (linked c')\<^sup>*"
proof -
  let ?h = "example_chunk 2 (M192 32768 0 0)"
  have h: "sh_min ?h = M192 32768 0 0" "sh_max ?h = M192 32768 0 0" by (simp_all add: example_chunk_def)
  have out: "\<not> holds_chunk (tree_at one_chunk 0) ?h" by code_simp
  have id: "tr_current_id (tch_reg one_chunk) \<noteq> - 1" by code_simp
  obtain r c1 where add: "tree_cache_add_tree one_chunk = (r, c1)" by (rule prod.exhaust)
  note n = new_root_ok [OF example_root example_chunk_ok out id add refl refl]
  let ?f = "tree_initialize_new_parent (tree_at one_chunk 0) (sh_min ?h) (sh_max ?h)"
  let ?c2 = "upd_tree r ?f c1"
  have m: "t_magnitude (tree_at one_chunk 0) = 0" by code_simp
  have one: "length (tch_trees one_chunk) = 1" by code_simp
  have r: "r = 1" using n(2) by (simp add: one word_unat_eq_iff)
  have m1: "t_magnitude (?f (new_tree 1)) = 1" by code_simp
  have a: "alone 0 (tree_at ?c2 r)" unfolding n(4)
    by (rule new_parent_cell(6) [OF _ example_chunk_ok out refl]) (use example_root in \<open>simp add: root_ok_def\<close>)
  have len: "unat r < length (tch_trees ?c2)" using n(2,3) by simp
  obtain c3 where "insert_tree_in_tree (Suc 59) r 0 ?c2 = Inr c3"
  proof (rule insert_tree_step [OF n(1) len a, of 0 59])
    show "r \<noteq> 0" by (simp add: r)
    fix k c1 assume s: "grown (unat r) ?c2 c1" "tree_at c1 0 = tree_at ?c2 0"
      and e: "insert_tree_in_tree (Suc 59) r 0 ?c2 =
      (if int (unat (t_magnitude (tree_at c1 r))) - 1 = int (unat (t_magnitude (tree_at c1 0)))
       then Inr (upd_tree r (grow_slot 0 k 0 0) c1)
       else if tr_current_id (tch_reg c1) = - 1 then Inl registry_full
       else if t_magnitude (tree_at c1 r) = 0 then Inl finest_split
       else (let (sub_id, c) = spawn_sub_tree r 0 k 0 (t_min (tree_at ?c2 0)) c1 in insert_tree_in_tree 59 sub_id 0 c))"
    have "t_magnitude (tree_at c1 r) = 1"
      using s(1) len n(4) m1 r by (simp add: grown_def cell_def tree_at_def)
    then have "int (unat (t_magnitude (tree_at c1 r))) - 1 = int (unat (t_magnitude (tree_at c1 0)))"
      unfolding s(2) n(5) m by simp
    from e [unfolded if_P [OF this]] show thesis by (rule that)
  qed
  then have "reparent_tree 60 0 (sh_min ?h) (sh_max ?h) one_chunk = Inr (r, c3)" unfolding n(6) by simp
  from this reparent_keeps_trees [OF example_root example_chunk_ok out _ this]
  show ?thesis by (auto simp: h)
qed

theorem insertion_is_local_witness:
  "\<exists>c'. sub_tree_insert_points no_blobs 60 0 (M192 0 0 0) 0 0 0
     (points_data_initialize blank_collection (example_chunk 3 (M192 9 0 0))) one_chunk = Inr c' \<and> cache_ok c' \<and>
     linked one_chunk \<subseteq> linked c' \<and> same_outside 0 1 1 (t_levels (tree_at one_chunk 0)) (t_levels (tree_at c' 0))
       (t_sub_trees (tree_at one_chunk 0)) (t_sub_trees (tree_at c' 0))"
proof -
  obtain c' where c': "sub_tree_insert_points no_blobs 60 0 (M192 0 0 0) 0 0 0
     (points_data_initialize blank_collection (example_chunk 3 (M192 9 0 0))) one_chunk = Inr c'"
    using third_chunk by (auto split: sum.splits)
  have "place_ok one_chunk 0 0 0" using example_root by (intro place_ok_root) (simp_all add: root_ok_def)
  from insertion_is_local [OF this _ c'] c' show ?thesis
    by (auto simp: points_data_initialize_def example_chunk_def)
qed

end
