(* ===== verification/InputRegistry.thy ===== *)
theory InputRegistry
  imports TreeRegistry "HOL-Library.AList"
begin

text \<open>
  \<open>src/src/converter/input_data_source_registry.cpp\<close>: the input files of a conversion, the order they
  are dispatched in and the done-morton watermark. Every operation runs under the mutex of the
  registry, so a run is a sequence of operations. The hash map keeps its items in the order they were
  inserted in and never erases one: an association list. The counter of file ids is process-wide; it
  is a field of the state. Names are byte strings, floating-point fields their bit patterns; the
  conversion of a position to a code is the argument \<open>to_morton\<close>. \<open>std::make_heap\<close> and
  \<open>std::pop_heap\<close> hand out an element with the least order, which of several the standard leaves
  open: the argument \<open>pick\<close>.
\<close>

section \<open>The state\<close>

text \<open>Three doubles, by their bit patterns.\<close>

type_synonym position = "u64 \<times> u64 \<times> u64"

record converter_header =
  ch_point_count :: u64
  ch_offset :: position
  ch_scale :: position
  ch_min :: position
  ch_max :: position

definition zero_header :: converter_header where
  "zero_header = \<lparr>ch_point_count = 0, ch_offset = (0, 0, 0), ch_scale = (0, 0, 0), ch_min = (0, 0, 0), ch_max = (0, 0, 0)\<rparr>"

record input_item =
  ii_id :: input_data_id
  ii_attribute :: attributes_id
  ii_name :: bytes
  ii_header :: converter_header
  ii_min :: m192
  ii_max :: m192
  ii_order :: m192
  ii_read_started :: bool
  ii_read_finished :: bool
  ii_pre_init_settled :: bool
  ii_point_size :: u8
  ii_inserted :: u32
  ii_sub_count :: u32
  ii_point_count :: u64
  ii_file_size :: u64
  ii_locations :: "storage_location list"

definition zero_m192 :: m192 where "zero_m192 = M192 0 0 0"
definition ones_m192 :: m192 where "ones_m192 = M192 (- 1) (- 1) (- 1)"

text \<open>A value-initialised item.\<close>

definition new_item :: input_item where
  "new_item = \<lparr>ii_id = \<lparr>id_data = 0, id_sub = 0\<rparr>, ii_attribute = 0, ii_name = [], ii_header = zero_header,
     ii_min = zero_m192, ii_max = zero_m192, ii_order = zero_m192, ii_read_started = False, ii_read_finished = False,
     ii_pre_init_settled = False, ii_point_size = 0, ii_inserted = 0, ii_sub_count = 0, ii_point_count = 0,
     ii_file_size = 0, ii_locations = []\<rparr>"

record input_registry =
  sr_items :: "(u32 \<times> input_item) list"
  sr_with_sub_parts :: u32
  sr_inserted_to_tree :: u32
  sr_done_count :: u32
  sr_unsorted :: "u32 list"
  sr_sorted :: "u32 list"
  sr_dirty :: bool
  sr_done_prefix :: u32
  sr_next_id :: u32

definition new_input_registry :: "u32 \<Rightarrow> input_registry" where
  "new_input_registry next_id = \<lparr>sr_items = [], sr_with_sub_parts = 0, sr_inserted_to_tree = 0, sr_done_count = 0,
     sr_unsorted = [], sr_sorted = [], sr_dirty = True, sr_done_prefix = 0, sr_next_id = next_id\<rparr>"

text \<open>\<open>operator[]\<close> of the map makes an item where there is none.\<close>

definition item_of :: "u32 \<Rightarrow> input_registry \<Rightarrow> input_item" where
  "item_of i r = (case map_of (sr_items r) i of None \<Rightarrow> new_item | Some x \<Rightarrow> x)"

definition set_item :: "u32 \<Rightarrow> input_item \<Rightarrow> input_registry \<Rightarrow> input_registry" where
  "set_item i x r = r\<lparr>sr_items := AList.update i x (sr_items r)\<rparr>"

definition upd_item :: "u32 \<Rightarrow> (input_item \<Rightarrow> input_item) \<Rightarrow> input_registry \<Rightarrow> input_registry" where
  "upd_item i f r = set_item i (f (item_of i r)) r"

section \<open>Registering files\<close>

definition get_next_input_id :: "input_registry \<Rightarrow> input_data_id \<times> input_registry" where
  "get_next_input_id r = (\<lparr>id_data = sr_next_id r, id_sub = 0\<rparr>, r\<lparr>sr_next_id := sr_next_id r + 1\<rparr>)"

definition ensure_next_input_id_above :: "u32 \<Rightarrow> input_registry \<Rightarrow> input_registry" where
  "ensure_next_input_id_above max_seen_id r =
     (if sr_next_id r \<le> max_seen_id then r\<lparr>sr_next_id := max_seen_id + 1\<rparr> else r)"

definition fully_inserted :: "input_item \<Rightarrow> bool" where
  "fully_inserted x \<longleftrightarrow> ii_read_finished x \<and> ii_inserted x = ii_sub_count x"

text \<open>The result is the id, and whether the file completed in an earlier session.\<close>

definition register_file :: "bytes \<Rightarrow> input_registry \<Rightarrow> (input_data_id \<times> bool) \<times> input_registry" where
  "register_file name r =
     (case find (\<lambda>(_, x). ii_name x = name) (sr_items r) of
        Some (_, x) \<Rightarrow> ((ii_id x, fully_inserted x), r)
      | None \<Rightarrow>
          (let (input_id, r) = get_next_input_id r
           in ((input_id, False),
               upd_item (id_data input_id)
                 (\<lambda>x. x\<lparr>ii_min := ones_m192, ii_id := input_id, ii_name := name, ii_attribute := 0, ii_header := zero_header\<rparr>) r)))"

definition register_pre_init_result :: "(position \<Rightarrow> m192) \<Rightarrow> input_data_id \<Rightarrow> bool \<Rightarrow> position \<Rightarrow> u64 \<Rightarrow> u8 \<Rightarrow> u64 \<Rightarrow> input_registry \<Rightarrow> input_registry" where
  "register_pre_init_result to_morton i found_min mn point_count point_size file_size r =
     (upd_item (id_data i) (\<lambda>x. x\<lparr>ii_point_count := point_count, ii_point_size := point_size, ii_file_size := file_size,
        ii_order := (if found_min then to_morton mn else zero_m192), ii_pre_init_settled := True\<rparr>) r)\<lparr>sr_dirty := True\<rparr>"

section \<open>The events of a file\<close>

definition handle_input_init :: "input_data_id \<Rightarrow> attributes_id \<Rightarrow> converter_header \<Rightarrow> input_registry \<Rightarrow> input_registry" where
  "handle_input_init i attributes header r = upd_item (id_data i) (\<lambda>x. x\<lparr>ii_attribute := attributes, ii_header := header\<rparr>) r"

definition handle_sub_added :: "input_data_id \<Rightarrow> input_registry \<Rightarrow> input_registry" where
  "handle_sub_added i r =
     (upd_item (id_data i) (\<lambda>x. x\<lparr>ii_sub_count := ii_sub_count x + 1\<rparr>) r)\<lparr>sr_with_sub_parts := sr_with_sub_parts r + 1\<rparr>"

definition handle_sorted_points :: "input_data_id \<Rightarrow> m192 \<Rightarrow> m192 \<Rightarrow> input_registry \<Rightarrow> input_registry" where
  "handle_sorted_points i mn mx r =
     upd_item (id_data i) (\<lambda>x. x\<lparr>ii_min := (if m192_lt mn (ii_min x) then mn else ii_min x),
       ii_max := (if m192_lt (ii_max x) mx then mx else ii_max x)\<rparr>) r"

definition handle_points_written :: "input_data_id \<Rightarrow> storage_location list \<Rightarrow> input_registry \<Rightarrow> input_registry" where
  "handle_points_written i locations r = upd_item (id_data i) (\<lambda>x. x\<lparr>ii_locations := locations\<rparr>) r"

definition retire :: "u32 \<Rightarrow> input_registry \<Rightarrow> input_registry" where
  "retire i r = (if ii_read_finished (item_of i r) then r
     else (upd_item i (\<lambda>x. x\<lparr>ii_read_finished := True\<rparr>) r)\<lparr>sr_done_count := sr_done_count r + 1\<rparr>)"

definition handle_reading_done :: "input_data_id \<Rightarrow> input_registry \<Rightarrow> input_registry" where
  "handle_reading_done i r = retire (id_data i) r"

definition handle_file_failed :: "input_data_id \<Rightarrow> input_registry \<Rightarrow> input_registry" where
  "handle_file_failed i r =
     retire (id_data i)
       ((upd_item (id_data i) (\<lambda>x. x\<lparr>ii_pre_init_settled := True, ii_read_started := True\<rparr>) r)\<lparr>sr_dirty := True\<rparr>)"

definition handle_tree_done_with_input :: "input_data_id \<Rightarrow> input_registry \<Rightarrow> input_registry" where
  "handle_tree_done_with_input i r =
     (upd_item (id_data i) (\<lambda>x. x\<lparr>ii_inserted := ii_inserted x + 1\<rparr>) r)
       \<lparr>sr_inserted_to_tree := sr_inserted_to_tree r + 1\<rparr>"

definition all_inserted_into_tree :: "input_registry \<Rightarrow> bool" where
  "all_inserted_into_tree r \<longleftrightarrow> length (sr_items r) = unat (sr_done_count r) \<and> sr_with_sub_parts r = sr_inserted_to_tree r"

definition get_approximate_size :: "input_data_id \<Rightarrow> input_registry \<Rightarrow> u64" where
  "get_approximate_size i r = (let x = item_of (id_data i) r in ii_point_count x * ucast (ii_point_size x))"

section \<open>Dispatch\<close>

record next_input =
  ni_id :: input_data_id
  ni_name :: bytes
  ni_point_size :: u8
  ni_point_count :: u64

type_synonym heap_pick = "(u32 \<Rightarrow> m192) \<Rightarrow> u32 list \<Rightarrow> u32"

definition order_of :: "input_registry \<Rightarrow> u32 \<Rightarrow> m192" where
  "order_of r i = ii_order (item_of i r)"

definition waiting :: "input_item \<Rightarrow> bool" where
  "waiting x \<longleftrightarrow> \<not> ii_read_started x \<and> ii_pre_init_settled x"

definition rebuild_unsorted :: "input_registry \<Rightarrow> input_registry" where
  "rebuild_unsorted r =
     (if sr_dirty r then r\<lparr>sr_dirty := False, sr_unsorted := map fst (filter (waiting \<circ> snd) (sr_items r))\<rparr> else r)"

definition next_input_to_process :: "heap_pick \<Rightarrow> input_registry \<Rightarrow> next_input option \<times> input_registry" where
  "next_input_to_process pick r =
     (let r = rebuild_unsorted r
      in if sr_unsorted r = [] then (None, r)
         else (let i = pick (order_of r) (sr_unsorted r);
                   r = r\<lparr>sr_unsorted := remove1 i (sr_unsorted r), sr_sorted := sr_sorted r @ [i]\<rparr>;
                   x = item_of i r;
                   r = upd_item i (\<lambda>x. x\<lparr>ii_read_started := True\<rparr>) r
               in (Some \<lparr>ni_id = \<lparr>id_data = i, id_sub = 0\<rparr>, ni_name = ii_name x, ni_point_size = ii_point_size x,
                     ni_point_count = ii_point_count x\<rparr>, r)))"

section \<open>The watermark\<close>

text \<open>The loop that advances the prefix of the queue files that are done.\<close>

fun done_prefix :: "(u32 \<Rightarrow> input_item) \<Rightarrow> u32 list \<Rightarrow> nat \<Rightarrow> nat" where
  "done_prefix items [] n = n"
| "done_prefix items (i # queue) n =
     (if \<not> ii_read_finished (items i) \<or> ii_inserted (items i) < ii_sub_count (items i) then n
      else done_prefix items queue (n + 1))"

definition clamp_boundary :: "input_item \<Rightarrow> m192 \<Rightarrow> m192" where
  "clamp_boundary x boundary =
     (if \<not> ii_read_started x \<and> m192_lt (ii_order x) boundary then ii_order x else boundary)"

definition get_done_morton :: "input_registry \<Rightarrow> m192 option \<times> input_registry" where
  "get_done_morton r =
     (if sr_sorted r = [] then (None, r)
      else (let n = done_prefix (\<lambda>i. item_of i r) (drop (unat (sr_done_prefix r)) (sr_sorted r)) (unat (sr_done_prefix r));
                r = r\<lparr>sr_done_prefix := word_of_nat n\<rparr>
            in if n = 0 then (None, r)
               else (let boundary = (if n < length (sr_sorted r)
                           then (let x = item_of (sr_sorted r ! n) r in if m192_lt (ii_min x) (ii_order x) then ii_min x else ii_order x)
                           else ones_m192);
                         boundary = fold clamp_boundary (map snd (sr_items r)) boundary
                     in (if m192_lt zero_m192 boundary then Some boundary else None, r))))"

record input_source =
  is_id :: input_data_id
  is_attribute :: attributes_id
  is_name :: bytes
  is_header :: converter_header

definition get_source :: "input_data_id \<Rightarrow> input_registry \<Rightarrow> input_source" where
  "get_source i r = (let x = item_of (id_data i) r
     in \<lparr>is_id = ii_id x, is_attribute = ii_attribute x, is_name = ii_name x, is_header = ii_header x\<rparr>)"

section \<open>The stored form\<close>

definition k_input_registry_magic :: u32 where "k_input_registry_magic = 0x31525349"

definition item_size :: "input_item \<Rightarrow> nat" where
  "item_size x = 4 + (4 + length (ii_name x)) + 3 * 24 + 2 * 4 + 2 * 1"

definition input_registry_size :: "input_registry \<Rightarrow> nat" where
  "input_registry_size r =
     wrap32 (4 + 4 + sum_list (map (item_size \<circ> snd) (sr_items r)) + 4 + length (sr_sorted r) * 4 + 4)"

definition bool_byte :: "bool \<Rightarrow> u8" where "bool_byte b = (if b then 1 else 0)"

definition write_item :: "u32 \<times> input_item \<Rightarrow> wcursor \<Rightarrow> wcursor option" where
  "write_item kv c = (let (i, x) = kv in do {
     c \<leftarrow> write_memory (word_bytes i) c;
     c \<leftarrow> write_memory (word_bytes (word_of_nat (length (ii_name x)) :: u32)) c;
     c \<leftarrow> (if ii_name x = [] then Some c else write_memory (ii_name x) c);
     c \<leftarrow> write_memory (enc_m192 (ii_order x)) c;
     c \<leftarrow> write_memory (enc_m192 (ii_min x)) c;
     c \<leftarrow> write_memory (enc_m192 (ii_max x)) c;
     c \<leftarrow> write_memory (word_bytes (ii_sub_count x)) c;
     c \<leftarrow> write_memory (word_bytes (ii_inserted x)) c;
     c \<leftarrow> write_memory (word_bytes (bool_byte (ii_read_started x))) c;
     write_memory (word_bytes (bool_byte (ii_read_finished x))) c })"

definition serialize_inputs :: "input_registry \<Rightarrow> bytes" where
  "serialize_inputs r =
     (case (do {
        c \<leftarrow> write_memory (word_bytes k_input_registry_magic) (fresh (input_registry_size r));
        c \<leftarrow> write_memory (word_bytes (word_of_nat (length (sr_items r)) :: u32)) c;
        c \<leftarrow> write_all write_item (sr_items r) c;
        c \<leftarrow> write_memory (word_bytes (word_of_nat (length (sr_sorted r)) :: u32)) c;
        c \<leftarrow> write_vec_type (map word_bytes (sr_sorted r)) c;
        write_memory (word_bytes (sr_done_prefix r)) c })
      of None \<Rightarrow> [] | Some c \<Rightarrow> buffer_of c)"

definition invalid_inputs :: dew_error where
  "invalid_inputs = \<lparr>err_code = 1, err_msg = ''Invalid input registry data''\<rparr>"

definition read_item :: "(u32 \<Rightarrow> input_item) \<Rightarrow> bytes \<Rightarrow> ((u32 \<times> input_item) \<times> bytes) option" where
  "read_item items p = do {
     (i :: u32, p) \<leftarrow> read_memory 4 bytes_word p;
     (name_length :: u32, p) \<leftarrow> read_memory 4 bytes_word p;
     (name, p) \<leftarrow> read_memory (unat name_length) (\<lambda>b. b) p;
     (ord, p) \<leftarrow> read_memory 24 dec_m192 p;
     (mn, p) \<leftarrow> read_memory 24 dec_m192 p;
     (mx, p) \<leftarrow> read_memory 24 dec_m192 p;
     (sub_count, p) \<leftarrow> read_memory 4 bytes_word p;
     (inserted, p) \<leftarrow> read_memory 4 bytes_word p;
     (started :: u8, p) \<leftarrow> read_memory 1 bytes_word p;
     (finished :: u8, p) \<leftarrow> read_memory 1 bytes_word p;
     Some ((i, (items i)\<lparr>ii_id := \<lparr>id_data = i, id_sub = 0\<rparr>, ii_name := name, ii_order := ord, ii_min := mn, ii_max := mx,
       ii_sub_count := sub_count, ii_inserted := inserted, ii_read_started := started \<noteq> 0, ii_read_finished := finished \<noteq> 0,
       ii_pre_init_settled := True\<rparr>), p) }"

definition add_read_item :: "u32 \<times> input_item \<Rightarrow> input_registry \<Rightarrow> input_registry" where
  "add_read_item kv r = (let (i, x) = kv; r = set_item i x r
     in r\<lparr>sr_with_sub_parts := sr_with_sub_parts r + ii_sub_count x, sr_inserted_to_tree := sr_inserted_to_tree r + ii_inserted x,
          sr_done_count := (if ii_read_finished x then sr_done_count r + 1 else sr_done_count r)\<rparr>)"

fun read_items :: "nat \<Rightarrow> u32 \<Rightarrow> input_registry \<Rightarrow> bytes \<Rightarrow> ((u32 \<times> input_registry) \<times> bytes) option" where
  "read_items 0 max_id r p = Some ((max_id, r), p)"
| "read_items (Suc n) max_id r p =
     (case read_item (\<lambda>i. item_of i r) p of
        None \<Rightarrow> None
      | Some ((i, x), p) \<Rightarrow> read_items n (if max_id < i then i else max_id) (add_read_item (i, x) r) p)"

text \<open>The loop over the dispatched files: a file that is not done is to be read again.\<close>

fun keep_done :: "u32 list \<Rightarrow> nat \<Rightarrow> u32 \<Rightarrow> u32 list \<Rightarrow> u32 \<Rightarrow> input_registry \<Rightarrow> (u32 list \<times> u32 \<times> input_registry) option" where
  "keep_done [] k old_prefix done_ids prefix r = Some (done_ids, prefix, r)"
| "keep_done (i # queue) k old_prefix done_ids prefix r =
     (case map_of (sr_items r) i of
        None \<Rightarrow> None
      | Some x \<Rightarrow>
          if fully_inserted x
          then keep_done queue (k + 1) old_prefix (done_ids @ [i])
                 (if k < unat old_prefix then word_of_nat (length done_ids + 1) else prefix) r
          else keep_done queue (k + 1) old_prefix done_ids prefix (upd_item i (\<lambda>x. x\<lparr>ii_read_started := False\<rparr>) r))"

definition deserialize_inputs :: "bytes \<Rightarrow> input_registry \<Rightarrow> input_registry result" where
  "deserialize_inputs data r =
     (case (do {
        (magic :: u32, p) \<leftarrow> read_memory 4 bytes_word data;
        if magic \<noteq> k_input_registry_magic then None
        else do {
          (file_count :: u32, p) \<leftarrow> read_memory 4 bytes_word p;
          ((max_id, r), p) \<leftarrow> read_items (unat file_count) 0
            (r\<lparr>sr_items := [], sr_with_sub_parts := 0, sr_inserted_to_tree := 0, sr_done_count := 0\<rparr>) p;
          (sorted_count :: u32, p) \<leftarrow> read_memory 4 bytes_word p;
          (queue, p) \<leftarrow> read_vec_type 4 bytes_word (unat sorted_count) p;
          (old_prefix, p) \<leftarrow> read_memory 4 bytes_word p;
          (done_ids, prefix, r) \<leftarrow> keep_done queue 0 old_prefix [] 0 r;
          Some (ensure_next_input_id_above max_id
            (r\<lparr>sr_sorted := done_ids, sr_done_prefix := prefix, sr_unsorted := [], sr_dirty := True\<rparr>)) } })
      of None \<Rightarrow> Inl invalid_inputs | Some r \<Rightarrow> Inr r)"

end
