(* ===== verification/InputOrder.thy ===== *)
theory InputOrder
  imports InputRegistry
begin

text \<open>
  The histories of the input registry and what holds in all of them: the counters are those of the
  files, the heap holds the waiting files, a file is dispatched at most once, and the done prefix
  holds done files. From it: when a conversion counts as inserted, and which file is dispatched next.
\<close>

section \<open>Changing one item\<close>

definition known :: "u32 \<Rightarrow> input_registry \<Rightarrow> bool" where
  "known i r \<longleftrightarrow> i \<in> fst ` set (sr_items r)"

definition total :: "(input_item \<Rightarrow> 'a::comm_monoid_add) \<Rightarrow> input_registry \<Rightarrow> 'a" where
  "total g r = (\<Sum>x\<leftarrow>map snd (sr_items r). g x)"

lemma upd_item_rest [simp]:
  "sr_with_sub_parts (upd_item i f r) = sr_with_sub_parts r" "sr_inserted_to_tree (upd_item i f r) = sr_inserted_to_tree r"
  "sr_done_count (upd_item i f r) = sr_done_count r" "sr_unsorted (upd_item i f r) = sr_unsorted r"
  "sr_sorted (upd_item i f r) = sr_sorted r" "sr_dirty (upd_item i f r) = sr_dirty r"
  "sr_done_prefix (upd_item i f r) = sr_done_prefix r" "sr_next_id (upd_item i f r) = sr_next_id r"
  by (simp_all add: upd_item_def set_item_def)

lemma item_of_upd [simp]: "item_of j (upd_item i f r) = (if j = i then f (item_of i r) else item_of j r)"
  by (simp add: upd_item_def set_item_def item_of_def update_conv)

lemma keys_upd:
  "map fst (sr_items (upd_item i f r)) = (if known i r then map fst (sr_items r) else map fst (sr_items r) @ [i])"
  by (simp add: upd_item_def set_item_def known_def update_keys)

lemma known_upd [simp]: "known j (upd_item i f r) \<longleftrightarrow> j = i \<or> known j r"
  by (simp add: upd_item_def set_item_def known_def dom_update)

lemma known_item: "known i r \<Longrightarrow> distinct (map fst (sr_items r)) \<Longrightarrow> (i, item_of i r) \<in> set (sr_items r)"
  by (auto simp: known_def item_of_def)

lemma item_of_mem: "distinct (map fst (sr_items r)) \<Longrightarrow> (i, x) \<in> set (sr_items r) \<Longrightarrow> item_of i r = x"
  by (simp add: item_of_def)

lemma sum_update:
  assumes "distinct (map fst xs)" and "map_of xs i = Some x"
  shows "(\<Sum>x\<leftarrow>map snd (AList.update i y xs). g x) + g x = (\<Sum>x\<leftarrow>map snd xs. g x) + (g y :: 'a::comm_monoid_add)"
  using assms
proof (induction xs)
  case (Cons p xs)
  show ?case
  proof (cases "fst p = i")
    case True
    then show ?thesis using Cons.prems by (auto simp: ac_simps)
  next
    case False
    then have "(\<Sum>x\<leftarrow>map snd (AList.update i y xs). g x) + g x = (\<Sum>x\<leftarrow>map snd xs. g x) + g y"
      using Cons by auto
    then show ?thesis using False by (simp add: add.assoc)
  qed
qed simp

lemma total_upd:
  assumes "distinct (map fst (sr_items r))" and "known i r"
  shows "total g (upd_item i f r) + g (item_of i r) = total g r + g (f (item_of i r))"
proof -
  have "map_of (sr_items r) i = Some (item_of i r)"
    using assms by (auto simp: known_def item_of_def)
  then show ?thesis using sum_update [OF assms(1)] by (simp add: total_def upd_item_def set_item_def)
qed

lemma total_new: "\<not> known i r \<Longrightarrow> total g (upd_item i f r) = total g r + g (f (item_of i r))"
proof -
  have "i \<notin> fst ` set xs \<Longrightarrow> AList.update i y xs = xs @ [(i, y)]" for xs and y :: input_item
    by (induction xs) auto
  then show "\<not> known i r \<Longrightarrow> ?thesis" by (simp add: known_def total_def upd_item_def set_item_def)
qed

section \<open>Histories\<close>

text \<open>
  What the converter promises of its calls: a call names a registered file; the order of a dispatched
  file is not changed; sub parts are announced by the reading of a dispatched file, and each is
  inserted once; there are ids left.
\<close>

definition picks_least :: "heap_pick \<Rightarrow> bool" where
  "picks_least pick \<longleftrightarrow> (\<forall>key xs. xs \<noteq> [] \<longrightarrow> pick key xs \<in> set xs \<and> (\<forall>x \<in> set xs. key (pick key xs) \<le> key x))"

inductive input_step :: "heap_pick \<Rightarrow> input_registry \<Rightarrow> input_registry \<Rightarrow> bool" for pick where
  step_register: "sr_next_id r \<noteq> - 1 \<Longrightarrow> input_step pick r (snd (register_file name r))"
| step_pre_init: "known (id_data i) r \<Longrightarrow>
    (ii_read_started (item_of (id_data i) r) \<Longrightarrow> (if found then to_morton mn else zero_m192) = order_of r (id_data i)) \<Longrightarrow>
    input_step pick r (register_pre_init_result to_morton i found mn n sz fsz r)"
| step_input_init: "known (id_data i) r \<Longrightarrow> input_step pick r (handle_input_init i a h r)"
| step_sub_added: "id_data i \<in> set (sr_sorted r) \<Longrightarrow> \<not> ii_read_finished (item_of (id_data i) r) \<Longrightarrow>
    ii_sub_count (item_of (id_data i) r) \<noteq> - 1 \<Longrightarrow> input_step pick r (handle_sub_added i r)"
| step_sorted_points: "known (id_data i) r \<Longrightarrow> input_step pick r (handle_sorted_points i lo hi r)"
| step_points_written: "known (id_data i) r \<Longrightarrow> input_step pick r (handle_points_written i ls r)"
| step_reading_done: "known (id_data i) r \<Longrightarrow> id_data i \<in> set (sr_sorted r) \<Longrightarrow> input_step pick r (handle_reading_done i r)"
| step_file_failed: "known (id_data i) r \<Longrightarrow> input_step pick r (handle_file_failed i r)"
| step_tree_done: "known (id_data i) r \<Longrightarrow> ii_inserted (item_of (id_data i) r) < ii_sub_count (item_of (id_data i) r) \<Longrightarrow>
    input_step pick r (handle_tree_done_with_input i r)"
| step_next: "input_step pick r (snd (next_input_to_process pick r))"
| step_done_morton: "input_step pick r (snd (get_done_morton r))"

section \<open>The invariant\<close>

text \<open>A file is done when its reading is finished and no announced sub part is missing in the tree.\<close>

definition input_done :: "input_item \<Rightarrow> bool" where
  "input_done x \<longleftrightarrow> ii_read_finished x \<and> \<not> ii_inserted x < ii_sub_count x"

definition finished_one :: "input_item \<Rightarrow> nat" where
  "finished_one x = (if ii_read_finished x then 1 else 0)"

definition inputs_ok :: "input_registry \<Rightarrow> bool" where
  "inputs_ok r \<longleftrightarrow> distinct (map fst (sr_items r)) \<and> (\<forall>i. known i r \<longrightarrow> i < sr_next_id r) \<and>
     unat (sr_done_count r) = total finished_one r \<and> sr_with_sub_parts r = total ii_sub_count r \<and>
     sr_inserted_to_tree r = total ii_inserted r \<and>
     (\<not> sr_dirty r \<longrightarrow> distinct (sr_unsorted r) \<and> set (sr_unsorted r) = {i. known i r \<and> waiting (item_of i r)}) \<and>
     distinct (sr_sorted r) \<and> (\<forall>i \<in> set (sr_sorted r). known i r \<and> ii_read_started (item_of i r)) \<and>
     (\<forall>i. known i r \<longrightarrow> i \<notin> set (sr_sorted r) \<longrightarrow> ii_sub_count (item_of i r) = 0 \<and>
        (ii_read_started (item_of i r) \<longrightarrow> ii_read_finished (item_of i r))) \<and>
     unat (sr_done_prefix r) \<le> length (sr_sorted r) \<and>
     (\<forall>k < unat (sr_done_prefix r). input_done (item_of (sr_sorted r ! k) r)) \<and>
     (\<forall>i. known i r \<longrightarrow> ii_inserted (item_of i r) \<le> ii_sub_count (item_of i r))"

lemma inputs_okD:
  assumes "inputs_ok r"
  shows "distinct (map fst (sr_items r))" and "known i r \<Longrightarrow> i < sr_next_id r"
    and "unat (sr_done_count r) = total finished_one r" and "sr_with_sub_parts r = total ii_sub_count r"
    and "sr_inserted_to_tree r = total ii_inserted r"
    and "\<not> sr_dirty r \<Longrightarrow> distinct (sr_unsorted r)" and "\<not> sr_dirty r \<Longrightarrow> set (sr_unsorted r) = {i. known i r \<and> waiting (item_of i r)}"
    and "distinct (sr_sorted r)" and "i \<in> set (sr_sorted r) \<Longrightarrow> known i r \<and> ii_read_started (item_of i r)"
    and "known i r \<Longrightarrow> i \<notin> set (sr_sorted r) \<Longrightarrow> ii_sub_count (item_of i r) = 0"
    and "known i r \<Longrightarrow> i \<notin> set (sr_sorted r) \<Longrightarrow> ii_read_started (item_of i r) \<Longrightarrow> ii_read_finished (item_of i r)"
    and "unat (sr_done_prefix r) \<le> length (sr_sorted r)"
    and "k < unat (sr_done_prefix r) \<Longrightarrow> input_done (item_of (sr_sorted r ! k) r)"
    and "known i r \<Longrightarrow> ii_inserted (item_of i r) \<le> ii_sub_count (item_of i r)"
  using assms by (simp_all add: inputs_ok_def)

lemma new_inputs_ok: "inputs_ok (new_input_registry n)"
  by (simp add: inputs_ok_def new_input_registry_def known_def total_def)

text \<open>An event that changes one registered file: the counters follow, the flags only go up.\<close>

lemma upd_inputs_ok:
  assumes "inputs_ok r" and "known i r" and "x = item_of i r" and "y = f x"
    and "sr_items r' = sr_items (upd_item i f r)" "sr_next_id r' = sr_next_id r" "sr_sorted r' = sr_sorted r"
    and "sr_done_prefix r' = sr_done_prefix r"
    and "unat (sr_done_count r') + finished_one x = unat (sr_done_count r) + finished_one y"
    and "sr_with_sub_parts r' + ii_sub_count x = sr_with_sub_parts r + ii_sub_count y"
    and "sr_inserted_to_tree r' + ii_inserted x = sr_inserted_to_tree r + ii_inserted y"
    and "sr_dirty r' \<or> (\<not> sr_dirty r \<and> sr_unsorted r' = sr_unsorted r \<and> (waiting y \<longleftrightarrow> waiting x))"
    and "ii_read_started x \<Longrightarrow> ii_read_started y"
    and "i \<notin> set (sr_sorted r) \<Longrightarrow> ii_sub_count y = 0 \<and> (ii_read_started y \<longrightarrow> ii_read_finished y)"
    and "i \<in> set (sr_sorted r) \<Longrightarrow> input_done x \<Longrightarrow> input_done y"
    and "ii_inserted x \<le> ii_sub_count x \<Longrightarrow> ii_inserted y \<le> ii_sub_count y"
  shows "inputs_ok r'"
proof -
  note d = inputs_okD [OF assms(1)]
  have items: "known j r' \<longleftrightarrow> known j r" "item_of j r' = (if j = i then y else item_of j r)" for j
  proof -
    show "known j r' \<longleftrightarrow> known j r" using known_upd [of j i f r] assms(2) by (auto simp: known_def assms(5))
    have "item_of j r' = item_of j (upd_item i f r)" by (simp add: item_of_def assms(5))
    then show "item_of j r' = (if j = i then y else item_of j r)" by (simp add: assms(3,4))
  qed
  have tot: "total finished_one r' = total finished_one (upd_item i f r)" "total ii_sub_count r' = total ii_sub_count (upd_item i f r)"
    "total ii_inserted r' = total ii_inserted (upd_item i f r)" by (simp_all add: total_def assms(5))
  note t = total_upd [OF d(1) assms(2), of _ f, folded assms(3), folded assms(4)]
  show ?thesis
    unfolding inputs_ok_def items tot
  proof (intro conjI allI impI ballI)
    show "distinct (map fst (sr_items r'))" using d(1) assms(2) by (simp add: assms(5) keys_upd)
    show "unat (sr_done_count r') = total finished_one (upd_item i f r)" using t [of finished_one] d(3) assms(9) by linarith
    show "sr_with_sub_parts r' = total ii_sub_count (upd_item i f r)"
      using t [of ii_sub_count] d(4) assms(10) by (metis add_right_cancel)
    show "sr_inserted_to_tree r' = total ii_inserted (upd_item i f r)"
      using t [of ii_inserted] d(5) assms(11) by (metis add_right_cancel)
  qed (use d assms in \<open>auto split: if_splits\<close>)
qed

lemmas handlers = handle_input_init_def handle_sorted_points_def handle_points_written_def handle_sub_added_def
  handle_tree_done_with_input_def register_pre_init_result_def

text \<open>There are fewer files than ids, so the counter of finished files never wraps.\<close>

lemma keys_bound:
  assumes "inputs_ok r" and "distinct ks" and "\<And>i. i \<in> set ks \<Longrightarrow> known i r"
  shows "length ks \<le> unat (sr_next_id r)"
proof -
  have "inj_on unat (set ks)" by (simp add: inj_on_def word_unat_eq_iff)
  then have "length ks = card (unat ` set ks)" using assms(2) by (simp add: card_image distinct_card)
  also have "\<dots> \<le> card {..<unat (sr_next_id r)}"
    using assms(3) inputs_okD(2) [OF assms(1)] by (intro card_mono) (auto simp: word_less_nat_alt)
  finally show ?thesis by simp
qed

lemma items_bound: "inputs_ok r \<Longrightarrow> length (sr_items r) < 2 ^ 32"
proof -
  assume ok: "inputs_ok r"
  have "length (map fst (sr_items r)) \<le> unat (sr_next_id r)"
    by (rule keys_bound [OF ok inputs_okD(1) [OF ok]]) (simp add: known_def)
  then show ?thesis using unat_less_pow [of "sr_next_id r"] by simp
qed

lemma total_finished_le: "total finished_one r \<le> length (sr_items r)"
proof -
  have "(\<Sum>x\<leftarrow>xs. finished_one x) \<le> length xs" for xs by (induction xs) (auto simp: finished_one_def)
  from this [of "map snd (sr_items r)"] show ?thesis by (simp add: total_def)
qed

lemma finished_room:
  assumes "inputs_ok r" and "known i r" and "\<not> ii_read_finished (item_of i r)"
  shows "unat (sr_done_count r + 1) = unat (sr_done_count r) + 1"
proof -
  note d = inputs_okD [OF assms(1)]
  let ?f = "\<lambda>x. x\<lparr>ii_read_finished := True\<rparr>"
  have "total finished_one (upd_item i ?f r) = total finished_one r + 1"
    using total_upd [OF d(1) assms(2), of finished_one ?f] assms(3) by (simp add: finished_one_def)
  moreover have "length (map fst (sr_items (upd_item i ?f r))) = length (map fst (sr_items r))"
    using assms(2) by (simp only: keys_upd if_True)
  ultimately have "total finished_one r + 1 < 2 ^ 32"
    using total_finished_le [of "upd_item i ?f r"] items_bound [OF assms(1)] by simp
  then have "sr_done_count r \<noteq> - 1" using d(3) unat_max_iff [of "sr_done_count r"] by auto
  then show ?thesis by (rule unat_plus_one)
qed

lemma retire_ok:
  assumes "inputs_ok r" and "known i r"
  shows "inputs_ok (retire i r)"
proof (cases "ii_read_finished (item_of i r)")
  case True
  then show ?thesis using assms(1) by (simp add: retire_def)
next
  case False
  show ?thesis
    by (rule upd_inputs_ok [OF assms refl refl, where f = "\<lambda>x. x\<lparr>ii_read_finished := True\<rparr>"])
      (use False finished_room [OF assms False] inputs_okD(10) [OF assms] in
        \<open>auto simp: retire_def finished_one_def waiting_def input_done_def\<close>)
qed

lemma upd_twice: "sr_items (upd_item i g (upd_item i f r)) = sr_items (upd_item i (\<lambda>x. g (f x)) r)"
  unfolding upd_item_def set_item_def by (simp add: item_of_def update_conv)

lemma failed_ok:
  assumes "inputs_ok r" and "known (id_data i) r"
  shows "inputs_ok (handle_file_failed i r)"
proof -
  let ?i = "id_data i"
  let ?f = "\<lambda>x. x\<lparr>ii_pre_init_settled := True, ii_read_started := True\<rparr>"
  show ?thesis
  proof (cases "ii_read_finished (item_of ?i r)")
    case True
    then have r: "handle_file_failed i r = (upd_item ?i ?f r)\<lparr>sr_dirty := True\<rparr>"
      using item_of_upd [of ?i ?i ?f r] by (simp add: handle_file_failed_def retire_def item_of_def)
    show ?thesis unfolding r
      by (rule upd_inputs_ok [OF assms refl refl, where f = ?f])
        (use True inputs_okD(10) [OF assms] in \<open>auto simp: finished_one_def input_done_def\<close>)
  next
    case False
    then have n: "\<not> ii_read_finished (item_of ?i ((upd_item ?i ?f r)\<lparr>sr_dirty := True\<rparr>))"
      using item_of_upd [of ?i ?i ?f r] by (simp add: item_of_def)
    have r: "handle_file_failed i r = (upd_item ?i (\<lambda>x. x\<lparr>ii_read_finished := True\<rparr>) ((upd_item ?i ?f r)\<lparr>sr_dirty := True\<rparr>))
        \<lparr>sr_done_count := sr_done_count r + 1\<rparr>"
      using n by (simp add: handle_file_failed_def retire_def)
    have items: "sr_items (handle_file_failed i r) = sr_items (upd_item ?i (\<lambda>x. (?f x)\<lparr>ii_read_finished := True\<rparr>) r)"
      unfolding r by (simp add: upd_item_def set_item_def item_of_def update_conv)
    show ?thesis
      by (rule upd_inputs_ok [OF assms refl refl items])
        (use False finished_room [OF assms False] inputs_okD(10) [OF assms] in \<open>auto simp: r finished_one_def input_done_def\<close>)
  qed
qed

lemma register_ok:
  assumes "inputs_ok r" and "sr_next_id r \<noteq> - 1"
  shows "inputs_ok (snd (register_file name r))"
proof (cases "find (\<lambda>(_, x). ii_name x = name) (sr_items r)")
  case (Some p)
  then show ?thesis using assms(1) by (cases p) (simp add: register_file_def)
next
  case None
  note d = inputs_okD [OF assms(1)]
  let ?n = "sr_next_id r"
  let ?f = "\<lambda>x. x\<lparr>ii_min := ones_m192, ii_id := \<lparr>id_data = ?n, id_sub = 0\<rparr>, ii_name := name, ii_attribute := 0, ii_header := zero_header\<rparr>"
  define r1 where "r1 = r\<lparr>sr_next_id := ?n + 1\<rparr>"
  have r: "snd (register_file name r) = upd_item ?n ?f r1"
    by (simp add: register_file_def None get_next_input_id_def r1_def Let_def)
  have same: "known j r1 \<longleftrightarrow> known j r" "item_of j r1 = item_of j r" for j by (simp_all add: known_def item_of_def r1_def)
  have fields: "sr_done_count r1 = sr_done_count r" "sr_with_sub_parts r1 = sr_with_sub_parts r" "sr_inserted_to_tree r1 = sr_inserted_to_tree r"
    "sr_dirty r1 = sr_dirty r" "sr_unsorted r1 = sr_unsorted r" "sr_sorted r1 = sr_sorted r" "sr_done_prefix r1 = sr_done_prefix r"
    "sr_next_id r1 = ?n + 1" "sr_items r1 = sr_items r" by (simp_all add: r1_def)
  have new: "\<not> known ?n r" using d(2) by blast
  then have blank: "item_of ?n r = new_item" by (simp add: known_def item_of_def split: option.splits) (metis fst_conv image_eqI map_of_SomeD)
  have next_less: "j < ?n \<Longrightarrow> j < ?n + 1" "?n < ?n + 1" for j
    using assms(2) unat_plus_one [of ?n] by (auto simp: word_less_nat_alt)
  have not_sorted: "?n \<notin> set (sr_sorted r)" using d(9) new by blast
  have tot: "total finished_one (upd_item ?n ?f r1) = total finished_one r" "total ii_sub_count (upd_item ?n ?f r1) = total ii_sub_count r"
    "total ii_inserted (upd_item ?n ?f r1) = total ii_inserted r"
    using new by (simp_all add: total_new same blank new_item_def finished_one_def) (simp_all add: total_def r1_def)
  show ?thesis
    unfolding r inputs_ok_def tot
  proof (intro conjI allI impI ballI)
    show "distinct (map fst (sr_items (upd_item ?n ?f r1)))"
      using d(1) new by (simp add: keys_upd same fields) (simp add: known_def)
    show "set (sr_unsorted (upd_item ?n ?f r1)) = {i. known i (upd_item ?n ?f r1) \<and> waiting (item_of i (upd_item ?n ?f r1))}"
      if "\<not> sr_dirty (upd_item ?n ?f r1)"
      using that d(7) new by (auto simp: same blank waiting_def new_item_def fields)
    show "input_done (item_of (sr_sorted (upd_item ?n ?f r1) ! k) (upd_item ?n ?f r1))"
      if "k < unat (sr_done_prefix (upd_item ?n ?f r1))" for k
    proof -
      have k: "k < unat (sr_done_prefix r)" using that by (simp add: fields)
      then have "sr_sorted r ! k \<in> set (sr_sorted r)" using d(12) by (intro nth_mem) (rule less_le_trans)
      then have "sr_sorted r ! k \<noteq> ?n" using not_sorted by auto
      then show ?thesis using d(13) [OF k] by (simp add: same fields)
    qed
  qed (use d new not_sorted next_less in \<open>auto simp: same blank new_item_def fields\<close>)
qed

section \<open>Dispatch\<close>

lemma rebuild_ok:
  assumes "inputs_ok r"
  shows "inputs_ok (rebuild_unsorted r)" and "sr_items (rebuild_unsorted r) = sr_items r"
    and "sr_sorted (rebuild_unsorted r) = sr_sorted r" and "sr_dirty (rebuild_unsorted r) = False"
    and "sr_done_prefix (rebuild_unsorted r) = sr_done_prefix r"
    and "set (sr_unsorted (rebuild_unsorted r)) = {i. known i r \<and> waiting (item_of i r)}"
proof -
  note d = inputs_okD [OF assms]
  have "set (map fst (filter (waiting \<circ> snd) (sr_items r))) = {i. known i r \<and> waiting (item_of i r)}"
    using item_of_mem [OF d(1)] known_item [OF _ d(1)] by (force simp: known_def)
  then show u: "set (sr_unsorted (rebuild_unsorted r)) = {i. known i r \<and> waiting (item_of i r)}"
    using d(7) by (simp add: rebuild_unsorted_def)
  show f: "sr_items (rebuild_unsorted r) = sr_items r" "sr_sorted (rebuild_unsorted r) = sr_sorted r"
    "sr_dirty (rebuild_unsorted r) = False" "sr_done_prefix (rebuild_unsorted r) = sr_done_prefix r"
    by (simp_all add: rebuild_unsorted_def)
  have "distinct (sr_unsorted (rebuild_unsorted r))"
    using d(1,6) by (simp add: rebuild_unsorted_def distinct_map_filter)
  then show "inputs_ok (rebuild_unsorted r)"
    using assms u unfolding inputs_ok_def known_def item_of_def total_def f by (simp add: rebuild_unsorted_def)
qed

text \<open>What the heap hands out: a waiting file of the least order, and the registry afterwards.\<close>

lemma next_cases:
  assumes "inputs_ok r" and "picks_least pick"
  obtains "fst (next_input_to_process pick r) = None" and "snd (next_input_to_process pick r) = rebuild_unsorted r"
    and "\<And>i. known i r \<Longrightarrow> \<not> waiting (item_of i r)"
  | i where "known i r" and "waiting (item_of i r)" and "\<And>j. known j r \<Longrightarrow> waiting (item_of j r) \<Longrightarrow> order_of r i \<le> order_of r j"
    and "fst (next_input_to_process pick r) = Some \<lparr>ni_id = \<lparr>id_data = i, id_sub = 0\<rparr>, ni_name = ii_name (item_of i r),
      ni_point_size = ii_point_size (item_of i r), ni_point_count = ii_point_count (item_of i r)\<rparr>"
    and "snd (next_input_to_process pick r) = upd_item i (\<lambda>x. x\<lparr>ii_read_started := True\<rparr>)
      ((rebuild_unsorted r)\<lparr>sr_unsorted := remove1 i (sr_unsorted (rebuild_unsorted r)), sr_sorted := sr_sorted r @ [i]\<rparr>)"
proof -
  let ?r = "rebuild_unsorted r"
  note b = rebuild_ok [OF assms(1)]
  have same: "item_of j ?r = item_of j r" "order_of ?r j = order_of r j" for j by (simp_all add: item_of_def order_of_def b(2))
  show thesis
  proof (cases "sr_unsorted ?r = []")
    case True
    have "fst (next_input_to_process pick r) = None" "snd (next_input_to_process pick r) = ?r"
      using True by (simp_all add: next_input_to_process_def Let_def)
    moreover have "\<not> waiting (item_of i r)" if "known i r" for i using b(6) True that by auto
    ultimately show thesis by (rule that(1))
  next
    case False
    define i where "i = pick (order_of ?r) (sr_unsorted ?r)"
    have i: "i \<in> set (sr_unsorted ?r)" "\<And>j. j \<in> set (sr_unsorted ?r) \<Longrightarrow> order_of ?r i \<le> order_of ?r j"
      using assms(2) False by (auto simp: picks_least_def i_def)
    have it: "item_of i (?r\<lparr>sr_unsorted := xs, sr_sorted := ys\<rparr>) = item_of i r" for xs ys by (simp add: item_of_def b(2))
    show thesis
    proof (rule that(2))
      show "known i r" "waiting (item_of i r)" using i(1) b(6) by auto
      show "order_of r i \<le> order_of r j" if "known j r" "waiting (item_of j r)" for j
        using i(2) [of j] that b(6) by (simp add: same)
    qed (use False it in \<open>simp_all add: next_input_to_process_def Let_def i_def [symmetric] b(3)\<close>)
  qed
qed

lemma dispatch_ok:
  assumes "inputs_ok r" and "known i r" and "waiting (item_of i r)" and "\<not> sr_dirty r"
  shows "inputs_ok (upd_item i (\<lambda>x. x\<lparr>ii_read_started := True\<rparr>)
      (r\<lparr>sr_unsorted := remove1 i (sr_unsorted r), sr_sorted := sr_sorted r @ [i]\<rparr>))"
proof -
  note d = inputs_okD [OF assms(1)]
  let ?f = "\<lambda>x. x\<lparr>ii_read_started := True\<rparr>"
  define r1 where "r1 = r\<lparr>sr_unsorted := remove1 i (sr_unsorted r), sr_sorted := sr_sorted r @ [i]\<rparr>"
  have same: "known j r1 \<longleftrightarrow> known j r" "item_of j r1 = item_of j r" for j by (simp_all add: known_def item_of_def r1_def)
  have fields: "sr_done_count r1 = sr_done_count r" "sr_with_sub_parts r1 = sr_with_sub_parts r" "sr_inserted_to_tree r1 = sr_inserted_to_tree r"
    "sr_dirty r1 = sr_dirty r" "sr_unsorted r1 = remove1 i (sr_unsorted r)" "sr_sorted r1 = sr_sorted r @ [i]"
    "sr_done_prefix r1 = sr_done_prefix r" "sr_next_id r1 = sr_next_id r" by (simp_all add: r1_def)
  have fresh: "i \<notin> set (sr_sorted r)" using d(9) assms(3) by (auto simp: waiting_def)
  have k1: "known i r1" using assms(2) by (simp add: same)
  have d1: "distinct (map fst (sr_items r1))" using d(1) by (simp add: r1_def)
  have tot: "total finished_one (upd_item i ?f r1) = total finished_one r" "total ii_sub_count (upd_item i ?f r1) = total ii_sub_count r"
    "total ii_inserted (upd_item i ?f r1) = total ii_inserted r"
    using total_upd [OF d1 k1, of finished_one ?f] total_upd [OF d1 k1, of ii_sub_count ?f] total_upd [OF d1 k1, of ii_inserted ?f]
    by (simp_all add: finished_one_def) (simp_all add: total_def r1_def)
  have "inputs_ok (upd_item i ?f r1)"
    unfolding inputs_ok_def tot
  proof (intro conjI allI impI ballI)
    show "distinct (map fst (sr_items (upd_item i ?f r1)))" using d1 k1 by (simp only: keys_upd if_True)
    show "ii_inserted (item_of j (upd_item i ?f r1)) \<le> ii_sub_count (item_of j (upd_item i ?f r1))"
      if "known j (upd_item i ?f r1)" for j
      using d(14) [of j] assms(2) that by (auto simp: same)
    show "set (sr_unsorted (upd_item i ?f r1)) = {j. known j (upd_item i ?f r1) \<and> waiting (item_of j (upd_item i ?f r1))}"
      using d(6,7) assms(4) by (auto simp: same waiting_def fields)
    show "input_done (item_of (sr_sorted (upd_item i ?f r1) ! k) (upd_item i ?f r1))"
      if "k < unat (sr_done_prefix (upd_item i ?f r1))" for k
    proof -
      have k: "k < unat (sr_done_prefix r)" "k < length (sr_sorted r)" using that d(12) by (simp_all add: fields)
      then have "sr_sorted (upd_item i ?f r1) ! k = sr_sorted r ! k" by (simp add: fields nth_append)
      moreover have "sr_sorted r ! k \<noteq> i" using fresh nth_mem [OF k(2)] by metis
      ultimately show ?thesis using d(13) [OF k(1)] by (simp add: same)
    qed
  qed (use d fresh assms(2,4) in \<open>auto simp: same fields\<close>)
  then show ?thesis by (simp add: r1_def)
qed

section \<open>The done prefix\<close>

lemma done_prefix_eq: "done_prefix items q n = n + length (takeWhile (\<lambda>i. input_done (items i)) q)"
  by (induction q arbitrary: n) (auto simp: input_done_def)

definition prefix_of :: "input_registry \<Rightarrow> nat" where
  "prefix_of r = done_prefix (\<lambda>i. item_of i r) (drop (unat (sr_done_prefix r)) (sr_sorted r)) (unat (sr_done_prefix r))"

lemma prefix_of_ok:
  assumes "inputs_ok r"
  shows "prefix_of r \<le> length (sr_sorted r)" and "\<And>k. k < prefix_of r \<Longrightarrow> input_done (item_of (sr_sorted r ! k) r)"
    and "unat (word_of_nat (prefix_of r) :: u32) = prefix_of r"
proof -
  note d = inputs_okD [OF assms]
  let ?p = "unat (sr_done_prefix r)" and ?q = "drop (unat (sr_done_prefix r)) (sr_sorted r)" and ?P = "\<lambda>i. input_done (item_of i r)"
  have n: "prefix_of r = ?p + length (takeWhile ?P ?q)" by (simp add: prefix_of_def done_prefix_eq)
  have "length (takeWhile ?P ?q) \<le> length ?q" by (rule length_takeWhile_le)
  then show le: "prefix_of r \<le> length (sr_sorted r)" using d(12) by (simp add: n)
  show "input_done (item_of (sr_sorted r ! k) r)" if "k < prefix_of r" for k
  proof (cases "k < ?p")
    case True
    then show ?thesis by (rule d(13))
  next
    case False
    then have k: "k - ?p < length (takeWhile ?P ?q)" using that n by simp
    then have "takeWhile ?P ?q ! (k - ?p) = sr_sorted r ! k" using False d(12) by (simp add: takeWhile_nth)
    then show ?thesis using nth_mem [OF k] set_takeWhileD by fastforce
  qed
  have "length (sr_sorted r) \<le> unat (sr_next_id r)" by (rule keys_bound [OF assms d(8)]) (use d(9) in blast)
  then have "prefix_of r < 2 ^ 32" using le unat_less_pow [of "sr_next_id r"] by simp
  then show "unat (word_of_nat (prefix_of r) :: u32) = prefix_of r" by (simp add: unat_of_nat)
qed

lemma done_morton_state: "snd (get_done_morton r) = (if sr_sorted r = [] then r else r\<lparr>sr_done_prefix := word_of_nat (prefix_of r)\<rparr>)"
  by (simp add: get_done_morton_def Let_def prefix_of_def)

section \<open>Every step\<close>

lemma word_step: "a \<le> b \<Longrightarrow> b \<noteq> - 1 \<Longrightarrow> a \<le> b + 1" "a < b \<Longrightarrow> a + 1 \<le> b" for a b :: u32
proof -
  show "a \<le> b \<Longrightarrow> b \<noteq> - 1 \<Longrightarrow> a \<le> b + 1" using unat_plus_one [of b] by (simp add: word_le_nat_alt)
qed (rule inc_le)

lemma step_ok:
  assumes "input_step pick r r'" and "inputs_ok r" and "picks_least pick"
  shows "inputs_ok r'"
  using assms(1)
proof cases
  case (step_register name)
  then show ?thesis using register_ok [OF assms(2)] by simp
next
  case (step_pre_init i found to_morton mn n sz fsz)
  show ?thesis unfolding step_pre_init(1)
    by (rule upd_inputs_ok [OF assms(2) step_pre_init(2) refl refl, where f = "\<lambda>x. x\<lparr>ii_point_count := n, ii_point_size := sz,
        ii_file_size := fsz, ii_order := (if found then to_morton mn else zero_m192), ii_pre_init_settled := True\<rparr>"])
      (use inputs_okD(10,11) [OF assms(2) step_pre_init(2)] in \<open>auto simp: handlers finished_one_def input_done_def\<close>)
next
  case (step_input_init i a h)
  show ?thesis unfolding step_input_init(1)
    by (rule upd_inputs_ok [OF assms(2) step_input_init(2) refl refl, where f = "\<lambda>x. x\<lparr>ii_attribute := a, ii_header := h\<rparr>"])
      (use inputs_okD(10,11) [OF assms(2) step_input_init(2)] in \<open>auto simp: handlers finished_one_def input_done_def waiting_def\<close>)
next
  case (step_sub_added i)
  then have "known (id_data i) r" using inputs_okD(9) [OF assms(2)] by blast
  then show ?thesis unfolding step_sub_added(1)
    by - (rule upd_inputs_ok [OF assms(2) _ refl refl, where f = "\<lambda>x. x\<lparr>ii_sub_count := ii_sub_count x + 1\<rparr>"],
      use step_sub_added word_step(1) in \<open>auto simp: handlers finished_one_def input_done_def waiting_def\<close>)
next
  case (step_sorted_points i lo hi)
  show ?thesis unfolding step_sorted_points(1)
    by (rule upd_inputs_ok [OF assms(2) step_sorted_points(2) refl refl, where f = "\<lambda>x. x\<lparr>
        ii_min := (if m192_lt lo (ii_min x) then lo else ii_min x), ii_max := (if m192_lt (ii_max x) hi then hi else ii_max x)\<rparr>"])
      (use inputs_okD(10,11) [OF assms(2) step_sorted_points(2)] in \<open>auto simp: handlers finished_one_def input_done_def waiting_def\<close>)
next
  case (step_points_written i ls)
  show ?thesis unfolding step_points_written(1)
    by (rule upd_inputs_ok [OF assms(2) step_points_written(2) refl refl, where f = "\<lambda>x. x\<lparr>ii_locations := ls\<rparr>"])
      (use inputs_okD(10,11) [OF assms(2) step_points_written(2)] in \<open>auto simp: handlers finished_one_def input_done_def waiting_def\<close>)
next
  case (step_reading_done i)
  then show ?thesis using retire_ok [OF assms(2)] by (simp add: handle_reading_done_def)
next
  case (step_file_failed i)
  then show ?thesis using failed_ok [OF assms(2)] by simp
next
  case (step_tree_done i)
  have "id_data i \<in> set (sr_sorted r)" using inputs_okD(10) [OF assms(2) step_tree_done(2)] step_tree_done(3) by force
  then show ?thesis unfolding step_tree_done(1)
    by - (rule upd_inputs_ok [OF assms(2) step_tree_done(2) refl refl, where f = "\<lambda>x. x\<lparr>ii_inserted := ii_inserted x + 1\<rparr>"],
      use step_tree_done(3) word_step(2) in \<open>auto simp: handlers finished_one_def input_done_def waiting_def\<close>)
next
  case step_next
  note b = rebuild_ok [OF assms(2)]
  show ?thesis
  proof (cases rule: next_cases [OF assms(2,3)])
    case 1
    then show ?thesis using b(1) step_next by simp
  next
    case (2 i)
    have "known i (rebuild_unsorted r)" "waiting (item_of i (rebuild_unsorted r))"
      using 2(1,2) by (simp_all add: known_def item_of_def b(2))
    from dispatch_ok [OF b(1) this] show ?thesis using 2(5) step_next b(3,4) by simp
  qed
next
  case step_done_morton
  note p = prefix_of_ok [OF assms(2)]
  show ?thesis
  proof (cases "sr_sorted r = []")
    case True
    then show ?thesis using assms(2) step_done_morton by (simp add: done_morton_state)
  next
    case False
    then have r: "r' = r\<lparr>sr_done_prefix := word_of_nat (prefix_of r)\<rparr>" using step_done_morton by (simp add: done_morton_state)
    show ?thesis
      using assms(2) p unfolding r inputs_ok_def known_def item_of_def total_def by simp
  qed
qed

definition input_run :: "heap_pick \<Rightarrow> input_registry \<Rightarrow> bool" where
  "input_run pick r \<longleftrightarrow> (\<exists>n. (input_step pick)\<^sup>*\<^sup>* (new_input_registry n) r)"

lemma run_ok:
  assumes "input_run pick r" and "picks_least pick"
  shows "inputs_ok r"
proof -
  obtain n where "(input_step pick)\<^sup>*\<^sup>* (new_input_registry n) r" using assms(1) by (auto simp: input_run_def)
  then show ?thesis
    by (induction rule: rtranclp_induct) (auto intro: new_inputs_ok step_ok [OF _ _ assms(2)])
qed

lemma run_start: "input_run pick (new_input_registry n)"
  by (auto simp: input_run_def)

lemma run_step: "input_run pick r \<Longrightarrow> input_step pick r r' \<Longrightarrow> input_run pick r'"
  by (auto simp: input_run_def intro: rtranclp.rtrancl_into_rtrancl)

section \<open>Properties\<close>

lemma all_finished:
  assumes "inputs_ok r"
  shows "length (sr_items r) = unat (sr_done_count r) \<longleftrightarrow> (\<forall>(i, x) \<in> set (sr_items r). ii_read_finished x)"
proof -
  have "length xs = (\<Sum>x\<leftarrow>xs. finished_one x) \<longleftrightarrow> (\<forall>x \<in> set xs. ii_read_finished x)" for xs
  proof (induction xs)
    case (Cons x xs)
    have "(\<Sum>x\<leftarrow>xs. finished_one x) \<le> length xs" by (induction xs) (auto simp: finished_one_def)
    then show ?case using Cons.IH by (auto simp: finished_one_def)
  qed simp
  from this [of "map snd (sr_items r)"] show ?thesis
    unfolding inputs_okD(3) [OF assms] total_def by (auto simp: comp_def)
qed

lemma sums_equal:
  fixes f g :: "'a \<Rightarrow> u32"
  assumes "\<And>x. x \<in> set xs \<Longrightarrow> f x \<le> g x" and "(\<Sum>x\<leftarrow>xs. unat (g x)) < 2 ^ 32"
  shows "(\<Sum>x\<leftarrow>xs. g x) = (\<Sum>x\<leftarrow>xs. f x) \<longleftrightarrow> (\<forall>x \<in> set xs. f x = g x)"
proof -
  have le: "(\<Sum>x\<leftarrow>xs. unat (f x)) \<le> (\<Sum>x\<leftarrow>xs. unat (g x))"
    using assms(1) by (intro sum_list_mono) (simp add: word_le_nat_alt)
  have u: "(\<Sum>x\<leftarrow>xs. h x) = word_of_nat (\<Sum>x\<leftarrow>xs. unat (h x))" for h :: "'a \<Rightarrow> u32" by (induction xs) simp_all
  have "unat (\<Sum>x\<leftarrow>xs. g x) = (\<Sum>x\<leftarrow>xs. unat (g x))" "unat (\<Sum>x\<leftarrow>xs. f x) = (\<Sum>x\<leftarrow>xs. unat (f x))"
    using le assms(2) by (simp_all add: u unat_of_nat)
  then have "(\<Sum>x\<leftarrow>xs. g x) = (\<Sum>x\<leftarrow>xs. f x) \<longleftrightarrow> (\<Sum>x\<leftarrow>xs. unat (g x)) = (\<Sum>x\<leftarrow>xs. unat (f x))"
    by (metis word_unat_eq_iff)
  also have "\<dots> \<longleftrightarrow> (\<forall>x \<in> set xs. f x = g x)"
    using assms(1)
  proof (induction xs)
    case (Cons x xs)
    have "(\<Sum>x\<leftarrow>xs. unat (f x)) \<le> (\<Sum>x\<leftarrow>xs. unat (g x))"
      using Cons.prems by (intro sum_list_mono) (simp add: word_le_nat_alt)
    moreover have "unat (f x) \<le> unat (g x)" using Cons.prems [of x] by (simp add: word_le_nat_alt)
    ultimately show ?case using Cons by (auto simp: word_unat_eq_iff)
  qed simp
  finally show ?thesis .
qed

text \<open>C23: The conversion counts as inserted exactly when every registered file has been read to its end and every sub part it announced is in the tree: the three counters of the registry never drift from the files, whichever of the two paths retires a file and however often.\<close>

theorem all_inserted_exact:
  assumes "input_run pick r" and "picks_least pick" and "total (\<lambda>x. unat (ii_sub_count x)) r < 2 ^ 32"
  shows "all_inserted_into_tree r \<longleftrightarrow> (\<forall>(i, x) \<in> set (sr_items r). fully_inserted x)"
proof -
  have ok: "inputs_ok r" by (rule run_ok [OF assms(1,2)])
  note d = inputs_okD [OF ok]
  have le: "ii_inserted x \<le> ii_sub_count x" if "x \<in> set (map snd (sr_items r))" for x
    using that d(14) item_of_mem [OF d(1)] by (force simp: known_def)
  have "sr_with_sub_parts r = sr_inserted_to_tree r \<longleftrightarrow> (\<forall>x \<in> set (map snd (sr_items r)). ii_inserted x = ii_sub_count x)"
    unfolding d(4,5) total_def by (rule sums_equal [OF le assms(3) [unfolded total_def]])
  then show ?thesis
    unfolding all_inserted_into_tree_def all_finished [OF ok] by (auto simp: fully_inserted_def)
qed

text \<open>C26: \<open>next_input_to_process\<close> answers nothing exactly when no file is waiting; otherwise it hands out a waiting file of the least order, one that was never handed out before, and marks it as dispatched.\<close>

theorem next_input_least:
  assumes "input_run pick r" and "picks_least pick" and "next_input_to_process pick r = (res, r')"
  shows "case res of
      None \<Rightarrow> (\<forall>i. known i r \<longrightarrow> \<not> waiting (item_of i r))
    | Some ni \<Rightarrow> (let i = id_data (ni_id ni) in known i r \<and> waiting (item_of i r) \<and> i \<notin> set (sr_sorted r) \<and>
        (\<forall>j. known j r \<longrightarrow> waiting (item_of j r) \<longrightarrow> order_of r i \<le> order_of r j) \<and>
        sr_sorted r' = sr_sorted r @ [i] \<and> item_of i r' = (item_of i r)\<lparr>ii_read_started := True\<rparr> \<and>
        (\<forall>j. j \<noteq> i \<longrightarrow> item_of j r' = item_of j r))"
proof -
  have ok: "inputs_ok r" by (rule run_ok [OF assms(1,2)])
  note b = rebuild_ok [OF ok] and d = inputs_okD [OF ok]
  show ?thesis
  proof (cases rule: next_cases [OF ok assms(2)])
    case 1
    then show ?thesis by (simp add: assms(3))
  next
    case (2 i)
    have "i \<notin> set (sr_sorted r)" using d(9) 2(2) by (auto simp: waiting_def)
    moreover have "item_of j ((rebuild_unsorted r)\<lparr>sr_unsorted := xs, sr_sorted := ys\<rparr>) = item_of j r" for j xs ys
      by (simp add: item_of_def b(2))
    ultimately show ?thesis using 2 by (simp add: assms(3) Let_def)
  qed
qed

end
