(* ===== verification/InputWatermark.thy ===== *)
theory InputWatermark
  imports InputOrder
begin

text \<open>
  The done-morton watermark: what is strictly below it is final. The statement holds for files that
  were dispatched in rising order; a file that is registered while the conversion runs can be
  dispatched behind files of a higher order, and then the watermark claims too much. The example runs
  show both.
\<close>

section \<open>The clamp\<close>

lemma clamp_le: "clamp_boundary x b \<le> b" "\<not> ii_read_started x \<Longrightarrow> clamp_boundary x b \<le> ii_order x"
  by (auto simp: clamp_boundary_def simp flip: less_m192_def)

lemma fold_clamp_le:
  "fold clamp_boundary xs b \<le> b"
  "x \<in> set xs \<Longrightarrow> \<not> ii_read_started x \<Longrightarrow> fold clamp_boundary xs b \<le> ii_order x"
proof -
  show le: "fold clamp_boundary xs b \<le> b" for b xs
    by (induction xs arbitrary: b) (auto intro: order_trans clamp_le)
  show "x \<in> set xs \<Longrightarrow> \<not> ii_read_started x \<Longrightarrow> fold clamp_boundary xs b \<le> ii_order x"
  proof (induction xs arbitrary: b)
    case (Cons y xs)
    show ?case
    proof (cases "x = y")
      case True
      then show ?thesis using le [of xs "clamp_boundary y b"] clamp_le(2) [OF Cons.prems(2), of b] by simp
    next
      case False
      then show ?thesis using Cons by simp
    qed
  qed simp
qed

lemma item_prefix: "item_of j (r\<lparr>sr_done_prefix := w\<rparr>) = item_of j r"
  by (simp add: item_of_def)

section \<open>The watermark of files dispatched in rising order\<close>

definition rising :: "input_registry \<Rightarrow> bool" where
  "rising r \<longleftrightarrow> sorted_wrt (\<le>) (map (order_of r) (sr_sorted r))"

text \<open>C24: When the files were dispatched in rising order, no file that is not done, dispatched or not, has an order below the watermark.\<close>

theorem watermark_final:
  assumes "input_run pick r" and "picks_least pick" and "rising r" and "get_done_morton r = (Some b, r')"
    and "(i, x) \<in> set (sr_items r)" and "\<not> input_done x"
  shows "b \<le> ii_order x"
proof -
  have ok: "inputs_ok r" by (rule run_ok [OF assms(1,2)])
  note d = inputs_okD [OF ok] and p = prefix_of_ok [OF ok]
  have it: "item_of i r = x" by (rule item_of_mem [OF d(1) assms(5)])
  have kn: "known i r" using assms(5) by (force simp: known_def)
  let ?n = "prefix_of r" and ?q = "sr_sorted r"
  define start where "start = (if ?n < length ?q
      then (if m192_lt (ii_min (item_of (?q ! ?n) r)) (order_of r (?q ! ?n)) then ii_min (item_of (?q ! ?n) r) else order_of r (?q ! ?n))
      else ones_m192)"
  have b: "b = fold clamp_boundary (map snd (sr_items r)) start"
    using assms(4) unfolding get_done_morton_def prefix_of_def [symmetric] Let_def
    by (simp add: start_def order_of_def item_prefix split: if_splits)
  show ?thesis
  proof (cases "ii_read_started x")
    case False
    have "x \<in> set (map snd (sr_items r))" using assms(5) by force
    then show ?thesis unfolding b using False by (rule fold_clamp_le(2))
  next
    case True
    have "i \<in> set ?q"
    proof (rule ccontr)
      assume "i \<notin> set ?q"
      then show False using d(10,11) [OF kn] True assms(6) by (auto simp: it input_done_def)
    qed
    then obtain k where k: "k < length ?q" "?q ! k = i" by (auto simp: in_set_conv_nth)
    have "?n \<le> k" using p(2) [of k] assms(6) it k(2) by force
    then have "order_of r (?q ! ?n) \<le> order_of r i"
      using assms(3) k by (cases "?n = k") (auto simp: rising_def sorted_wrt_iff_nth_less)
    moreover have "start \<le> order_of r (?q ! ?n)"
      using \<open>?n \<le> k\<close> k(1) by (auto simp: start_def simp flip: less_m192_def)
    ultimately show ?thesis using fold_clamp_le(1) [of "map snd (sr_items r)" start] it by (simp add: b order_of_def)
  qed
qed

section \<open>Examples\<close>

fun first_least :: heap_pick where
  "first_least key [] = 0"
| "first_least key [i] = i"
| "first_least key (i # j # is) = (let k = first_least key (j # is) in if key k < key i then k else i)"

lemma first_least_picks: "picks_least first_least"
proof -
  have "first_least key xs \<in> set xs \<and> (\<forall>x \<in> set xs. key (first_least key xs) \<le> key x)" if "xs \<noteq> []" for key xs
    using that by (induction key xs rule: first_least.induct) (auto simp: Let_def)
  then show ?thesis by (simp add: picks_least_def)
qed

text \<open>The example files: their order is the first coordinate, read as a code of one word.\<close>

definition to_code :: "position \<Rightarrow> m192" where
  "to_code p = M192 (fst p) 0 0"

definition input_no :: "u32 \<Rightarrow> input_data_id" where
  "input_no n = \<lparr>id_data = n, id_sub = 0\<rparr>"

definition add_file :: "u8 \<Rightarrow> input_registry \<Rightarrow> input_registry" where
  "add_file name r = snd (register_file [name] r)"

definition settle :: "u32 \<Rightarrow> u64 \<Rightarrow> input_registry \<Rightarrow> input_registry" where
  "settle i x r = register_pre_init_result to_code (input_no i) True (x, 0, 0) 0 0 0 r"

definition dispatch :: "input_registry \<Rightarrow> input_registry" where
  "dispatch r = snd (next_input_to_process first_least r)"

text \<open>Two files of order 10 and 20 are dispatched; the first is read to its end.\<close>

definition two_files :: input_registry where
  "two_files = dispatch (dispatch (settle 1 20 (settle 0 10 (add_file 66 (add_file 65 (new_input_registry 0))))))"

definition first_read :: input_registry where
  "first_read = handle_reading_done (input_no 0) two_files"

text \<open>While they are read, a third file of order 5 is registered and dispatched.\<close>

definition late_file :: input_registry where
  "late_file = handle_reading_done (input_no 0) (dispatch (settle 2 5 (add_file 67 two_files)))"

lemma run_add: "input_run first_least r \<Longrightarrow> sr_next_id r \<noteq> - 1 \<Longrightarrow> input_run first_least (add_file n r)"
  unfolding add_file_def by (rule run_step, assumption, rule step_register)

lemma run_settle: "input_run first_least r \<Longrightarrow> known i r \<Longrightarrow> \<not> ii_read_started (item_of i r) \<Longrightarrow> input_run first_least (settle i x r)"
  unfolding settle_def by (rule run_step, assumption, rule step_pre_init) (simp_all add: file_id_def input_no_def)

lemma run_dispatch: "input_run first_least r \<Longrightarrow> input_run first_least (dispatch r)"
  unfolding dispatch_def by (rule run_step, assumption, rule step_next)

lemma run_reading_done: "input_run first_least r \<Longrightarrow> known i r \<Longrightarrow> i \<in> set (sr_sorted r) \<Longrightarrow>
    input_run first_least (handle_reading_done (input_no i) r)"
  by (rule run_step, assumption, rule step_reading_done) (simp_all add: file_id_def input_no_def)

lemma two_files_run: "input_run first_least two_files"
  unfolding two_files_def
  by (intro run_dispatch run_settle run_add run_start) (code_simp+)

lemma first_read_run: "input_run first_least first_read"
  unfolding first_read_def by (rule run_reading_done [OF two_files_run]) code_simp+

lemma late_file_run: "input_run first_least late_file"
  unfolding late_file_def by (intro run_reading_done run_dispatch run_settle run_add two_files_run) (code_simp+)

text \<open>C25: The watermark is not final when a file is registered late: after a run in which a file of order 5 is dispatched behind files of order 10 and 20, the watermark is 20 while the file of order 5 has not been read.\<close>

theorem watermark_overclaims:
  "\<exists>r b x. input_run first_least r \<and> fst (get_done_morton r) = Some b \<and> x \<in> snd ` set (sr_items r) \<and>
    ii_read_started x \<and> \<not> input_done x \<and> ii_order x < b"
proof -
  have "fst (get_done_morton late_file) = Some (M192 20 0 0)" by code_simp
  moreover have "item_of 2 late_file \<in> snd ` set (sr_items late_file)" by code_simp
  moreover have "ii_read_started (item_of 2 late_file)" "\<not> input_done (item_of 2 late_file)" "ii_order (item_of 2 late_file) = M192 5 0 0"
    by code_simp+
  moreover have "M192 5 0 0 < M192 20 0 0" by code_simp
  ultimately show ?thesis using late_file_run by metis
qed

theorem all_inserted_exact_witness: "\<not> all_inserted_into_tree first_read"
proof -
  have "total (\<lambda>x. unat (ii_sub_count x)) first_read = 0" by code_simp
  then have "total (\<lambda>x. unat (ii_sub_count x)) first_read < 2 ^ 32" by simp
  moreover have "\<not> (\<forall>(i, x) \<in> set (sr_items first_read). fully_inserted x)" by code_simp
  ultimately show ?thesis using all_inserted_exact [OF first_read_run first_least_picks] by blast
qed

theorem next_input_least_witness:
  "\<not> waiting (item_of 0 first_read) \<and> \<not> waiting (item_of 1 first_read)"
proof -
  obtain res r' where n: "next_input_to_process first_least first_read = (res, r')" by (rule prod.exhaust)
  have "fst (next_input_to_process first_least first_read) = None" by code_simp
  moreover have "known 0 first_read" "known 1 first_read" by code_simp+
  ultimately show ?thesis using next_input_least [OF first_read_run first_least_picks n] by (simp add: n)
qed

theorem watermark_final_witness: "\<exists>b x. fst (get_done_morton first_read) = Some b \<and> \<not> input_done x \<and> b \<le> ii_order x"
proof -
  have "fst (get_done_morton first_read) = Some (M192 20 0 0)" by code_simp
  then obtain r' where g: "get_done_morton first_read = (Some (M192 20 0 0), r')" by (metis prod.collapse)
  have "rising first_read" by code_simp
  moreover have "(1, item_of 1 first_read) \<in> set (sr_items first_read)" "\<not> input_done (item_of 1 first_read)" by code_simp+
  ultimately show ?thesis using watermark_final [OF first_read_run first_least_picks _ g] g by (metis fst_conv)
qed

end
