(* ===== verification/InputFormat.thy ===== *)
theory InputFormat
  imports InputWatermark
begin

text \<open>
  The input-registry section of the registry blob: writing it and reading it back. Files that are not
  done are to be read again, so they leave the dispatched list and lose their dispatch mark; the done
  prefix is kept.
\<close>

section \<open>Writing\<close>

definition written_item :: "u32 \<times> input_item \<Rightarrow> bytes list" where
  "written_item kv = (let (i, x) = kv in
     [word_bytes i, word_bytes (word_of_nat (length (ii_name x)) :: u32), ii_name x, enc_m192 (ii_order x), enc_m192 (ii_min x),
      enc_m192 (ii_max x), word_bytes (ii_sub_count x), word_bytes (ii_inserted x), word_bytes (bool_byte (ii_read_started x)),
      word_bytes (bool_byte (ii_read_finished x))])"

definition input_fields :: "input_registry \<Rightarrow> bytes list" where
  "input_fields r = [word_bytes k_input_registry_magic, word_bytes (word_of_nat (length (sr_items r)) :: u32)] @
     concat (map written_item (sr_items r)) @
     [word_bytes (word_of_nat (length (sr_sorted r)) :: u32), concat (map word_bytes (sr_sorted r)), word_bytes (sr_done_prefix r)]"

definition stored_size :: "input_registry \<Rightarrow> nat" where
  "stored_size r = 16 + total item_size r + 4 * length (sr_sorted r)"

lemma write_item_seq: "write_item kv = write_seq (written_item kv)"
  by (rule ext, cases kv) (simp add: write_item_def written_item_def Let_def Option.bind_def split: option.splits)

lemma length_written_item: "length (concat (written_item kv)) = item_size (snd kv)"
  by (cases kv) (simp add: written_item_def item_size_def Let_def)

lemma length_items: "length (concat (concat (map written_item xs))) = (\<Sum>x\<leftarrow>map snd xs. item_size x)"
  by (induction xs) (simp_all add: length_written_item)

lemma serialize_inputs_eq:
  assumes "stored_size r < 2 ^ 32"
  shows "serialize_inputs r = concat (input_fields r)"
proof -
  have items: "write_all write_item (sr_items r) = write_seq (concat (map written_item (sr_items r)))"
    by (rule ext) (rule write_all_seq, simp add: write_item_seq)
  have size: "length (concat (input_fields r)) = input_registry_size r"
    using assms length_items [of "sr_items r"]
    by (simp add: input_fields_def input_registry_size_def stored_size_def total_def wrap32_def u32c.length_concat_enc)
  have tail: "Option.bind (write_seq xs c) (\<lambda>c. Option.bind (write_memory a c) (\<lambda>c. Option.bind (write_vec_type vs c) (write_memory b)))
      = write_seq (xs @ [a, concat vs, b]) c" for xs a vs b c
    by (auto simp: write_seq_append write_vec_concat split: option.splits bind_splits)
  have "serialize_inputs r = (case write_seq (input_fields r) (fresh (input_registry_size r)) of None \<Rightarrow> [] | Some c \<Rightarrow> buffer_of c)"
    unfolding serialize_inputs_def items tail bind_write_seq input_fields_def append_Cons append_Nil ..
  then show ?thesis using write_seq_fits [of "input_fields r" "input_registry_size r"] size by (auto split: option.splits)
qed

section \<open>Reading\<close>

definition stored_item :: "u32 \<Rightarrow> input_item \<Rightarrow> input_item" where
  "stored_item i x = new_item\<lparr>ii_id := \<lparr>id_data = i, id_sub = 0\<rparr>, ii_name := ii_name x, ii_order := ii_order x, ii_min := ii_min x,
     ii_max := ii_max x, ii_sub_count := ii_sub_count x, ii_inserted := ii_inserted x, ii_read_started := ii_read_started x,
     ii_read_finished := ii_read_finished x, ii_pre_init_settled := True\<rparr>"

lemma read_written_item:
  assumes "length (ii_name x) < 2 ^ 32" and "items i = new_item"
  shows "read_item items (concat (written_item (i, x)) @ q) = Some ((i, stored_item i x), q)"
proof -
  have name: "read_memory (length (ii_name x)) (\<lambda>b. b) (ii_name x @ p) = Some (ii_name x, p)" for p by simp
  have b: "bool_byte c \<noteq> 0 \<longleftrightarrow> c" for c by (simp add: bool_byte_def)
  show ?thesis
    using assms by (simp add: read_item_def written_item_def u32c.read_one u8c.read_one [unfolded One_nat_def] m192c.read_one
        unat_of_nat b stored_item_def)
qed

lemma read_items_ok:
  assumes "distinct (map fst xs)" and "\<And>i. i \<in> fst ` set xs \<Longrightarrow> \<not> known i r" and "\<And>x. x \<in> snd ` set xs \<Longrightarrow> length (ii_name x) < 2 ^ 32"
  shows "\<exists>m. read_items (length xs) m0 r (concat (concat (map written_item xs)) @ q) =
      Some ((m, r\<lparr>sr_items := sr_items r @ map (\<lambda>(i, x). (i, stored_item i x)) xs,
        sr_with_sub_parts := sr_with_sub_parts r + (\<Sum>x\<leftarrow>map snd xs. ii_sub_count x),
        sr_inserted_to_tree := sr_inserted_to_tree r + (\<Sum>x\<leftarrow>map snd xs. ii_inserted x),
        sr_done_count := sr_done_count r + word_of_nat (\<Sum>x\<leftarrow>map snd xs. finished_one x)\<rparr>), q) \<and>
      (\<forall>i \<in> fst ` set xs. i \<le> m) \<and> m0 \<le> m \<and> m \<in> insert m0 (fst ` set xs)"
  using assms
proof (induction xs arbitrary: m0 r)
  case Nil
  then show ?case by simp
next
  case (Cons p xs)
  obtain i x where p: "p = (i, x)" by (cases p)
  have new: "\<not> known i r" using Cons.prems(2) by (simp add: p)
  then have none: "map_of (sr_items r) i = None" by (simp add: known_def map_of_eq_None_iff)
  then have blank: "item_of i r = new_item" by (simp add: item_of_def)
  have upd: "AList.update i y (sr_items r) = sr_items r @ [(i, y)]" for y
  proof -
    have "i \<notin> fst ` set ys \<Longrightarrow> AList.update i y ys = ys @ [(i, y)]" for ys by (induction ys) auto
    then show ?thesis using new by (simp add: known_def)
  qed
  define r1 where "r1 = add_read_item (i, stored_item i x) r"
  have r1: "r1 = r\<lparr>sr_items := sr_items r @ [(i, stored_item i x)], sr_with_sub_parts := sr_with_sub_parts r + ii_sub_count x,
      sr_inserted_to_tree := sr_inserted_to_tree r + ii_inserted x, sr_done_count := sr_done_count r + word_of_nat (finished_one x)\<rparr>"
    by (simp add: r1_def add_read_item_def set_item_def upd stored_item_def finished_one_def)
  have rd: "read_item (\<lambda>i. item_of i r) (concat (written_item (i, x)) @ q') = Some ((i, stored_item i x), q')" for q'
    by (rule read_written_item) (use Cons.prems(3) blank in \<open>simp_all add: p\<close>)
  have k1: "\<not> known j r1" if "j \<in> fst ` set xs" for j
    using Cons.prems(1) Cons.prems(2) [of j] that by (auto simp: known_def r1 p)
  obtain m where m: "read_items (length xs) (if m0 < i then i else m0) r1 (concat (concat (map written_item xs)) @ q) =
      Some ((m, r1\<lparr>sr_items := sr_items r1 @ map (\<lambda>(i, x). (i, stored_item i x)) xs,
        sr_with_sub_parts := sr_with_sub_parts r1 + (\<Sum>x\<leftarrow>map snd xs. ii_sub_count x),
        sr_inserted_to_tree := sr_inserted_to_tree r1 + (\<Sum>x\<leftarrow>map snd xs. ii_inserted x),
        sr_done_count := sr_done_count r1 + word_of_nat (\<Sum>x\<leftarrow>map snd xs. finished_one x)\<rparr>), q)"
    "\<forall>i \<in> fst ` set xs. i \<le> m" "(if m0 < i then i else m0) \<le> m" "m \<in> insert (if m0 < i then i else m0) (fst ` set xs)"
    using Cons.IH [of r1 "if m0 < i then i else m0"] Cons.prems(1,3) k1 by (auto simp: p)
  have "i \<le> m" "m0 \<le> m" using m(3) by (auto split: if_splits)
  then show ?case
    using m(1,2,4) by (auto simp: p rd r1_def [symmetric]) (auto simp: r1 add.assoc split: if_splits)
qed

text \<open>The loop over the dispatched files.\<close>

definition requeued :: "u32 list \<Rightarrow> input_registry \<Rightarrow> input_registry \<Rightarrow> bool" where
  "requeued is r r' \<longleftrightarrow> map fst (sr_items r') = map fst (sr_items r) \<and>
     (\<forall>j. item_of j r' = (item_of j r)\<lparr>ii_read_started := ii_read_started (item_of j r) \<and>
        (j \<in> set is \<longrightarrow> fully_inserted (item_of j r))\<rparr>) \<and>
     sr_with_sub_parts r' = sr_with_sub_parts r \<and> sr_inserted_to_tree r' = sr_inserted_to_tree r \<and>
     sr_done_count r' = sr_done_count r \<and> sr_next_id r' = sr_next_id r"

lemma keep_done_ok:
  assumes "\<And>i. i \<in> set is \<Longrightarrow> known i r" and "distinct is"
    and "\<And>j. j < unat p - k \<Longrightarrow> j < length is \<Longrightarrow> fully_inserted (item_of (is ! j) r)"
    and "k \<le> unat p \<Longrightarrow> length ks = k" and "pre = word_of_nat (min k (unat p))" and "unat p \<le> k + length is"
  shows "\<exists>r'. keep_done is k p ks pre r = Some (ks @ filter (\<lambda>i. fully_inserted (item_of i r)) is, p, r') \<and> requeued is r r'"
  using assms
proof (induction "is" arbitrary: k ks pre r)
  case Nil
  then show ?case by (simp add: requeued_def min_def)
next
  case (Cons i "is")
  have kn: "known i r" using Cons.prems(1) by simp
  then obtain x where x: "map_of (sr_items r) i = Some x" by (auto simp: known_def dest: weak_map_of_SomeI)
  then have it: "item_of i r = x" by (simp add: item_of_def)
  show ?case
  proof (cases "fully_inserted x")
    case True
    let ?pre = "if k < unat p then word_of_nat (length ks + 1) else pre"
    have "\<exists>r'. keep_done is (k + 1) p (ks @ [i]) ?pre r =
        Some ((ks @ [i]) @ filter (\<lambda>i. fully_inserted (item_of i r)) is, p, r') \<and> requeued is r r'"
    proof (rule Cons.IH)
      show "fully_inserted (item_of (is ! j) r)" if "j < unat p - (k + 1)" "j < length is" for j
        using Cons.prems(3) [of "Suc j"] that by simp
      show "?pre = word_of_nat (min (k + 1) (unat p))" using Cons.prems(4,5) by (auto simp: min_def)
    qed (use Cons.prems in auto)
    then show ?thesis using True x it by (auto simp: requeued_def)
  next
    case False
    let ?f = "\<lambda>x. x\<lparr>ii_read_started := False\<rparr>"
    let ?r = "upd_item i ?f r"
    have kp: "unat p \<le> k" using Cons.prems(3) [of 0] False it by (cases "k < unat p") auto
    have same: "fully_inserted (item_of j ?r) = fully_inserted (item_of j r)" for j by (simp add: fully_inserted_def)
    have "\<exists>r'. keep_done is (k + 1) p ks pre ?r = Some (ks @ filter (\<lambda>i. fully_inserted (item_of i ?r)) is, p, r') \<and> requeued is ?r r'"
      by (rule Cons.IH) (use Cons.prems kp in \<open>auto simp: min_def\<close>)
    then obtain r' where r': "keep_done is (k + 1) p ks pre ?r = Some (ks @ filter (\<lambda>i. fully_inserted (item_of i r)) is, p, r')"
      "requeued is ?r r'" unfolding same by blast
    have "requeued (i # is) r r'"
      unfolding requeued_def
    proof (intro conjI allI)
      show "map fst (sr_items r') = map fst (sr_items r)" using r'(2) kn by (simp add: requeued_def keys_upd)
      show "item_of j r' = (item_of j r)\<lparr>ii_read_started := ii_read_started (item_of j r) \<and>
          (j \<in> set (i # is) \<longrightarrow> fully_inserted (item_of j r))\<rparr>" for j
        using r'(2) False it by (auto simp: requeued_def same)
    qed (use r'(2) in \<open>simp_all add: requeued_def\<close>)
    then show ?thesis using r'(1) False x it by auto
  qed
qed

section \<open>The round trip\<close>

lemma name_sizes:
  assumes "x \<in> snd ` set (sr_items r)"
  shows "length (ii_name x) \<le> total item_size r"
proof -
  have "x \<in> set ys \<Longrightarrow> length (ii_name x) \<le> (\<Sum>x\<leftarrow>ys. item_size x)" for ys
    by (induction ys) (auto simp: item_size_def)
  from this [of "map snd (sr_items r)"] show ?thesis using assms by (simp add: total_def)
qed

text \<open>What a session stores of its files the next one reads back: names, orders, bounds, counts and flags, the counters and the done prefix; the files that were dispatched but not completed are waiting again, and the next id is above every stored one.\<close>

theorem inputs_roundtrip:
  assumes "input_run pick r" and "picks_least pick" and "stored_size r < 2 ^ 32"
  shows "\<exists>r'. deserialize_inputs (serialize_inputs r) r0 = Inr r' \<and> map fst (sr_items r') = map fst (sr_items r) \<and>
    (\<forall>i. known i r \<longrightarrow> item_of i r' = (stored_item i (item_of i r))\<lparr>ii_read_started := ii_read_started (item_of i r) \<and>
       (i \<in> set (sr_sorted r) \<longrightarrow> fully_inserted (item_of i r))\<rparr>) \<and>
    sr_sorted r' = filter (\<lambda>i. fully_inserted (item_of i r)) (sr_sorted r) \<and> sr_done_prefix r' = sr_done_prefix r \<and>
    sr_with_sub_parts r' = sr_with_sub_parts r \<and> sr_inserted_to_tree r' = sr_inserted_to_tree r \<and>
    sr_done_count r' = sr_done_count r \<and> sr_dirty r' \<and> (\<forall>i. known i r \<longrightarrow> i < sr_next_id r')"
proof -
  have ok: "inputs_ok r" by (rule run_ok [OF assms(1,2)])
  note d = inputs_okD [OF ok]
  let ?xs = "sr_items r"
  define blank where "blank = r0\<lparr>sr_items := [], sr_with_sub_parts := 0, sr_inserted_to_tree := 0, sr_done_count := 0\<rparr>"
  define tail where "tail = word_bytes (word_of_nat (length (sr_sorted r)) :: u32) @ concat (map word_bytes (sr_sorted r)) @ word_bytes (sr_done_prefix r)"
  have names: "length (ii_name x) < 2 ^ 32" if "x \<in> snd ` set ?xs" for x
    using name_sizes [OF that] assms(3) by (simp add: stored_size_def)
  obtain m where m: "read_items (length ?xs) 0 blank (concat (concat (map written_item ?xs)) @ tail) =
      Some ((m, blank\<lparr>sr_items := map (\<lambda>(i, x). (i, stored_item i x)) ?xs,
        sr_with_sub_parts := sr_with_sub_parts r, sr_inserted_to_tree := sr_inserted_to_tree r,
        sr_done_count := word_of_nat (total finished_one r)\<rparr>), tail)"
      "\<And>i. known i r \<Longrightarrow> i \<le> m" "m \<in> insert 0 (fst ` set ?xs)"
    using read_items_ok [OF d(1) _ names, of blank 0 tail] d(4,5) by (auto simp: blank_def known_def total_def)
  define r1 where "r1 = blank\<lparr>sr_items := map (\<lambda>(i, x). (i, stored_item i x)) ?xs,
        sr_with_sub_parts := sr_with_sub_parts r, sr_inserted_to_tree := sr_inserted_to_tree r,
        sr_done_count := word_of_nat (total finished_one r)\<rparr>"
  have keys: "map fst (sr_items r1) = map fst ?xs" by (simp add: r1_def comp_def case_prod_unfold)
  then have kn: "known i r1 \<longleftrightarrow> known i r" for i unfolding known_def by (metis list.set_map)
  have item: "item_of i r1 = stored_item i (item_of i r)" if "known i r" for i
  proof (rule item_of_mem)
    show "distinct (map fst (sr_items r1))" using d(1) keys by simp
    show "(i, stored_item i (item_of i r)) \<in> set (sr_items r1)"
      using known_item [OF that d(1)] by (auto simp: r1_def intro!: image_eqI [of _ _ "(i, item_of i r)"])
  qed
  have full: "fully_inserted (item_of i r1) = fully_inserted (item_of i r)" if "known i r" for i
    by (simp add: item [OF that] fully_inserted_def stored_item_def)
  have completed: "fully_inserted (item_of (sr_sorted r ! j) r1)" if "j < unat (sr_done_prefix r)" "j < length (sr_sorted r)" for j
  proof -
    have k: "known (sr_sorted r ! j) r" using d(9) nth_mem [OF that(2)] by blast
    show ?thesis
      unfolding full [OF k] using d(13) [OF that(1)] d(14) [OF k] by (simp add: fully_inserted_def input_done_def not_less)
  qed
  have "\<exists>r2. keep_done (sr_sorted r) 0 (sr_done_prefix r) [] 0 r1 =
      Some ([] @ filter (\<lambda>i. fully_inserted (item_of i r1)) (sr_sorted r), sr_done_prefix r, r2) \<and> requeued (sr_sorted r) r1 r2"
    by (rule keep_done_ok) (use d(8,9,12) kn completed in auto)
  moreover have "filter (\<lambda>i. fully_inserted (item_of i r1)) (sr_sorted r) = filter (\<lambda>i. fully_inserted (item_of i r)) (sr_sorted r)"
    by (rule filter_cong) (use d(9) full in auto)
  ultimately obtain r2 where r2: "keep_done (sr_sorted r) 0 (sr_done_prefix r) [] 0 r1 =
      Some (filter (\<lambda>i. fully_inserted (item_of i r)) (sr_sorted r), sr_done_prefix r, r2)" "requeued (sr_sorted r) r1 r2" by auto
  let ?r = "ensure_next_input_id_above m (r2\<lparr>sr_sorted := filter (\<lambda>i. fully_inserted (item_of i r)) (sr_sorted r),
      sr_done_prefix := sr_done_prefix r, sr_unsorted := [], sr_dirty := True\<rparr>)"
  have lens: "unat (word_of_nat (length ?xs) :: u32) = length ?xs" "unat (word_of_nat (length (sr_sorted r)) :: u32) = length (sr_sorted r)"
    using items_bound [OF ok] assms(3) by (simp_all add: unat_of_nat stored_size_def)
  have "deserialize_inputs (serialize_inputs r) r0 = Inr ?r"
    using m(1) r2(1) unfolding serialize_inputs_eq [OF assms(3)] blank_def tail_def
    by (simp add: deserialize_inputs_def input_fields_def u32c.read_one u32c.read_one [where rest = "[]", simplified] u32c.read_vec lens r1_def blank_def)
  moreover have items: "sr_items ?r = sr_items r2" by (simp add: ensure_next_input_id_above_def)
  have "map fst (sr_items ?r) = map fst ?xs" using r2(2) keys by (simp add: items requeued_def)
  moreover have "item_of i ?r = (stored_item i (item_of i r))\<lparr>ii_read_started := ii_read_started (item_of i r) \<and>
      (i \<in> set (sr_sorted r) \<longrightarrow> fully_inserted (item_of i r))\<rparr>" if "known i r" for i
  proof -
    have "item_of i ?r = item_of i r2" unfolding item_of_def [of i ?r] item_of_def [of i r2] items ..
    then show ?thesis using r2(2) by (simp add: requeued_def item [OF that] full [OF that, unfolded item [OF that]]) (simp add: stored_item_def)
  qed
  moreover have "i < sr_next_id ?r" if "known i r" for i
  proof -
    have "m \<noteq> - 1"
    proof
      assume "m = - 1"
      then have "known m r" using m(3) by (auto simp: known_def)
      then show False using d(2) [of m] \<open>m = - 1\<close> by simp
    qed
    then have "m < m + 1" using unat_plus_one [of m] by (simp add: word_less_nat_alt)
    then show ?thesis using m(2) [OF that] by (auto simp: ensure_next_input_id_above_def not_le)
  qed
  moreover have "sr_done_count r2 = sr_done_count r"
    using r2(2) unfolding requeued_def by (simp add: r1_def d(3) [symmetric])
  moreover have "sr_with_sub_parts r2 = sr_with_sub_parts r" "sr_inserted_to_tree r2 = sr_inserted_to_tree r"
    using r2(2) unfolding requeued_def by (simp_all add: r1_def)
  moreover have "sr_sorted ?r = filter (\<lambda>i. fully_inserted (item_of i r)) (sr_sorted r)" "sr_done_prefix ?r = sr_done_prefix r"
    "sr_dirty ?r" "sr_done_count ?r = sr_done_count r2" "sr_with_sub_parts ?r = sr_with_sub_parts r2"
    "sr_inserted_to_tree ?r = sr_inserted_to_tree r2"
    by (simp_all add: ensure_next_input_id_above_def)
  ultimately show ?thesis by metis
qed

theorem inputs_roundtrip_witness:
  "\<exists>r'. deserialize_inputs (serialize_inputs first_read) (new_input_registry 0) = Inr r' \<and>
     map fst (sr_items r') = [0, 1] \<and> sr_sorted r' = [0] \<and> \<not> ii_read_started (item_of 1 r')"
proof -
  have "stored_size first_read = 206" by code_simp
  then have s: "stored_size first_read < 2 ^ 32" by simp
  have "map fst (sr_items first_read) = [0, 1]" "filter (\<lambda>i. fully_inserted (item_of i first_read)) (sr_sorted first_read) = [0]"
    "known 1 first_read" "1 \<in> set (sr_sorted first_read)" "\<not> fully_inserted (item_of 1 first_read)" by code_simp+
  then show ?thesis using inputs_roundtrip [OF first_read_run first_least_picks s, of "new_input_registry 0"] by auto
qed

end
