(* ===== verification/RegionWalk.thy ===== *)
theory RegionWalk
  imports TreeBuild
begin

text \<open>
  \<open>src/src/access/region_walk.cpp\<close>: the descent of a query through the resident trees. It selects the
  nodes that overlap a box at a level of detail and reports the sub-trees that have to be loaded first.
  World coordinates are doubles; the comparison, the midpoint of two of them and the position of a code
  are the argument \<open>geometry\<close>. The vector of trees holds None for a tree that is not loaded. The loop
  over the levels is bounded by the constant of the code, 40.
\<close>

section \<open>Boxes\<close>

record 'd geometry =
  ge_less :: "'d \<Rightarrow> 'd \<Rightarrow> bool"
  ge_mid :: "'d \<Rightarrow> 'd \<Rightarrow> 'd"
  ge_pos :: "tree_config \<Rightarrow> m192 \<Rightarrow> 'd list"

record 'd aabb =
  ab_min :: "'d list"
  ab_max :: "'d list"

definition aabb_overlaps :: "'d geometry \<Rightarrow> 'd aabb \<Rightarrow> 'd aabb \<Rightarrow> bool" where
  "aabb_overlaps g a b \<longleftrightarrow>
     list_all (\<lambda>i. \<not> (ge_less g (ab_max a ! i) (ab_min b ! i) \<or> ge_less g (ab_max b ! i) (ab_min a ! i))) [0..<3]"

definition aabb_contains :: "'d geometry \<Rightarrow> 'd aabb \<Rightarrow> 'd aabb \<Rightarrow> bool" where
  "aabb_contains g outer inner \<longleftrightarrow>
     list_all (\<lambda>i. \<not> (ge_less g (ab_min inner ! i) (ab_min outer ! i) \<or> ge_less g (ab_max outer ! i) (ab_max inner ! i))) [0..<3]"

definition aabb_child :: "'d geometry \<Rightarrow> 'd aabb \<Rightarrow> nat \<Rightarrow> 'd aabb" where
  "aabb_child g parent child =
     (let mid = (\<lambda>i. ge_mid g (ab_min parent ! i) (ab_max parent ! i))
      in \<lparr>ab_min = map (\<lambda>i. if bit child i then mid i else ab_min parent ! i) [0..<3],
          ab_max = map (\<lambda>i. if bit child i then ab_max parent ! i else mid i) [0..<3]\<rparr>)"

definition cell_from_morton :: "'d geometry \<Rightarrow> tree_config \<Rightarrow> m192 \<Rightarrow> m192 \<Rightarrow> 'd aabb" where
  "cell_from_morton g config mn mx = \<lparr>ab_min = ge_pos g config mn, ab_max = ge_pos g config mx\<rparr>"

section \<open>Queries and results\<close>

datatype lod_mode = lod_full | lod_level | lod_point_budget

record 'd region_query =
  rq_box :: "'d aabb"
  rq_lod_mode :: lod_mode
  rq_lod :: int
  rq_max_points :: u64
  rq_whole_dataset :: bool

record 'd region_node =
  rn_tree_id :: u32
  rn_level :: u16
  rn_index :: u16
  rn_lod :: int
  rn_input_id :: input_data_id
  rn_attributes_id :: "attributes_id option"
  rn_offset :: u32
  rn_count :: u32
  rn_cell :: "'d aabb"
  rn_tight :: "'d aabb"
  rn_child_mask :: u8
  rn_is_leaf :: bool
  rn_is_lod :: bool
  rn_fully_inside :: bool

record 'd region_result =
  rr_nodes :: "'d region_node list"
  rr_trees_to_load :: "u32 list"
  rr_total_points :: u64

text \<open>What a walk reads: the geometry, the registry, its loaded trees and the query.\<close>

record 'd walk_env =
  we_geometry :: "'d geometry"
  we_registry :: tree_registry
  we_trees :: "tree_t option list"
  we_query :: "'d region_query"

record 'd pending_node =
  pn_tree :: tree_t
  pn_skip :: nat
  pn_cell :: "'d aabb"
  pn_fully_inside :: bool

definition tree_resident :: "tree_registry \<Rightarrow> u32 \<Rightarrow> bool" where
  "tree_resident r i \<longleftrightarrow> unat i < length (tr_id_initialized r) \<and> tr_id_initialized r ! unat i \<noteq> 0"

definition loaded_tree :: "'d walk_env \<Rightarrow> u32 \<Rightarrow> tree_t option" where
  "loaded_tree e i = we_trees e ! unat i"

definition outside_box :: "'d walk_env \<Rightarrow> 'd aabb \<Rightarrow> bool" where
  "outside_box e cell \<longleftrightarrow> \<not> rq_whole_dataset (we_query e) \<and> \<not> aabb_overlaps (we_geometry e) cell (rq_box (we_query e))"

definition walk_lod :: "nat \<Rightarrow> tree_t \<Rightarrow> int" where
  "walk_lod level t = int (unat (morton_tree_level_to_lod (unat (t_magnitude t)) level))"

section \<open>Emitting a node\<close>

text \<open>Which units of a node stand for it: leaf data at full resolution, sampled data above leaf data otherwise.\<close>

definition unit_selected :: "lod_mode \<Rightarrow> u8 \<Rightarrow> points_subset \<Rightarrow> bool" where
  "unit_selected mode child_mask s \<longleftrightarrow>
     (if mode = lod_full then input_data_id_is_leaf (ps_input s)
      else \<not> (child_mask \<noteq> 0 \<and> input_data_id_is_leaf (ps_input s)))"

definition unit_node :: "'d walk_env \<Rightarrow> nat \<Rightarrow> 'd pending_node \<Rightarrow> 'd aabb \<Rightarrow> points_subset \<Rightarrow> 'd region_node" where
  "unit_node e level p tight s =
     (let t = pn_tree p; child_mask = node_at t level (pn_skip p)
      in \<lparr>rn_tree_id = t_id t, rn_level = word_of_nat level, rn_index = lv_node_ids (t_levels t ! level) ! pn_skip p,
          rn_lod = walk_lod level t, rn_input_id = ps_input s, rn_attributes_id = attribute_id (ps_input s) (t_storage_map t),
          rn_offset = ps_offset s, rn_count = ps_count s, rn_cell = pn_cell p, rn_tight = tight, rn_child_mask = child_mask,
          rn_is_leaf = (child_mask = 0), rn_is_lod = (\<not> input_data_id_is_leaf (ps_input s)),
          rn_fully_inside = (pn_fully_inside p \<or> aabb_contains (we_geometry e) (rq_box (we_query e)) tight)\<rparr>)"

definition emit_node :: "'d walk_env \<Rightarrow> nat \<Rightarrow> 'd pending_node \<Rightarrow> 'd region_result \<Rightarrow> 'd region_result" where
  "emit_node e level p out =
     (let t = pn_tree p; collection = data_at t level (pn_skip p);
          tight = cell_from_morton (we_geometry e) (tr_config (we_registry e)) (pc_min collection) (pc_max collection);
          child_mask = node_at t level (pn_skip p)
      in if pc_data collection = [] then out
         else if outside_box e tight then out
         else fold (\<lambda>s out. if unit_selected (rq_lod_mode (we_query e)) child_mask s
                then out\<lparr>rr_total_points := rr_total_points out + ucast (ps_count s),
                         rr_nodes := rr_nodes out @ [unit_node e level p tight s]\<rparr>
                else out) (pc_data collection) out)"

section \<open>The descent\<close>

definition descends :: "'d walk_env \<Rightarrow> nat \<Rightarrow> 'd pending_node \<Rightarrow> 'd region_result \<Rightarrow> bool" where
  "descends e level p out \<longleftrightarrow>
     (let q = we_query e; t = pn_tree p
      in node_at t level (pn_skip p) \<noteq> 0 \<and>
         \<not> (rq_lod_mode q = lod_level \<and> walk_lod level t \<le> rq_lod q) \<and>
         \<not> (rq_lod_mode q = lod_point_budget \<and> rq_max_points q \<le> rr_total_points out))"

text \<open>
  The octants of an interior node. \<open>child_count\<close> advances for every octant that exists, also for one
  that is outside the box or whose tree is not loaded.
\<close>

fun walk_octants :: "'d walk_env \<Rightarrow> nat \<Rightarrow> 'd pending_node \<Rightarrow> nat list \<Rightarrow> nat \<Rightarrow> 'd pending_node list \<times> 'd region_result \<Rightarrow>
    'd pending_node list \<times> 'd region_result" where
  "walk_octants e level p [] child_count st = st"
| "walk_octants e level p (i # is) child_count st =
     (let t = pn_tree p; cell = aabb_child (we_geometry e) (pn_cell p) i; (nodes, out) = st
      in if \<not> bit (node_at t level (pn_skip p)) i then walk_octants e level p is child_count st
         else if outside_box e cell then walk_octants e level p is (child_count + 1) st
         else (let child_skip = skip_at t level (pn_skip p) + child_count;
                   inside = (pn_fully_inside p \<or> aabb_contains (we_geometry e) (rq_box (we_query e)) cell);
                   sub_id = t_sub_trees t ! child_skip
               in if level = 4
                  then (if \<not> tree_resident (we_registry e) sub_id
                        then walk_octants e level p is (child_count + 1)
                               (nodes, out\<lparr>rr_trees_to_load := rr_trees_to_load out @ [sub_id]\<rparr>)
                        else (case loaded_tree e sub_id of
                                None \<Rightarrow> walk_octants e level p is (child_count + 1) st
                              | Some sub_tree \<Rightarrow> walk_octants e level p is (child_count + 1)
                                  (nodes @ [\<lparr>pn_tree = sub_tree, pn_skip = 0, pn_cell = cell, pn_fully_inside = inside\<rparr>], out)))
                  else walk_octants e level p is (child_count + 1)
                         (nodes @ [\<lparr>pn_tree = t, pn_skip = child_skip, pn_cell = cell, pn_fully_inside = inside\<rparr>], out)))"

definition visit_node :: "'d walk_env \<Rightarrow> nat \<Rightarrow> 'd pending_node \<Rightarrow> 'd pending_node list \<times> 'd region_result \<Rightarrow>
    'd pending_node list \<times> 'd region_result" where
  "visit_node e level p st =
     (if descends e level p (snd st) then walk_octants e level p [0..<8] 0 st
      else (fst st, emit_node e level p (snd st)))"

fun walk_levels :: "'d walk_env \<Rightarrow> nat \<Rightarrow> nat \<Rightarrow> 'd pending_node list \<Rightarrow> 'd region_result \<Rightarrow> 'd region_result" where
  "walk_levels e 0 depth current out = out"
| "walk_levels e (Suc n) depth current out =
     (if current = [] then out
      else (let (nodes, out) = fold (visit_node e (depth mod 5)) current ([], out)
            in walk_levels e n (depth + 1) nodes out))"

definition walk_root :: "'d walk_env \<Rightarrow> 'd pending_node option" where
  "walk_root e =
     (case loaded_tree e (tr_root (we_registry e)) of
        None \<Rightarrow> None
      | Some root \<Rightarrow>
          (let cell = cell_from_morton (we_geometry e) (tr_config (we_registry e)) (t_min root) (t_max root)
           in if lv_data (t_levels root ! 0) = [] \<or> pc_data (data_at root 0 0) = [] then None
              else if outside_box e cell then None
              else Some \<lparr>pn_tree = root, pn_skip = 0, pn_cell = cell,
                     pn_fully_inside = (rq_whole_dataset (we_query e) \<or> aabb_contains (we_geometry e) (rq_box (we_query e)) cell)\<rparr>))"

definition max_depth :: nat where
  "max_depth = 40"

definition region_walk :: "'d walk_env \<Rightarrow> 'd region_result" where
  "region_walk e =
     (let out = \<lparr>rr_nodes = [], rr_trees_to_load = [], rr_total_points = 0\<rparr>
      in if we_trees e = [] then out
         else if \<not> tree_resident (we_registry e) (tr_root (we_registry e))
         then out\<lparr>rr_trees_to_load := [tr_root (we_registry e)]\<rparr>
         else (case walk_root e of None \<Rightarrow> out | Some p \<Rightarrow> walk_levels e max_depth 0 [p] out))"

end
