(* ===== verification/RegionCut.thy ===== *)
theory RegionCut
  imports RegionWalk TreeShape "HOL-Library.Sublist" "HOL-Library.Multiset"
begin

text \<open>
  What a walk selects. A path is the list of the octants taken from the root. The walk stops at a set
  of paths none of which extends another, and every leaf it can reach lies below exactly one of them:
  the selected nodes neither count a point twice nor leave one out, in every mode of the query.
\<close>

section \<open>The octants of a node\<close>

text \<open>The child in octant \<open>i\<close>, when it exists, overlaps the box and is loaded.\<close>

definition child_of :: "'d walk_env \<Rightarrow> nat \<Rightarrow> 'd pending_node \<Rightarrow> nat \<Rightarrow> 'd pending_node option" where
  "child_of e level p i =
     (let t = pn_tree p; cell = aabb_child (we_geometry e) (pn_cell p) i; node = node_at t level (pn_skip p);
          child_skip = skip_at t level (pn_skip p) + sub_tree_count_skips node i;
          inside = (pn_fully_inside p \<or> aabb_contains (we_geometry e) (rq_box (we_query e)) cell)
      in if \<not> bit node i \<or> outside_box e cell then None
         else if level = 4
         then (if \<not> tree_resident (we_registry e) (t_sub_trees t ! child_skip) then None
               else map_option (\<lambda>s. \<lparr>pn_tree = s, pn_skip = 0, pn_cell = cell, pn_fully_inside = inside\<rparr>)
                 (loaded_tree e (t_sub_trees t ! child_skip)))
         else Some \<lparr>pn_tree = t, pn_skip = child_skip, pn_cell = cell, pn_fully_inside = inside\<rparr>)"

definition some_of :: "('a \<Rightarrow> 'b option) \<Rightarrow> 'a list \<Rightarrow> 'b list" where
  "some_of f xs = concat (map (\<lambda>x. case f x of None \<Rightarrow> [] | Some y \<Rightarrow> [y]) xs)"

lemma some_of_simps [simp]:
  "some_of f [] = []" "some_of f (x # xs) = (case f x of None \<Rightarrow> some_of f xs | Some y \<Rightarrow> y # some_of f xs)"
  by (simp_all add: some_of_def split: option.split)

abbreviation add_loads :: "u32 list \<Rightarrow> 'd region_result \<Rightarrow> 'd region_result" where
  "add_loads ids out \<equiv> out\<lparr>rr_trees_to_load := rr_trees_to_load out @ ids\<rparr>"

lemma add_loads_Nil: "add_loads [] out = out"
  by simp

definition missing_tree :: "'d walk_env \<Rightarrow> nat \<Rightarrow> 'd pending_node \<Rightarrow> nat \<Rightarrow> u32 list" where
  "missing_tree e level p i =
     (let t = pn_tree p; node = node_at t level (pn_skip p);
          sub_id = t_sub_trees t ! (skip_at t level (pn_skip p) + sub_tree_count_skips node i)
      in if \<not> bit node i \<or> outside_box e (aabb_child (we_geometry e) (pn_cell p) i) \<or> level \<noteq> 4 \<or> tree_resident (we_registry e) sub_id
         then [] else [sub_id])"

lemma walk_octants_step:
  assumes "n = sub_tree_count_skips (node_at (pn_tree p) level (pn_skip p)) i"
  shows "walk_octants e level p (i # is) n (nodes, out) =
    walk_octants e level p is (if bit (node_at (pn_tree p) level (pn_skip p)) i then n + 1 else n)
      (nodes @ some_of (child_of e level p) [i], add_loads (missing_tree e level p i) out)"
  using assms by (simp add: child_of_def missing_tree_def Let_def split: option.split)

lemma walk_octants_children:
  assumes "n = sub_tree_count_skips (node_at (pn_tree p) level (pn_skip p)) k"
  shows "walk_octants e level p [k..<k + m] n (nodes, out) =
    (nodes @ some_of (child_of e level p) [k..<k + m],
     add_loads (concat (map (missing_tree e level p) [k..<k + m])) out)"
  using assms
proof (induction m arbitrary: k n nodes out)
  case 0
  then show ?case by simp
next
  case (Suc m)
  have k: "[k..<k + Suc m] = k # [Suc k..<Suc k + m]" by (simp add: upt_conv_Cons)
  have ih: "walk_octants e level p [Suc k..<Suc k + m] (if bit (node_at (pn_tree p) level (pn_skip p)) k then n + 1 else n) (nodes, out) =
      (nodes @ some_of (child_of e level p) [Suc k..<Suc k + m],
       add_loads (concat (map (missing_tree e level p) [Suc k..<Suc k + m])) out)" for nodes out
    by (rule Suc.IH) (simp add: Suc.prems)
  show ?case unfolding k walk_octants_step [OF Suc.prems] ih by (simp split: option.split)
qed

lemma visit_node_eq:
  "visit_node e level p (nodes, out) =
    (if descends e level p out
     then (nodes @ some_of (child_of e level p) [0..<8],
           add_loads (concat (map (missing_tree e level p) [0..<8])) out)
     else (nodes, emit_node e level p out))"
  using walk_octants_children [of 0 p level 0 e 8 nodes out] by (simp add: visit_node_def)

section \<open>One level of the walk\<close>

text \<open>What a node adds to the result when the walk stops there.\<close>

definition emitted :: "'d walk_env \<Rightarrow> nat \<Rightarrow> 'd pending_node \<Rightarrow> 'd region_node list" where
  "emitted e level p =
     (let t = pn_tree p; collection = data_at t level (pn_skip p);
          tight = cell_from_morton (we_geometry e) (tr_config (we_registry e)) (pc_min collection) (pc_max collection)
      in if outside_box e tight then []
         else map (unit_node e level p tight)
           (filter (unit_selected (rq_lod_mode (we_query e)) (node_at t level (pn_skip p))) (pc_data collection)))"

definition region_points :: "'d region_node list \<Rightarrow> u64" where
  "region_points ns = (\<Sum>n\<leftarrow>ns. ucast (rn_count n))"

lemma region_points_simps [simp]:
  "region_points [] = 0" "region_points (xs @ ys) = region_points xs + region_points ys"
  by (simp_all add: region_points_def)

lemma emit_units:
  "fold (\<lambda>s out. if sel s
      then out\<lparr>rr_total_points := rr_total_points out + ucast (ps_count s), rr_nodes := rr_nodes out @ [unit_node e level p tight s]\<rparr>
      else out) us out =
    out\<lparr>rr_total_points := rr_total_points out + region_points (map (unit_node e level p tight) (filter sel us)),
      rr_nodes := rr_nodes out @ map (unit_node e level p tight) (filter sel us)\<rparr>"
  by (induction us arbitrary: out) (simp_all add: region_points_def unit_node_def Let_def)

lemma emit_node_eq:
  "emit_node e level p out =
    out\<lparr>rr_total_points := rr_total_points out + region_points (emitted e level p), rr_nodes := rr_nodes out @ emitted e level p\<rparr>"
  by (simp add: emit_node_def emitted_def Let_def emit_units)

text \<open>A pending node together with its path.\<close>

type_synonym 'd placed = "nat list \<times> 'd pending_node"

definition kids_of :: "'d walk_env \<Rightarrow> nat \<Rightarrow> 'd placed \<Rightarrow> 'd placed list" where
  "kids_of e level w = some_of (\<lambda>i. map_option (Pair (fst w @ [i])) (child_of e level (snd w) i)) [0..<8]"

lemma map_some_of: "map h (some_of f xs) = some_of (\<lambda>x. map_option h (f x)) xs"
  by (induction xs) (simp_all split: option.split)

lemma set_some_of: "set (some_of f xs) = {y. \<exists>x \<in> set xs. f x = Some y}"
  by (induction xs) (auto split: option.split)

lemma snd_kids_of: "map snd (kids_of e level w) = some_of (child_of e level (snd w)) [0..<8]"
  by (simp add: kids_of_def map_some_of option.map_comp comp_def option.map_ident)

lemma kids_of_iff: "(\<rho>, q) \<in> set (kids_of e level (\<pi>, p)) \<longleftrightarrow> (\<exists>i < 8. \<rho> = \<pi> @ [i] \<and> child_of e level p i = Some q)"
  by (auto simp: kids_of_def set_some_of)

lemma kid_path: "x \<in> set (kids_of e level w) \<Longrightarrow> \<exists>i < 8. fst x = fst w @ [i] \<and> child_of e level (snd w) i = Some (snd x)"
  using kids_of_iff [of "fst x" "snd x" e level "fst w" "snd w"] by simp

lemma fst_kids_of: "\<exists>is. map fst (kids_of e level w) = map (\<lambda>i. fst w @ [i]) is \<and> distinct is"
proof -
  have "map fst (some_of (\<lambda>i. map_option (Pair (fst w @ [i])) (child_of e level (snd w) i)) is) =
      map (\<lambda>i. fst w @ [i]) (filter (\<lambda>i. child_of e level (snd w) i \<noteq> None) is)" for "is"
    by (induction "is") (auto split: option.split)
  then show ?thesis unfolding kids_of_def by (meson distinct_filter distinct_upt)
qed

text \<open>Why the walk stops at a node, and why it goes on.\<close>

definition may_stop :: "'d walk_env \<Rightarrow> nat \<Rightarrow> 'd pending_node \<Rightarrow> bool" where
  "may_stop e level p \<longleftrightarrow> node_at (pn_tree p) level (pn_skip p) = 0
     \<or> rq_lod_mode (we_query e) = lod_level \<and> walk_lod level (pn_tree p) \<le> rq_lod (we_query e)
     \<or> rq_lod_mode (we_query e) = lod_point_budget"

definition may_descend :: "'d walk_env \<Rightarrow> nat \<Rightarrow> 'd pending_node \<Rightarrow> bool" where
  "may_descend e level p \<longleftrightarrow> node_at (pn_tree p) level (pn_skip p) \<noteq> 0
     \<and> \<not> (rq_lod_mode (we_query e) = lod_level \<and> walk_lod level (pn_tree p) \<le> rq_lod (we_query e))"

lemma descends_cases:
  "descends e level p out \<Longrightarrow> may_descend e level p" "\<not> descends e level p out \<Longrightarrow> may_stop e level p"
  by (auto simp: descends_def may_descend_def may_stop_def Let_def)

lemma level_split:
  "\<exists>stops downs out'. fold (visit_node e level) (map snd ws) (nodes, out) = (nodes @ map snd (concat (map (kids_of e level) downs)), out')
     \<and> mset ws = mset (stops @ downs) \<and> rr_nodes out' = rr_nodes out @ concat (map (\<lambda>w. emitted e level (snd w)) stops)
     \<and> rr_total_points out' = rr_total_points out + region_points (concat (map (\<lambda>w. emitted e level (snd w)) stops))
     \<and> (\<forall>w \<in> set stops. may_stop e level (snd w)) \<and> (\<forall>w \<in> set downs. may_descend e level (snd w))"
proof (induction ws arbitrary: nodes out)
  case Nil
  show ?case by (rule exI [of _ "[]"], rule exI [of _ "[]"]) simp
next
  case (Cons w ws)
  show ?case
  proof (cases "descends e level (snd w) out")
    case True
    from Cons.IH [of "nodes @ map snd (kids_of e level w)" "add_loads (concat (map (missing_tree e level (snd w)) [0..<8])) out"]
    obtain stops downs out' where ih: "fold (visit_node e level) (map snd (w # ws)) (nodes, out) =
          (nodes @ map snd (concat (map (kids_of e level) (w # downs))), out')"
        "mset ws = mset (stops @ downs)" "rr_nodes out' = rr_nodes out @ concat (map (\<lambda>w. emitted e level (snd w)) stops)"
        "rr_total_points out' = rr_total_points out + region_points (concat (map (\<lambda>w. emitted e level (snd w)) stops))"
        "\<forall>w \<in> set stops. may_stop e level (snd w)" "\<forall>w \<in> set downs. may_descend e level (snd w)"
      using True by (auto simp: visit_node_eq snd_kids_of)
    then show ?thesis using descends_cases(1) [OF True]
      by (intro exI [of _ stops] exI [of _ "w # downs"] exI [of _ out']) auto
  next
    case False
    from Cons.IH [of nodes "emit_node e level (snd w) out"]
    obtain stops downs out' where ih: "fold (visit_node e level) (map snd (w # ws)) (nodes, out) =
          (nodes @ map snd (concat (map (kids_of e level) downs)), out')"
        "mset ws = mset (stops @ downs)" "rr_nodes out' = rr_nodes out @ emitted e level (snd w) @ concat (map (\<lambda>w. emitted e level (snd w)) stops)"
        "rr_total_points out' = rr_total_points out + region_points (emitted e level (snd w)) + region_points (concat (map (\<lambda>w. emitted e level (snd w)) stops))"
        "\<forall>w \<in> set stops. may_stop e level (snd w)" "\<forall>w \<in> set downs. may_descend e level (snd w)"
      using False by (auto simp: visit_node_eq emit_node_eq)
    then show ?thesis using descends_cases(2) [OF False]
      by (intro exI [of _ "w # stops"] exI [of _ downs] exI [of _ out']) (auto simp: ac_simps)
  qed
qed

section \<open>The cut\<close>

fun follow :: "'d walk_env \<Rightarrow> nat \<Rightarrow> 'd pending_node \<Rightarrow> nat list \<Rightarrow> 'd pending_node option" where
  "follow e depth p [] = Some p"
| "follow e depth p (i # \<pi>) =
     (if i < 8 then (case child_of e (depth mod 5) p i of None \<Rightarrow> None | Some c \<Rightarrow> follow e (depth + 1) c \<pi>) else None)"

lemma follow_append:
  "follow e depth p (\<pi> @ \<rho>) = (case follow e depth p \<pi> of None \<Rightarrow> None | Some q \<Rightarrow> follow e (depth + length \<pi>) q \<rho>)"
  by (induction \<pi> arbitrary: depth p) (auto split: option.split)

definition is_leaf :: "nat list \<Rightarrow> 'd pending_node \<Rightarrow> bool" where
  "is_leaf \<pi> q \<longleftrightarrow> node_at (pn_tree q) (length \<pi> mod 5) (pn_skip q) = 0"

text \<open>The places of \<open>F\<close> are reached from the root, none lies above another, and the leaves lie below them.\<close>

definition placed_from :: "'d walk_env \<Rightarrow> 'd pending_node \<Rightarrow> 'd placed list \<Rightarrow> bool" where
  "placed_from e p F \<longleftrightarrow> (\<forall>(\<pi>, q) \<in> set F. follow e 0 p \<pi> = Some q)"

lemma placed_from_iff: "placed_from e p F \<longleftrightarrow> (\<forall>w \<in> set F. follow e 0 p (fst w) = Some (snd w))"
  by (auto simp: placed_from_def)

definition no_overlap :: "'d placed list \<Rightarrow> bool" where
  "no_overlap F \<longleftrightarrow> distinct (map fst F) \<and> (\<forall>\<pi> \<in> fst ` set F. \<forall>\<rho> \<in> fst ` set F. \<not> strict_prefix \<pi> \<rho>)"

lemma no_overlapD: "no_overlap F \<Longrightarrow> v \<in> set F \<Longrightarrow> w \<in> set F \<Longrightarrow> \<not> strict_prefix (fst v) (fst w)"
  by (simp add: no_overlap_def)

definition covers :: "'d walk_env \<Rightarrow> 'd pending_node \<Rightarrow> nat \<Rightarrow> 'd placed list \<Rightarrow> bool" where
  "covers e p depth F \<longleftrightarrow> (\<forall>\<pi> q. follow e 0 p \<pi> = Some q \<and> (depth \<le> length \<pi> \<or> is_leaf \<pi> q) \<longrightarrow>
     (\<exists>\<rho> \<in> fst ` set F. prefix \<rho> \<pi>))"

definition cut_at :: "'d walk_env \<Rightarrow> 'd pending_node \<Rightarrow> nat \<Rightarrow> 'd placed list \<Rightarrow> 'd placed list \<Rightarrow> bool" where
  "cut_at e p depth F ws \<longleftrightarrow> placed_from e p (F @ ws) \<and> no_overlap (F @ ws) \<and> covers e p depth (F @ ws)
     \<and> (\<forall>w \<in> set F. length (fst w) < depth \<and> may_stop e (length (fst w) mod 5) (snd w)) \<and> (\<forall>w \<in> set ws. length (fst w) = depth)"

lemma distinct_kids:
  assumes "distinct (map fst ws)"
  shows "distinct (map fst (concat (map (kids_of e level) ws)))"
  using assms
proof (induction ws)
  case (Cons w ws)
  obtain "is" where is1: "map fst (kids_of e level w) = map (\<lambda>i. fst w @ [i]) is" "distinct is" using fst_kids_of by blast
  have "fst w @ [i] \<notin> fst ` set (kids_of e level v)" if "v \<in> set ws" for v i
  proof
    assume "fst w @ [i] \<in> fst ` set (kids_of e level v)"
    then obtain x where "x \<in> set (kids_of e level v)" "fst x = fst w @ [i]" by auto
    with kid_path [OF this(1)] have "fst w = fst v" by auto
    with Cons.prems that show False by auto
  qed
  then have "set (map fst (kids_of e level w)) \<inter> fst ` (\<Union>v \<in> set ws. set (kids_of e level v)) = {}"
    unfolding is1(1) by auto
  moreover have "distinct (map fst (kids_of e level w))" unfolding is1(1) using is1(2) by (simp add: distinct_map inj_on_def)
  ultimately show ?case using Cons by (simp add: image_UN)
qed simp

lemma kid_of_level:
  assumes "x \<in> set (concat (map (kids_of e level) ws))"
  shows "\<exists>v \<in> set ws. \<exists>i < 8. fst x = fst v @ [i] \<and> child_of e level (snd v) i = Some (snd x)"
proof -
  have "\<exists>v \<in> set ws. x \<in> set (kids_of e level v)" using assms by simp
  then show ?thesis using kid_path by (elim bexE) (rule bexI)
qed

lemma level_placed:
  assumes "placed_from e p ws" and "\<And>w. w \<in> set ws \<Longrightarrow> length (fst w) = depth" and x: "x \<in> set (concat (map (kids_of e (depth mod 5)) ws))"
  shows "follow e 0 p (fst x) = Some (snd x) \<and> length (fst x) = depth + 1"
proof -
  obtain v i where v: "v \<in> set ws" "i < 8" "fst x = fst v @ [i]" "child_of e (depth mod 5) (snd v) i = Some (snd x)"
    using kid_of_level [OF x] by blast
  then show ?thesis using assms(1,2) by (simp add: placed_from_iff follow_append)
qed

lemma level_no_overlap:
  assumes ov: "no_overlap (old @ downs)" and old: "\<And>w. w \<in> set old \<Longrightarrow> length (fst w) \<le> depth"
    and downs: "\<And>w. w \<in> set downs \<Longrightarrow> length (fst w) = depth"
  shows "no_overlap (old @ concat (map (kids_of e level) downs))"
proof -
  let ?kids = "concat (map (kids_of e level) downs)"
  have dist: "distinct (map fst (old @ downs))" using ov by (simp add: no_overlap_def)
  have kid: "\<exists>w \<in> set downs. \<exists>i. fst x = fst w @ [i] \<and> length (fst x) = depth + 1" if "x \<in> set ?kids" for x
    using kid_of_level [OF that] downs by fastforce
  have old_kid: "\<not> prefix (fst v) (fst x)" if v: "v \<in> set old" and x: "x \<in> set ?kids" for v x
  proof -
    obtain w i where w: "w \<in> set downs" "fst x = fst w @ [i]" using kid [OF x] by blast
    have "fst v \<noteq> fst w" using dist v w(1) by (auto simp: image_iff)
    moreover have "\<not> strict_prefix (fst v) (fst w)" using v w(1) by (intro no_overlapD [OF ov]) auto
    ultimately have "\<not> prefix (fst v) (fst w)" by (simp add: strict_prefix_def)
    then show ?thesis using w(2) old [OF v] downs [OF w(1)] by (auto simp: prefix_snoc)
  qed
  have "fst v \<noteq> fst x" if "v \<in> set old" "x \<in> set ?kids" for v x
    using old_kid [OF that] by (metis prefix_order.order_refl)
  then have "set (map fst old) \<inter> set (map fst ?kids) = {}" unfolding set_map by blast
  moreover have "distinct (map fst ?kids)" "distinct (map fst old)" using dist by (auto intro!: distinct_kids)
  ultimately have "distinct (map fst (old @ ?kids))" unfolding map_append distinct_append by blast
  moreover have "\<not> strict_prefix (fst v) (fst w)" if v: "v \<in> set old \<union> set ?kids" and w: "w \<in> set old \<union> set ?kids" for v w
  proof (cases "v \<in> set ?kids")
    case True
    have "length (fst w) \<le> depth + 1" using w old [of w] kid [of w] by (auto simp del: set_concat)
    then show ?thesis using kid [OF True] prefix_length_less [of "fst v" "fst w"] by auto
  next
    case False
    then have "v \<in> set old" using v by (simp only: Un_iff) blast
    then show ?thesis
      using w old_kid [of v w] no_overlapD [OF ov, of v w] by (auto simp: strict_prefix_def simp del: set_concat)
  qed
  ultimately show ?thesis unfolding no_overlap_def by (simp only: set_append ball_simps) blast
qed

lemma level_covers:
  assumes cov: "covers e p depth (old @ downs)" and placed: "placed_from e p downs"
    and len: "\<And>w. w \<in> set downs \<Longrightarrow> length (fst w) = depth" and go: "\<forall>w \<in> set downs. may_descend e (depth mod 5) (snd w)"
  shows "covers e p (depth + 1) (old @ concat (map (kids_of e (depth mod 5)) downs))" (is "covers _ _ _ (old @ ?kids)")
  unfolding covers_def
proof (intro allI impI)
  fix \<pi> q
  assume q: "follow e 0 p \<pi> = Some q \<and> (depth + 1 \<le> length \<pi> \<or> is_leaf \<pi> q)"
  then obtain v where v: "v \<in> set (old @ downs)" "prefix (fst v) \<pi>" using cov unfolding covers_def by fastforce
  show "\<exists>\<rho> \<in> fst ` set (old @ ?kids). prefix \<rho> \<pi>"
  proof (cases "v \<in> set downs")
    case False
    then show ?thesis using v by auto
  next
    case True
    obtain \<rho> where \<rho>: "\<pi> = fst v @ \<rho>" using v(2) by (auto simp: prefix_def)
    have r: "follow e depth (snd v) \<rho> = Some q"
      using q placed True len [OF True] by (simp add: \<rho> follow_append placed_from_iff)
    have "\<rho> \<noteq> []"
    proof
      assume "\<rho> = []"
      then have "is_leaf \<pi> q" "\<pi> = fst v" "q = snd v" using q r len [OF True] by (auto simp: \<rho>)
      then show False using go True len [OF True] by (simp add: is_leaf_def may_descend_def)
    qed
    then obtain i \<rho>' where i: "\<rho> = i # \<rho>'" by (cases \<rho>) auto
    then obtain c where c: "i < 8" "child_of e (depth mod 5) (snd v) i = Some c" using r by (auto split: if_splits option.splits)
    then have "(fst v @ [i], c) \<in> set ?kids" using True kids_of_iff [of "fst v @ [i]" c e "depth mod 5" "fst v" "snd v"] by auto
    moreover have "prefix (fst v @ [i]) \<pi>" by (simp add: \<rho> i)
    ultimately show ?thesis by force
  qed
qed

lemma cut_level:
  assumes cut: "cut_at e p depth F ws" and split: "mset ws = mset (stops @ downs)"
    and stops: "\<forall>w \<in> set stops. may_stop e (depth mod 5) (snd w)" and downs: "\<forall>w \<in> set downs. may_descend e (depth mod 5) (snd w)"
  shows "cut_at e p (depth + 1) (F @ stops) (concat (map (kids_of e (depth mod 5)) downs))"
proof -
  let ?kids = "concat (map (kids_of e (depth mod 5)) downs)"
  have sets: "set ws = set stops \<union> set downs" using arg_cong [OF split, of set_mset] by simp
  have all: "placed_from e p (F @ ws)" "no_overlap (F @ ws)" "covers e p depth (F @ ws)"
    and F: "\<And>w. w \<in> set F \<Longrightarrow> length (fst w) < depth \<and> may_stop e (length (fst w) mod 5) (snd w)"
    and ws: "\<And>w. w \<in> set ws \<Longrightarrow> length (fst w) = depth" using cut by (simp_all add: cut_at_def)
  have "mset (map fst (F @ ws)) = mset (map fst ((F @ stops) @ downs))" unfolding mset_map mset_append split by (simp add: ac_simps)
  then have "distinct (map fst ((F @ stops) @ downs))" using all(2) unfolding no_overlap_def by (metis mset_eq_imp_distinct_iff)
  moreover have same: "set (F @ ws) = set ((F @ stops) @ downs)" using sets by auto
  ultimately have ov: "no_overlap ((F @ stops) @ downs)" using all(2) unfolding no_overlap_def same by blast
  have len: "\<And>w. w \<in> set downs \<Longrightarrow> length (fst w) = depth" "\<And>w. w \<in> set stops \<Longrightarrow> length (fst w) = depth" using ws sets by auto
  have old: "length (fst w) \<le> depth" if "w \<in> set (F @ stops)" for w
    using that F [of w] len(2) [of w] by (simp only: set_append Un_iff) (elim disjE, simp_all)
  have placed: "placed_from e p downs" "placed_from e p (F @ stops)" using all(1) sets by (auto simp: placed_from_iff)
  have "placed_from e p ((F @ stops) @ ?kids)"
    using placed(2) level_placed [OF placed(1) len(1)] unfolding placed_from_iff set_append by blast
  moreover have "no_overlap ((F @ stops) @ ?kids)" by (rule level_no_overlap [OF ov old len(1)])
  moreover have "covers e p depth ((F @ stops) @ downs)" using all(3) unfolding covers_def same .
  then have "covers e p (depth + 1) ((F @ stops) @ ?kids)" by (rule level_covers [OF _ placed(1) len(1) downs])
  moreover have "\<forall>w \<in> set (F @ stops). length (fst w) < depth + 1 \<and> may_stop e (length (fst w) mod 5) (snd w)"
    using F stops len(2) by (auto simp: less_SucI)
  moreover have "\<forall>w \<in> set ?kids. length (fst w) = depth + 1" using level_placed [OF placed(1) len(1)] by blast
  ultimately show ?thesis unfolding cut_at_def by blast
qed

section \<open>The whole walk\<close>

definition cut_nodes :: "'d walk_env \<Rightarrow> 'd placed list \<Rightarrow> 'd region_node list" where
  "cut_nodes e F = concat (map (\<lambda>(\<pi>, q). emitted e (length \<pi> mod 5) q) F)"

lemma cut_nodes_append:
  "cut_nodes e (F @ G) = cut_nodes e F @ cut_nodes e G"
  by (simp add: cut_nodes_def)

lemma cut_nodes_level:
  "\<forall>w \<in> set stops. length (fst w) = depth \<Longrightarrow> cut_nodes e stops = concat (map (\<lambda>w. emitted e (depth mod 5) (snd w)) stops)"
  by (induction stops) (auto simp: cut_nodes_def)

definition selects :: "'d walk_env \<Rightarrow> 'd placed list \<Rightarrow> 'd region_result \<Rightarrow> bool" where
  "selects e F out \<longleftrightarrow> rr_nodes out = cut_nodes e F \<and> rr_total_points out = region_points (cut_nodes e F)"

lemma cut_done: "cut_at e p depth F [] \<Longrightarrow> depth \<le> d \<Longrightarrow> cut_at e p d F []"
  by (auto simp: cut_at_def covers_def)

lemma walk_levels_cut:
  assumes "cut_at e p depth F ws" and "selects e F out"
  shows "\<exists>F' ws'. cut_at e p (depth + n) F' ws' \<and> selects e F' (walk_levels e n depth (map snd ws) out)"
  using assms
proof (induction n arbitrary: depth F ws out)
  case 0
  then show ?case by auto
next
  case (Suc n)
  show ?case
  proof (cases "ws = []")
    case True
    then show ?thesis using cut_done [of e p depth F "depth + Suc n"] Suc.prems by auto
  next
    case False
    obtain stops downs out' where l: "fold (visit_node e (depth mod 5)) (map snd ws) ([], out) =
          ([] @ map snd (concat (map (kids_of e (depth mod 5)) downs)), out')"
        "mset ws = mset (stops @ downs)" "rr_nodes out' = rr_nodes out @ concat (map (\<lambda>w. emitted e (depth mod 5) (snd w)) stops)"
        "rr_total_points out' = rr_total_points out + region_points (concat (map (\<lambda>w. emitted e (depth mod 5) (snd w)) stops))"
        "\<forall>w \<in> set stops. may_stop e (depth mod 5) (snd w)" "\<forall>w \<in> set downs. may_descend e (depth mod 5) (snd w)"
      using level_split [of e "depth mod 5" ws "[]" out] by blast
    have "set stops \<subseteq> set ws" using arg_cong [OF l(2), of set_mset] by simp
    then have "\<forall>w \<in> set stops. length (fst w) = depth" using Suc.prems(1) by (auto simp: cut_at_def)
    note level = cut_nodes_level [OF this, of e]
    have "selects e (F @ stops) out'"
      using Suc.prems(2) l(3,4) unfolding selects_def cut_nodes_append level by simp
    from Suc.IH [OF cut_level [OF Suc.prems(1) l(2,5,6)] this] show ?thesis using False l(1) by simp
  qed
qed

text \<open>What a walk stops at: every place is reached, none overlaps another, and every leaf above the bound is covered once.\<close>

definition is_cut :: "'d walk_env \<Rightarrow> 'd pending_node \<Rightarrow> 'd placed list \<Rightarrow> bool" where
  "is_cut e p F \<longleftrightarrow> placed_from e p F \<and> distinct (map fst F) \<and>
     (\<forall>\<pi> q. follow e 0 p \<pi> = Some q \<and> is_leaf \<pi> q \<and> length \<pi> < max_depth \<longrightarrow> (\<exists>!\<rho>. \<rho> \<in> fst ` set F \<and> prefix \<rho> \<pi>)) \<and>
     (\<forall>\<pi> \<in> fst ` set F. \<forall>\<rho> \<in> fst ` set F. \<not> strict_prefix \<pi> \<rho>)"

lemma cut_is_cut:
  assumes "cut_at e p max_depth F ws"
  shows "is_cut e p F"
  unfolding is_cut_def
proof (intro conjI allI impI)
  have all: "placed_from e p (F @ ws)" "no_overlap (F @ ws)" "covers e p max_depth (F @ ws)"
    using assms by (simp_all add: cut_at_def)
  show "placed_from e p F" using all(1) by (simp add: placed_from_def)
  show "distinct (map fst F)" "\<forall>\<pi> \<in> fst ` set F. \<forall>\<rho> \<in> fst ` set F. \<not> strict_prefix \<pi> \<rho>"
    using all(2) by (simp_all add: no_overlap_def)
  fix \<pi> q
  assume q: "follow e 0 p \<pi> = Some q \<and> is_leaf \<pi> q \<and> length \<pi> < max_depth"
  then obtain w where w: "w \<in> set (F @ ws)" "prefix (fst w) \<pi>" using all(3) by (fastforce simp: covers_def)
  have "w \<notin> set ws" using w(2) q assms prefix_length_le [OF w(2)] by (auto simp: cut_at_def)
  then have F: "w \<in> set F" using w(1) by simp
  show "\<exists>!\<rho>. \<rho> \<in> fst ` set F \<and> prefix \<rho> \<pi>"
  proof (rule ex1I [of _ "fst w"])
    show "fst w \<in> fst ` set F \<and> prefix (fst w) \<pi>" using F w(2) by simp
    fix \<rho>
    assume r: "\<rho> \<in> fst ` set F \<and> prefix \<rho> \<pi>"
    then have "prefix \<rho> (fst w) \<or> prefix (fst w) \<rho>" using prefix_same_cases [of \<rho> \<pi> "fst w"] w(2) by blast
    moreover have A: "\<rho> \<in> fst ` set (F @ ws)" "fst w \<in> fst ` set (F @ ws)" using r F by (simp_all add: image_Un)
    have no: "\<forall>\<pi> \<in> fst ` set (F @ ws). \<forall>\<rho> \<in> fst ` set (F @ ws). \<not> strict_prefix \<pi> \<rho>"
      using all(2) unfolding no_overlap_def by (rule conjunct2)
    have "\<not> strict_prefix \<rho> (fst w)" "\<not> strict_prefix (fst w) \<rho>"
      by (rule no [rule_format, OF A], rule no [rule_format, OF A(2,1)])
    ultimately show "\<rho> = fst w" by (auto simp: strict_prefix_def)
  qed
qed

text \<open>C27: A walk selects the units of a cut of the tree. There is a list of places in the loaded trees, each
  reached from the root through octants that exist, overlap the box and are loaded, such that the nodes of
  the result are what these places hold and the reported total is the sum of their counts; no place lies
  above another one, so no point is counted both in a sample and in what was sampled; every leaf the walk
  can reach lies below exactly one place, so none is left out; and each place is a leaf, or coarse enough
  for a query at a level, or the query has a budget of points.\<close>

theorem region_walk_cut:
  assumes "we_trees e \<noteq> []" and "tree_resident (we_registry e) (tr_root (we_registry e))" and "walk_root e = Some p"
  shows "\<exists>F. is_cut e p F \<and> rr_nodes (region_walk e) = cut_nodes e F \<and> rr_total_points (region_walk e) = region_points (rr_nodes (region_walk e))
    \<and> (\<forall>(\<pi>, q) \<in> set F. may_stop e (length \<pi> mod 5) q)"
proof -
  let ?out = "\<lparr>rr_nodes = [], rr_trees_to_load = [], rr_total_points = 0\<rparr>"
  have start: "cut_at e p 0 [] [([], p)]" by (auto simp: cut_at_def placed_from_def no_overlap_def covers_def)
  have "selects e [] ?out" by (simp add: selects_def cut_nodes_def)
  from walk_levels_cut [OF start this, of max_depth]
  obtain F ws where "cut_at e p max_depth F ws" "selects e F (region_walk e)"
    using assms by (auto simp: region_walk_def)
  moreover from this(1) have "\<forall>(\<pi>, q) \<in> set F. may_stop e (length \<pi> mod 5) q" by (auto simp: cut_at_def)
  ultimately show ?thesis using cut_is_cut by (intro exI [of _ F]) (auto simp: selects_def)
qed

section \<open>An example\<close>

text \<open>A root with a sample of four points and two leaves of five and six points, walked at full resolution.\<close>

definition line_geometry :: "int geometry" where
  "line_geometry = \<lparr>ge_less = (<), ge_mid = (\<lambda>a b. (a + b) div 2), ge_pos = (\<lambda>c m. case m of M192 a b c \<Rightarrow> [uint a, uint a, uint a])\<rparr>"

definition unit_points :: "u32 \<Rightarrow> u32 \<Rightarrow> u32 \<Rightarrow> u64 \<Rightarrow> u64 \<Rightarrow> points_collection" where
  "unit_points d s n lo hi = \<lparr>pc_count = ucast n, pc_min = M192 lo 0 0, pc_max = M192 hi 0 0, pc_min_lod = 0,
     pc_data = [\<lparr>ps_input = \<lparr>id_data = d, id_sub = s\<rparr>, ps_offset = 0, ps_count = n\<rparr>]\<rparr>"

definition sampled_tree :: tree_t where
  "sampled_tree = example_tree\<lparr>t_levels :=
     [\<lparr>lv_nodes = [3], lv_skips = [0], lv_node_ids = [0], lv_data = [unit_points 0 (- 1) 4 0 400]\<rparr>,
      \<lparr>lv_nodes = [0, 0], lv_skips = [0, 0], lv_node_ids = [0, 1], lv_data = [unit_points 1 0 5 0 200, unit_points 2 0 6 300 400]\<rparr>,
      empty_level, empty_level, empty_level]\<rparr>"

definition sampled_walk :: "int walk_env" where
  "sampled_walk = \<lparr>we_geometry = line_geometry, we_registry = new_tree_registry\<lparr>tr_root := 0, tr_id_initialized := [1]\<rparr>,
     we_trees = [Some sampled_tree],
     we_query = \<lparr>rq_box = \<lparr>ab_min = [0, 0, 0], ab_max = [50, 50, 50]\<rparr>, rq_lod_mode = lod_full, rq_lod = 0, rq_max_points = 0,
       rq_whole_dataset = True\<rparr>\<rparr>"

theorem region_walk_cut_witness:
  "\<exists>p F. is_cut sampled_walk p F \<and> rr_nodes (region_walk sampled_walk) = cut_nodes sampled_walk F \<and>
     region_points (cut_nodes sampled_walk F) = 11"
proof -
  have "we_trees sampled_walk \<noteq> []" by code_simp
  moreover have "tree_resident (we_registry sampled_walk) (tr_root (we_registry sampled_walk))" by code_simp
  moreover have "walk_root sampled_walk \<noteq> None"
    by code_simp
  moreover have "rr_total_points (region_walk sampled_walk) = 11" by code_simp
  ultimately show ?thesis using region_walk_cut [of sampled_walk] by (metis not_None_eq)
qed

end
