(* ===== verification/LruCache.thy ===== *)
theory LruCache
  imports Prelude "HOL-Library.Multiset"
begin

text \<open>
  \<open>src/src/core/lru_cache.hpp\<close>: the byte-bounded cache in front of storage reads. The list is kept with
  the most recently used entry first; an iterator into it is the number of its node, which the map holds.
  The lock that makes each operation one step is not represented. Keys and values are type parameters.
\<close>

section \<open>The cache\<close>

record ('k, 'v) lru_entry =
  le_key :: 'k
  le_value :: 'v
  le_size :: u64

type_synonym ('k, 'v) lru_list = "(nat \<times> ('k, 'v) lru_entry) list"

record ('k, 'v) lru_cache =
  lc_max_bytes :: u64
  lc_current_bytes :: u64
  lc_hit_count :: u64
  lc_miss_count :: u64
  lc_list :: "('k, 'v) lru_list"
  lc_map :: "'k \<rightharpoonup> nat"
  lc_next_node :: nat

definition new_lru_cache :: "u64 \<Rightarrow> ('k, 'v) lru_cache" where
  "new_lru_cache max_bytes = \<lparr>lc_max_bytes = max_bytes, lc_current_bytes = 0, lc_hit_count = 0, lc_miss_count = 0,
     lc_list = [], lc_map = Map.empty, lc_next_node = 0\<rparr>"

text \<open>\<open>splice\<close> of one node to the front, and the assignment through an iterator.\<close>

definition splice_front :: "nat \<Rightarrow> ('k, 'v) lru_list \<Rightarrow> ('k, 'v) lru_list" where
  "splice_front n xs = (case map_of xs n of None \<Rightarrow> xs | Some e \<Rightarrow> (n, e) # filter (\<lambda>x. fst x \<noteq> n) xs)"

definition node_update :: "nat \<Rightarrow> 'v \<Rightarrow> u64 \<Rightarrow> ('k, 'v) lru_list \<Rightarrow> ('k, 'v) lru_list" where
  "node_update n v sz xs = map (\<lambda>x. if fst x = n then (n, (snd x)\<lparr>le_value := v, le_size := sz\<rparr>) else x) xs"

definition node_size :: "nat \<Rightarrow> ('k, 'v) lru_list \<Rightarrow> u64" where
  "node_size n xs = (case map_of xs n of None \<Rightarrow> 0 | Some e \<Rightarrow> le_size e)"

function lru_evict :: "('k, 'v) lru_cache \<Rightarrow> ('k, 'v) lru_cache" where
  "lru_evict c =
     (if lc_max_bytes c < lc_current_bytes c \<and> lc_list c \<noteq> []
      then (let back = snd (last (lc_list c))
            in lru_evict (c\<lparr>lc_current_bytes := lc_current_bytes c - le_size back, lc_map := (lc_map c)(le_key back := None),
                 lc_list := butlast (lc_list c)\<rparr>))
      else c)"
  by pat_completeness auto
termination
  by (relation "measure (\<lambda>c. length (lc_list c))") auto

declare lru_evict.simps [simp del]

definition lru_get :: "'k \<Rightarrow> bool \<Rightarrow> ('k, 'v) lru_cache \<Rightarrow> 'v option \<times> ('k, 'v) lru_cache" where
  "lru_get key promote c =
     (case lc_map c key of
        None \<Rightarrow> (None, c\<lparr>lc_miss_count := lc_miss_count c + 1\<rparr>)
      | Some n \<Rightarrow>
          (let c = c\<lparr>lc_hit_count := lc_hit_count c + 1\<rparr>;
               c = (if promote then c\<lparr>lc_list := splice_front n (lc_list c)\<rparr> else c)
           in (map_option le_value (map_of (lc_list c) n), c)))"

text \<open>The two branches of \<open>put\<close>: the entry of a known key is assigned, a new key gets a node.\<close>

definition lru_assign :: "nat \<Rightarrow> 'v \<Rightarrow> u64 \<Rightarrow> bool \<Rightarrow> ('k, 'v) lru_cache \<Rightarrow> ('k, 'v) lru_cache" where
  "lru_assign n v sz hot c =
     (let c = c\<lparr>lc_current_bytes := lc_current_bytes c - node_size n (lc_list c) + sz, lc_list := node_update n v sz (lc_list c)\<rparr>
      in if hot then c\<lparr>lc_list := splice_front n (lc_list c)\<rparr> else c)"

definition lru_insert :: "'k \<Rightarrow> 'v \<Rightarrow> u64 \<Rightarrow> bool \<Rightarrow> ('k, 'v) lru_cache \<Rightarrow> ('k, 'v) lru_cache" where
  "lru_insert key v sz hot c =
     (let n = lc_next_node c; node = (n, \<lparr>le_key = key, le_value = v, le_size = sz\<rparr>)
      in c\<lparr>lc_list := (if hot then node # lc_list c else lc_list c @ [node]), lc_map := (lc_map c)(key \<mapsto> n),
           lc_current_bytes := lc_current_bytes c + sz, lc_next_node := n + 1\<rparr>)"

definition lru_put :: "'k \<Rightarrow> 'v \<Rightarrow> u64 \<Rightarrow> bool \<Rightarrow> ('k, 'v) lru_cache \<Rightarrow> ('k, 'v) lru_cache" where
  "lru_put key v sz hot c =
     lru_evict (case lc_map c key of Some n \<Rightarrow> lru_assign n v sz hot c | None \<Rightarrow> lru_insert key v sz hot c)"

definition lru_erase :: "'k \<Rightarrow> ('k, 'v) lru_cache \<Rightarrow> ('k, 'v) lru_cache" where
  "lru_erase key c =
     (case lc_map c key of
        None \<Rightarrow> c
      | Some n \<Rightarrow> c\<lparr>lc_current_bytes := lc_current_bytes c - node_size n (lc_list c),
          lc_list := filter (\<lambda>x. fst x \<noteq> n) (lc_list c), lc_map := (lc_map c)(key := None)\<rparr>)"

definition lru_clear :: "('k, 'v) lru_cache \<Rightarrow> ('k, 'v) lru_cache" where
  "lru_clear c = c\<lparr>lc_map := Map.empty, lc_list := [], lc_current_bytes := 0\<rparr>"

definition lru_set_max_bytes :: "u64 \<Rightarrow> ('k, 'v) lru_cache \<Rightarrow> ('k, 'v) lru_cache" where
  "lru_set_max_bytes max_bytes c = lru_evict (c\<lparr>lc_max_bytes := max_bytes\<rparr>)"

section \<open>What a client relies on\<close>

text \<open>The calls a client makes, and the map an unbounded cache would hold after them.\<close>

datatype ('k, 'v) cache_call =
  cache_get 'k bool | cache_put 'k 'v u64 bool | cache_erase 'k | cache_clear | cache_limit u64

fun lru_call :: "('k, 'v) cache_call \<Rightarrow> ('k, 'v) lru_cache \<Rightarrow> ('k, 'v) lru_cache" where
  "lru_call (cache_get k promote) c = snd (lru_get k promote c)"
| "lru_call (cache_put k v sz hot) c = lru_put k v sz hot c"
| "lru_call (cache_erase k) c = lru_erase k c"
| "lru_call cache_clear c = lru_clear c"
| "lru_call (cache_limit m) c = lru_set_max_bytes m c"

fun map_call :: "('k, 'v) cache_call \<Rightarrow> ('k \<rightharpoonup> 'v) \<Rightarrow> ('k \<rightharpoonup> 'v)" where
  "map_call (cache_get k promote) m = m"
| "map_call (cache_put k v sz hot) m = m(k \<mapsto> v)"
| "map_call (cache_erase k) m = m(k := None)"
| "map_call cache_clear m = Map.empty"
| "map_call (cache_limit b) m = m"

lemma map_call_mono: "m \<subseteq>\<^sub>m m' \<Longrightarrow> map_call call m \<subseteq>\<^sub>m map_call call m'"
  by (cases call) (auto simp: map_le_def)

text \<open>A cache may forget, but what it holds is what an unbounded map would hold.\<close>

locale forgetful_map =
  fixes ok :: "'c \<Rightarrow> bool" and look :: "'c \<Rightarrow> 'k \<rightharpoonup> 'v" and exec :: "('k, 'v) cache_call \<Rightarrow> 'c \<Rightarrow> 'c"
  assumes exec_ok: "ok c \<Longrightarrow> ok (exec call c)"
    and exec_forgets: "ok c \<Longrightarrow> look (exec call c) \<subseteq>\<^sub>m map_call call (look c)"
begin

lemma calls_ok: "ok c \<Longrightarrow> ok (fold exec calls c)"
  by (induction calls arbitrary: c) (auto intro: exec_ok)

lemma calls_forget: "ok c \<Longrightarrow> look c \<subseteq>\<^sub>m m \<Longrightarrow> look (fold exec calls c) \<subseteq>\<^sub>m fold map_call calls m"
proof (induction calls arbitrary: c m)
  case (Cons call calls)
  have "look (exec call c) \<subseteq>\<^sub>m map_call call m"
    by (rule map_le_trans [OF exec_forgets [OF Cons.prems(1)] map_call_mono [OF Cons.prems(2)]])
  then show ?case using Cons.IH [OF exec_ok [OF Cons.prems(1)]] by simp
qed simp

end

section \<open>The invariant\<close>

abbreviation entry_keys :: "('k, 'v) lru_list \<Rightarrow> ('k \<times> nat) list" where
  "entry_keys xs \<equiv> map (\<lambda>x. (le_key (snd x), fst x)) xs"

definition bytes_of :: "('k, 'v) lru_list \<Rightarrow> u64" where
  "bytes_of xs = (\<Sum>x\<leftarrow>xs. le_size (snd x))"

definition lru_ok :: "('k, 'v) lru_cache \<Rightarrow> bool" where
  "lru_ok c \<longleftrightarrow> distinct (map fst (lc_list c)) \<and> distinct (map (\<lambda>x. le_key (snd x)) (lc_list c)) \<and>
     lc_map c = map_of (entry_keys (lc_list c)) \<and> (\<forall>x \<in> set (lc_list c). fst x < lc_next_node c) \<and>
     lc_current_bytes c = bytes_of (lc_list c)"

definition contents :: "('k, 'v) lru_cache \<Rightarrow> 'k \<rightharpoonup> 'v" where
  "contents c = map_of (map (\<lambda>x. (le_key (snd x), le_value (snd x))) (lc_list c))"

lemma bytes_of_simps [simp]:
  "bytes_of [] = 0" "bytes_of (x # xs) = le_size (snd x) + bytes_of xs" "bytes_of (xs @ ys) = bytes_of xs + bytes_of ys"
  by (simp_all add: bytes_of_def)

lemma bytes_of_mset: "mset xs = mset ys \<Longrightarrow> bytes_of xs = bytes_of ys"
  unfolding bytes_of_def by (subst (1 2) sum_mset_sum_list [symmetric]) (simp only: mset_map)

lemma map_of_same_entries:
  assumes "mset xs = mset ys" and "distinct (map f ys)"
  shows "map_of (map (\<lambda>x. (f x, g x)) xs) = map_of (map (\<lambda>x. (f x, g x)) ys)"
proof -
  have "mset (map f xs) = mset (map f ys)" using assms(1) by simp
  then have "distinct (map f xs)" using assms(2) mset_eq_imp_distinct_iff by blast
  moreover have "set xs = set ys" using assms(1) by (rule mset_eq_setD)
  ultimately show ?thesis using assms(2) by (subst map_of_inject_set) (simp_all add: comp_def)
qed

lemma lru_ok_reorder:
  assumes "lru_ok c" and "mset xs = mset (lc_list c)"
  shows "lru_ok (c\<lparr>lc_list := xs\<rparr>)" and "contents (c\<lparr>lc_list := xs\<rparr>) = contents c"
proof -
  have "mset (map f xs) = mset (map f (lc_list c))" for f :: "nat \<times> ('a, 'b) lru_entry \<Rightarrow> 'a" using assms(2) by simp
  then have d': "distinct (map f xs) = distinct (map f (lc_list c))" for f :: "nat \<times> ('a, 'b) lru_entry \<Rightarrow> 'a"
    by (rule mset_eq_imp_distinct_iff)
  have keys: "distinct (map (\<lambda>x. le_key (snd x)) (lc_list c))" using assms(1) by (simp add: lru_ok_def)
  show "contents (c\<lparr>lc_list := xs\<rparr>) = contents c"
    unfolding contents_def using map_of_same_entries [OF assms(2) keys] by simp
  have "distinct (map fst xs)" using assms mset_eq_imp_distinct_iff [of "map fst xs" "map fst (lc_list c)"] by (simp add: lru_ok_def)
  then show "lru_ok (c\<lparr>lc_list := xs\<rparr>)"
    using assms(1) d' [of "\<lambda>x. le_key (snd x)"] bytes_of_mset [OF assms(2)] mset_eq_setD [OF assms(2)] map_of_same_entries [OF assms(2) keys, of fst]
    by (simp add: lru_ok_def)
qed

lemma mset_splice_front:
  assumes "distinct (map fst xs)"
  shows "mset (splice_front n xs) = mset xs"
proof (cases "map_of xs n")
  case (Some e)
  have "filter (\<lambda>x. fst x = n) xs = [(n, e)]"
    using Some assms by (induction xs) (auto simp: filter_empty_conv rev_image_eqI split: if_splits)
  moreover have "mset xs = mset (filter (\<lambda>x. fst x = n) xs) + mset (filter (\<lambda>x. fst x \<noteq> n) xs)"
    by (metis mset_filter multiset_partition)
  ultimately show ?thesis using Some by (simp add: splice_front_def)
qed (simp add: splice_front_def)

lemma splice_ok:
  assumes "lru_ok c"
  shows "lru_ok (c\<lparr>lc_list := splice_front n (lc_list c)\<rparr>)" and "contents (c\<lparr>lc_list := splice_front n (lc_list c)\<rparr>) = contents c"
  using lru_ok_reorder [OF assms mset_splice_front] assms by (auto simp: lru_ok_def)

text \<open>The map leads to the node of a key.\<close>

lemma node_of_key:
  assumes "lru_ok c"
  shows "lc_map c k = Some n \<longleftrightarrow> (\<exists>e. (n, e) \<in> set (lc_list c) \<and> le_key e = k)"
  using assms by (force simp: lru_ok_def map_of_eq_Some_iff comp_def image_iff)

lemma node_key_iff:
  assumes "lru_ok c" and "x \<in> set (lc_list c)" and "y \<in> set (lc_list c)"
  shows "fst x = fst y \<longleftrightarrow> le_key (snd x) = le_key (snd y)"
proof -
  have "inj_on fst (set (lc_list c))" "inj_on (\<lambda>x. le_key (snd x)) (set (lc_list c))"
    using assms(1) by (simp_all add: lru_ok_def distinct_map)
  from inj_on_eq_iff [OF this(1) assms(2,3)] inj_on_eq_iff [OF this(2) assms(2,3)] show ?thesis by blast
qed

lemma node_update_simps [simp]:
  "node_update n v sz [] = []"
  "node_update n v sz (x # xs) = (if fst x = n then (n, (snd x)\<lparr>le_value := v, le_size := sz\<rparr>) else x) # node_update n v sz xs"
  by (simp_all add: node_update_def)

lemma node_update_other: "n \<notin> fst ` set xs \<Longrightarrow> node_update n v sz xs = xs"
  by (induction xs) auto

lemma map_of_node_update:
  "map_of (node_update n v sz xs) m = map_option (\<lambda>e. if m = n then e\<lparr>le_value := v, le_size := sz\<rparr> else e) (map_of xs m)"
  by (induction xs) auto

lemma look_by_node:
  assumes "lru_ok c"
  shows "contents c k = (case lc_map c k of None \<Rightarrow> None | Some n \<Rightarrow> map_option le_value (map_of (lc_list c) n))"
proof (cases "lc_map c k")
  case None
  then have "k \<notin> (\<lambda>x. le_key (snd x)) ` set (lc_list c)"
    using assms by (simp add: lru_ok_def map_of_eq_None_iff comp_def image_image)
  then show ?thesis using None by (simp add: contents_def map_of_eq_None_iff image_image)
next
  case (Some n)
  then obtain e where e: "(n, e) \<in> set (lc_list c)" "le_key e = k" using node_of_key [OF assms] by blast
  have "map_of (lc_list c) n = Some e" using assms e(1) by (simp add: lru_ok_def)
  moreover have "contents c k = Some (le_value e)"
    unfolding contents_def using assms e by (auto simp: lru_ok_def comp_def intro!: map_of_is_SomeI rev_image_eqI)
  ultimately show ?thesis using Some by simp
qed

section \<open>Eviction\<close>

abbreviation drop_back :: "('k, 'v) lru_cache \<Rightarrow> ('k, 'v) lru_cache" where
  "drop_back c \<equiv> c\<lparr>lc_current_bytes := lc_current_bytes c - le_size (snd (last (lc_list c))),
     lc_map := (lc_map c)(le_key (snd (last (lc_list c))) := None), lc_list := butlast (lc_list c)\<rparr>"

lemma map_of_snoc_drop: "k \<notin> fst ` set xs \<Longrightarrow> (map_of (xs @ [(k, v)]))(k := None) = map_of xs"
proof -
  assume "k \<notin> fst ` set xs"
  then have "map_of xs k = None" by (simp add: map_of_eq_None_iff)
  then show ?thesis by (intro ext) (auto simp: map_add_def split: option.split)
qed

lemma drop_back_ok:
  assumes "lru_ok c" and "lc_list c \<noteq> []"
  shows "lru_ok (drop_back c)" and "contents (drop_back c) \<subseteq>\<^sub>m contents c"
proof -
  obtain ys x where s: "lc_list c = ys @ [x]" using assms(2) by (metis append_butlast_last_id)
  have "le_key (snd x) \<notin> fst ` set (entry_keys ys)" using assms(1) s by (force simp: lru_ok_def)
  then show "lru_ok (drop_back c)"
    using assms(1) map_of_snoc_drop [of "le_key (snd x)" "entry_keys ys" "fst x"] by (simp add: lru_ok_def s)
  show "contents (drop_back c) \<subseteq>\<^sub>m contents c" using assms(1) by (auto simp: contents_def s map_le_def lru_ok_def map_add_def split: option.split)
qed

lemma evict_keeps:
  assumes "lru_ok c"
  shows "lru_ok (lru_evict c)" and "contents (lru_evict c) \<subseteq>\<^sub>m contents c" and "lc_max_bytes (lru_evict c) = lc_max_bytes c"
  using assms
proof (induction c rule: lru_evict.induct)
  case (1 c)
  { case 1 then show ?case using "1.IH"(1) drop_back_ok [of c] by (subst lru_evict.simps) (auto simp: Let_def) }
  { case 2 then show ?case using "1.IH"(2) drop_back_ok [of c] by (subst lru_evict.simps) (auto simp: Let_def intro: map_le_trans) }
  { case 3 then show ?case using "1.IH"(3) drop_back_ok [of c] by (subst lru_evict.simps) (auto simp: Let_def) }
qed

text \<open>What stays is the longest part of the list, from its front, that fits.\<close>

lemma evict_prefix:
  assumes "lru_ok c"
  shows "\<exists>n \<le> length (lc_list c). lc_list (lru_evict c) = take n (lc_list c) \<and> bytes_of (take n (lc_list c)) \<le> lc_max_bytes c \<and>
    (\<forall>m. n < m \<and> m \<le> length (lc_list c) \<longrightarrow> lc_max_bytes c < bytes_of (take m (lc_list c)))"
  using assms
proof (induction c rule: lru_evict.induct)
  case (1 c)
  show ?case
  proof (cases "lc_max_bytes c < lc_current_bytes c \<and> lc_list c \<noteq> []")
    case True
    let ?c = "drop_back c"
    obtain n where n: "n \<le> length (lc_list ?c)" "lc_list (lru_evict ?c) = take n (lc_list ?c)" "bytes_of (take n (lc_list ?c)) \<le> lc_max_bytes c"
        "\<forall>m. n < m \<and> m \<le> length (lc_list ?c) \<longrightarrow> lc_max_bytes c < bytes_of (take m (lc_list ?c))"
      using "1.IH" [OF True refl] drop_back_ok(1) [OF "1.prems"] True by auto
    have e: "lru_evict c = lru_evict ?c" using True by (subst lru_evict.simps) (simp add: Let_def)
    have big: "lc_max_bytes c < bytes_of (take m (lc_list c))" if "n < m" "m \<le> length (lc_list c)" for m
    proof (cases "m = length (lc_list c)")
      case True
      then show ?thesis using \<open>lc_max_bytes c < lc_current_bytes c \<and> lc_list c \<noteq> []\<close> "1.prems" by (simp add: lru_ok_def)
    next
      case False
      then have "take m (butlast (lc_list c)) = take m (lc_list c)" "m \<le> length (lc_list ?c)" using that by (simp_all add: take_butlast)
      then show ?thesis using n(4) that(1) by auto
    qed
    have "n < length (lc_list c)" using n(1) True length_greater_0_conv [of "lc_list c"] by (simp del: length_greater_0_conv)
    then have keep: "n \<le> length (lc_list c)" "take n (butlast (lc_list c)) = take n (lc_list c)" by (simp_all add: take_butlast)
    have "n \<le> length (lc_list c) \<and> lc_list (lru_evict c) = take n (lc_list c)" "bytes_of (take n (lc_list c)) \<le> lc_max_bytes c"
      using n(1-3) keep unfolding e by auto
    then show ?thesis using big by blast
  next
    case False
    then have "lru_evict c = c" by (subst lru_evict.simps) auto
    moreover have "bytes_of (lc_list c) \<le> lc_max_bytes c" using False "1.prems" by (auto simp: lru_ok_def not_less)
    ultimately show ?thesis by (intro exI [of _ "length (lc_list c)"]) auto
  qed
qed

section \<open>The operations\<close>

lemma insert_ok:
  assumes "lru_ok c" and "lc_map c key = None"
  shows "lru_ok (lru_insert key v sz hot c)" and "contents (lru_insert key v sz hot c) = (contents c)(key \<mapsto> v)"
proof -
  let ?x = "(lc_next_node c, \<lparr>le_key = key, le_value = v, le_size = sz\<rparr>)"
  have fresh: "key \<notin> (\<lambda>x. le_key (snd x)) ` set (lc_list c)" "lc_next_node c \<notin> fst ` set (lc_list c)"
    using assms by (auto simp: lru_ok_def map_of_eq_None_iff image_image)
  have front: "lru_ok (lru_insert key v sz True c)" using assms(1) fresh by (auto simp: lru_ok_def lru_insert_def Let_def)
  have contents: "contents (lru_insert key v sz True c) = (contents c)(key \<mapsto> v)" by (simp add: contents_def lru_insert_def Let_def)
  have same: "lru_insert key v sz hot c = (lru_insert key v sz True c)\<lparr>lc_list := (if hot then ?x # lc_list c else lc_list c @ [?x])\<rparr>"
    by (simp add: lru_insert_def Let_def)
  have "mset (if hot then ?x # lc_list c else lc_list c @ [?x]) = mset (lc_list (lru_insert key v sz True c))"
    by (simp add: lru_insert_def Let_def)
  note r = lru_ok_reorder [OF front this]
  show "lru_ok (lru_insert key v sz hot c)" using r(1) unfolding same .
  show "contents (lru_insert key v sz hot c) = (contents c)(key \<mapsto> v)" using r(2) contents unfolding same by simp
qed

lemma bytes_of_update:
  "distinct (map fst xs) \<Longrightarrow> (n, e) \<in> set xs \<Longrightarrow> bytes_of (node_update n v sz xs) = bytes_of xs - node_size n xs + sz"
proof (induction xs)
  case (Cons x xs)
  note other = node_update_other [of n xs v sz]
  show ?case
  proof (cases "fst x = n")
    case True
    then show ?thesis using Cons.prems other by (cases x) (simp add: node_update_def node_size_def)
  next
    case False
    then show ?thesis using Cons by (cases x) (auto simp: node_update_def node_size_def)
  qed
qed simp

lemma assign_ok:
  assumes "lru_ok c" and "lc_map c key = Some n"
  shows "lru_ok (lru_assign n v sz hot c)" and "contents (lru_assign n v sz hot c) = (contents c)(key \<mapsto> v)"
proof -
  obtain e where e: "(n, e) \<in> set (lc_list c)" "le_key e = key" using node_of_key [OF assms(1), THEN iffD1, OF assms(2)] by blast
  let ?c = "c\<lparr>lc_current_bytes := lc_current_bytes c - node_size n (lc_list c) + sz, lc_list := node_update n v sz (lc_list c)\<rparr>"
  have maps: "map fst (node_update n v sz xs) = map fst xs" "map (\<lambda>x. le_key (snd x)) (node_update n v sz xs) = map (\<lambda>x. le_key (snd x)) xs"
    "entry_keys (node_update n v sz xs) = entry_keys xs" for xs :: "('a, 'b) lru_list"
    by (auto simp: node_update_def)
  have nodes: "\<forall>x \<in> set (node_update n v sz (lc_list c)). fst x < lc_next_node c"
    using assms(1) e(1) by (auto simp: lru_ok_def node_update_def)
  have ok: "lru_ok ?c" using assms(1) nodes bytes_of_update [OF _ e(1), of v sz] unfolding lru_ok_def by (simp add: maps)
  have "contents ?c k = ((contents c)(key \<mapsto> v)) k" for k
  proof -
    have "lc_map c k \<noteq> Some n \<or> k = key"
    proof (rule disjCI)
      assume "\<not> k = key"
      show "lc_map c k \<noteq> Some n"
      proof
        assume k: "lc_map c k = Some n"
      obtain d where "(n, d) \<in> set (lc_list c)" "le_key d = k" using node_of_key [OF assms(1), THEN iffD1, OF k] by blast
        then show False using node_key_iff [OF assms(1) _ e(1), of "(n, d)"] e(2) \<open>\<not> k = key\<close> by simp
      qed
    qed
    moreover have "map_of (lc_list c) n = Some e" using e(1) assms(1) by (simp add: lru_ok_def)
    moreover have "contents ?c k = (case lc_map c k of None \<Rightarrow> None | Some m \<Rightarrow> map_option le_value (map_of (node_update n v sz (lc_list c)) m))"
      using look_by_node [OF ok, of k] by (simp split: option.split)
    ultimately show ?thesis
      using assms(2) look_by_node [OF assms(1), of k]
      by (cases "lc_map c k") (auto simp: map_of_node_update option.map_comp comp_def if_distrib [of le_value])
  qed
  then have contents: "contents ?c = (contents c)(key \<mapsto> v)" ..
  show "lru_ok (lru_assign n v sz hot c)" "contents (lru_assign n v sz hot c) = (contents c)(key \<mapsto> v)"
    using ok contents splice_ok [OF ok] by (simp_all add: lru_assign_def Let_def)
qed

lemma put_ok:
  assumes "lru_ok c"
  shows "lru_ok (lru_put key v sz hot c)" and "contents (lru_put key v sz hot c) \<subseteq>\<^sub>m (contents c)(key \<mapsto> v)"
  using evict_keeps(1,2) [OF insert_ok(1) [OF assms, of key v sz hot]] evict_keeps(1,2) [OF assign_ok(1) [OF assms, of key _ v sz hot]]
  by (auto simp: lru_put_def insert_ok(2) [OF assms] assign_ok(2) [OF assms] split: option.split)

lemma count_ok:
  "lru_ok (c\<lparr>lc_hit_count := h\<rparr>) = lru_ok c" "contents (c\<lparr>lc_hit_count := h\<rparr>) = contents c"
  "lru_ok (c\<lparr>lc_miss_count := h\<rparr>) = lru_ok c" "contents (c\<lparr>lc_miss_count := h\<rparr>) = contents c"
  by (simp_all add: lru_ok_def contents_def)

lemma get_cases:
  assumes "lru_ok c"
  shows "lru_ok (snd (lru_get key promote c)) \<and> contents (snd (lru_get key promote c)) = contents c \<and> fst (lru_get key promote c) = contents c key"
proof (cases "lc_map c key")
  case None
  then show ?thesis using assms by (simp add: lru_get_def count_ok look_by_node [OF assms])
next
  case (Some n)
  let ?h = "c\<lparr>lc_hit_count := lc_hit_count c + 1\<rparr>"
  let ?c = "if promote then ?h\<lparr>lc_list := splice_front n (lc_list c)\<rparr> else ?h"
  have "lru_ok ?h" using assms by (simp add: count_ok)
  then have c: "lru_ok ?c" "contents ?c = contents c" "lc_map ?c = lc_map c"
    using splice_ok [of ?h n] by (auto simp: count_ok)
  have "fst (lru_get key promote c) = map_option le_value (map_of (lc_list ?c) n)" "snd (lru_get key promote c) = ?c"
    using Some by (simp_all add: lru_get_def Let_def)
  then show ?thesis using c look_by_node [OF c(1), of key] Some by simp
qed

lemma erase_ok:
  assumes "lru_ok c"
  shows "lru_ok (lru_erase key c)" and "contents (lru_erase key c) = (contents c)(key := None)"
proof -
  have "lru_ok (lru_erase key c) \<and> contents (lru_erase key c) = (contents c)(key := None)"
  proof (cases "lc_map c key")
    case None
    then show ?thesis using assms look_by_node [OF assms, of key] by (auto simp: lru_erase_def)
  next
    case (Some n)
    obtain e where e: "(n, e) \<in> set (lc_list c)" "le_key e = key" using node_of_key [OF assms, THEN iffD1, OF Some] by blast
    have same: "fst x \<noteq> n \<longleftrightarrow> le_key (snd x) \<noteq> key" if "x \<in> set (lc_list c)" for x
      using node_key_iff [OF assms that e(1)] e(2) by simp
    then have list: "filter (\<lambda>x. fst x \<noteq> n) (lc_list c) = filter (\<lambda>x. le_key (snd x) \<noteq> key) (lc_list c)" by (rule filter_cong [OF refl])
    have keys: "map_of (map (\<lambda>x. (le_key (snd x), f x)) (filter (\<lambda>x. le_key (snd x) \<noteq> key) xs)) = (map_of (map (\<lambda>x. (le_key (snd x), f x)) xs))(key := None)"
      for f :: "nat \<times> ('a, 'b) lru_entry \<Rightarrow> 'd" and xs
      by (induction xs) auto
    have keys': "map_of (map (\<lambda>x. (le_key (snd x), f x)) (filter (\<lambda>x. le_key (snd x) \<noteq> key) xs)) = (map_of (map (\<lambda>x. (le_key (snd x), f x)) xs))(key := None)"
      for f :: "nat \<times> ('a, 'b) lru_entry \<Rightarrow> 'b" and xs
      by (induction xs) auto
    have keysn: "map_of (map (\<lambda>x. (le_key (snd x), f x)) (filter (\<lambda>x. le_key (snd x) \<noteq> key) xs)) = (map_of (map (\<lambda>x. (le_key (snd x), f x)) xs))(key := None)"
      for f :: "nat \<times> ('a, 'b) lru_entry \<Rightarrow> nat" and xs
      by (induction xs) auto
    have "distinct (map fst xs) \<Longrightarrow> (n, e) \<in> set xs \<Longrightarrow> bytes_of (filter (\<lambda>x. fst x \<noteq> n) xs) = bytes_of xs - node_size n xs" for xs :: "('a, 'b) lru_list"
    proof (induction xs)
      case (Cons x xs)
      have "n \<notin> fst ` set xs \<Longrightarrow> filter (\<lambda>x. fst x \<noteq> n) xs = xs" by (rule filter_True) auto
      then show ?case using Cons by (cases x) (auto simp: node_size_def)
    qed simp
    then have bytes: "bytes_of (filter (\<lambda>x. fst x \<noteq> n) (lc_list c)) = bytes_of (lc_list c) - node_size n (lc_list c)"
      using assms e(1) by (simp add: lru_ok_def)
    have "lru_ok (lru_erase key c)" using assms Some keysn [of fst "lc_list c"] bytes unfolding lru_ok_def
      by (simp add: lru_erase_def distinct_map_filter list)
    moreover have "contents (lru_erase key c) = (contents c)(key := None)"
      using Some by (simp add: lru_erase_def contents_def list keys')
    ultimately show ?thesis ..
  qed
  then show "lru_ok (lru_erase key c)" and "contents (lru_erase key c) = (contents c)(key := None)" by simp_all
qed

lemma clear_ok: "lru_ok c \<Longrightarrow> lru_ok (lru_clear c) \<and> contents (lru_clear c) = Map.empty"
  by (simp add: lru_ok_def lru_clear_def contents_def)

lemma limit_ok:
  assumes "lru_ok c"
  shows "lru_ok (lru_set_max_bytes m c)" and "contents (lru_set_max_bytes m c) \<subseteq>\<^sub>m contents c"
proof -
  have "lru_ok (c\<lparr>lc_max_bytes := m\<rparr>)" "contents (c\<lparr>lc_max_bytes := m\<rparr>) = contents c"
    using assms by (simp_all add: lru_ok_def contents_def)
  then show "lru_ok (lru_set_max_bytes m c)" "contents (lru_set_max_bytes m c) \<subseteq>\<^sub>m contents c"
    using evict_keeps(1,2) [of "c\<lparr>lc_max_bytes := m\<rparr>"] by (simp_all add: lru_set_max_bytes_def)
qed

lemma new_ok: "lru_ok (new_lru_cache m)" and new_contents: "contents (new_lru_cache m) = Map.empty"
  by (simp_all add: lru_ok_def new_lru_cache_def contents_def)

interpretation lru: forgetful_map lru_ok contents lru_call
proof
  fix c :: "('a, 'b) lru_cache" and call
  assume ok: "lru_ok c"
  show "lru_ok (lru_call call c)"
    using get_cases [OF ok] put_ok [OF ok] erase_ok [OF ok] clear_ok [OF ok] limit_ok [OF ok] by (cases call) auto
  show "contents (lru_call call c) \<subseteq>\<^sub>m map_call call (contents c)"
    using get_cases [OF ok] put_ok [OF ok] erase_ok [OF ok] clear_ok [OF ok] limit_ok [OF ok] by (cases call) auto
qed

section \<open>What the cache promises\<close>

text \<open>C28: The cache never lies: after any sequence of calls, whatever a lookup returns is what an unbounded
  map would hold for that key after the same calls; the cache may only have forgotten it.\<close>

theorem lru_never_stale:
  "(\<lambda>k. fst (lru_get k promote (fold lru_call calls (new_lru_cache m)))) \<subseteq>\<^sub>m fold map_call calls Map.empty"
proof -
  let ?c = "fold lru_call calls (new_lru_cache m)"
  have "lru_ok ?c" by (rule lru.calls_ok [OF new_ok])
  then have "(\<lambda>k. fst (lru_get k promote ?c)) = contents ?c" by (intro ext) (simp only: get_cases)
  moreover have "contents ?c \<subseteq>\<^sub>m fold map_call calls Map.empty"
    by (rule lru.calls_forget [OF new_ok]) (simp add: new_contents)
  ultimately show ?thesis by simp
qed

text \<open>The sum of the sizes as a number, for caches whose limit and entries are below \<open>2 ^ 63\<close> bytes.\<close>

definition total_bytes :: "('k, 'v) lru_list \<Rightarrow> nat" where
  "total_bytes xs = (\<Sum>x\<leftarrow>xs. unat (le_size (snd x)))"

lemma total_bytes_simps [simp]:
  "total_bytes [] = 0" "total_bytes (x # xs) = unat (le_size (snd x)) + total_bytes xs" "total_bytes (xs @ ys) = total_bytes xs + total_bytes ys"
  by (simp_all add: total_bytes_def)

lemma total_bytes_exact: "total_bytes xs < 2 ^ 64 \<Longrightarrow> unat (bytes_of xs) = total_bytes xs"
proof (induction xs)
  case (Cons x xs)
  then have "unat (bytes_of xs) = total_bytes xs" by simp
  then show ?case using Cons.prems by (simp add: unat_add_lem [THEN iffD1])
qed simp

lemma total_bytes_take: "total_bytes (take n xs) \<le> total_bytes xs"
  by (induction xs arbitrary: n) (auto simp: take_Cons split: nat.split intro: add_left_mono)

lemma total_bytes_mset: "mset xs = mset ys \<Longrightarrow> total_bytes xs = total_bytes ys"
  unfolding total_bytes_def by (subst (1 2) sum_mset_sum_list [symmetric]) (simp only: mset_map)

fun small_call :: "('k, 'v) cache_call \<Rightarrow> bool" where
  "small_call (cache_put k v sz hot) \<longleftrightarrow> unat sz < 2 ^ 63"
| "small_call (cache_limit m) \<longleftrightarrow> unat m < 2 ^ 63"
| "small_call call \<longleftrightarrow> True"

definition within_limit :: "('k, 'v) lru_cache \<Rightarrow> bool" where
  "within_limit c \<longleftrightarrow> lru_ok c \<and> total_bytes (lc_list c) \<le> unat (lc_max_bytes c) \<and> unat (lc_max_bytes c) < 2 ^ 63"

lemma evict_within:
  assumes "lru_ok c" and "total_bytes (lc_list c) < 2 ^ 64" and "unat (lc_max_bytes c) < 2 ^ 63"
  shows "within_limit (lru_evict c)"
proof -
  obtain n where n: "lc_list (lru_evict c) = take n (lc_list c)" "bytes_of (take n (lc_list c)) \<le> lc_max_bytes c"
    using evict_prefix [OF assms(1)] by blast
  have "unat (bytes_of (take n (lc_list c))) = total_bytes (take n (lc_list c))"
    by (rule total_bytes_exact) (rule le_less_trans [OF total_bytes_take assms(2)])
  then show ?thesis using n evict_keeps(1,3) [OF assms(1)] assms(3) by (simp add: within_limit_def word_le_nat_alt)
qed

lemma total_bytes_update:
  "distinct (map fst xs) \<Longrightarrow> total_bytes (node_update n v sz xs) \<le> total_bytes xs + unat sz"
proof (induction xs)
  case (Cons x xs)
  have "fst x = n \<Longrightarrow> node_update n v sz xs = xs" using Cons.prems by (intro node_update_other) auto
  then show ?case using Cons by auto
qed simp

lemma put_total:
  assumes "lru_ok c"
  shows "total_bytes (lc_list (case lc_map c key of Some n \<Rightarrow> lru_assign n v sz hot c | None \<Rightarrow> lru_insert key v sz hot c))
    \<le> total_bytes (lc_list c) + unat sz"
proof (cases "lc_map c key")
  case None
  then show ?thesis by (simp add: lru_insert_def Let_def)
next
  case (Some n)
  have d: "distinct (map fst (lc_list c))" using assms by (simp add: lru_ok_def)
  then have "distinct (map fst (node_update n v sz (lc_list c)))" by (simp add: node_update_def comp_def if_distrib [of fst] cong: if_cong)
  from total_bytes_mset [OF mset_splice_front [OF this]] total_bytes_update [OF d] Some show ?thesis
    by (simp add: lru_assign_def Let_def)
qed

lemma get_total: "lru_ok c \<Longrightarrow> total_bytes (lc_list (snd (lru_get key promote c))) = total_bytes (lc_list c) \<and>
    lc_max_bytes (snd (lru_get key promote c)) = lc_max_bytes c"
  using total_bytes_mset [OF mset_splice_front] by (auto simp: lru_get_def lru_ok_def Let_def split: option.split)

lemma call_within:
  assumes "within_limit c" and "small_call call"
  shows "within_limit (lru_call call c)"
proof -
  have c: "lru_ok c" "total_bytes (lc_list c) \<le> unat (lc_max_bytes c)" "unat (lc_max_bytes c) < 2 ^ 63"
    using assms(1) by (simp_all add: within_limit_def)
  have filter: "total_bytes (filter P xs) \<le> total_bytes xs" for P and xs :: "('a, 'b) lru_list"
    by (induction xs) auto
  show ?thesis
  proof (cases call)
    case (cache_get k p)
    then show ?thesis using get_cases [OF c(1)] get_total [OF c(1)] c by (auto simp: within_limit_def)
  next
    case (cache_put k v sz hot)
    let ?d = "case lc_map c k of Some n \<Rightarrow> lru_assign n v sz hot c | None \<Rightarrow> lru_insert k v sz hot c"
    have "lru_ok ?d" using assign_ok(1) [OF c(1)] insert_ok(1) [OF c(1)] by (auto split: option.split)
    moreover have "total_bytes (lc_list ?d) < 2 ^ 64" using put_total [OF c(1), of k v sz hot] c assms(2) cache_put by simp
    moreover have "lc_max_bytes ?d = lc_max_bytes c" by (simp add: lru_assign_def lru_insert_def Let_def split: option.split)
    ultimately show ?thesis using evict_within [of ?d] c(3) cache_put by (simp add: lru_put_def)
  next
    case (cache_erase k)
    have "total_bytes (lc_list (lru_erase k c)) \<le> total_bytes (lc_list c)" "lc_max_bytes (lru_erase k c) = lc_max_bytes c"
      using filter by (auto simp: lru_erase_def split: option.split)
    then show ?thesis using erase_ok(1) [OF c(1)] c cache_erase by (auto simp: within_limit_def)
  next
    case cache_clear
    then show ?thesis using clear_ok [OF c(1)] c by (simp add: within_limit_def lru_clear_def)
  next
    case (cache_limit m)
    have "lru_ok (c\<lparr>lc_max_bytes := m\<rparr>)" using c(1) by (simp add: lru_ok_def)
    then show ?thesis using evict_within [of "c\<lparr>lc_max_bytes := m\<rparr>"] c assms(2) cache_limit by (simp add: lru_set_max_bytes_def)
  qed
qed

text \<open>C29: The byte limit holds after every call: with a limit and entries below \<open>2 ^ 63\<close> bytes, whatever the
  calls were, the sizes of the entries sum up, without wrap-around, to the counter the cache keeps, and to
  no more than the limit in force.\<close>

theorem lru_within_limit:
  assumes "unat m < 2 ^ 63" and "\<forall>call \<in> set calls. small_call call"
  shows "unat (lc_current_bytes (fold lru_call calls (new_lru_cache m))) = total_bytes (lc_list (fold lru_call calls (new_lru_cache m))) \<and>
    lc_current_bytes (fold lru_call calls (new_lru_cache m)) \<le> lc_max_bytes (fold lru_call calls (new_lru_cache m))"
proof -
  have run: "within_limit (fold lru_call calls c)" if "within_limit c" for c :: "('a, 'b) lru_cache"
    using that assms(2) by (induction calls arbitrary: c) (simp_all add: call_within)
  have "within_limit (fold lru_call calls (new_lru_cache m))"
    using assms(1) by (intro run) (simp add: within_limit_def new_ok, simp add: new_lru_cache_def)
  then have w: "lru_ok (fold lru_call calls (new_lru_cache m))"
      "total_bytes (lc_list (fold lru_call calls (new_lru_cache m))) \<le> unat (lc_max_bytes (fold lru_call calls (new_lru_cache m)))"
      "unat (lc_max_bytes (fold lru_call calls (new_lru_cache m))) < 2 ^ 63" by (simp_all add: within_limit_def)
  then have "unat (bytes_of (lc_list (fold lru_call calls (new_lru_cache m)))) = total_bytes (lc_list (fold lru_call calls (new_lru_cache m)))"
    by (intro total_bytes_exact) simp
  then show ?thesis using w by (simp add: lru_ok_def word_le_nat_alt)
qed

section \<open>An example\<close>

definition two_puts :: "(nat, nat) cache_call list" where
  "two_puts = [cache_put 1 7 60 True, cache_get 1 True, cache_put 2 8 60 True]"

theorem lru_within_limit_witness:
  "lc_current_bytes (fold lru_call two_puts (new_lru_cache 100)) \<le> lc_max_bytes (fold lru_call two_puts (new_lru_cache 100)) \<and>
   unat (lc_current_bytes (fold lru_call two_puts (new_lru_cache 100))) = total_bytes (lc_list (fold lru_call two_puts (new_lru_cache 100)))"
proof -
  have "\<forall>call \<in> set two_puts. small_call call" by (simp add: two_puts_def)
  then show ?thesis using lru_within_limit [of 100 two_puts] by simp
qed

end
