(* ===== verification/Budget.thy ===== *)
theory Budget
  imports Prelude
begin

text \<open>
  \<open>src/src/core/budget.hpp\<close>: how one memory budget is divided into the pools that bound the heap, and the
  brake that reacts to the real heap.
\<close>

record derived_budgets =
  db_total :: u64
  db_read_cache_bytes :: u64
  db_decompressed_cache_bytes :: u64
  db_decoded_backlog_cap :: u64
  db_cpu_resident_budget :: u64
  db_io_clamp :: "32 word"

text \<open>\<open>std::clamp\<close>\<close>

definition clamp :: "u64 \<Rightarrow> u64 \<Rightarrow> u64 \<Rightarrow> u64" where
  "clamp v lo hi = (if v < lo then lo else if hi < v then hi else v)"

definition mb :: u64 where
  "mb = 1024 * 1024"

definition derive_budgets :: "u64 \<Rightarrow> derived_budgets" where
  "derive_budgets total_bytes =
     (let backlog = clamp (total_bytes div 4) (24 * mb) (256 * mb)
      in \<lparr>db_total = total_bytes, db_read_cache_bytes = clamp (total_bytes div 4) (16 * mb) (256 * mb),
          db_decompressed_cache_bytes = clamp (total_bytes div 16) (8 * mb) (64 * mb), db_decoded_backlog_cap = backlog,
          db_cpu_resident_budget = clamp (total_bytes div 4) (32 * mb) (256 * mb),
          db_io_clamp = ucast (clamp (backlog div (4 * mb)) 4 64)\<rparr>)"

datatype brake_level = brake_none | brake_high | brake_critical

definition compute_brake_level :: "u64 \<Rightarrow> u64 \<Rightarrow> brake_level" where
  "compute_brake_level heap_bytes heap_max =
     (if heap_max = 0 then brake_none
      else if heap_max * 9 \<le> heap_bytes * 10 then brake_critical
      else if heap_max * 8 \<le> heap_bytes * 10 then brake_high
      else brake_none)"

lemma clamp_nat: "unat (clamp v lo hi) = (if unat v < unat lo then unat lo else if unat hi < unat v then unat hi else unat v)"
  by (simp add: clamp_def word_less_nat_alt)

lemma mb_mult: "unat (16 * mb) = 16777216" "unat (8 * mb) = 8388608" "unat (64 * mb) = 67108864" "unat (24 * mb) = 25165824"
  "unat (256 * mb) = 268435456" "unat (32 * mb) = 33554432" "unat (4 * mb) = 4194304"
  by (simp_all add: mb_def)

text \<open>The pools as numbers.\<close>

definition clamp_nat_of :: "nat \<Rightarrow> nat \<Rightarrow> nat \<Rightarrow> nat" where
  "clamp_nat_of v lo hi = (if v < lo then lo else if hi < v then hi else v)"

lemma pools:
  "unat (db_read_cache_bytes (derive_budgets b)) = clamp_nat_of (unat b div 4) 16777216 268435456"
  "unat (db_decompressed_cache_bytes (derive_budgets b)) = clamp_nat_of (unat b div 16) 8388608 67108864"
  "unat (db_decoded_backlog_cap (derive_budgets b)) = clamp_nat_of (unat b div 4) 25165824 268435456"
  "unat (db_cpu_resident_budget (derive_budgets b)) = clamp_nat_of (unat b div 4) 33554432 268435456"
  "unat (db_io_clamp (derive_budgets b)) = clamp_nat_of (clamp_nat_of (unat b div 4) 25165824 268435456 div 4194304) 4 64"
  by (simp_all add: derive_budgets_def Let_def clamp_nat clamp_nat_of_def mb_mult unat_div_distrib unsigned_ucast_eq take_bit_eq_mod)
    (use div_le_mono [of "unat b div 4" 268435456 4194304] in \<open>auto simp: not_less\<close>)

text \<open>C30: The pools a budget is divided into stay within the budget exactly from 85.3 MiB on: the four sizes sum
  up to no more than the total if and only if the total is at least 89478485 bytes, and from 128 MiB on
  they leave three sixteenths of it free. The reads in flight, at four MiB each, always fit into the
  backlog they are counted against.\<close>

theorem budget_pools_fit:
  fixes b :: u64
  defines "d \<equiv> derive_budgets b"
  shows "(unat (db_read_cache_bytes d) + unat (db_decompressed_cache_bytes d) + unat (db_decoded_backlog_cap d) + unat (db_cpu_resident_budget d) \<le> unat b
      \<longleftrightarrow> 89478485 \<le> unat b) \<and>
    (unat b < 134217728 \<or>
      16 * (unat (db_read_cache_bytes d) + unat (db_decompressed_cache_bytes d) + unat (db_decoded_backlog_cap d) + unat (db_cpu_resident_budget d)) \<le> 13 * unat b) \<and>
    4 \<le> unat (db_io_clamp d) \<and> unat (db_io_clamp d) \<le> 64 \<and> unat (db_io_clamp d) * 4194304 \<le> unat (db_decoded_backlog_cap d)"
proof -
  let ?n = "unat b"
  have io: "clamp_nat_of (c div 4194304) 4 64 * 4194304 \<le> c" "4 \<le> clamp_nat_of (c div 4194304) 4 64" "clamp_nat_of (c div 4194304) 4 64 \<le> 64"
    if "25165824 \<le> c" for c :: nat
    using that div_times_less_eq_dividend [of c 4194304] div_le_mono [OF that, of 4194304] by (auto simp: clamp_nat_of_def)
  have low: "25165824 \<le> clamp_nat_of (?n div 4) 25165824 268435456" by (simp add: clamp_nat_of_def)
  have parts: "4 * (?n div 4) \<le> ?n" "?n < 4 * (?n div 4) + 4" "16 * (?n div 16) \<le> ?n" "?n < 16 * (?n div 16) + 16" by presburger+
  have "(clamp_nat_of q 16777216 268435456 + clamp_nat_of r 8388608 67108864 + clamp_nat_of q 25165824 268435456 +
      clamp_nat_of q 33554432 268435456 \<le> n) = (89478485 \<le> n)"
    if "4 * q \<le> n" "n < 4 * q + 4" "16 * r \<le> n" "n < 16 * r + 16" for n q r
    using that by (simp add: clamp_nat_of_def) linarith
  note sum = this [OF parts]
  have "n < 134217728 \<or> 16 * (clamp_nat_of q 16777216 268435456 + clamp_nat_of r 8388608 67108864 +
      clamp_nat_of q 25165824 268435456 + clamp_nat_of q 33554432 268435456) \<le> 13 * n"
    if "4 * q \<le> n" "n < 4 * q + 4" "16 * r \<le> n" "n < 16 * r + 16" for n q r
    using that by (simp add: clamp_nat_of_def)
  note share = this [OF parts]
  show ?thesis unfolding d_def pools using sum share io [OF low] by blast
qed

section \<open>The brake\<close>

fun brake_code :: "brake_level \<Rightarrow> nat" where
  "brake_code brake_none = 0"
| "brake_code brake_high = 1"
| "brake_code brake_critical = 2"

text \<open>Below \<open>2 ^ 60\<close> bytes the products do not wrap around and the brake follows the percentages.\<close>

lemma brake_exact:
  assumes "unat h < 2 ^ 60" and "unat m < 2 ^ 60"
  shows "compute_brake_level h m =
    (if unat m = 0 then brake_none else if unat m * 9 \<le> unat h * 10 then brake_critical
     else if unat m * 8 \<le> unat h * 10 then brake_high else brake_none)"
proof -
  have "unat (h * 10) = unat h * 10" "unat (m * 9) = unat m * 9" "unat (m * 8) = unat m * 8"
    using assms by (simp_all add: unat_mult_lem [THEN iffD1])
  then show ?thesis by (simp add: compute_brake_level_def word_le_nat_alt unat_eq_0)
qed

lemma brake_monotone:
  assumes "unat h \<le> unat h'" and "unat h' < 2 ^ 60" and "unat m < 2 ^ 60"
  shows "brake_code (compute_brake_level h m) \<le> brake_code (compute_brake_level h' m)"
  using assms by (simp add: brake_exact)

end
