(* ===== verification/Attributes.thy ===== *)
theory Attributes
  imports Dataset OctantSplit
begin

text \<open>
  \<open>src/src/core/attributes_configs.hpp/.cpp\<close>: the registry of attribute sets. A unit of points names its
  set by an index into the registry; a unit that is sampled or merged from others gets the union of their
  sets and a mapping that says where each attribute of the union is found in each source. Types and
  component counts are kept as their 32-bit codes, because a stored code is copied without a check. A name
  is the list of its \<open>name_size\<close> bytes; \<open>attribute_names\<close>, which owns the characters, is not represented.
\<close>

section \<open>Attribute sets\<close>

record attribute =
  at_name :: bytes
  at_type :: u32
  at_components :: u32

record attributes_configs =
  ac_configs :: "attribute list list"
  ac_names :: "bytes list"

definition new_attributes_configs :: attributes_configs where
  "new_attributes_configs = \<lparr>ac_configs = [], ac_names = []\<rparr>"

definition compare_attribute :: "attribute \<Rightarrow> attribute \<Rightarrow> bool" where
  "compare_attribute a b =
     (if length (at_name a) \<noteq> length (at_name b) then False
      else if at_type a \<noteq> at_type b then False
      else if at_components a \<noteq> at_components b then False
      else at_name a = at_name b)"

definition compare_attributes :: "attribute list \<Rightarrow> attribute list \<Rightarrow> bool" where
  "compare_attributes a b = (if length a \<noteq> length b then False else list_all2 compare_attribute a b)"

definition attributes_name_in_registry :: "attribute \<Rightarrow> bytes list \<Rightarrow> bool" where
  "attributes_name_in_registry a registry \<longleftrightarrow> list_ex (\<lambda>name. at_name a = name) registry"

definition insert_new_names :: "attribute list \<Rightarrow> bytes list \<Rightarrow> bytes list" where
  "insert_new_names source target =
     fold (\<lambda>a names. if attributes_name_in_registry a names then names else names @ [at_name a]) source target"

fun config_index_from :: "nat \<Rightarrow> attribute list \<Rightarrow> attribute list list \<Rightarrow> nat option" where
  "config_index_from i attr [] = None"
| "config_index_from i attr (c # cs) = (if compare_attributes c attr then Some i else config_index_from (i + 1) attr cs)"

definition get_attribute_config_index :: "attribute list \<Rightarrow> attributes_configs \<Rightarrow> u32 \<times> attributes_configs" where
  "get_attribute_config_index attr c =
     (case config_index_from 0 attr (ac_configs c) of
        Some i \<Rightarrow> (word_of_nat i, c)
      | None \<Rightarrow> (word_of_nat (length (ac_configs c)),
          c\<lparr>ac_configs := ac_configs c @ [attr], ac_names := insert_new_names attr (ac_names c)\<rparr>))"

section \<open>The union of sets\<close>

definition contains_attribute :: "attribute list \<Rightarrow> attribute \<Rightarrow> bool" where
  "contains_attribute attributes a \<longleftrightarrow> list_ex (\<lambda>b. at_name b = at_name a) attributes"

definition add_missing_attributes :: "attribute list \<Rightarrow> attribute list \<Rightarrow> attribute list" where
  "add_missing_attributes source target =
     fold (\<lambda>a target. if contains_attribute target a then target else target @ [a]) source target"

definition chars :: "string \<Rightarrow> bytes" where
  "chars s = map (\<lambda>c. word_of_nat (of_char c)) s"

definition original_order_name :: bytes where
  "original_order_name = chars ''original_order''"

definition remove_at :: "nat \<Rightarrow> 'a list \<Rightarrow> 'a list" where
  "remove_at i xs = take i xs @ drop (i + 1) xs"

text \<open>The first attribute behind the position that is named so is removed.\<close>

function remove_original_order :: "nat \<Rightarrow> attribute list \<Rightarrow> attribute list" where
  "remove_original_order i attrs =
     (if length attrs \<le> i then attrs
      else if at_name (attrs ! i) = original_order_name then remove_at i attrs
      else remove_original_order (i + 1) attrs)"
  by pat_completeness auto
termination
  by (relation "measure (\<lambda>(i, attrs). length attrs - i)") auto

declare remove_original_order.simps [simp del]

definition keep_visual :: "attribute \<Rightarrow> bool" where
  "keep_visual a \<longleftrightarrow> at_name a = chars ''rgb'' \<or> at_name a = chars ''intensity'' \<or> at_name a = chars ''classification''"

text \<open>From the last attribute down to the second one.\<close>

fun slim_from :: "nat \<Rightarrow> attribute list \<Rightarrow> attribute list" where
  "slim_from 0 attrs = attrs"
| "slim_from (Suc i) attrs = slim_from i (if keep_visual (attrs ! Suc i) then attrs else remove_at (Suc i) attrs)"

definition morton_type_from_lod :: "int \<Rightarrow> dew_type" where
  "morton_type_from_lod lod =
     (let top_index = lod * 3 + 3
      in if top_index < 32 then dew_type_m32
         else if top_index < 64 then dew_type_m64
         else if top_index < 128 then dew_type_m128
         else dew_type_m192)"

definition set_position_type :: "u32 \<Rightarrow> attribute list \<Rightarrow> attribute list" where
  "set_position_type ty attrs = (case attrs of [] \<Rightarrow> [] | a # as \<Rightarrow> a\<lparr>at_type := ty, at_components := 1\<rparr> # as)"

definition lod_target :: "u32 \<Rightarrow> u32 list \<Rightarrow> bool \<Rightarrow> bool \<Rightarrow> attribute list list \<Rightarrow> attribute list" where
  "lod_target lod_type ids keep_original_order lod_all_attributes configs =
     (let target = fold (\<lambda>i target. add_missing_attributes (configs ! unat i) target) (tl ids) (configs ! unat (hd ids));
          target = (if keep_original_order then target else remove_original_order 1 target);
          target = (if keep_original_order \<or> lod_all_attributes then target else slim_from (length target - 1) target)
      in set_position_type lod_type target)"

section \<open>The mapping\<close>

record source_lod_into =
  sl_source_index :: int
  sl_source_type :: u32
  sl_source_components :: u32

record attribute_lod_info =
  li_source_id :: u32
  li_source_attributes :: "source_lod_into list"

record attribute_lod_mapping =
  lm_destination_id :: u32
  lm_destination :: "(u32 \<times> u32) list"
  lm_source :: "attribute_lod_info list"

definition point_format_of :: "attribute \<Rightarrow> u32 \<times> u32" where
  "point_format_of a = (at_type a, at_components a)"

fun source_lod_into_from :: "nat \<Rightarrow> attribute \<Rightarrow> attribute list \<Rightarrow> source_lod_into" where
  "source_lod_into_from i a [] = \<lparr>sl_source_index = - 1, sl_source_type = 0, sl_source_components = 0\<rparr>"
| "source_lod_into_from i a (b # bs) =
     (if at_name a = at_name b
      then \<lparr>sl_source_index = int i, sl_source_type = at_type b, sl_source_components = at_components b\<rparr>
      else source_lod_into_from (i + 1) a bs)"

definition create_attribute_source_lod_into :: "attribute \<Rightarrow> attribute list \<Rightarrow> source_lod_into" where
  "create_attribute_source_lod_into a attributes = source_lod_into_from 0 a attributes"

definition target_lod_mapping :: "u32 \<Rightarrow> u32 list \<Rightarrow> attributes_configs \<Rightarrow> attribute_lod_mapping" where
  "target_lod_mapping target_id ids c =
     (let target = ac_configs c ! unat target_id
      in \<lparr>lm_destination_id = target_id, lm_destination = map point_format_of target,
          lm_source = fold (\<lambda>i infos. if list_ex (\<lambda>info. i = li_source_id info) infos then infos
            else infos @ [\<lparr>li_source_id = i,
              li_source_attributes = map (\<lambda>a. create_attribute_source_lod_into a (ac_configs c ! unat i)) target\<rparr>]) ids []\<rparr>)"

definition get_lod_attribute_mapping :: "int \<Rightarrow> u32 list \<Rightarrow> bool \<Rightarrow> bool \<Rightarrow> attributes_configs \<Rightarrow>
    attribute_lod_mapping \<times> attributes_configs" where
  "get_lod_attribute_mapping lod ids keep_original_order lod_all_attributes c =
     (let ids = remdups_adj (sort ids);
          target = lod_target (dew_type_code (morton_type_from_lod lod)) ids keep_original_order lod_all_attributes (ac_configs c);
          (target_id, c) = get_attribute_config_index target c
      in (target_lod_mapping target_id ids c, c))"

section \<open>Reading the registry\<close>

definition get_format_components :: "u32 \<Rightarrow> attributes_configs \<Rightarrow> (u32 \<times> u32) list" where
  "get_format_components i c = map point_format_of (ac_configs c ! unat i)"

definition get_point_format :: "u32 \<Rightarrow> attributes_configs \<Rightarrow> u32 \<times> u32" where
  "get_point_format i c = point_format_of (ac_configs c ! unat i ! 0)"

definition get_attribute_index :: "u32 \<Rightarrow> bytes \<Rightarrow> attributes_configs \<Rightarrow> source_lod_into" where
  "get_attribute_index i name c =
     (if length (ac_configs c) \<le> unat i then \<lparr>sl_source_index = - 1, sl_source_type = 0, sl_source_components = 0\<rparr>
      else source_lod_into_from 0 \<lparr>at_name = name, at_type = 0, at_components = 0\<rparr> (ac_configs c ! unat i))"

definition attrib_name_registry_count :: "attributes_configs \<Rightarrow> u32" where
  "attrib_name_registry_count c = word_of_nat (length (ac_names c))"

text \<open>The number of characters copied into a buffer of \<open>buffer_size\<close> bytes, behind which a zero is stored.\<close>

definition attrib_name_registry_get :: "u32 \<Rightarrow> u32 \<Rightarrow> attributes_configs \<Rightarrow> u32" where
  "attrib_name_registry_get index buffer_size c =
     (if length (ac_names c) \<le> unat index then 0
      else (let sz = word_of_nat (length (ac_names c ! unat index)) + 1
            in (if buffer_size < sz then buffer_size else sz) - 1))"

section \<open>The stored form\<close>

definition attribute_bytes :: "attribute \<Rightarrow> bytes" where
  "attribute_bytes a = word_bytes (at_type a) @ word_bytes (at_components a) @ word_bytes (word_of_nat (length (at_name a)) :: u32) @ at_name a"

definition config_bytes :: "attribute list \<Rightarrow> bytes" where
  "config_bytes attrs = word_bytes (word_of_nat (length attrs) :: u32) @ concat (map attribute_bytes attrs)"

text \<open>The size the buffer is allocated with, added in 32 bits.\<close>

definition attributes_size :: "attributes_configs \<Rightarrow> u32" where
  "attributes_size c =
     foldl (\<lambda>sz attrs. foldl (\<lambda>sz a. sz + 4 + 4 + 4 + word_of_nat (length (at_name a))) (sz + 4) attrs) 4 (ac_configs c)"

definition serialize_attributes :: "attributes_configs \<Rightarrow> bytes" where
  "serialize_attributes c = word_bytes (word_of_nat (length (ac_configs c)) :: u32) @ concat (map config_bytes (ac_configs c))"

definition attributes_error :: "int \<Rightarrow> string \<Rightarrow> dew_error" where
  "attributes_error code msg = \<lparr>err_code = code, err_msg = msg\<rparr>"

definition read_attribute :: "bytes \<Rightarrow> dew_error + attribute \<times> bytes" where
  "read_attribute p =
     (if length p < 4 + 4 + 4 then Inl (attributes_error 3 ''Invalid input size for attribute details'')
      else (let format = bytes_word (take 4 p); components = bytes_word (take 4 (drop 4 p));
                name_size = unat (bytes_word (take 4 (drop 8 p)) :: u32); p = drop 12 p
            in if length p < name_size then Inl (attributes_error 4 ''Invalid input size for attribute name'')
               else Inr (\<lparr>at_name = take name_size p, at_type = format, at_components = components\<rparr>, drop name_size p)))"

fun read_attributes :: "nat \<Rightarrow> bytes \<Rightarrow> dew_error + attribute list \<times> bytes" where
  "read_attributes 0 p = Inr ([], p)"
| "read_attributes (Suc n) p =
     (case read_attribute p of
        Inl e \<Rightarrow> Inl e
      | Inr (a, p) \<Rightarrow> (case read_attributes n p of Inl e \<Rightarrow> Inl e | Inr (as, p) \<Rightarrow> Inr (a # as, p)))"

text \<open>Sets that were read are entered at once, so they stay when a later one is refused.\<close>

fun read_configs :: "nat \<Rightarrow> bytes \<Rightarrow> attributes_configs \<Rightarrow> dew_error option \<times> attributes_configs" where
  "read_configs 0 p c = (None, c)"
| "read_configs (Suc n) p c =
     (if length p < 4 then (Some (attributes_error 2 ''Invalid input size for attribute count''), c)
      else (case read_attributes (unat (bytes_word (take 4 p) :: u32)) (drop 4 p) of
              Inl e \<Rightarrow> (Some e, c)
            | Inr (attrs, p) \<Rightarrow> read_configs n p (snd (get_attribute_config_index attrs c))))"

definition deserialize_attributes :: "bytes \<Rightarrow> attributes_configs \<Rightarrow> dew_error option \<times> attributes_configs" where
  "deserialize_attributes p c =
     (if length p < 4 then (Some (attributes_error 1 ''Invalid input size for count''), c)
      else read_configs (unat (bytes_word (take 4 p) :: u32)) (drop 4 p) c)"

end
