(* ===== verification/AttributesProps.thy ===== *)
theory AttributesProps
  imports Attributes MemoryIO
begin

text \<open>
  What the registry of attribute sets promises: indices are stable and sets are entered once, the union of
  sets holds each name once and the mapping points into the sources with the formats they have, and the
  stored form is read back.
\<close>

section \<open>Entering a set\<close>

lemma compare_attribute_eq: "compare_attribute a b \<longleftrightarrow> a = b"
  by (cases a; cases b) (auto simp: compare_attribute_def)

lemma compare_attributes_eq: "compare_attributes a b \<longleftrightarrow> a = b"
  by (auto simp: compare_attributes_def compare_attribute_eq list.rel_eq [symmetric] fun_eq_iff list_all2_lengthD elim: list_all2_mono)

lemma config_index_Some: "config_index_from i attr cs = Some j \<Longrightarrow> i \<le> j \<and> j < i + length cs \<and> cs ! (j - i) = attr"
  by (induction i attr cs rule: config_index_from.induct)
    (auto simp: compare_attributes_eq nth_Cons' split: if_splits, (metis diff_Suc_eq_diff_pred)?)

lemma config_index_None: "config_index_from i attr cs = None \<longleftrightarrow> attr \<notin> set cs"
  by (induction i attr cs rule: config_index_from.induct) (auto simp: compare_attributes_eq)

lemma config_index_snoc: "attr \<notin> set cs \<Longrightarrow> config_index_from i attr (cs @ [attr]) = Some (i + length cs)"
  by (induction i attr cs rule: config_index_from.induct) (auto simp: compare_attributes_eq)

text \<open>No set is entered twice, and the names are those of the sets in the order they were entered.\<close>

definition attributes_ok :: "attributes_configs \<Rightarrow> bool" where
  "attributes_ok c \<longleftrightarrow> distinct (ac_configs c) \<and> ac_names c = fold insert_new_names (ac_configs c) []"

lemma new_attributes_ok: "attributes_ok new_attributes_configs"
  by (simp add: attributes_ok_def new_attributes_configs_def)

lemma enter_cases:
  obtains (known) j where "j < length (ac_configs c)" "ac_configs c ! j = attr" "get_attribute_config_index attr c = (word_of_nat j, c)"
  | (fresh) "attr \<notin> set (ac_configs c)" "get_attribute_config_index attr c = (word_of_nat (length (ac_configs c)),
        c\<lparr>ac_configs := ac_configs c @ [attr], ac_names := insert_new_names attr (ac_names c)\<rparr>)"
proof (cases "config_index_from 0 attr (ac_configs c)")
  case None
  then have "attr \<notin> set (ac_configs c)" using config_index_None by blast
  then show ?thesis using that(2) None by (simp add: get_attribute_config_index_def)
next
  case (Some j)
  then have "get_attribute_config_index attr c = (word_of_nat j, c)" by (simp add: get_attribute_config_index_def)
  with config_index_Some [OF Some] show ?thesis by (intro that(1) [of j]) simp_all
qed

lemma enter_ok: "attributes_ok c \<Longrightarrow> attributes_ok (snd (get_attribute_config_index attr c))"
  by (rule enter_cases [of c attr]) (auto simp: attributes_ok_def)

lemma config_index_entered:
  assumes "attributes_ok c" and "length (ac_configs c) < 2 ^ 32 - 1" and "get_attribute_config_index attr c = (i, c')"
  shows "attributes_ok c'" and "unat i < length (ac_configs c')" and "ac_configs c' ! unat i = attr"
    and "take (length (ac_configs c)) (ac_configs c') = ac_configs c" and "get_attribute_config_index attr c' = (i, c')"
proof -
  have "attributes_ok c' \<and> unat i < length (ac_configs c') \<and> ac_configs c' ! unat i = attr \<and>
      take (length (ac_configs c)) (ac_configs c') = ac_configs c \<and> get_attribute_config_index attr c' = (i, c')"
  proof (cases rule: enter_cases [of c attr])
    case (known j)
    then have "unat (word_of_nat j :: u32) = j" using assms(2) by (simp add: unat_of_nat)
    then show ?thesis using known assms(1,3) by auto
  next
    case fresh
    have "unat (word_of_nat (length (ac_configs c)) :: u32) = length (ac_configs c)" using assms(2) by (simp add: unat_of_nat)
    moreover have "get_attribute_config_index attr c' = (i, c')"
      using fresh assms(3) config_index_snoc [OF fresh(1), of 0] by (auto simp: get_attribute_config_index_def)
    ultimately show ?thesis using fresh assms enter_ok [OF assms(1), of attr] by (auto simp: nth_append)
  qed
  then show "attributes_ok c'" and "unat i < length (ac_configs c')" and "ac_configs c' ! unat i = attr"
    and "take (length (ac_configs c)) (ac_configs c') = ac_configs c" and "get_attribute_config_index attr c' = (i, c')" by simp_all
qed

text \<open>C33: An attribute set keeps its index: entering a set returns the index of an entry that is equal to it,
  leaves all entries before where they were, keeps the sets pairwise different and the names in step with
  them, and entering it again returns the same index and changes nothing.\<close>

theorem config_index_stable:
  assumes "attributes_ok c" and "length (ac_configs c) < 2 ^ 32 - 1" and "get_attribute_config_index attr c = (i, c')"
  shows "attributes_ok c' \<and> unat i < length (ac_configs c') \<and> ac_configs c' ! unat i = attr \<and>
    take (length (ac_configs c)) (ac_configs c') = ac_configs c \<and> get_attribute_config_index attr c' = (i, c')"
  using config_index_entered [OF assms] by simp

section \<open>The union\<close>

abbreviation names_of :: "attribute list \<Rightarrow> bytes list" where
  "names_of attrs \<equiv> map at_name attrs"

lemma contains_attribute_iff: "contains_attribute attrs a \<longleftrightarrow> at_name a \<in> set (names_of attrs)"
  unfolding contains_attribute_def list_ex_iff set_map image_iff by metis

lemma add_missing:
  "\<exists>new. add_missing_attributes source target = target @ new \<and> set new \<subseteq> set source \<and>
    set (names_of (target @ new)) = set (names_of target) \<union> set (names_of source) \<and>
    (distinct (names_of target) \<longrightarrow> distinct (names_of (target @ new)))"
proof (induction source arbitrary: target)
  case Nil
  show ?case by (rule exI [of _ "[]"]) (simp add: add_missing_attributes_def)
next
  case (Cons a source)
  show ?case
  proof (cases "contains_attribute target a")
    case True
    then have e: "add_missing_attributes (a # source) target = add_missing_attributes source target"
      by (simp add: add_missing_attributes_def)
    obtain new where n: "add_missing_attributes source target = target @ new" "set new \<subseteq> set source"
        "set (names_of (target @ new)) = set (names_of target) \<union> set (names_of source)"
        "distinct (names_of target) \<longrightarrow> distinct (names_of (target @ new))" using Cons.IH [of target] by blast
    have "at_name a \<in> set (names_of target)" using True by (simp only: contains_attribute_iff)
    then show ?thesis unfolding e using n by (intro exI [of _ new]) auto
  next
    case False
    then have e: "add_missing_attributes (a # source) target = add_missing_attributes source (target @ [a])"
      by (simp add: add_missing_attributes_def)
    obtain new where n: "add_missing_attributes source (target @ [a]) = (target @ [a]) @ new" "set new \<subseteq> set source"
        "set (names_of ((target @ [a]) @ new)) = set (names_of (target @ [a])) \<union> set (names_of source)"
        "distinct (names_of (target @ [a])) \<longrightarrow> distinct (names_of ((target @ [a]) @ new))" using Cons.IH [of "target @ [a]"] by blast
    have "at_name a \<notin> set (names_of target)" using False by (simp only: contains_attribute_iff) simp
    then show ?thesis unfolding e using n by (intro exI [of _ "a # new"]) auto
  qed
qed

text \<open>The union of the sets with the given numbers, in the order of the numbers.\<close>

definition union_of :: "u32 list \<Rightarrow> attribute list list \<Rightarrow> attribute list" where
  "union_of ids configs = fold (\<lambda>i target. add_missing_attributes (configs ! unat i) target) (tl ids) (configs ! unat (hd ids))"

lemma union_fold:
  "\<exists>new. fold (\<lambda>i target. add_missing_attributes (configs ! unat i) target) ids target = target @ new \<and>
    set (names_of (target @ new)) = set (names_of target) \<union> (\<Union>i \<in> set ids. set (names_of (configs ! unat i))) \<and>
    (distinct (names_of target) \<longrightarrow> distinct (names_of (target @ new)))"
proof (induction ids arbitrary: target)
  case Nil
  show ?case by (rule exI [of _ "[]"]) simp
next
  case (Cons i ids)
  obtain a where a: "add_missing_attributes (configs ! unat i) target = target @ a"
      "set (names_of (target @ a)) = set (names_of target) \<union> set (names_of (configs ! unat i))"
      "distinct (names_of target) \<longrightarrow> distinct (names_of (target @ a))" using add_missing by blast
  obtain b where b: "fold (\<lambda>i target. add_missing_attributes (configs ! unat i) target) ids (target @ a) = (target @ a) @ b"
      "set (names_of ((target @ a) @ b)) = set (names_of (target @ a)) \<union> (\<Union>i \<in> set ids. set (names_of (configs ! unat i)))"
      "distinct (names_of (target @ a)) \<longrightarrow> distinct (names_of ((target @ a) @ b))" using Cons.IH [of "target @ a"] by blast
  have "fold (\<lambda>i target. add_missing_attributes (configs ! unat i) target) (i # ids) target = target @ (a @ b)" by (simp add: a(1) b(1))
  then show ?case using a b(2,3) by (intro exI [of _ "a @ b"]) auto
qed

lemma names_of_union:
  assumes "ids \<noteq> []" and "distinct (names_of (configs ! unat (hd ids)))"
  shows "distinct (names_of (union_of ids configs))"
    and "set (names_of (union_of ids configs)) = (\<Union>i \<in> set ids. set (names_of (configs ! unat i)))"
    and "\<exists>new. union_of ids configs = configs ! unat (hd ids) @ new"
proof -
  obtain y ys where ids: "ids = y # ys" using assms(1) by (cases ids) auto
  obtain new where n: "union_of ids configs = configs ! unat y @ new"
      "set (names_of (configs ! unat y @ new)) = set (names_of (configs ! unat y)) \<union> (\<Union>i \<in> set ys. set (names_of (configs ! unat i)))"
      "distinct (names_of (configs ! unat y)) \<longrightarrow> distinct (names_of (configs ! unat y @ new))"
    using union_fold [of configs ys "configs ! unat y"] by (auto simp: union_of_def ids)
  show "distinct (names_of (union_of ids configs))" using n(1,3) assms(2) unfolding ids by simp
  show "set (names_of (union_of ids configs)) = (\<Union>i \<in> set ids. set (names_of (configs ! unat i)))"
    using n(2) unfolding n(1) [symmetric] by (simp add: ids)
  show "\<exists>new. union_of ids configs = configs ! unat (hd ids) @ new" using n(1) ids by auto
qed

section \<open>Dropping attributes\<close>

fun drop_first_order :: "attribute list \<Rightarrow> attribute list" where
  "drop_first_order [] = []"
| "drop_first_order (a # as) = (if at_name a = original_order_name then as else a # drop_first_order as)"

lemma drop_first_order_filter:
  "distinct (names_of as) \<Longrightarrow> drop_first_order as = filter (\<lambda>a. at_name a \<noteq> original_order_name) as"
proof (induction as)
  case (Cons a as)
  have "filter (\<lambda>b. at_name b \<noteq> at_name a) as = as" if "at_name a \<notin> at_name ` set as"
    by (rule filter_True) (use that in \<open>auto simp: image_iff\<close>)
  then show ?case using Cons by auto
qed simp

lemma remove_original_order_eq:
  "i \<le> length attrs \<Longrightarrow> remove_original_order i attrs = take i attrs @ drop_first_order (drop i attrs)"
proof (induction i attrs rule: remove_original_order.induct)
  case (1 i attrs)
  show ?case
  proof (cases "i < length attrs")
    case True
    then have d: "drop i attrs = attrs ! i # drop (i + 1) attrs" "take (i + 1) attrs = take i attrs @ [attrs ! i]"
      by (simp_all add: Cons_nth_drop_Suc take_Suc_conv_app_nth)
    show ?thesis
    proof (cases "at_name (attrs ! i) = original_order_name")
      case True
      then show ?thesis using \<open>i < length attrs\<close> by (subst remove_original_order.simps) (simp add: d remove_at_def)
    next
      case False
      then have "remove_original_order (i + 1) attrs = take (i + 1) attrs @ drop_first_order (drop (i + 1) attrs)"
        using "1.IH" \<open>i < length attrs\<close> by simp
      also have "\<dots> = take i attrs @ drop_first_order (drop i attrs)" unfolding d using False by simp
      finally show ?thesis using False \<open>i < length attrs\<close> by (subst remove_original_order.simps) simp
    qed
  next
    case False
    then show ?thesis using "1.prems" by (subst remove_original_order.simps) simp
  qed
qed

lemma slim_from_eq:
  "i < length attrs \<Longrightarrow> slim_from i attrs = take 1 attrs @ filter keep_visual (drop 1 (take (i + 1) attrs)) @ drop (i + 1) attrs"
proof (induction i attrs rule: slim_from.induct)
  case (1 attrs)
  then show ?case by (cases attrs) auto
next
  case (2 i attrs)
  let ?attrs = "if keep_visual (attrs ! Suc i) then attrs else remove_at (Suc i) attrs"
  obtain a as b bs where s: "attrs = (a # as) @ b # bs" "length as = i"
  proof -
    have "attrs = take (Suc i) attrs @ attrs ! Suc i # drop (Suc (Suc i)) attrs" using "2.prems" by (simp add: id_take_nth_drop)
    moreover obtain a as where "take (Suc i) attrs = a # as" using "2.prems" by (cases "take (Suc i) attrs") auto
    moreover from this have "length as = i" using "2.prems" by (metis Suc_leI length_Cons length_take less_imp_le_nat min.absorb2 nat.inject)
    ultimately show ?thesis using that by metis
  qed
  have n: "attrs ! Suc i = b" "length attrs = Suc (Suc (i + length bs))" using s by (simp_all add: nth_append)
  have "?attrs = (a # as) @ (if keep_visual b then [b] else []) @ bs" using s n by (simp add: remove_at_def)
  moreover have "i < length ?attrs" using s n by (simp add: remove_at_def)
  ultimately have "slim_from i ?attrs = take 1 ?attrs @ filter keep_visual (drop 1 (take (i + 1) ?attrs)) @ drop (i + 1) ?attrs"
    using "2.IH" by blast
  also have "\<dots> = a # filter keep_visual as @ (if keep_visual b then [b] else []) @ bs"
    unfolding \<open>?attrs = _\<close> using s(2) by simp
  finally show ?case using s by (cases "keep_visual b") (simp_all add: nth_append)
qed

text \<open>Which attributes stay in a sampled unit.\<close>

definition stays :: "bool \<Rightarrow> bool \<Rightarrow> attribute \<Rightarrow> bool" where
  "stays keep_original_order lod_all_attributes a \<longleftrightarrow>
     keep_original_order \<or> at_name a \<noteq> original_order_name \<and> (lod_all_attributes \<or> keep_visual a)"

lemma names_set_position: "names_of (set_position_type ty attrs) = names_of attrs"
  by (simp add: set_position_type_def split: list.split)

lemma lod_target_eq:
  assumes u: "union_of ids configs = a # as" and d: "distinct (names_of (a # as))"
  shows "lod_target ty ids keep all configs = a\<lparr>at_type := ty, at_components := 1\<rparr> # filter (stays keep all) as"
proof -
  have rm: "remove_original_order 1 (a # as) = a # filter (\<lambda>a. at_name a \<noteq> original_order_name) as"
    using remove_original_order_eq [of 1 "a # as"] d drop_first_order_filter [of as] by simp
  have slim: "slim_from (length bs) (a # bs) = a # filter keep_visual bs" for bs
    using slim_from_eq [of "length bs" "a # bs"] by simp
  show ?thesis unfolding lod_target_def Let_def union_of_def [symmetric] u rm
    by (auto simp: slim set_position_type_def stays_def rm intro!: filter_cong)
qed

section \<open>The mapping\<close>

text \<open>Where an attribute is found in a source, with the format it has there.\<close>

definition maps_into :: "attribute \<Rightarrow> attribute list \<Rightarrow> source_lod_into \<Rightarrow> bool" where
  "maps_into a source s \<longleftrightarrow>
     (if at_name a \<in> set (names_of source)
      then 0 \<le> sl_source_index s \<and> nat (sl_source_index s) < length source \<and> at_name (source ! nat (sl_source_index s)) = at_name a \<and>
        sl_source_type s = at_type (source ! nat (sl_source_index s)) \<and> sl_source_components s = at_components (source ! nat (sl_source_index s))
      else sl_source_index s = - 1)"

lemma source_lod_into_from:
  "maps_into a (pre @ source) (source_lod_into_from (length pre) a source)" if "at_name a \<notin> set (names_of pre)"
  using that
proof (induction source arbitrary: pre)
  case Nil
  then show ?case by (simp add: maps_into_def)
next
  case (Cons b bs)
  show ?case
  proof (cases "at_name a = at_name b")
    case True
    then show ?thesis by (simp add: maps_into_def nth_append)
  next
    case False
    then have "maps_into a ((pre @ [b]) @ bs) (source_lod_into_from (length (pre @ [b])) a bs)"
      using Cons.prems by (intro Cons.IH) simp
    then show ?thesis using False by simp
  qed
qed

lemma create_maps_into: "maps_into a source (create_attribute_source_lod_into a source)"
  using source_lod_into_from [of a "[]" source] by (simp add: create_attribute_source_lod_into_def)

lemma source_infos:
  assumes "distinct (map li_source_id infos @ ids)"
  shows "fold (\<lambda>i infos. if list_ex (\<lambda>entry. i = li_source_id entry) infos then infos
      else infos @ [\<lparr>li_source_id = i, li_source_attributes = g i\<rparr>]) ids infos =
    infos @ map (\<lambda>i. \<lparr>li_source_id = i, li_source_attributes = g i\<rparr>) ids"
  using assms
proof (induction ids arbitrary: infos)
  case (Cons i ids)
  have "\<not> list_ex (\<lambda>entry. i = li_source_id entry) infos" using Cons.prems by (auto simp: list_ex_iff)
  then show ?case using Cons.IH [of "infos @ [\<lparr>li_source_id = i, li_source_attributes = g i\<rparr>]"] Cons.prems by simp
qed simp

lemma distinct_remdups_adj_sort: "distinct (remdups_adj (sort (xs :: u32 list)))"
proof -
  have "sorted ys \<Longrightarrow> distinct (remdups_adj ys)" for ys :: "u32 list"
    by (induction ys rule: remdups_adj.induct) (auto simp: antisym)
  then show ?thesis by simp
qed

lemma sort_eq_Nil [simp]: "sort (xs :: u32 list) = [] \<longleftrightarrow> xs = []"
  by (metis set_empty set_sort)

lemma target_mapping:
  assumes "distinct ids"
  shows "lm_destination (target_lod_mapping t ids c) = map point_format_of (ac_configs c ! unat t)"
    and "map li_source_id (lm_source (target_lod_mapping t ids c)) = ids"
    and "entry \<in> set (lm_source (target_lod_mapping t ids c)) \<Longrightarrow>
      list_all2 (\<lambda>a s. maps_into a (ac_configs c ! unat (li_source_id entry)) s) (ac_configs c ! unat t) (li_source_attributes entry)"
  using assms
  by (auto simp: target_lod_mapping_def Let_def source_infos [of "[]", simplified] comp_def list_all2_conv_all_nth create_maps_into)

definition ids_ok :: "u32 list \<Rightarrow> attributes_configs \<Rightarrow> bool" where
  "ids_ok ids c \<longleftrightarrow> ids \<noteq> [] \<and> (\<forall>i \<in> set ids. unat i < length (ac_configs c) \<and> ac_configs c ! unat i \<noteq> [] \<and> distinct (names_of (ac_configs c ! unat i)))"

lemma union_target:
  assumes "ids_ok ids c"
  shows "\<exists>a as. union_of (remdups_adj (sort ids)) (ac_configs c) = a # as \<and> at_name a = hd (names_of (ac_configs c ! unat (hd (sort ids)))) \<and>
    distinct (names_of (a # as)) \<and> set (names_of (a # as)) = (\<Union>i \<in> set ids. set (names_of (ac_configs c ! unat i))) \<and>
    lod_target ty (remdups_adj (sort ids)) keep all (ac_configs c) = a\<lparr>at_type := ty, at_components := 1\<rparr> # filter (stays keep all) as"
proof -
  let ?ids = "remdups_adj (sort ids)"
  have ids: "?ids \<noteq> []" "set ?ids = set ids" "hd ?ids = hd (sort ids)" using assms by (simp_all add: ids_ok_def)
  have first: "hd ?ids \<in> set ids" using ids(1,2) by (metis hd_in_set)
  let ?first = "ac_configs c ! unat (hd ?ids)"
  have f: "?first \<noteq> []" "distinct (names_of ?first)" using assms first by (auto simp: ids_ok_def)
  note n = names_of_union [OF ids(1) f(2)]
  obtain a as where u: "union_of ?ids (ac_configs c) = a # as" "a = hd ?first" using n(3) f(1) by (cases ?first) auto
  have "lod_target ty ?ids keep all (ac_configs c) = a\<lparr>at_type := ty, at_components := 1\<rparr> # filter (stays keep all) as"
    by (rule lod_target_eq [OF u(1)]) (use n(1) in \<open>simp add: u(1)\<close>)
  then show ?thesis using n(1,2) u f(1) ids(2,3) by (intro exI [of _ a] exI [of _ as]) (simp add: hd_map)
qed

text \<open>C31: The mapping of a unit sampled or merged from others is well formed: its destination is an entry of
  the registry, which keeps all entries it had; the formats it lists are those of that entry, and the first
  one is a single morton code of the type the level needs; it lists each source once, in rising order; and
  for each source and each attribute of the destination it holds the position of the attribute of the same
  name in that source, in range and with the format it has there, or minus one when the source has none.\<close>

theorem lod_mapping_typed:
  assumes "attributes_ok c" and "ids_ok ids c" and "length (ac_configs c) < 2 ^ 32 - 1"
    and "get_lod_attribute_mapping lod ids keep all c = (m, c')"
  shows "attributes_ok c' \<and> take (length (ac_configs c)) (ac_configs c') = ac_configs c \<and>
    unat (lm_destination_id m) < length (ac_configs c') \<and>
    lm_destination m = get_format_components (lm_destination_id m) c' \<and>
    get_point_format (lm_destination_id m) c' = (dew_type_code (morton_type_from_lod lod), 1) \<and>
    map li_source_id (lm_source m) = remdups_adj (sort ids) \<and>
    list_all (\<lambda>entry. list_all2 (\<lambda>a s. maps_into a (ac_configs c ! unat (li_source_id entry)) s)
      (ac_configs c' ! unat (lm_destination_id m)) (li_source_attributes entry)) (lm_source m)"
proof -
  let ?ids = "remdups_adj (sort ids)"
  let ?target = "lod_target (dew_type_code (morton_type_from_lod lod)) ?ids keep all (ac_configs c)"
  obtain t where e: "get_attribute_config_index ?target c = (t, c')" and m: "m = target_lod_mapping t ?ids c'"
    using assms(4) by (auto simp: get_lod_attribute_mapping_def Let_def split: prod.splits)
  obtain a as where target: "?target = a\<lparr>at_type := dew_type_code (morton_type_from_lod lod), at_components := 1\<rparr> # filter (stays keep all) as"
    using union_target [OF assms(2), of "dew_type_code (morton_type_from_lod lod)" keep all] by blast
  have s: "attributes_ok c'" "unat t < length (ac_configs c')" "ac_configs c' ! unat t = ?target"
      "take (length (ac_configs c)) (ac_configs c') = ac_configs c"
    using config_index_entered [OF assms(1,3) e] by simp_all
  have old: "ac_configs c' ! unat i = ac_configs c ! unat i" if "i \<in> set ids" for i
    using that assms(2) s(4) by (metis ids_ok_def nth_take)
  have "lm_destination_id m = t" by (simp add: m target_lod_mapping_def Let_def)
  moreover have "list_all2 (\<lambda>a s. maps_into a (ac_configs c ! unat (li_source_id entry)) s) ?target (li_source_attributes entry)"
    if "entry \<in> set (lm_source m)" for entry
  proof -
    have "li_source_id entry \<in> set ids"
    proof -
      have "li_source_id entry \<in> set (map li_source_id (lm_source m))" using that by simp
      then show ?thesis unfolding m target_mapping(2) [of ?ids t c', OF distinct_remdups_adj_sort] by simp
    qed
    then show ?thesis using target_mapping(3) [OF distinct_remdups_adj_sort that [unfolded m]] s(3) old by simp
  qed
  ultimately show ?thesis
    using s target_mapping(1,2) [of ?ids t c', OF distinct_remdups_adj_sort]
    by (auto simp: m get_format_components_def get_point_format_def point_format_of_def target list_all_iff)
qed

lemma stays_name: "at_name a = at_name b \<Longrightarrow> stays keep all a \<longleftrightarrow> stays keep all b"
  by (simp add: stays_def keep_visual_def)

lemma filtered_names:
  assumes "at_name ` set (a # as) = at_name ` B"
  shows "set (at_name a # names_of (filter (stays keep all) as)) = {at_name a} \<union> {at_name b | b. stays keep all b \<and> b \<in> B}" (is "?l = ?r")
proof
  show "?l \<subseteq> ?r"
  proof
    fix n
    assume "n \<in> ?l"
    then consider "n = at_name a" | b where "b \<in> set as" "stays keep all b" "n = at_name b" by auto
    then show "n \<in> ?r"
    proof cases
      case 2
      then have "n \<in> at_name ` B" using assms by auto
      then obtain b' where "b' \<in> B" "n = at_name b'" by auto
      then show ?thesis using 2 stays_name [of b b' keep all] by auto
    qed simp
  qed
  show "?r \<subseteq> ?l"
  proof
    fix n
    assume "n \<in> ?r"
    then consider "n = at_name a" | b where "b \<in> B" "stays keep all b" "n = at_name b" by auto
    then show "n \<in> ?l"
    proof cases
      case 2
      then have "n \<in> at_name ` set (a # as)" using assms by auto
      then obtain b' where "b' \<in> set (a # as)" "n = at_name b'" by auto
      then show ?thesis using 2 stays_name [of b b' keep all] by auto
    qed simp
  qed
qed

text \<open>C32: A sampled or merged unit holds each attribute once: its first attribute is the first one of the source set
  with the least number, and behind it stand exactly the attributes of the sources, no name twice, less
  the original order, unless it is to be kept, and less what is not colour, intensity or classification,
  unless everything is to be kept.\<close>

theorem lod_mapping_names:
  assumes "attributes_ok c" and "ids_ok ids c" and "length (ac_configs c) < 2 ^ 32 - 1"
    and "get_lod_attribute_mapping lod ids keep all c = (m, c')"
  shows "distinct (names_of (ac_configs c' ! unat (lm_destination_id m))) \<and>
    hd (names_of (ac_configs c' ! unat (lm_destination_id m))) = hd (names_of (ac_configs c ! unat (hd (sort ids)))) \<and>
    set (names_of (ac_configs c' ! unat (lm_destination_id m))) =
      {hd (names_of (ac_configs c ! unat (hd (sort ids))))} \<union>
      {at_name b | b. stays keep all b \<and> b \<in> (\<Union>i \<in> set ids. set (ac_configs c ! unat i))}"
proof -
  let ?ids = "remdups_adj (sort ids)"
  let ?target = "lod_target (dew_type_code (morton_type_from_lod lod)) ?ids keep all (ac_configs c)"
  obtain t where e: "get_attribute_config_index ?target c = (t, c')" and m: "m = target_lod_mapping t ?ids c'"
    using assms(4) by (auto simp: get_lod_attribute_mapping_def Let_def split: prod.splits)
  obtain a as where u: "union_of ?ids (ac_configs c) = a # as" "at_name a = hd (names_of (ac_configs c ! unat (hd (sort ids))))"
      "distinct (names_of (a # as))" "set (names_of (a # as)) = (\<Union>i \<in> set ids. set (names_of (ac_configs c ! unat i)))"
      "?target = a\<lparr>at_type := dew_type_code (morton_type_from_lod lod), at_components := 1\<rparr> # filter (stays keep all) as"
    using union_target [OF assms(2), of "dew_type_code (morton_type_from_lod lod)" keep all] by blast
  have t: "lm_destination_id m = t" "ac_configs c' ! unat t = ?target"
    using config_index_entered(3) [OF assms(1,3) e] by (simp_all add: m target_lod_mapping_def Let_def)
  have names: "names_of ?target = at_name a # names_of (filter (stays keep all) as)" by (simp add: u(5))
  have "distinct (names_of ?target)" unfolding names using u(3) by (auto simp: distinct_map_filter)
  moreover have "set (names_of ?target) = {at_name a} \<union> {at_name b | b. stays keep all b \<and> b \<in> (\<Union>i \<in> set ids. set (ac_configs c ! unat i))}"
    unfolding names by (rule filtered_names) (use u(4) in \<open>simp add: image_UN\<close>)
  ultimately show ?thesis unfolding t by (simp add: names u(2))
qed

end
