(* ===== verification/AttributesFormat.thy ===== *)
theory AttributesFormat
  imports AttributesProps
begin

text \<open>
  The stored form of the attribute registry: the buffer has the size that was computed for it, reading it
  back restores the registry with all indices and names, and a buffer that is cut off is refused.
\<close>

section \<open>Sizes\<close>

definition storable_attributes :: "attributes_configs \<Rightarrow> bool" where
  "storable_attributes c \<longleftrightarrow> attributes_ok c \<and> length (serialize_attributes c) < 2 ^ 32"

lemma length_attribute_bytes: "length (attribute_bytes a) = 12 + length (at_name a)"
  by (simp add: attribute_bytes_def)

lemma length_le_concat: "(\<And>x. x \<in> set xs \<Longrightarrow> 0 < length (f x)) \<Longrightarrow> length xs \<le> length (concat (map f xs))"
proof (induction xs)
  case (Cons x xs)
  have "0 < length (f x)" "length xs \<le> length (concat (map f xs))" using Cons by auto
  then show ?case by (simp del: length_greater_0_conv)
qed simp

lemma member_le_concat: "x \<in> set xs \<Longrightarrow> length (f x) \<le> length (concat (map f xs))"
  by (induction xs) auto

lemma config_size:
  "foldl (\<lambda>sz a. sz + 4 + 4 + 4 + word_of_nat (length (at_name a))) (sz :: u32) attrs = sz + word_of_nat (length (concat (map attribute_bytes attrs)))"
  by (induction attrs arbitrary: sz) (simp_all add: length_attribute_bytes)

lemma attributes_size_eq: "attributes_size c = word_of_nat (length (serialize_attributes c))"
proof -
  have "foldl (\<lambda>sz attrs. foldl (\<lambda>sz a. sz + 4 + 4 + 4 + word_of_nat (length (at_name a))) (sz + 4) attrs) (sz :: u32) cs =
      sz + word_of_nat (length (concat (map config_bytes cs)))" for sz cs
    by (induction cs arbitrary: sz) (simp_all only: foldl_Nil foldl_Cons config_size, simp_all add: config_bytes_def)
  then show ?thesis by (simp add: attributes_size_def serialize_attributes_def)
qed

lemma storable_sizes:
  assumes "storable_attributes c"
  shows "length (ac_configs c) < 2 ^ 32" and "attrs \<in> set (ac_configs c) \<Longrightarrow> length attrs < 2 ^ 32"
    and "attrs \<in> set (ac_configs c) \<Longrightarrow> a \<in> set attrs \<Longrightarrow> length (at_name a) < 2 ^ 32"
proof -
  have all: "length (concat (map config_bytes (ac_configs c))) < 2 ^ 32"
    using assms by (simp add: storable_attributes_def serialize_attributes_def)
  have "length (ac_configs c) \<le> length (concat (map config_bytes (ac_configs c)))"
    by (rule length_le_concat) (simp add: config_bytes_def)
  then show "length (ac_configs c) < 2 ^ 32" using all by simp
  have config: "length (concat (map attribute_bytes attrs)) < 2 ^ 32" if "attrs \<in> set (ac_configs c)" for attrs
    using member_le_concat [OF that, of config_bytes] all by (simp add: config_bytes_def)
  have "length attrs \<le> length (concat (map attribute_bytes attrs))" for attrs
    by (rule length_le_concat) (simp add: length_attribute_bytes)
  then show "length attrs < 2 ^ 32" if "attrs \<in> set (ac_configs c)" for attrs using config [OF that] by (meson le_less_trans)
  show "length (at_name a) < 2 ^ 32" if "attrs \<in> set (ac_configs c)" "a \<in> set attrs" for attrs a
    using member_le_concat [OF that(2), of attribute_bytes] config [OF that(1)] by (simp add: length_attribute_bytes)
qed

section \<open>Reading back\<close>

lemma read_attribute_bytes:
  assumes "length (at_name a) < 2 ^ 32"
  shows "read_attribute (attribute_bytes a @ r) = Inr (a, r)"
  using assms by (simp add: read_attribute_def attribute_bytes_def Let_def unat_of_nat)

lemma read_attributes_bytes:
  "\<forall>a \<in> set as. length (at_name a) < 2 ^ 32 \<Longrightarrow> read_attributes (length as) (concat (map attribute_bytes as) @ r) = Inr (as, r)"
  by (induction as) (simp_all add: read_attribute_bytes)

definition enter_all :: "attribute list list \<Rightarrow> attributes_configs \<Rightarrow> attributes_configs" where
  "enter_all cs c = fold (\<lambda>attrs c. snd (get_attribute_config_index attrs c)) cs c"

lemma read_configs_bytes:
  "\<forall>as \<in> set cs. length as < 2 ^ 32 \<and> (\<forall>a \<in> set as. length (at_name a) < 2 ^ 32) \<Longrightarrow>
    read_configs (length cs) (concat (map config_bytes cs) @ r) c = (None, enter_all cs c)"
  by (induction cs arbitrary: c) (simp_all add: enter_all_def config_bytes_def unat_of_nat read_attributes_bytes)

lemma enter_all_fresh:
  "distinct (ac_configs c @ cs) \<Longrightarrow>
    enter_all cs c = c\<lparr>ac_configs := ac_configs c @ cs, ac_names := fold insert_new_names cs (ac_names c)\<rparr>"
proof (induction cs arbitrary: c)
  case (Cons attrs cs)
  let ?c = "c\<lparr>ac_configs := ac_configs c @ [attrs], ac_names := insert_new_names attrs (ac_names c)\<rparr>"
  have "attrs \<notin> set (ac_configs c)" using Cons.prems by auto
  then have "snd (get_attribute_config_index attrs c) = ?c" by (cases rule: enter_cases [of c attrs]) auto
  then show ?case using Cons.IH [of ?c] Cons.prems by (simp add: enter_all_def)
qed (simp add: enter_all_def)

section \<open>What is cut off\<close>

lemma read_attribute_cut:
  assumes "length (at_name a) < 2 ^ 32" and "k < length (attribute_bytes a)"
  shows "\<exists>e. read_attribute (take k (attribute_bytes a)) = Inl e"
proof (cases "k < 12")
  case True
  then have "length (take k (attribute_bytes a)) < 4 + 4 + 4" by simp
  then show ?thesis unfolding read_attribute_def by (simp only: if_True) blast
next
  case False
  then have "take 4 (drop 8 (take k (attribute_bytes a))) = word_bytes (word_of_nat (length (at_name a)) :: u32)"
    by (simp add: attribute_bytes_def take_append drop_take min_def)
  then show ?thesis using assms False by (simp add: read_attribute_def Let_def length_attribute_bytes unat_of_nat)
qed

lemma read_attributes_cut:
  "\<forall>a \<in> set as. length (at_name a) < 2 ^ 32 \<Longrightarrow> k < length (concat (map attribute_bytes as)) \<Longrightarrow>
    \<exists>e. read_attributes (length as) (take k (concat (map attribute_bytes as))) = Inl e"
proof (induction as arbitrary: k)
  case (Cons a as)
  show ?case
  proof (cases "k < length (attribute_bytes a)")
    case True
    then show ?thesis using read_attribute_cut [of a k] Cons.prems(1) by auto
  next
    case False
    then have t: "take k (concat (map attribute_bytes (a # as))) = attribute_bytes a @ take (k - length (attribute_bytes a)) (concat (map attribute_bytes as))"
      by simp
    have "k - length (attribute_bytes a) < length (concat (map attribute_bytes as))" using Cons.prems(2) False by simp
    then obtain e where "read_attributes (length as) (take (k - length (attribute_bytes a)) (concat (map attribute_bytes as))) = Inl e"
      using Cons.IH Cons.prems(1) by fastforce
    then show ?thesis unfolding t using Cons.prems(1) by (simp add: read_attribute_bytes)
  qed
qed simp

lemma read_configs_cut:
  "\<forall>as \<in> set cs. length as < 2 ^ 32 \<and> (\<forall>a \<in> set as. length (at_name a) < 2 ^ 32) \<Longrightarrow> k < length (concat (map config_bytes cs)) \<Longrightarrow>
    fst (read_configs (length cs) (take k (concat (map config_bytes cs))) c) \<noteq> None"
proof (induction cs arbitrary: k c)
  case (Cons as cs)
  show ?case
  proof (cases "k < length (config_bytes as)")
    case True
    show ?thesis
    proof (cases "k < 4")
      case False
      have "take k (concat (map config_bytes (as # cs))) = word_bytes (word_of_nat (length as) :: u32) @ take (k - 4) (concat (map attribute_bytes as))"
        using True False by (simp add: config_bytes_def)
      moreover have "k - 4 < length (concat (map attribute_bytes as))" using True False by (simp add: config_bytes_def)
      then obtain e where "read_attributes (length as) (take (k - 4) (concat (map attribute_bytes as))) = Inl e"
        using read_attributes_cut [of as] Cons.prems(1) by fastforce
      ultimately show ?thesis using Cons.prems(1) by (simp add: unat_of_nat)
    next
      case True
      then have "length (take k (concat (map config_bytes (as # cs)))) < 4" by simp
      then show ?thesis unfolding length_Cons read_configs.simps by (simp only: if_True fst_conv) simp
    qed
  next
    case False
    then have t: "take k (concat (map config_bytes (as # cs))) =
        word_bytes (word_of_nat (length as) :: u32) @ concat (map attribute_bytes as) @ take (k - length (config_bytes as)) (concat (map config_bytes cs))"
      by (simp add: config_bytes_def)
    show ?thesis unfolding t using Cons.IH [of "k - length (config_bytes as)"] Cons.prems False
      by (simp add: unat_of_nat read_attributes_bytes)
  qed
qed simp

section \<open>The properties\<close>

text \<open>C34: The stored attribute registry is read back: a registry whose stored form is shorter than \<open>2 ^ 32\<close> bytes is written
  into exactly the number of bytes that was computed for it, reading it into an empty registry restores
  every set under its index and the names in their order, and any shorter part of it is refused.\<close>

theorem attributes_roundtrip:
  assumes "storable_attributes c"
  shows "unat (attributes_size c) = length (serialize_attributes c) \<and>
    deserialize_attributes (serialize_attributes c) new_attributes_configs = (None, c) \<and>
    (\<forall>k < length (serialize_attributes c). fst (deserialize_attributes (take k (serialize_attributes c)) new_attributes_configs) \<noteq> None)"
proof (intro conjI allI impI)
  have ok: "attributes_ok c" and len: "length (serialize_attributes c) < 2 ^ 32" using assms by (simp_all add: storable_attributes_def)
  show "unat (attributes_size c) = length (serialize_attributes c)" using len by (simp add: attributes_size_eq unat_of_nat)
  have all: "\<forall>as \<in> set (ac_configs c). length as < 2 ^ 32 \<and> (\<forall>a \<in> set as. length (at_name a) < 2 ^ 32)"
    and n: "unat (word_of_nat (length (ac_configs c)) :: u32) = length (ac_configs c)"
    using storable_sizes [OF assms] by (auto simp: unat_of_nat)
  have "enter_all (ac_configs c) new_attributes_configs = c"
    using ok by (subst enter_all_fresh) (simp_all add: attributes_ok_def new_attributes_configs_def)
  then show "deserialize_attributes (serialize_attributes c) new_attributes_configs = (None, c)"
    using read_configs_bytes [OF all, of "[]" new_attributes_configs] n by (simp add: deserialize_attributes_def serialize_attributes_def)
  fix k
  assume k: "k < length (serialize_attributes c)"
  show "fst (deserialize_attributes (take k (serialize_attributes c)) new_attributes_configs) \<noteq> None"
  proof (cases "k < 4")
    case False
    have "take k (serialize_attributes c) = word_bytes (word_of_nat (length (ac_configs c)) :: u32) @ take (k - 4) (concat (map config_bytes (ac_configs c)))"
      using False by (simp add: serialize_attributes_def)
    then show ?thesis using read_configs_cut [OF all, of "k - 4" new_attributes_configs] n k False
      by (simp add: deserialize_attributes_def serialize_attributes_def)
  next
    case True
    then have "length (take k (serialize_attributes c)) < 4" by simp
    then show ?thesis unfolding deserialize_attributes_def by (simp only: if_True fst_conv) simp
  qed
qed

section \<open>An example\<close>

definition attr :: "string \<Rightarrow> u32 \<Rightarrow> attribute" where
  "attr name ty = \<lparr>at_name = chars name, at_type = ty, at_components = 1\<rparr>"

definition two_sets :: attributes_configs where
  "two_sets = snd (get_attribute_config_index [attr ''xyz'' 13, attr ''rgb'' 2, attr ''gps_time'' 11]
     (snd (get_attribute_config_index [attr ''xyz'' 10, attr ''intensity'' 2, attr ''original_order'' 4] new_attributes_configs)))"

lemma two_sets_ok: "attributes_ok two_sets"
  unfolding two_sets_def by (intro enter_ok new_attributes_ok)

lemma two_sets_small: "length (ac_configs two_sets) = 2" "ids_ok [1, 0] two_sets"
  by code_simp+

theorem config_index_stable_witness:
  "fst (get_attribute_config_index [attr ''xyz'' 6] two_sets) = 2 \<and>
   ac_configs (snd (get_attribute_config_index [attr ''xyz'' 6] two_sets)) ! 2 = [attr ''xyz'' 6]"
proof -
  obtain i c' where e: "get_attribute_config_index [attr ''xyz'' 6] two_sets = (i, c')" by (rule prod.exhaust)
  have "fst (get_attribute_config_index [attr ''xyz'' 6] two_sets) = 2" by code_simp
  then show ?thesis using config_index_stable [OF two_sets_ok _ e] two_sets_small(1) e by simp
qed

theorem lod_mapping_typed_witness:
  "\<exists>m c'. get_lod_attribute_mapping 5 [1, 0] False False two_sets = (m, c') \<and> lm_destination_id m = 2 \<and>
    lm_destination m = get_format_components 2 c' \<and> get_point_format 2 c' = (dew_type_code dew_type_m32, 1)"
proof -
  obtain m c' where e: "get_lod_attribute_mapping 5 [1, 0] False False two_sets = (m, c')" by (rule prod.exhaust)
  have "lm_destination_id (fst (get_lod_attribute_mapping 5 [1, 0] False False two_sets)) = 2" by code_simp
  then have "lm_destination_id m = 2" by (simp add: e)
  moreover have "morton_type_from_lod 5 = dew_type_m32" by (simp add: morton_type_from_lod_def)
  ultimately show ?thesis using lod_mapping_typed [OF two_sets_ok two_sets_small(2) _ e] two_sets_small(1) e by auto
qed

theorem lod_mapping_names_witness:
  "\<exists>m c'. get_lod_attribute_mapping 5 [1, 0] False False two_sets = (m, c') \<and>
    distinct (names_of (ac_configs c' ! unat (lm_destination_id m))) \<and>
    hd (names_of (ac_configs c' ! unat (lm_destination_id m))) = chars ''xyz''"
proof -
  obtain m c' where e: "get_lod_attribute_mapping 5 [1, 0] False False two_sets = (m, c')" by (rule prod.exhaust)
  have "hd (names_of (ac_configs two_sets ! unat (hd (sort [1, 0 :: u32])))) = chars ''xyz''" by code_simp
  then show ?thesis using lod_mapping_names [OF two_sets_ok two_sets_small(2) _ e] two_sets_small(1) e by auto
qed

theorem attributes_roundtrip_witness:
  "deserialize_attributes (serialize_attributes two_sets) new_attributes_configs = (None, two_sets)"
proof -
  have "length (serialize_attributes two_sets) = 124" by code_simp
  then have "storable_attributes two_sets" using two_sets_ok by (simp add: storable_attributes_def)
  then show ?thesis using attributes_roundtrip [of two_sets] by blast
qed

text \<open>A name is asked for with a buffer of no bytes: the length that is copied wraps around.\<close>

lemma empty_name_buffer:
  assumes "unat i < length (ac_names c)" and "length (ac_names c ! unat i) < 2 ^ 32 - 1"
  shows "attrib_name_registry_get i 0 c = - 1"
proof -
  have "word_of_nat (length (ac_names c ! unat i)) + 1 \<noteq> (0 :: u32)"
  proof
    assume "word_of_nat (length (ac_names c ! unat i)) + 1 = (0 :: u32)"
    then have "unat (word_of_nat (Suc (length (ac_names c ! unat i))) :: u32) = 0" by (simp add: add.commute)
    then show False using assms(2) by (simp add: unat_of_nat del: of_nat_Suc)
  qed
  then have "0 < word_of_nat (length (ac_names c ! unat i)) + (1 :: u32)" by (simp add: word_neq_0_conv)
  then show ?thesis using assms(1) by (simp add: attrib_name_registry_get_def Let_def)
qed

end
