(* ===== verification/CollapseMerge.thy ===== *)
theory CollapseMerge
  imports Attributes OctantExact TreeBuild TreeCells
begin

text \<open>
  \<open>src/src/converter/tree_collapse.cpp\<close>, the merge: the points of one leaf lie in subsets of large sorted
  chunks; a worker reads the chunks, widens the codes of the subsets, sorts them together and narrows them
  to the type the span of the leaf needs. The reads are the argument \<open>rd\<close>. The attributes, which travel
  with their points, follow the list of (unit, index) pairs the worker makes.
\<close>

section \<open>The entries\<close>

record merge_entry =
  me_absolute :: m192
  me_subset_index :: nat
  me_source_index :: u32

definition append_absolute :: "'a::len morton \<Rightarrow> storage_header \<Rightarrow> bytes \<Rightarrow> nat \<Rightarrow> points_subset \<Rightarrow> merge_entry list" where
  "append_absolute dummy h data subset_index s =
     map (\<lambda>(i, x). \<lparr>me_absolute = to_world (sh_min h) x, me_subset_index = subset_index, me_source_index = ps_offset s + word_of_nat i\<rparr>)
       (enumerate 0 (subset_codes dummy data s))"

text \<open>None: a read failed or the unit holds no codes; the job has failed.\<close>

definition subset_entries :: "stored_blobs \<Rightarrow> storage_location \<Rightarrow> nat \<Rightarrow> points_subset \<Rightarrow> merge_entry list option" where
  "subset_entries rd l subset_index s =
     (case read_points rd l of
        Inl _ \<Rightarrow> None
      | Inr (h, data) \<Rightarrow>
          if sh_type h = dew_type_code dew_type_m32 then Some (append_absolute [0 :: u32] h data subset_index s)
          else if sh_type h = dew_type_code dew_type_m64 then Some (append_absolute [0 :: u64] h data subset_index s)
          else if sh_type h = dew_type_code dew_type_m128 then Some (append_absolute [0, 0 :: u64] h data subset_index s)
          else if sh_type h = dew_type_code dew_type_m192 then Some (append_absolute [0, 0, 0 :: u64] h data subset_index s)
          else None)"

text \<open>The source of a unit: its attribute set and the locations of its blobs, the points first.\<close>

type_synonym unit_sources = "input_data_id \<rightharpoonup> attributes_id \<times> storage_location list"

fun gather_entries :: "stored_blobs \<Rightarrow> unit_sources \<Rightarrow> nat \<Rightarrow> points_subset list \<Rightarrow> merge_entry list option" where
  "gather_entries rd sources k [] = Some []"
| "gather_entries rd sources k (s # ss) =
     (case sources (ps_input s) of
        Some (_, l # _) \<Rightarrow>
          (case subset_entries rd l k s of
             None \<Rightarrow> None
           | Some es \<Rightarrow> map_option ((@) es) (gather_entries rd sources (k + 1) ss))
      | _ \<Rightarrow> None)"

section \<open>The merged unit\<close>

definition code_word_bytes :: "'a::len morton \<Rightarrow> bytes" where
  "code_word_bytes x = concat (map word_bytes x)"

definition make_destination_morton :: "'a::len morton \<Rightarrow> merge_entry list \<Rightarrow> bytes" where
  "make_destination_morton dummy es =
     concat (map (\<lambda>e. code_word_bytes (morton_downcast (length dummy) (m192_words (me_absolute e)) :: 'a morton)) es)"

definition destination_buffer :: "dew_type \<Rightarrow> merge_entry list \<Rightarrow> bytes" where
  "destination_buffer t es =
     (case t of dew_type_m32 \<Rightarrow> make_destination_morton [0 :: u32] es
      | dew_type_m64 \<Rightarrow> make_destination_morton [0 :: u64] es
      | dew_type_m128 \<Rightarrow> make_destination_morton [0, 0 :: u64] es
      | _ \<Rightarrow> make_destination_morton [0, 0, 0 :: u64] es)"

record merged_unit =
  mu_header :: storage_header
  mu_points :: bytes
  mu_indecies :: "(input_data_id \<times> u32) list"

definition merge_entries :: "merge_entry list \<Rightarrow> merge_entry list" where
  "merge_entries es = sort_key me_absolute es"

definition merge_worker :: "stored_blobs \<Rightarrow> unit_sources \<Rightarrow> input_data_id \<Rightarrow> points_subset list \<Rightarrow> merged_unit option" where
  "merge_worker rd sources new_id subsets =
     (case gather_entries rd sources 0 subsets of
        None \<Rightarrow> None
      | Some es \<Rightarrow>
          (let es = merge_entries es; mn = me_absolute (hd es); mx = me_absolute (last es);
               lod_span = morton_lod (m192_words mn) (m192_words mx); t = morton_type_from_lod (int lod_span)
           in Some \<lparr>mu_header = \<lparr>sh_input = new_id, sh_count = word_of_nat (length es), sh_type = dew_type_code t, sh_components = 1, sh_pad = 0,
                      sh_min = mn, sh_max = mx, sh_lod_span = word_of_nat lod_span, sh_pad_end = 0\<rparr>,
                    mu_points = destination_buffer t es,
                    mu_indecies = map (\<lambda>e. (ps_input (subsets ! me_subset_index e), me_source_index e)) es\<rparr>))"

section \<open>Narrowing keeps the codes\<close>

lemma lod_agree:
  assumes "a \<le> w" and "w \<le> (b :: m192)" and "3 * morton_lod (m192_words a) (m192_words b) + 3 \<le> k"
  shows "morton_bit (m192_words w) k \<longleftrightarrow> morton_bit (m192_words a) k"
proof -
  let ?x = "morton_xor (m192_words a) (m192_words b)"
  have len: "length (m192_words v) = 3" for v by (cases v) simp
  show ?thesis
  proof (cases "morton_val ?x = 0")
    case True
    have "morton_bit (m192_words a) j \<longleftrightarrow> morton_bit (m192_words b) j" for j
    proof -
      have "\<not> bit (morton_val ?x) j" using True by simp
      then show ?thesis by (simp add: bit_morton_val morton_xor_bit len)
    qed
    then have "code a = code b" by (intro bit_eqI) (simp add: bit_morton_val)
    then have "code w = code a" using assms(1,2) by (simp add: code_order)
    then have "bit (code w) k = bit (code a) k" by simp
    then show ?thesis by (simp only: bit_morton_val)
  next
    case False
    let ?m = "morton_msb ?x"
    have msb: "?m < j \<Longrightarrow> \<not> morton_bit ?x j" for j
      by (rule morton_msb_bits(2)) (use False in \<open>simp_all add: morton_xor_def len\<close>)
    have "?m < k" using assms(3) by (simp add: morton_lod_def morton_lod_from_bit_index_def)
    then obtain j where j: "k = ?m + 1 + j" by (metis Suc_eq_plus1 less_iff_Suc_add add_Suc_right add_Suc)
    have "drop_bit (?m + 1) (code a) = drop_bit (?m + 1) (code b)"
      by (rule bit_eqI) (use msb in \<open>simp add: bit_drop_bit_eq bit_morton_val morton_xor_bit len\<close>)
    then have "code a div 2 ^ (?m + 1) = code b div 2 ^ (?m + 1)" by (simp only: drop_bit_eq_div)
    moreover have "code a div 2 ^ (?m + 1) \<le> code w div 2 ^ (?m + 1)" "code w div 2 ^ (?m + 1) \<le> code b div 2 ^ (?m + 1)"
      using assms(1,2) by (simp_all only: code_order div_le_mono)
    ultimately have "code w div 2 ^ (?m + 1) = code a div 2 ^ (?m + 1)" by linarith
    then have "drop_bit (?m + 1) (code w) = drop_bit (?m + 1) (code a)" by (simp only: drop_bit_eq_div)
    then have "bit (drop_bit (?m + 1) (code w)) j = bit (drop_bit (?m + 1) (code a)) j" by simp
    then show ?thesis unfolding j by (simp add: bit_drop_bit_eq bit_morton_val add.commute)
  qed
qed

context code_width begin

lemma narrow_widen:
  assumes "\<And>k. kept_bits LENGTH('a) (length dummy) \<le> k \<Longrightarrow> morton_bit (m192_words w) k \<longleftrightarrow> morton_bit (m192_words mn) k"
  shows "to_world mn (morton_downcast (length dummy) (m192_words w) :: 'a morton) = w"
proof -
  have len: "length (m192_words v) = 3" for v by (cases v) simp
  let ?x = "morton_downcast (length dummy) (m192_words w) :: 'a morton"
  let ?kept = "kept_bits LENGTH('a) (length dummy)"
  have x: "length ?x = length dummy" "\<And>k. morton_bit ?x k \<longleftrightarrow> k < ?kept \<and> morton_bit (m192_words w) k"
    using narrowed [OF len] by blast+
  have "\<not> morton_bit ?x j" if "?kept \<le> j" for j using that x(2) [of j] by simp
  note u = widened [OF x(1) len this, of mn]
  have "morton_bit (morton_upcast 3 ?x (m192_words mn)) k \<longleftrightarrow> morton_bit (m192_words w) k" for k
  proof (cases "k < ?kept")
    case True
    then show ?thesis using u [of k] x(2) [of k] by simp
  next
    case False
    then show ?thesis using u [of k] assms [of k] by simp
  qed
  moreover have "length (morton_upcast 3 ?x (m192_words mn)) = 3" using u by blast
  ultimately have "morton_upcast 3 ?x (m192_words mn) = m192_words w"
    by (intro morton_val_bits_eqI) (simp_all add: len)
  then show ?thesis by (cases w) (simp add: to_world_def m192_of_def)
qed

lemma codes_at_written:
  assumes "\<forall>x \<in> set xs. length x = length dummy"
  shows "codes_at dummy (length xs) (concat (map (code_word_bytes :: 'a morton \<Rightarrow> bytes) xs)) = xs"
proof -
  let ?w = "LENGTH('a) div 8"
  have b: "(bytes_word (word_bytes w) :: 'a word) = w" for w :: "'a word" using whole_bytes by (rule bytes_word_bytes)
  have one: "map bytes_word (elements ?w (length dummy) (code_word_bytes x)) = x" if "length x = length dummy" for x :: "'a morton"
  proof -
    have "elements ?w (length (map word_bytes x)) (concat (map word_bytes x)) = map word_bytes x"
      by (rule elements_concat) auto
    then show ?thesis using that by (simp add: code_word_bytes_def comp_def b)
  qed
  have len: "length (code_word_bytes x) = ?w * length dummy" if "length x = length dummy" for x :: "'a morton"
    using concat_map_length_const [of x word_bytes ?w] that by (simp add: code_word_bytes_def)
  have "elements (?w * length dummy) (length (map code_word_bytes xs)) (concat (map code_word_bytes xs)) = map (code_word_bytes :: 'a morton \<Rightarrow> bytes) xs"
    by (rule elements_concat) (use assms len in auto)
  then show ?thesis using assms one by (simp add: codes_at_def map_idI)
qed

lemma destination_decodes:
  assumes "\<And>e k. e \<in> set es \<Longrightarrow> kept_bits LENGTH('a) (length dummy) \<le> k \<Longrightarrow>
      morton_bit (m192_words (me_absolute e)) k \<longleftrightarrow> morton_bit (m192_words mn) k"
  shows "map (to_world mn) (codes_at dummy (length es) (make_destination_morton dummy es)) = map me_absolute es"
proof -
  let ?f = "\<lambda>e. morton_downcast (length dummy) (m192_words (me_absolute e)) :: 'a morton"
  have len: "length (m192_words v) = 3" for v by (cases v) simp
  have "codes_at dummy (length (map ?f es)) (concat (map code_word_bytes (map ?f es))) = map ?f es"
    by (rule codes_at_written) (use narrowed [OF len] in auto)
  then have "codes_at dummy (length es) (make_destination_morton dummy es) = map ?f es"
    by (simp add: make_destination_morton_def comp_def)
  then show ?thesis using narrow_widen assms by simp
qed

end

section \<open>The merge\<close>

text \<open>The points of the subsets as a reader sees them: each code with the unit it comes from and its index there.\<close>

definition unit_points :: "stored_blobs \<Rightarrow> unit_sources \<Rightarrow> points_subset \<Rightarrow> (m192 \<times> input_data_id \<times> u32) list" where
  "unit_points rd sources s =
     (case sources (ps_input s) of
        Some (_, l # _) \<Rightarrow>
          (case read_points rd l of
             Inl _ \<Rightarrow> []
           | Inr (h, data) \<Rightarrow> zip (world_codes h data s (sh_min h))
               (map (\<lambda>i. (ps_input s, ps_offset s + word_of_nat i)) [0..<unat (ps_count s)]))
      | _ \<Rightarrow> [])"

definition source_points :: "stored_blobs \<Rightarrow> unit_sources \<Rightarrow> points_subset list \<Rightarrow> (m192 \<times> input_data_id \<times> u32) list" where
  "source_points rd sources ss = concat (map (unit_points rd sources) ss)"

definition entry_point :: "points_subset list \<Rightarrow> merge_entry \<Rightarrow> m192 \<times> input_data_id \<times> u32" where
  "entry_point ss e = (me_absolute e, ps_input (ss ! me_subset_index e), me_source_index e)"

lemma append_points:
  assumes "k < length ss" and "ss ! k = s"
  shows "map (entry_point ss) (append_absolute dummy h data k s) =
    zip (map (to_world (sh_min h)) (subset_codes dummy data s)) (map (\<lambda>i. (ps_input s, ps_offset s + word_of_nat i)) [0..<unat (ps_count s)])"
proof -
  have n: "length (subset_codes dummy data s) = unat (ps_count s)" by (simp add: subset_codes_def)
  show ?thesis
    by (rule nth_equalityI) (simp_all add: append_absolute_def entry_point_def n assms nth_enumerate_eq)
qed

lemma subset_points:
  assumes "subset_entries rd l k s = Some es" and "sources (ps_input s) = Some (a, l # ls)" and "k < length ss" and "ss ! k = s"
  shows "map (entry_point ss) es = unit_points rd sources s"
proof -
  obtain h data where r: "read_points rd l = Inr (h, data)"
    using assms(1) by (auto simp: subset_entries_def split: sum.splits)
  show ?thesis
    using assms(1) append_points [OF assms(3,4), of "[0 :: u32]" h data] append_points [OF assms(3,4), of "[0 :: u64]" h data]
      append_points [OF assms(3,4), of "[0, 0 :: u64]" h data] append_points [OF assms(3,4), of "[0, 0, 0 :: u64]" h data]
    by (auto simp: subset_entries_def r unit_points_def assms(2) world_codes_def split: if_splits)
qed

lemma gather_points:
  "gather_entries rd sources (length pre) ss = Some es \<Longrightarrow> map (entry_point (pre @ ss)) es = source_points rd sources ss"
proof (induction ss arbitrary: pre es)
  case (Cons s ss)
  obtain a l ls where src: "sources (ps_input s) = Some (a, l # ls)"
    using Cons.prems by (auto split: option.splits list.splits prod.splits)
  obtain es1 es2 where e: "subset_entries rd l (length pre) s = Some es1" "gather_entries rd sources (length pre + 1) ss = Some es2" "es = es1 @ es2"
    using Cons.prems by (auto simp: src split: option.splits)
  have "map (entry_point (pre @ s # ss)) es1 = unit_points rd sources s" by (rule subset_points [of rd l "length pre" s es1 sources a ls]) (simp_all add: e(1) src)
  moreover have "map (entry_point ((pre @ [s]) @ ss)) es2 = source_points rd sources ss" using e(2) by (intro Cons.IH) simp
  ultimately show ?case by (simp add: e(3) source_points_def)
qed (simp add: source_points_def)

lemma map_insort_key: "map f (insort_key (\<lambda>x. g (f x)) x xs) = insort_key g (f x) (map f xs)"
  by (induction xs) auto

lemma map_sort_key: "map f (sort_key (\<lambda>x. g (f x)) xs) = sort_key g (map f xs)"
  by (induction xs) (simp_all add: map_insort_key)

text \<open>The type the span of the unit needs keeps every bit in which its codes differ.\<close>

lemma destination_exact:
  assumes lod: "lod = morton_lod (m192_words mn) (m192_words mx)" and "\<And>e. e \<in> set es \<Longrightarrow> mn \<le> me_absolute e \<and> me_absolute e \<le> mx"
    and h: "sh_type h = dew_type_code (morton_type_from_lod (int lod))" and s: "ps_offset s = 0" "unat (ps_count s) = length es"
  shows "world_codes h (destination_buffer (morton_type_from_lod (int lod)) es) s mn = map me_absolute es"
proof -
  have agree: "morton_bit (m192_words (me_absolute e)) k \<longleftrightarrow> morton_bit (m192_words mn) k" if "e \<in> set es" "3 * lod + 3 \<le> k" for e k
    using lod_agree [of mn "me_absolute e" mx k] assms(2) that unfolding lod by blast
  have no_lod: "\<not> int lod * 3 + 3 < 32 \<longleftrightarrow> 32 \<le> 3 * lod + 3" for lod by linarith
  consider "3 * lod + 3 \<le> 30" "morton_type_from_lod (int lod) = dew_type_m32" | "3 * lod + 3 \<le> 63" "morton_type_from_lod (int lod) = dew_type_m64"
    | "3 * lod + 3 \<le> 126" "morton_type_from_lod (int lod) = dew_type_m128" | "morton_type_from_lod (int lod) = dew_type_m192"
  proof -
    have "3 * lod + 3 < 32 \<Longrightarrow> 3 * lod + 3 \<le> 30" "3 * lod + 3 < 64 \<Longrightarrow> 3 * lod + 3 \<le> 63" "3 * lod + 3 < 128 \<Longrightarrow> 3 * lod + 3 \<le> 126"
      by presburger+
    moreover have "int lod * 3 + 3 < 32 \<longleftrightarrow> 3 * lod + 3 < 32" "int lod * 3 + 3 < 64 \<longleftrightarrow> 3 * lod + 3 < 64" "int lod * 3 + 3 < 128 \<longleftrightarrow> 3 * lod + 3 < 128"
      by linarith+
    ultimately show ?thesis using that unfolding morton_type_from_lod_def Let_def by metis
  qed
  then show ?thesis
  proof cases
    case 1
    have "map (to_world mn) (codes_at [0 :: u32] (length es) (make_destination_morton [0 :: u32] es)) = map me_absolute es"
      by (rule m32.destination_decodes) (use agree 1(1) in \<open>simp add: kept_bits_def\<close>)
    then show ?thesis using h s by (simp add: 1(2) world_codes_def subset_codes_def destination_buffer_def)
  next
    case 2
    have "map (to_world mn) (codes_at [0 :: u64] (length es) (make_destination_morton [0 :: u64] es)) = map me_absolute es"
      by (rule m64.destination_decodes) (use agree 2(1) in \<open>simp add: kept_bits_def\<close>)
    then show ?thesis using h s by (simp add: 2(2) world_codes_def subset_codes_def destination_buffer_def type_codes)
  next
    case 3
    have "map (to_world mn) (codes_at [0, 0 :: u64] (length es) (make_destination_morton [0, 0 :: u64] es)) = map me_absolute es"
      by (rule m128.destination_decodes) (use agree 3(1) in \<open>simp add: kept_bits_def\<close>)
    then show ?thesis using h s by (simp add: 3(2) world_codes_def subset_codes_def destination_buffer_def type_codes)
  next
    case 4
    have "\<not> morton_bit (m192_words v) k" if "192 \<le> k" for v k
    proof -
      have "length (m192_words v) = 3" by (cases v) simp
      then show ?thesis using that by (simp add: morton_bit_def)
    qed
    then have "map (to_world mn) (codes_at [0, 0, 0 :: u64] (length es) (make_destination_morton [0, 0, 0 :: u64] es)) = map me_absolute es"
      by (intro m192.destination_decodes) (simp add: kept_bits_def)
    then show ?thesis using h s by (simp add: 4 world_codes_def subset_codes_def destination_buffer_def type_codes)
  qed
qed

lemma ascending_ends:
  assumes "sorted xs" and "x \<in> set xs"
  shows "hd xs \<le> x \<and> x \<le> last xs"
  using assms by (induction xs) auto

text \<open>C35: Merging the subsets of a leaf neither loses nor changes a point: the written unit, read back with
  the type and the minimum in its header, holds exactly the codes of the subsets in ascending order, each
  still paired with the unit and index it came from, and points of equal code keep the order of the
  subsets; the header has their number and their smallest and largest code.\<close>

theorem collapse_merge_exact:
  assumes "merge_worker rd sources new_id ss = Some u" and "source_points rd sources ss \<noteq> []" and "length (source_points rd sources ss) < 2 ^ 32"
  shows "zip (world_codes (mu_header u) (mu_points u) \<lparr>ps_input = new_id, ps_offset = 0, ps_count = sh_count (mu_header u)\<rparr> (sh_min (mu_header u)))
      (mu_indecies u) = sort_key fst (source_points rd sources ss) \<and>
    unat (sh_count (mu_header u)) = length (source_points rd sources ss) \<and> length (mu_indecies u) = length (source_points rd sources ss) \<and>
    sh_min (mu_header u) = Min (fst ` set (source_points rd sources ss)) \<and> sh_max (mu_header u) = Max (fst ` set (source_points rd sources ss))"
proof -
  obtain es where es: "gather_entries rd sources 0 ss = Some es" using assms(1) by (auto simp: merge_worker_def split: option.splits)
  let ?es = "merge_entries es" and ?p = "source_points rd sources ss"
  have pts: "map (entry_point ss) es = ?p" using gather_points [of rd sources "[]" ss es] es by simp
  have sorted: "map (entry_point ss) ?es = sort_key fst ?p"
    using map_sort_key [of "entry_point ss" fst es] by (simp add: merge_entries_def entry_point_def pts [symmetric])
  have len: "length ?es = length ?p" using arg_cong [OF pts, of length] by (simp add: merge_entries_def)
  have ne: "?es \<noteq> []" using assms(2) len by auto
  have codes: "map me_absolute ?es = sort (map fst ?p)"
    using map_sort_key [of me_absolute "\<lambda>x. x" es] by (simp add: merge_entries_def pts [symmetric] comp_def entry_point_def)
  have asc: "sorted (map me_absolute ?es)" unfolding codes by simp
  let ?mn = "me_absolute (hd ?es)" and ?mx = "me_absolute (last ?es)"
  have bounds: "?mn \<le> me_absolute e \<and> me_absolute e \<le> ?mx" if "e \<in> set ?es" for e
    using ascending_ends [OF asc] ne that by (simp add: hd_map last_map)
  have set: "fst ` set ?p = me_absolute ` set ?es" using arg_cong [OF codes, of set] by simp
  have mn: "?mn = Min (fst ` set ?p)" and mx: "?mx = Max (fst ` set ?p)"
    unfolding set using ne bounds by (auto intro!: Min_eqI [symmetric] Max_eqI [symmetric])
  have u: "mu_header u = \<lparr>sh_input = new_id, sh_count = word_of_nat (length ?es),
        sh_type = dew_type_code (morton_type_from_lod (int (morton_lod (m192_words ?mn) (m192_words ?mx)))), sh_components = 1, sh_pad = 0,
        sh_min = ?mn, sh_max = ?mx, sh_lod_span = word_of_nat (morton_lod (m192_words ?mn) (m192_words ?mx)), sh_pad_end = 0\<rparr>"
      "mu_points u = destination_buffer (morton_type_from_lod (int (morton_lod (m192_words ?mn) (m192_words ?mx)))) ?es"
      "mu_indecies u = map (\<lambda>e. (ps_input (ss ! me_subset_index e), me_source_index e)) ?es"
    using assms(1) by (auto simp: merge_worker_def es Let_def)
  have count: "unat (sh_count (mu_header u)) = length ?es" using assms(3) len by (simp add: u(1) unat_of_nat)
  have "world_codes (mu_header u) (mu_points u) \<lparr>ps_input = new_id, ps_offset = 0, ps_count = sh_count (mu_header u)\<rparr> ?mn = map me_absolute ?es"
    unfolding u(2) by (rule destination_exact [OF refl bounds]) (use count in \<open>simp_all add: u(1)\<close>)
  then have "zip (world_codes (mu_header u) (mu_points u) \<lparr>ps_input = new_id, ps_offset = 0, ps_count = sh_count (mu_header u)\<rparr> (sh_min (mu_header u))) (mu_indecies u) =
      map (entry_point ss) ?es"
    by (simp add: u(1,3) zip_map_map entry_point_def zip_same_conv_map)
  then show ?thesis using sorted count len mn mx u by simp
qed

section \<open>An example\<close>

definition example_reads :: stored_blobs where
  "example_reads l = Inr (enc_header example_run_header @ example_run)"

definition example_sources :: unit_sources where
  "example_sources i = Some (0, [example_location])"

definition split_subsets :: "points_subset list" where
  "split_subsets = [example_subset, example_subset\<lparr>ps_offset := 0, ps_count := 1\<rparr>]"

theorem collapse_merge_exact_witness:
  "\<exists>u. merge_worker example_reads example_sources example_unit split_subsets = Some u \<and> unat (sh_count (mu_header u)) = 4"
proof -
  have r: "read_points example_reads l = Inr (example_run_header, example_run)" for l
    by (simp add: read_points_def example_reads_def deserialize_points_def headc.enc_length headc.dec_enc)
  have "gather_entries example_reads example_sources 0 split_subsets \<noteq> None"
    by (simp add: split_subsets_def subset_entries_def r example_sources_def example_run_header_def type_codes)
  then obtain u where u: "merge_worker example_reads example_sources example_unit split_subsets = Some u"
    by (auto simp: merge_worker_def Let_def)
  have "length (source_points example_reads example_sources split_subsets) = 4"
    by (simp add: source_points_def split_subsets_def unit_points_def r example_sources_def world_codes_def subset_codes_def example_subset_def
        example_run_header_def type_codes)
  moreover from this have "source_points example_reads example_sources split_subsets \<noteq> []" by auto
  ultimately show ?thesis using collapse_merge_exact [OF u] u by auto
qed

end
