(* ===== verification/TreeCollapse.thy ===== *)
theory TreeCollapse
  imports CollapseMerge
begin

text \<open>
  \<open>src/src/converter/tree_collapse.cpp\<close>, the pass: which leaves of which trees are collapsed, and what is
  done with the results of the workers. A pass visits the loaded trees that no input can reach any more and
  makes a job for every leaf that does not have its own unit yet; a job that succeeded replaces the
  references of its leaf to chunks by the unit that was written. Diagnostic output and statistics are left
  out. The order of jobs, which only serves the locality of reads, is the argument \<open>arrange\<close>.
\<close>

section \<open>Jobs\<close>

record collapse_job =
  cj_tree_id :: u32
  cj_level :: nat
  cj_node_index :: nat
  cj_new_id :: input_data_id
  cj_collection :: points_collection
  cj_sources :: unit_sources
  cj_attributes_id :: attributes_id
  cj_locations :: "storage_location list"
  cj_min :: m192
  cj_max :: m192
  cj_failed :: bool
  cj_applied :: bool

record forest =
  fo_registry :: tree_registry
  fo_trees :: "tree_t option list"

definition next_collapsed_id :: "tree_registry \<Rightarrow> input_data_id \<times> tree_registry" where
  "next_collapsed_id r =
     (dec_id (word_bytes (tr_current_collapsed_node_id r)), r\<lparr>tr_current_collapsed_node_id := tr_current_collapsed_node_id r + 1\<rparr>)"

definition collect_sources :: "tree_t \<Rightarrow> points_subset list \<Rightarrow> unit_sources" where
  "collect_sources t subsets =
     fold (\<lambda>s sources. if sources (ps_input s) \<noteq> None then sources
       else sources (ps_input s := info (ps_input s) (t_storage_map t))) subsets Map.empty"

definition new_job :: "tree_t \<Rightarrow> nat \<Rightarrow> nat \<Rightarrow> input_data_id \<Rightarrow> collapse_job" where
  "new_job t level skip new_id =
     \<lparr>cj_tree_id = t_id t, cj_level = level, cj_node_index = skip, cj_new_id = new_id, cj_collection = data_at t level skip,
      cj_sources = collect_sources t (pc_data (data_at t level skip)), cj_attributes_id = 0, cj_locations = [],
      cj_min = M192 0 0 0, cj_max = M192 0 0 0, cj_failed = False, cj_applied = False\<rparr>"

definition leaf_to_collapse :: "(input_data_id \<rightharpoonup> chunk_ref) \<Rightarrow> tree_t \<Rightarrow> nat \<times> nat \<Rightarrow> bool" where
  "leaf_to_collapse refs t place =
     (let (level, skip) = place; collection = data_at t level skip
      in \<not> (node_at t level skip \<noteq> 0 \<or> pc_count collection = 0) \<and> \<not> leaf_collapsed refs collection)"

text \<open>The nodes of a tree in the order of the two loops.\<close>

definition node_places :: "tree_t \<Rightarrow> (nat \<times> nat) list" where
  "node_places t = concat (map (\<lambda>level. map (Pair level) [0..<length (lv_nodes (t_levels t ! level))]) [0..<5])"

fun tree_jobs :: "tree_t \<Rightarrow> (nat \<times> nat) list \<Rightarrow> tree_registry \<Rightarrow> collapse_job list \<times> tree_registry" where
  "tree_jobs t [] r = ([], r)"
| "tree_jobs t (place # places) r =
     (if leaf_to_collapse (tr_chunk_refs r) t place
      then (let (new_id, r) = next_collapsed_id r; (jobs, r) = tree_jobs t places r
            in (new_job t (fst place) (snd place) new_id # jobs, r))
      else tree_jobs t places r)"

definition tree_in_pass :: "m192 \<Rightarrow> tree_registry \<Rightarrow> tree_t \<Rightarrow> bool" where
  "tree_in_pass target r t \<longleftrightarrow>
     tr_state r ! unat (t_id t) = tree_state_building \<and> \<not> t_leaves_collapsed t \<and>
     (\<not> m192_lt target (M192 (- 1) (- 1) (- 1)) \<or> m192_lt (t_max t) target)"

fun pass_jobs :: "m192 \<Rightarrow> tree_t option list \<Rightarrow> tree_registry \<Rightarrow> collapse_job list \<times> tree_t option list \<times> tree_registry" where
  "pass_jobs target [] r = ([], [], r)"
| "pass_jobs target (None # ts) r = (let (jobs, ts, r) = pass_jobs target ts r in (jobs, None # ts, r))"
| "pass_jobs target (Some t # ts) r =
     (if \<not> tree_in_pass target r t then (let (jobs, ts, r) = pass_jobs target ts r in (jobs, Some t # ts, r))
      else (let (own, r) = tree_jobs t (node_places t) r; (jobs, ts, r) = pass_jobs target ts r
            in (own @ jobs, Some (if own = [] then t\<lparr>t_leaves_collapsed := True\<rparr> else t) # ts, r)))"

definition collapse_for_pass :: "(collapse_job list \<Rightarrow> collapse_job list) \<Rightarrow> m192 \<Rightarrow> forest \<Rightarrow> collapse_job list \<times> forest" where
  "collapse_for_pass arrange target f =
     (let (jobs, ts, r) = pass_jobs target (fo_trees f) (fo_registry f)
      in (arrange jobs, f\<lparr>fo_registry := r, fo_trees := ts\<rparr>))"

section \<open>The workers\<close>

text \<open>A worker merges and writes; \<open>store\<close> is the write: the attribute set and the locations of the blobs, or an error.\<close>

type_synonym unit_store = "merged_unit \<Rightarrow> (attributes_id \<times> storage_location list) option"

definition run_job :: "stored_blobs \<Rightarrow> unit_store \<Rightarrow> collapse_job \<Rightarrow> collapse_job" where
  "run_job rd store j =
     (case merge_worker rd (cj_sources j) (cj_new_id j) (pc_data (cj_collection j)) of
        None \<Rightarrow> j\<lparr>cj_failed := True\<rparr>
      | Some u \<Rightarrow>
          (let j = j\<lparr>cj_min := sh_min (mu_header u), cj_max := sh_max (mu_header u)\<rparr>
           in case store u of
                None \<Rightarrow> j\<lparr>cj_failed := True\<rparr>
              | Some (a, ls) \<Rightarrow> j\<lparr>cj_attributes_id := a, cj_locations := ls\<rparr>))"

section \<open>Applying the results\<close>

type_synonym release_state = "input_storage_map \<times> (input_data_id \<rightharpoonup> chunk_ref)"

text \<open>
  One subset's reference is given up. When the tree drops a chunk, the chunk loses a tree; when it has lost
  the last one, its blobs are handed to the list that is freed after the next checkpoint.
\<close>

definition release_subset :: "points_subset \<Rightarrow> release_state \<Rightarrow> release_state" where
  "release_subset s st =
     (let (m, refs) = st; i = ps_input s
      in if \<not> contains i m then st
         else (let ((_, locations), m') = dereference i m; erased = (\<not> contains i m')
               in if \<not> erased \<or> \<not> input_data_id_is_leaf i \<or> input_data_id_is_collapsed_leaf i then (m', refs)
                  else (case refs i of
                          None \<Rightarrow> (m', refs)
                        | Some r \<Rightarrow>
                            if cr_tree_count r - 1 = 0 then (restore_discarded locations m', refs(i := None))
                            else (m', refs(i \<mapsto> r\<lparr>cr_tree_count := cr_tree_count r - 1\<rparr>)))))"

definition own_unit :: "collapse_job \<Rightarrow> points_collection \<Rightarrow> points_collection" where
  "own_unit j c =
     c\<lparr>pc_data := [\<lparr>ps_input = cj_new_id j, ps_offset = 0, ps_count = ucast (pc_count (cj_collection j))\<rparr>],
       pc_min := cj_min j, pc_max := cj_max j, pc_min_lod := m192_lod (cj_min j) (cj_max j)\<rparr>"

definition apply_to_tree :: "collapse_job \<Rightarrow> tree_t \<Rightarrow> (input_data_id \<rightharpoonup> chunk_ref) \<Rightarrow> tree_t \<times> (input_data_id \<rightharpoonup> chunk_ref)" where
  "apply_to_tree j t refs =
     (let collection = data_at t (cj_level j) (cj_node_index j);
          (m, refs) = fold release_subset (pc_data collection) (t_storage_map t, refs);
          m = add_storage (cj_new_id j) (cj_attributes_id j) (cj_locations j) m
      in (set_data (cj_level j) (cj_node_index j) (own_unit j collection) (t\<lparr>t_is_dirty := True, t_storage_map := m\<rparr>), refs))"

definition apply_job :: "collapse_job \<Rightarrow> forest \<Rightarrow> collapse_job \<times> forest" where
  "apply_job j f =
     (if cj_failed j \<or> cj_locations j = [] then (j, f)
      else (case fo_trees f ! unat (cj_tree_id j) of
              None \<Rightarrow> (j, f)
            | Some t \<Rightarrow>
                (let (t, refs) = apply_to_tree j t (tr_chunk_refs (fo_registry f))
                 in (j\<lparr>cj_applied := True\<rparr>,
                     f\<lparr>fo_trees := (fo_trees f)[unat (cj_tree_id j) := Some t],
                       fo_registry := (fo_registry f)\<lparr>tr_chunk_refs := refs\<rparr>\<rparr>))))"

fun apply_jobs :: "collapse_job list \<Rightarrow> forest \<Rightarrow> collapse_job list \<times> forest" where
  "apply_jobs [] f = ([], f)"
| "apply_jobs (j # js) f = (let (j, f) = apply_job j f; (js, f) = apply_jobs js f in (j # js, f))"

definition all_applied :: "collapse_job list \<Rightarrow> u32 \<Rightarrow> bool" where
  "all_applied js i \<longleftrightarrow> list_all (\<lambda>j. cj_tree_id j = i \<longrightarrow> cj_applied j) js"

text \<open>The trees of the jobs, in the order their first job has.\<close>

definition touched_trees :: "collapse_job list \<Rightarrow> u32 list" where
  "touched_trees js = remdups (map cj_tree_id js)"

definition flag_collapsed :: "collapse_job list \<Rightarrow> u32 \<Rightarrow> tree_t option list \<Rightarrow> tree_t option list" where
  "flag_collapsed js i ts =
     (if all_applied js i then ts[unat i := map_option (\<lambda>t. t\<lparr>t_leaves_collapsed := True\<rparr>) (ts ! unat i)] else ts)"

definition apply_results :: "collapse_job list \<Rightarrow> forest \<Rightarrow> collapse_job list \<times> forest" where
  "apply_results jobs f =
     (let (jobs, f) = apply_jobs jobs f
      in (jobs, f\<lparr>fo_trees := fold (flag_collapsed jobs) (touched_trees jobs) (fo_trees f)\<rparr>))"

text \<open>Each worker that is done wakes the runner; the last one finds all of them done. None: nothing to do yet.\<close>

definition handle_worker_done :: "nat \<Rightarrow> collapse_job list \<Rightarrow> forest \<Rightarrow> (collapse_job list \<times> forest) option" where
  "handle_worker_done completed jobs f = (if jobs = [] then None else if completed < length jobs then None else Some (apply_results jobs f))"

end
