(* ===== verification/CollapsePass.thy ===== *)
theory CollapsePass
  imports TreeCollapse
begin

text \<open>
  What a collapse pass does to the forest: its jobs are exactly the leaves without a unit of their own in
  the trees that are final, numbered in sequence; applying the results changes nothing but these leaves,
  keeps the number of points of each, and flags a tree only when all its leaves are done.
\<close>

section \<open>The jobs of a pass\<close>

definition unit_no :: "u64 \<Rightarrow> input_data_id" where
  "unit_no w = dec_id (word_bytes w)"

fun number_jobs :: "u64 \<Rightarrow> (tree_t \<times> nat \<times> nat) list \<Rightarrow> collapse_job list" where
  "number_jobs w [] = []"
| "number_jobs w ((t, level, skip) # xs) = new_job t level skip (unit_no w) # number_jobs (w + 1) xs"

lemma number_jobs_append: "number_jobs w (xs @ ys) = number_jobs w xs @ number_jobs (w + word_of_nat (length xs)) ys"
  by (induction w xs rule: number_jobs.induct) (simp_all add: add.assoc)

lemma length_number_jobs [simp]: "length (number_jobs w xs) = length xs"
  by (induction w xs rule: number_jobs.induct) simp_all

definition open_leaves :: "tree_registry \<Rightarrow> tree_t \<Rightarrow> (nat \<times> nat) list" where
  "open_leaves r t = filter (leaf_to_collapse (tr_chunk_refs r) t) (node_places t)"

definition pass_leaves :: "m192 \<Rightarrow> tree_registry \<Rightarrow> tree_t option list \<Rightarrow> (tree_t \<times> nat \<times> nat) list" where
  "pass_leaves target r ts =
     concat (map (\<lambda>t. case t of None \<Rightarrow> [] | Some t \<Rightarrow> if tree_in_pass target r t then map (Pair t) (open_leaves r t) else []) ts)"

definition count_ids :: "nat \<Rightarrow> tree_registry \<Rightarrow> tree_registry" where
  "count_ids n r = r\<lparr>tr_current_collapsed_node_id := tr_current_collapsed_node_id r + word_of_nat n\<rparr>"

lemma count_ids_simps [simp]:
  "tr_chunk_refs (count_ids n r) = tr_chunk_refs r" "tr_state (count_ids n r) = tr_state r"
  "tr_current_collapsed_node_id (count_ids n r) = tr_current_collapsed_node_id r + word_of_nat n"
  "count_ids 0 r = r" "count_ids m (count_ids n r) = count_ids (n + m) r"
  by (simp_all add: count_ids_def add.assoc)

lemma open_leaves_count [simp]: "open_leaves (count_ids n r) t = open_leaves r t"
  by (simp add: open_leaves_def)

lemma tree_in_pass_count [simp]: "tree_in_pass target (count_ids n r) t = tree_in_pass target r t"
  by (simp add: tree_in_pass_def)

lemma pass_leaves_count [simp]: "pass_leaves target (count_ids n r) ts = pass_leaves target r ts"
  unfolding pass_leaves_def by (intro arg_cong [of _ _ concat] map_cong refl) (simp split: option.splits)

lemma next_id: "next_collapsed_id r = (unit_no (tr_current_collapsed_node_id r), count_ids (Suc 0) r)"
  by (simp add: next_collapsed_id_def unit_no_def count_ids_def)

lemma tree_jobs_eq:
  "tree_jobs t places r =
    (number_jobs (tr_current_collapsed_node_id r) (map (Pair t) (filter (leaf_to_collapse (tr_chunk_refs r) t) places)),
     count_ids (length (filter (leaf_to_collapse (tr_chunk_refs r) t) places)) r)"
proof (induction places arbitrary: r)
  case (Cons place places)
  then show ?case by (cases place) (simp add: next_id)
qed simp

definition flag_done :: "m192 \<Rightarrow> tree_registry \<Rightarrow> tree_t \<Rightarrow> tree_t" where
  "flag_done target r t = (if tree_in_pass target r t \<and> open_leaves r t = [] then t\<lparr>t_leaves_collapsed := True\<rparr> else t)"

lemma flag_done_count [simp]: "flag_done target (count_ids n r) = flag_done target r"
  by (rule ext) (simp add: flag_done_def)

lemma pass_jobs_eq:
  "pass_jobs target ts r =
    (number_jobs (tr_current_collapsed_node_id r) (pass_leaves target r ts), map (map_option (flag_done target r)) ts,
     count_ids (length (pass_leaves target r ts)) r)"
proof (induction target ts r rule: pass_jobs.induct)
  case (1 target r)
  then show ?case by (simp add: pass_leaves_def)
next
  case (2 target ts r)
  then show ?case by (simp add: pass_leaves_def)
next
  case (3 target t ts r)
  show ?case
  proof (cases "tree_in_pass target r t")
    case True
    have own: "tree_jobs t (node_places t) r =
        (number_jobs (tr_current_collapsed_node_id r) (map (Pair t) (open_leaves r t)), count_ids (length (open_leaves r t)) r)"
      by (simp add: tree_jobs_eq open_leaves_def)
    have split: "pass_leaves target r (Some t # ts) = map (Pair t) (open_leaves r t) @ pass_leaves target r ts"
      using True by (simp add: pass_leaves_def)
    have empty: "number_jobs w xs = [] \<longleftrightarrow> xs = []" for w xs by (metis length_0_conv length_number_jobs)
    show ?thesis
      using "3.IH"(2) [OF _ own [symmetric] refl] True
      by (simp add: own split number_jobs_append empty flag_done_def)
  next
    case False
    then show ?thesis using "3.IH"(1) by (simp add: pass_leaves_def flag_done_def)
  qed
qed

lemma collapse_for_pass_eq:
  "collapse_for_pass arrange target f =
    (arrange (number_jobs (tr_current_collapsed_node_id (fo_registry f)) (pass_leaves target (fo_registry f) (fo_trees f))),
     f\<lparr>fo_registry := count_ids (length (pass_leaves target (fo_registry f) (fo_trees f))) (fo_registry f),
       fo_trees := map (map_option (flag_done target (fo_registry f))) (fo_trees f)\<rparr>)"
  by (simp add: collapse_for_pass_def pass_jobs_eq)

section \<open>Applying the results\<close>

definition job_place :: "collapse_job \<Rightarrow> nat \<times> nat \<times> nat" where
  "job_place j = (unat (cj_tree_id j), cj_level j, cj_node_index j)"

definition leaf_after :: "collapse_job list \<Rightarrow> nat \<times> nat \<times> nat \<Rightarrow> points_collection \<Rightarrow> points_collection" where
  "leaf_after js p c = (case find (\<lambda>j. cj_applied j \<and> job_place j = p) js of None \<Rightarrow> c | Some j \<Rightarrow> own_unit j c)"

definition places_ok :: "tree_t \<Rightarrow> bool" where
  "places_ok t \<longleftrightarrow> length (t_levels t) = 5 \<and> (\<forall>l < 5. length (lv_data (t_levels t ! l)) = length (lv_nodes (t_levels t ! l)))"

definition leaf_updates :: "collapse_job list \<Rightarrow> nat \<Rightarrow> tree_t \<Rightarrow> tree_t \<Rightarrow> bool" where
  "leaf_updates js i t t' \<longleftrightarrow>
     places_ok t' \<and> t_leaves_collapsed t' = t_leaves_collapsed t \<and>
     (\<forall>l < 5. lv_nodes (t_levels t' ! l) = lv_nodes (t_levels t ! l)) \<and>
     (\<forall>l < 5. \<forall>s < length (lv_nodes (t_levels t ! l)). data_at t' l s = leaf_after js (i, l, s) (data_at t l s))"

lemma leaf_after_Nil [simp]: "leaf_after [] p c = c"
  by (simp add: leaf_after_def)

lemma leaf_after_Cons:
  "leaf_after (j # js) p c = (if cj_applied j \<and> job_place j = p then own_unit j c else leaf_after js p c)"
  by (simp add: leaf_after_def)

lemma leaf_after_other: "p \<notin> set (map job_place js) \<Longrightarrow> leaf_after js p c = c"
  by (induction js) (auto simp: leaf_after_Cons)

lemma no_updates: "places_ok t \<Longrightarrow> \<forall>l < 5. \<forall>s < length (lv_nodes (t_levels t ! l)). leaf_after js (i, l, s) (data_at t l s) = data_at t l s \<Longrightarrow> leaf_updates js i t t"
  by (simp add: leaf_updates_def)

lemma updates_trans:
  assumes "leaf_updates [j] i t t1" and "leaf_updates js i t1 t2" and "job_place j \<notin> set (map job_place js)"
  shows "leaf_updates (j # js) i t t2"
proof -
  have "data_at t2 l s = leaf_after (j # js) (i, l, s) (data_at t l s)" if "l < 5" "s < length (lv_nodes (t_levels t ! l))" for l s
  proof -
    have a: "data_at t1 l s = leaf_after [j] (i, l, s) (data_at t l s)" using assms(1) that by (simp add: leaf_updates_def)
    have b: "data_at t2 l s = leaf_after js (i, l, s) (data_at t1 l s)" using assms(1,2) that by (simp add: leaf_updates_def)
    show ?thesis
    proof (cases "cj_applied j \<and> job_place j = (i, l, s)")
      case True
      then show ?thesis using a b assms(3) leaf_after_other [of "(i, l, s)" js] by (simp add: leaf_after_Cons)
    next
      case False
      have "data_at t1 l s = data_at t l s" using a False by (simp only: leaf_after_Cons leaf_after_Nil if_False)
      then show ?thesis using b False by (simp only: leaf_after_Cons if_False)
    qed
  qed
  then show ?thesis using assms(1,2) by (simp add: leaf_updates_def)
qed

lemma apply_to_tree_updates:
  assumes "places_ok t" and "apply_to_tree j t refs = (t', refs')" and "cj_applied j'" "own_unit j' = own_unit j" "job_place j' = job_place j"
  shows "leaf_updates [j'] (unat (cj_tree_id j)) t t'"
proof -
  obtain m where t': "t' = set_data (cj_level j) (cj_node_index j) (own_unit j (data_at t (cj_level j) (cj_node_index j))) (t\<lparr>t_is_dirty := True, t_storage_map := m\<rparr>)"
    using assms(2) by (auto simp: apply_to_tree_def Let_def split: prod.splits)
  let ?own = "\<lambda>l. lv_data (t_levels t ! l)"
  have lv: "t_levels t' ! l = (if l = cj_level j then (t_levels t ! l)\<lparr>lv_data := (?own l)[cj_node_index j := own_unit j (?own l ! cj_node_index j)]\<rparr> else t_levels t ! l)"
    if "l < 5" for l
    using assms(1) that by (simp add: t' set_data_def upd_level_def data_at_def places_ok_def nth_list_update)
  have "data_at t' l s = (if job_place j = (unat (cj_tree_id j), l, s) then own_unit j (data_at t l s) else data_at t l s)"
    if "l < 5" "s < length (lv_nodes (t_levels t ! l))" for l s
    using assms(1) that by (auto simp: data_at_def lv job_place_def places_ok_def)
  moreover have "length (t_levels t') = 5 \<and> t_leaves_collapsed t' = t_leaves_collapsed t"
    using assms(1) by (simp add: t' set_data_def upd_level_def places_ok_def)
  ultimately show ?thesis using assms(1) by (simp add: leaf_updates_def places_ok_def lv leaf_after_Cons assms(3-5))
qed

lemma apply_job_updates:
  assumes "apply_job j f = (j', f')" and "\<not> cj_applied j" and "i < length (fo_trees f)" and "fo_trees f ! i = Some t" and "places_ok t"
  shows "job_place j' = job_place j \<and> length (fo_trees f') = length (fo_trees f) \<and> (\<exists>t'. fo_trees f' ! i = Some t' \<and> leaf_updates [j'] i t t')"
proof -
  have unapplied: "leaf_updates [j] i t t" using assms(2,5) by (intro no_updates) (simp_all add: leaf_after_Cons)
  show ?thesis
  proof (cases "cj_failed j \<or> cj_locations j = [] \<or> fo_trees f ! unat (cj_tree_id j) = None")
    case True
    then have "apply_job j f = (j, f)" by (auto simp: apply_job_def)
    then have "j' = j \<and> f' = f" using assms(1) by simp
    then show ?thesis using unapplied assms(4) by simp
  next
    case False
    then obtain s where s: "fo_trees f ! unat (cj_tree_id j) = Some s" by auto
    obtain s' refs' where a: "apply_to_tree j s (tr_chunk_refs (fo_registry f)) = (s', refs')" by (cases "apply_to_tree j s (tr_chunk_refs (fo_registry f))")
    have j': "j' = j\<lparr>cj_applied := True\<rparr>" and f': "fo_trees f' = (fo_trees f)[unat (cj_tree_id j) := Some s']"
      using assms(1) False by (auto simp: apply_job_def s a)
    have place: "job_place j' = job_place j" and own: "own_unit j' = own_unit j" by (simp_all add: j' job_place_def own_unit_def fun_eq_iff)
    show ?thesis
    proof (cases "i = unat (cj_tree_id j)")
      case True
      then have "leaf_updates [j'] i t s'" using apply_to_tree_updates [OF _ a, of j'] assms(4,5) s place own by (simp add: j')
      then show ?thesis using True assms(3) place by (simp add: f')
    next
      case False
      then have "leaf_updates [j'] i t t" using assms(5) by (intro no_updates) (simp_all add: leaf_after_Cons j' job_place_def)
      then show ?thesis using False assms(4) place by (simp add: f')
    qed
  qed
qed

lemma apply_jobs_updates:
  assumes "apply_jobs js f = (js', f')" and "\<forall>j \<in> set js. \<not> cj_applied j" and "distinct (map job_place js)"
    and "i < length (fo_trees f)" and "fo_trees f ! i = Some t" and "places_ok t"
  shows "map job_place js' = map job_place js \<and> length (fo_trees f') = length (fo_trees f) \<and> (\<exists>t'. fo_trees f' ! i = Some t' \<and> leaf_updates js' i t t')"
  using assms
proof (induction js arbitrary: f t js' f')
  case Nil
  then show ?case using no_updates [of t "[]" i] by simp
next
  case (Cons j js)
  obtain j1 f1 where s: "apply_job j f = (j1, f1)" by (cases "apply_job j f")
  obtain js2 f2 where r: "apply_jobs js f1 = (js2, f2)" by (cases "apply_jobs js f1")
  have out: "js' = j1 # js2" "f' = f2" using Cons.prems(1) by (simp_all add: s r)
  obtain t1 where t1: "job_place j1 = job_place j" "length (fo_trees f1) = length (fo_trees f)" "fo_trees f1 ! i = Some t1" "leaf_updates [j1] i t t1"
    using apply_job_updates [OF s _ Cons.prems(4-6)] Cons.prems(2) by auto
  have "places_ok t1" using t1(4) by (simp add: leaf_updates_def)
  then obtain t2 where t2: "map job_place js2 = map job_place js" "length (fo_trees f2) = length (fo_trees f1)" "fo_trees f2 ! i = Some t2" "leaf_updates js2 i t1 t2"
    using Cons.IH [OF r _ _ _ t1(3)] Cons.prems(2-4) t1(2) by auto
  have "job_place j1 \<notin> set (map job_place js2)" using Cons.prems(3) unfolding t2(1) t1(1) by simp
  then show ?case using updates_trans [OF t1(4) t2(4)] t1 t2 by (simp add: out)
qed

lemma flagged:
  "i < length ts \<Longrightarrow> fold (flag_collapsed js) ids ts ! i =
    (if \<exists>x \<in> set ids. unat x = i \<and> all_applied js x then map_option (\<lambda>t. t\<lparr>t_leaves_collapsed := True\<rparr>) (ts ! i) else ts ! i)"
proof (induction ids arbitrary: ts)
  case (Cons x ids)
  have "i < length (flag_collapsed js x ts)" using Cons.prems by (simp add: flag_collapsed_def)
  note IH = Cons.IH [OF this]
  have one: "flag_collapsed js x ts ! i = (if unat x = i \<and> all_applied js x then map_option (\<lambda>t. t\<lparr>t_leaves_collapsed := True\<rparr>) (ts ! i) else ts ! i)"
    using Cons.prems by (auto simp: flag_collapsed_def nth_list_update)
  show ?case by (auto simp: IH one option.map_comp comp_def)
qed simp

end
