(* ===== verification/CollapseSafe.thy ===== *)
theory CollapseSafe
  imports CollapsePass
begin

text \<open>
  A whole collapse pass: jobs, workers, results. What the pass may do to a tree is stated once, over the
  forest before the pass and the forest after it.
\<close>

section \<open>The units of the jobs\<close>

lemma drop_le_bytes: "drop k (le_bytes (k + n) v) = le_bytes n (v div 256 ^ k)"
  by (induction k arbitrary: v) (simp_all add: div_mult2_eq)

lemma unit_no_sub: "id_sub (unit_no w) = word_of_nat (unat w div 2 ^ 32)"
proof -
  have "drop 4 (word_bytes w) = le_bytes 4 (unat w div 256 ^ 4)"
    using drop_le_bytes [of 4 4 "unat w"] by (simp add: word_bytes_def)
  then have "id_sub (unit_no w) = word_of_nat (le_nat (le_bytes 4 (unat w div 256 ^ 4)))"
    by (simp add: unit_no_def dec_id_def bytes_word_def)
  also have "le_nat (le_bytes 4 (unat w div 256 ^ 4)) = unat w div 2 ^ 32"
  proof -
    have "unat w < 2 ^ 64" using unsigned_less [of w] by simp
    then have "unat w div 2 ^ 32 < 2 ^ 32" by (simp add: less_mult_imp_div_less)
    then show ?thesis by (simp add: le_nat_le_bytes)
  qed
  finally show ?thesis .
qed

lemma unit_no_collapsed:
  assumes "2 ^ 62 \<le> unat w" and "unat w < 2 ^ 63"
  shows "input_data_id_is_collapsed_leaf (unit_no w)"
proof -
  let ?n = "unat w div 2 ^ 32"
  have n: "2 ^ 30 \<le> ?n" "?n < 2 ^ 31" using assms by (simp_all add: less_mult_imp_div_less)
  have "drop_bit 30 ?n = 1" using n by (simp add: drop_bit_eq_div)
  moreover have "bit ?n (30 + k) \<longleftrightarrow> bit (drop_bit 30 ?n) k" for k by (simp only: bit_drop_bit_eq o_apply)
  ultimately have hi: "bit ?n (30 + k) \<longleftrightarrow> k = 0" for k by (simp only: bit_1_iff simp_thms)
  have mask: "bit (0xC0000000 :: u32) k \<longleftrightarrow> k = 30 \<or> k = 31" "bit (0x40000000 :: u32) k \<longleftrightarrow> k = 30" if "k < 32" for k
    using that by (auto simp: less_Suc_eq eval_nat_numeral)
  have "(word_of_nat ?n :: u32) AND 0xC0000000 = 0x40000000"
  proof (rule bit_word_eqI)
    fix k assume "k < LENGTH(32)"
    then have k: "k < 32" by simp
    have "bit ((word_of_nat ?n :: u32) AND 0xC0000000) k \<longleftrightarrow> bit (word_of_nat ?n :: u32) k \<and> (k = 30 \<or> k = 31)"
      using k by (simp only: bit_and_iff mask)
    also have "\<dots> \<longleftrightarrow> bit ?n k \<and> (k = 30 \<or> k = 31)" using k by (simp add: bit_of_nat_iff)
    also have "\<dots> \<longleftrightarrow> k = 30" using hi [of 0] hi [of 1] by auto
    finally show "bit ((word_of_nat ?n :: u32) AND 0xC0000000) k \<longleftrightarrow> bit (0x40000000 :: u32) k" using k by (simp only: mask)
  qed
  then show ?thesis by (simp add: input_data_id_is_collapsed_leaf_def unit_no_sub)
qed

section \<open>The jobs\<close>

definition leaf_place :: "tree_t \<times> nat \<times> nat \<Rightarrow> nat \<times> nat \<times> nat" where
  "leaf_place = (\<lambda>(t, level, skip). (unat (t_id t), level, skip))"

definition trees_at :: "nat \<Rightarrow> tree_t option list \<Rightarrow> bool" where
  "trees_at n ts \<longleftrightarrow> list_all (\<lambda>(i, t). case t of None \<Rightarrow> True | Some t \<Rightarrow>
     unat (t_id t) = i \<and> places_ok t \<and> list_all (\<lambda>l. list_all (\<lambda>c. pc_count c < 2 ^ 32) (lv_data l)) (t_levels t)) (enumerate n ts)"

lemma trees_at_simps [simp]:
  "trees_at n []"
  "trees_at n (None # ts) \<longleftrightarrow> trees_at (Suc n) ts"
  "trees_at n (Some t # ts) \<longleftrightarrow> unat (t_id t) = n \<and> places_ok t \<and>
     list_all (\<lambda>l. list_all (\<lambda>c. pc_count c < 2 ^ 32) (lv_data l)) (t_levels t) \<and> trees_at (Suc n) ts"
  by (auto simp: trees_at_def)

lemma node_placesD: "(l, s) \<in> set (node_places t) \<longleftrightarrow> l < 5 \<and> s < length (lv_nodes (t_levels t ! l))"
  by (auto simp: node_places_def intro!: bexI [of _ l])

lemma distinct_pairs: "distinct ls \<Longrightarrow> distinct (concat (map (\<lambda>l. map (Pair l) [0..<f l]) ls))"
  by (induction ls) (auto simp: distinct_map inj_on_def)

lemma node_places_distinct: "distinct (node_places t)"
  unfolding node_places_def by (rule distinct_pairs) simp

lemma small_leaf:
  assumes "places_ok t" and "list_all (\<lambda>l. list_all (\<lambda>c. pc_count c < 2 ^ 32) (lv_data l)) (t_levels t)" and "(l, s) \<in> set (node_places t)"
  shows "pc_count (data_at t l s) < 2 ^ 32"
  using assms by (simp add: node_placesD places_ok_def list_all_length data_at_def)

lemma number_jobs_places: "map job_place (number_jobs w xs) = map leaf_place xs"
  by (induction w xs rule: number_jobs.induct) (simp_all add: job_place_def leaf_place_def new_job_def)

lemma number_jobs_origin:
  "j \<in> set (number_jobs w xs) \<Longrightarrow> \<exists>t l s k. (t, l, s) \<in> set xs \<and> k < length xs \<and> j = new_job t l s (unit_no (w + word_of_nat k))"
proof (induction w xs rule: number_jobs.induct)
  case (2 w t level skip xs)
  show ?case
  proof (cases "j = new_job t level skip (unit_no w)")
    case True
    then have "j = new_job t level skip (unit_no (w + word_of_nat 0))" by simp
    then show ?thesis by (intro exI [of _ t] exI [of _ level] exI [of _ skip] exI [of _ 0]) simp
  next
    case False
    then obtain t' l s k where "(t', l, s) \<in> set xs" "k < length xs" "j = new_job t' l s (unit_no (w + 1 + word_of_nat k))"
      using 2 by auto
    moreover from this have "j = new_job t' l s (unit_no (w + word_of_nat (Suc k)))" by (simp add: add.assoc)
    ultimately show ?thesis by (intro exI [of _ t'] exI [of _ l] exI [of _ s] exI [of _ "Suc k"]) simp
  qed
qed simp

lemma pass_leaves_simps [simp]:
  "pass_leaves target r [] = []"
  "pass_leaves target r (None # ts) = pass_leaves target r ts"
  "pass_leaves target r (Some t # ts) = (if tree_in_pass target r t then map (Pair t) (open_leaves r t) else []) @ pass_leaves target r ts"
  by (simp_all add: pass_leaves_def)

lemma pass_leaves_places:
  "trees_at n ts \<Longrightarrow> distinct (map leaf_place (pass_leaves target r ts)) \<and> (\<forall>p \<in> set (map leaf_place (pass_leaves target r ts)). n \<le> fst p)"
proof (induction ts arbitrary: n)
  case (Cons t ts)
  show ?case
  proof (cases t)
    case None
    then show ?thesis using Cons.IH [of "Suc n"] Cons.prems by (auto intro: Suc_leD)
  next
    case (Some u)
    have u: "unat (t_id u) = n" "trees_at (Suc n) ts" using Cons.prems by (simp_all add: Some)
    have own: "distinct (map leaf_place (map (Pair u) (open_leaves r u)))"
      using node_places_distinct [of u] by (auto simp: open_leaves_def distinct_map inj_on_def leaf_place_def)
    have first: "\<forall>p \<in> set (map leaf_place (map (Pair u) (open_leaves r u))). fst p = n" by (auto simp: leaf_place_def u(1))
    note IH = Cons.IH [OF u(2)]
    have apart: "set (map leaf_place (map (Pair u) (open_leaves r u))) \<inter> set (map leaf_place (pass_leaves target r ts)) = {}"
    proof (rule disjoint_iff [THEN iffD2], intro allI impI notI)
      fix p
      assume "p \<in> set (map leaf_place (map (Pair u) (open_leaves r u)))" and "p \<in> set (map leaf_place (pass_leaves target r ts))"
      then have "fst p = n" "Suc n \<le> fst p" using first IH by blast+
      then show False by linarith
    qed
    show ?thesis
    proof (cases "tree_in_pass target r u")
      case True
      then have split: "map leaf_place (pass_leaves target r (t # ts)) =
          map leaf_place (map (Pair u) (open_leaves r u)) @ map leaf_place (pass_leaves target r ts)" by (simp add: Some)
      let ?a = "map leaf_place (map (Pair u) (open_leaves r u))" and ?b = "map leaf_place (pass_leaves target r ts)"
      have "distinct (?a @ ?b)" unfolding distinct_append using own IH apart by blast
      moreover have "\<forall>p \<in> set ?b. n \<le> fst p" using IH by (blast intro: Suc_leD)
      moreover have "\<forall>p \<in> set ?a. n \<le> fst p" using first by (blast intro: eq_refl [OF sym])
      ultimately show ?thesis unfolding split set_append by blast
    next
      case False
      then show ?thesis using IH by (auto simp: Some intro: Suc_leD)
    qed
  qed
qed simp

lemma pass_leaves_in:
  "trees_at n ts \<Longrightarrow> (t, l, s) \<in> set (pass_leaves target r ts) \<longleftrightarrow>
    (\<exists>i < length ts. ts ! i = Some t \<and> tree_in_pass target r t \<and> (l, s) \<in> set (node_places t) \<and> leaf_to_collapse (tr_chunk_refs r) t (l, s))"
proof (induction ts arbitrary: n)
  case (Cons t' ts)
  have "trees_at (Suc n) ts" using Cons.prems by (cases t') simp_all
  note IH = Cons.IH [OF this]
  show ?case by (cases t') (auto simp: IH Ex_less_Suc2 open_leaves_def)
qed simp

section \<open>What the workers and the results keep of a job\<close>

definition job_facts :: "collapse_job \<Rightarrow> (nat \<times> nat \<times> nat) \<times> u32 \<times> input_data_id \<times> points_collection" where
  "job_facts j = (job_place j, cj_tree_id j, cj_new_id j, cj_collection j)"

lemma run_job_facts [simp]: "job_facts (run_job rd store j) = job_facts j \<and> cj_applied (run_job rd store j) = cj_applied j"
  by (simp add: run_job_def job_facts_def job_place_def Let_def split: option.splits prod.splits)

lemma apply_job_facts: "apply_job j f = (j', f') \<Longrightarrow> job_facts j' = job_facts j"
  by (auto simp: apply_job_def job_facts_def job_place_def Let_def split: if_splits option.splits prod.splits)

lemma apply_jobs_facts: "apply_jobs js f = (js', f') \<Longrightarrow> map job_facts js' = map job_facts js"
proof (induction js arbitrary: f js' f')
  case (Cons j js)
  obtain j1 f1 where s: "apply_job j f = (j1, f1)" by (cases "apply_job j f")
  obtain js2 f2 where r: "apply_jobs js f1 = (js2, f2)" by (cases "apply_jobs js f1")
  show ?case using Cons.prems Cons.IH [OF r] apply_job_facts [OF s] by (auto simp: s r)
qed simp

lemma own_unit_collapsed:
  assumes "input_data_id_is_collapsed_leaf (cj_new_id j)" and "pc_count c < 2 ^ 32" and "cj_collection j = c"
  shows "leaf_collapsed refs (own_unit j c)"
proof -
  have "unat (pc_count c) < 2 ^ 32" using assms(2) by (simp add: word_less_nat_alt)
  then have "ucast (ucast (pc_count c) :: u32) = pc_count c"
    by (intro word_unat_eq_iff [THEN iffD2]) (simp add: unsigned_ucast_eq unsigned_take_bit_eq take_bit_nat_eq_self)
  then show ?thesis using assms(1,3) by (simp add: leaf_collapsed_def own_unit_def)
qed

section \<open>The pass\<close>

definition started_jobs :: "(collapse_job list \<Rightarrow> collapse_job list) \<Rightarrow> m192 \<Rightarrow> stored_blobs \<Rightarrow> unit_store \<Rightarrow> forest \<Rightarrow> collapse_job list" where
  "started_jobs arrange target rd store f = map (run_job rd store) (fst (collapse_for_pass arrange target f))"

lemma started_jobs_facts:
  assumes "\<And>js. mset (arrange js) = mset js"
  shows "mset (map job_facts (started_jobs arrange target rd store f)) =
      mset (map job_facts (number_jobs (tr_current_collapsed_node_id (fo_registry f)) (pass_leaves target (fo_registry f) (fo_trees f))))"
    and "\<forall>j \<in> set (started_jobs arrange target rd store f). \<not> cj_applied j"
proof -
  let ?js = "number_jobs (tr_current_collapsed_node_id (fo_registry f)) (pass_leaves target (fo_registry f) (fo_trees f))"
  have "map job_facts (started_jobs arrange target rd store f) = map job_facts (arrange ?js)"
    by (simp add: started_jobs_def collapse_for_pass_eq comp_def)
  then show "mset (map job_facts (started_jobs arrange target rd store f)) = mset (map job_facts ?js)" by (simp add: assms)
  have "set (arrange ?js) = set ?js" using assms by (rule mset_eq_setD)
  then show "\<forall>j \<in> set (started_jobs arrange target rd store f). \<not> cj_applied j"
    by (auto simp: started_jobs_def collapse_for_pass_eq dest!: number_jobs_origin) (simp add: new_job_def)
qed

lemma job_origin:
  assumes "mset (map job_facts js) = mset (map job_facts (number_jobs w xs))" and "j \<in> set js"
  shows "\<exists>t l s k. (t, l, s) \<in> set xs \<and> k < length xs \<and> job_facts j = (leaf_place (t, l, s), t_id t, unit_no (w + word_of_nat k), data_at t l s)"
proof -
  have "set (map job_facts js) = set (map job_facts (number_jobs w xs))" using assms(1) by (rule mset_eq_setD)
  then have "job_facts j \<in> job_facts ` set (number_jobs w xs)" using assms(2) by auto
  then obtain n where n: "n \<in> set (number_jobs w xs)" "job_facts j = job_facts n" by auto
  obtain t l s k where "(t, l, s) \<in> set xs" "k < length xs" "n = new_job t l s (unit_no (w + word_of_nat k))"
    using number_jobs_origin [OF n(1)] by blast
  then show ?thesis using n(2) by (intro exI [of _ t] exI [of _ l] exI [of _ s] exI [of _ k]) (simp add: job_facts_def job_place_def leaf_place_def new_job_def)
qed

lemma job_places:
  assumes "mset (map job_facts js) = mset (map job_facts (number_jobs w xs))"
  shows "mset (map job_place js) = mset (map leaf_place xs)"
proof -
  have "mset (map fst (map job_facts js)) = mset (map fst (map job_facts (number_jobs w xs)))"
    unfolding mset_map [of fst] assms ..
  then show ?thesis using number_jobs_places [of w xs] by (simp add: comp_def job_facts_def)
qed

section \<open>The pass\<close>

lemma trees_atD:
  assumes "trees_at n ts" and "i < length ts" and "ts ! i = Some t"
  shows "unat (t_id t) = n + i \<and> places_ok t \<and> (\<forall>l s. (l, s) \<in> set (node_places t) \<longrightarrow> pc_count (data_at t l s) < 2 ^ 32)"
proof -
  have "unat (t_id t) = n + i" "places_ok t" "list_all (\<lambda>l. list_all (\<lambda>c. pc_count c < 2 ^ 32) (lv_data l)) (t_levels t)"
    using assms by (auto simp: trees_at_def list_all_length nth_enumerate_eq)
  then show ?thesis using small_leaf by blast
qed

lemma done_job:
  assumes trees: "trees_at 0 ts" and js: "mset (map job_facts js) = mset (map job_facts (number_jobs w (pass_leaves target r ts)))"
    and ids: "2 ^ 62 \<le> unat w" "unat w + length (pass_leaves target r ts) \<le> 2 ^ 63"
    and j: "j \<in> set js" "job_place j = (i, l, s)" and t: "ts ! i = Some t"
  shows "tree_in_pass target r t \<and> (l, s) \<in> set (node_places t) \<and> leaf_to_collapse (tr_chunk_refs r) t (l, s) \<and>
    cj_collection j = data_at t l s \<and> cj_tree_id j = t_id t \<and> input_data_id_is_collapsed_leaf (cj_new_id j)"
proof -
  obtain u l' s' k where u: "(u, l', s') \<in> set (pass_leaves target r ts)" "k < length (pass_leaves target r ts)"
      "job_facts j = (leaf_place (u, l', s'), t_id u, unit_no (w + word_of_nat k), data_at u l' s')"
    using job_origin [OF js j(1)] by blast
  obtain i' where i': "i' < length ts" "ts ! i' = Some u" "tree_in_pass target r u" "(l', s') \<in> set (node_places u)" "leaf_to_collapse (tr_chunk_refs r) u (l', s')"
    using u(1) unfolding pass_leaves_in [OF trees] by blast
  have "unat (t_id u) = i'" using trees_atD [OF trees i'(1,2)] by simp
  then have same: "i' = i" "l' = l" "s' = s" using u(3) j(2) by (simp_all add: job_facts_def leaf_place_def)
  then have "u = t" using i'(2) t by simp
  have "unat (word_of_nat k :: u64) = k" using u(2) ids by (simp add: unat_of_nat)
  then have "unat (w + word_of_nat k) = unat w + k" using u(2) ids by (subst unat_plus_simple [THEN iffD1]) (simp_all add: word_le_nat_alt unat_word_ariths)
  then have "input_data_id_is_collapsed_leaf (unit_no (w + word_of_nat k))" using u(2) ids by (intro unit_no_collapsed) simp_all
  then show ?thesis using u(3) i' same \<open>u = t\<close> by (simp add: job_facts_def)
qed

lemma open_job:
  assumes trees: "trees_at 0 ts" and js: "mset (map job_facts js) = mset (map job_facts (number_jobs w (pass_leaves target r ts)))"
    and t: "i < length ts" "ts ! i = Some t" and p: "tree_in_pass target r t" "(l, s) \<in> set (node_places t)" "leaf_to_collapse (tr_chunk_refs r) t (l, s)"
  shows "\<exists>j \<in> set js. job_place j = (i, l, s)"
proof -
  have "(t, l, s) \<in> set (pass_leaves target r ts)" unfolding pass_leaves_in [OF trees] using t p by blast
  then have "leaf_place (t, l, s) \<in> leaf_place ` set (pass_leaves target r ts)" by (rule imageI)
  also have "\<dots> = job_place ` set js" using mset_eq_setD [OF job_places [OF js]] by simp
  finally have "(i, l, s) \<in> job_place ` set js" using trees_atD [OF trees t] by (simp add: leaf_place_def)
  then show ?thesis by auto
qed

text \<open>What the results do to one leaf of a tree.\<close>

lemma leaf_effect:
  assumes trees: "trees_at 0 ts" and js: "mset (map job_facts js) = mset (map job_facts (number_jobs w (pass_leaves target r ts)))"
    and ids: "2 ^ 62 \<le> unat w" "unat w + length (pass_leaves target r ts) \<le> 2 ^ 63"
    and t: "i < length ts" "ts ! i = Some t" and p: "(l, s) \<in> set (node_places t)"
  defines "c \<equiv> data_at t l s" and "c' \<equiv> leaf_after js (i, l, s) (data_at t l s)"
  shows "c' = c \<and> (\<forall>j \<in> set js. job_place j = (i, l, s) \<longrightarrow> \<not> cj_applied j) \<or>
    leaf_to_collapse (tr_chunk_refs r) t (l, s) \<and> pc_count c' = pc_count c \<and> leaf_collapsed (tr_chunk_refs r) c'"
proof (cases "find (\<lambda>j. cj_applied j \<and> job_place j = (i, l, s)) js")
  case None
  have "c' = c" by (simp only: c_def c'_def leaf_after_def None option.case)
  then show ?thesis using None by (auto simp: find_None_iff)
next
  case (Some j)
  then have j: "j \<in> set js" "job_place j = (i, l, s)" by (auto simp: find_Some_iff)
  note d = done_job [OF trees js ids j t(2)]
  have c': "c' = own_unit j c" by (simp add: c_def c'_def leaf_after_def Some)
  have small: "pc_count c < 2 ^ 32" using trees_atD [OF trees t] p by (simp add: c_def)
  have "leaf_collapsed (tr_chunk_refs r) c'" unfolding c' by (rule own_unit_collapsed) (use d small in \<open>simp_all add: c_def\<close>)
  then show ?thesis using d by (simp add: c' own_unit_def)
qed

definition leaf_kept :: "(input_data_id \<rightharpoonup> chunk_ref) \<Rightarrow> tree_t \<Rightarrow> tree_t \<Rightarrow> nat \<times> nat \<Rightarrow> bool" where
  "leaf_kept refs t t' = (\<lambda>(l, s). pc_count (data_at t' l s) = pc_count (data_at t l s) \<and>
     (data_at t' l s = data_at t l s \<or> leaf_to_collapse refs t (l, s) \<and> leaf_collapsed refs (data_at t' l s)))"

definition all_collapsed :: "(input_data_id \<rightharpoonup> chunk_ref) \<Rightarrow> tree_t \<Rightarrow> bool" where
  "all_collapsed refs t \<longleftrightarrow> list_all (\<lambda>p. \<not> leaf_to_collapse refs t p) (node_places t)"

lemma all_collapsed_by:
  assumes "list_all (leaf_kept refs t t') (node_places t)" and places: "node_places t' = node_places t"
    and nodes: "\<And>l. l < 5 \<Longrightarrow> lv_nodes (t_levels t' ! l) = lv_nodes (t_levels t ! l)"
    and own: "\<And>l s. (l, s) \<in> set (node_places t) \<Longrightarrow> leaf_to_collapse refs t (l, s) \<Longrightarrow> leaf_collapsed refs (data_at t' l s)"
  shows "all_collapsed refs t'"
proof -
  have "\<not> leaf_to_collapse refs t' (l, s)" if p: "(l, s) \<in> set (node_places t)" for l s
  proof (cases "leaf_collapsed refs (data_at t' l s)")
    case True
    then show ?thesis by (simp add: leaf_to_collapse_def)
  next
    case False
    have "leaf_kept refs t t' (l, s)" using assms(1) p unfolding list_all_iff by blast
    then have "data_at t' l s = data_at t l s" using False by (auto simp: leaf_kept_def)
    moreover have "node_at t' l s = node_at t l s" using nodes p by (simp add: node_at_def node_placesD)
    moreover have "\<not> leaf_to_collapse refs t (l, s)" using own [OF p] False by blast
    ultimately show ?thesis by (simp add: leaf_to_collapse_def)
  qed
  then show ?thesis by (auto simp: all_collapsed_def places list_all_iff)
qed


section \<open>An example\<close>

definition scattered_tree :: tree_t where
  "scattered_tree = example_tree\<lparr>t_levels :=
     [\<lparr>lv_nodes = [0], lv_skips = [0], lv_node_ids = [0],
       lv_data = [\<lparr>pc_count = 4, pc_min = M192 1 0 0, pc_max = M192 9 0 0, pc_min_lod = 1, pc_data = split_subsets\<rparr>]\<rparr>,
      empty_level, empty_level, empty_level, empty_level]\<rparr>"

definition example_forest :: forest where
  "example_forest = \<lparr>fo_registry = example_registry\<lparr>tr_state := [tree_state_building]\<rparr>, fo_trees = [Some scattered_tree]\<rparr>"

definition example_store :: unit_store where
  "example_store u = Some (0, [example_location])"


end
