(* ===== verification/Spec2Isabelle.thy ===== *)
theory Spec2Isabelle
  imports MemoryIO MortonWidth Bands BlobFormat TreeRegistry ResidencyFormat OctantExact TreeProperties InputFormat RegionCut LruCache Budget AttributesFormat CollapseSafe
begin

text \<open>
  A verification library for dewfall, a point cloud store: a converter sorts the points of many input
  files along a space-filling (morton) curve, builds an octree of octrees over them, writes the units of
  the tree as blobs into one packed file or an object bucket, and a query or a renderer walks the tree and
  reads the blobs it selects. The theories follow the components of the program; each names the source
  files it translates, and its definitions carry the names of the functions they model.

  \<^bold>\<open>Parts and how they meet.\<close> Codes (\<open>Morton\<close>) are the keys of everything. A unit of points is split
  between the octants of a node (\<open>OctantSplit\<close>), inserted into the trees (\<open>TreeBuild\<close>), whose input storage
  maps (\<open>StorageMap\<close>) hold references to blobs; the blob manager (\<open>BlobManager\<close>) gives the blobs their byte
  ranges in the file, the residency table (\<open>Residency\<close>) knows which of them are still local. Trees, the
  registry of trees, the input registry, the blob manager and the residency table are written to and read
  from the file through one pair of cursors (\<open>MemoryIO\<close>); the index and the manifests (\<open>Manifests\<close>) say
  where they lie. The input registry (\<open>InputRegistry\<close>) decides which input file is read next and up to which
  code the tree is final. A query walks the trees that are loaded (\<open>RegionWalk\<close>).

  \<^bold>\<open>Theories.\<close>
  \<^item> \<open>Prelude\<close>: machine integer types, the error type (\<open>core/error.hpp\<close>), wrap-around on nat, the
    little-endian representation of words as bytes, and lemmas on lists and words the components share.
  \<^item> \<open>MemoryIO\<close> (\<open>core/memory_writer.hpp\<close>): the bounded reads and writes of all formats, with the locale
    of a codec (writing and reading back), interpreted on every element type the formats use.
  \<^item> \<open>Morton\<close>, \<open>MortonCells\<close>, \<open>MortonWidth\<close>, \<open>CodeWidth\<close> (\<open>core/morton.hpp\<close>): codes of one to three words as
    word lists; comparison, masks, addition, encoding, the level of two codes and the cell of a node, and
    the conversions between widths. The loops over words are written as the code has them.
  \<^item> \<open>Preprocess\<close>, \<open>Bands\<close> (\<open>core/compression_preprocess.cpp\<close>, \<open>core/byte_shuffle.cpp\<close>): the reversible
    transformations in front of the entropy coders, each with its inverse.
  \<^item> \<open>BlobManager\<close>, \<open>BlobSections\<close>, \<open>BlobAllocator\<close>, \<open>BlobLedger\<close>, \<open>BlobFormat\<close> (\<open>core/blob_manager.cpp\<close>): the
    free sections per page, registering, unregistering and claiming a range, their meaning as sets of
    allocated bytes, the allocator contract as a locale with the ledger of live blobs, and the stored form.
  \<^item> \<open>Dataset\<close>, \<open>Manifests\<close> (\<open>core/dataset_types.hpp\<close>, \<open>core/index_format.hpp\<close>, \<open>core/bucket_format.cpp\<close>):
    plain data of the formats, the index and the manifests.
  \<^item> \<open>StorageMap\<close> (\<open>core/input_storage_map.hpp/.cpp\<close>): the reference-counted table of a tree.
  \<^item> \<open>TreeFormat\<close>, \<open>TreeRegistry\<close> (\<open>core/tree.hpp\<close>, \<open>core/tree.cpp\<close>): trees and their registry, with the
    four layouts the reader accepts.
  \<^item> \<open>Residency\<close>, \<open>ResidencyLru\<close>, \<open>ResidencyDurable\<close>, \<open>ResidencyFormat\<close> (\<open>core/blob_residency.hpp/.cpp\<close>): the
    slab with its intrusive list, histories of the operations as a step relation, and the stored form.
  \<^item> \<open>OctantSplit\<close>, \<open>OctantExact\<close> (\<open>converter/point_buffer_splitter.hpp\<close>): the carving of a sorted run of
    points into the eight octants of a node.
  \<^item> \<open>TreeBuild\<close> (\<open>converter/tree_build.cpp\<close>): the construction of the trees. \<open>TreeShape\<close>, \<open>TreeInvariant\<close>,
    \<open>TreeDescent\<close>, \<open>TreeInsert\<close>, \<open>TreeCells\<close>, \<open>TreeLinks\<close>, \<open>TreeGrowth\<close> and \<open>TreeProperties\<close> prove it: the
    shape of the arrays, the invariant of the registry, one step down, the recursion, the cells and links
    of new roots, whole builds, and what the calls of the converter promise.
  \<^item> \<open>InputRegistry\<close>, \<open>InputOrder\<close>, \<open>InputWatermark\<close>, \<open>InputFormat\<close>
    (\<open>converter/input_data_source_registry.hpp/.cpp\<close>): the registry of input files, the histories of its
    operations, the done-morton watermark, and the stored form.
  \<^item> \<open>RegionWalk\<close>, \<open>RegionCut\<close> (\<open>access/region_walk.hpp/.cpp\<close>): the descent of a query and the cut of the
    tree it selects.

  \<^bold>\<open>How the code is represented.\<close> A struct is a record, an enum a datatype or the constant of its value, a
  machine integer a word of its width; sizes that the code adds in 32 bits are naturals with the
  wrap-around written out. Pointers between trees are positions in the list of trees; a slot that is not
  loaded is None. Errors are values: the code's error structure on the left of a sum, a refused read is
  None. A method returns the changed state. Calls on one object are a sequence of steps; where a property
  holds for every history, the history is an inductive predicate whose steps carry the conditions under
  which the callers make the calls.

  \<^bold>\<open>Parameters.\<close> What the sources do not contain is an argument: the bytes a storage read delivers, the
  position of a header in the space of the codes, the order in which a hash table is walked, which of
  several least elements a heap returns, the arithmetic on doubles. Properties with an assumption on a
  parameter have a witness with a concrete one.

  \<^bold>\<open>Bounds and fuel.\<close> The trimming loop of the blob manager runs at most once per page and the walk for a
  victim at most once per slot: their fuel is that number. An insertion descends at most five levels per
  tree and one tree per magnitude, so fuel 60 is enough below magnitude 12, which is what \<open>build_returns\<close>
  proves; hanging a tree below a new root has fuel 11 for the same reason. A region walk stops after 40
  levels because the code does. Codes of inputs are below \<open>2 ^ 180\<close>, the bound under which the root of
  magnitude 11 holds them, and serialized sizes are below \<open>2 ^ 32\<close>, the width of the size fields; outside
  these bounds the code wraps around or is undefined.

  \<^bold>\<open>Not modelled.\<close> The entropy coders (framing around third-party libraries), all file, network and event
  loop code (system calls and coroutines over a third-party loop), the readers of input formats, the
  rendering pipeline and its GPU interface (floating-point geometry and callbacks), the bindings, tools and
  examples. The virtual tree and the converter pipeline are orchestration of threads around the
  parts above; the decisions of level-of-detail generation sample points with data-dependent floating
  point and are left out.
\<close>

end
